(* ===== verification/Prelude.thy ===== *)
theory Prelude
  imports Main "HOL-Library.List_Lexorder" "HOL-Library.Product_Lexorder" "HOL-Library.Char_ord"
    "HOL-Library.Multiset"
begin

text \<open>
  Shared vocabulary of the development.  A Go function that returns \<open>(T, error)\<close> is a
  function into the sum type \<open>'e + 'a\<close> (\<open>Inl\<close> is the error), a Go function that returns
  only an \<open>error\<close> is a function into \<open>'e option\<close> (\<open>None\<close> is \<open>nil\<close>).
  The loops of the code that stop at the first failing element are instances of
  \<open>first_err\<close> and \<open>find_first\<close> below; their laws are stated once here.
\<close>

named_theorems res_simps \<open>rewriting of result-valued loops\<close>

type_synonym 'e err = "'e option"

section \<open>Result-valued loops\<close>

text \<open>\<^verbatim>\<open>for _, x := range xs { if err := f(x); err != nil { return err } }; return nil\<close>\<close>

fun first_err :: "('a \<Rightarrow> 'e err) \<Rightarrow> 'a list \<Rightarrow> 'e err" where
  "first_err f [] = None"
| "first_err f (x # xs) = (case f x of Some e \<Rightarrow> Some e | None \<Rightarrow> first_err f xs)"

lemma first_err_None_iff [res_simps]:
  "first_err f xs = None \<longleftrightarrow> (\<forall>x\<in>set xs. f x = None)"
  by (induction xs) (auto split: option.splits)

lemma first_err_SomeD:
  "first_err f xs = Some e \<Longrightarrow> \<exists>ys x zs. xs = ys @ x # zs \<and> f x = Some e \<and> (\<forall>y\<in>set ys. f y = None)"
proof (induction xs)
  case (Cons a xs)
  show ?case
  proof (cases "f a")
    case None
    with Cons obtain ys x zs where "xs = ys @ x # zs" "f x = Some e" "\<forall>y\<in>set ys. f y = None"
      by auto
    with None have "a # xs = (a # ys) @ x # zs \<and> f x = Some e \<and> (\<forall>y\<in>set (a # ys). f y = None)"
      by simp
    then show ?thesis by blast
  next
    case (Some b)
    with Cons.prems have "a # xs = [] @ a # xs \<and> f a = Some e \<and> (\<forall>y\<in>set []. f y = None)"
      by simp
    then show ?thesis by blast
  qed
qed simp

lemma first_err_append [res_simps]:
  "first_err f (xs @ ys) = (case first_err f xs of Some e \<Rightarrow> Some e | None \<Rightarrow> first_err f ys)"
  by (induction xs) (auto split: option.splits)

lemma first_err_cong [fundef_cong]:
  "xs = ys \<Longrightarrow> (\<And>x. x \<in> set ys \<Longrightarrow> f x = g x) \<Longrightarrow> first_err f xs = first_err g ys"
proof (induction ys arbitrary: xs)
  case (Cons y ys)
  have "first_err f ys = first_err g ys"
    using Cons.IH [OF refl] Cons.prems(2) by simp
  with Cons.prems show ?case by (simp split: option.split)
qed simp

lemma Inr_bind_ex [res_simps]:
  "(\<exists>z. (case r of Inl e \<Rightarrow> Inl e | Inr y \<Rightarrow> Inr (f y)) = Inr z) \<longleftrightarrow> (\<exists>y. r = Inr y)"
  by (cases r) auto

text \<open>\<^verbatim>\<open>for _, x := range xs { if p(x) { return x } }; return nil\<close>\<close>

fun find_first :: "('a \<Rightarrow> bool) \<Rightarrow> 'a list \<Rightarrow> 'a option" where
  "find_first p [] = None"
| "find_first p (x # xs) = (if p x then Some x else find_first p xs)"

lemma find_first_None_iff [res_simps]: "find_first p xs = None \<longleftrightarrow> (\<forall>x\<in>set xs. \<not> p x)"
  by (induction xs) auto

lemma find_first_SomeD: "find_first p xs = Some x \<Longrightarrow> x \<in> set xs \<and> p x"
  by (induction xs) (auto split: if_splits)

lemma find_first_Some_ex: "(\<exists>x. find_first p xs = Some x) \<longleftrightarrow> (\<exists>x\<in>set xs. p x)"
  by (induction xs) auto

lemma find_first_cong [fundef_cong]:
  "xs = ys \<Longrightarrow> (\<And>x. x \<in> set ys \<Longrightarrow> p x = q x) \<Longrightarrow> find_first p xs = find_first q ys"
  by (induction ys arbitrary: xs) auto

lemma find_first_filter: "find_first p xs = (case filter p xs of [] \<Rightarrow> None | x # _ \<Rightarrow> Some x)"
  by (induction xs) auto

section \<open>Splitting lists at a separator\<close>

lemma takeWhile_neq_append [simp]:
  "c \<notin> set xs \<Longrightarrow> takeWhile (\<lambda>x. x \<noteq> c) (xs @ c # ys) = xs"
  by (induction xs) auto

lemma takeWhile_neq_id: "c \<notin> set xs \<Longrightarrow> takeWhile (\<lambda>x. x \<noteq> c) xs = xs"
  by (induction xs) auto

lemma split_at_unique:
  assumes "xs @ c # ys = xs' @ c # ys'" and "c \<notin> set xs" and "c \<notin> set xs'"
  shows "xs = xs' \<and> ys = ys'"
proof -
  from assms have "takeWhile (\<lambda>x. x \<noteq> c) (xs @ c # ys) = takeWhile (\<lambda>x. x \<noteq> c) (xs' @ c # ys')"
    by simp
  with assms(2,3) have "xs = xs'" by simp
  with assms(1) show ?thesis by simp
qed

lemma split_at_last_unique:
  assumes "xs @ c # ys = xs' @ c # ys'" and "c \<notin> set ys" and "c \<notin> set ys'"
  shows "xs = xs' \<and> ys = ys'"
proof -
  from assms(1) have "rev ys @ c # rev xs = rev ys' @ c # rev xs'"
    by (metis append.assoc append_Cons append_Nil rev.simps(2) rev_append)
  then have "rev ys = rev ys' \<and> rev xs = rev xs'"
    using assms(2,3) by (intro split_at_unique) auto
  then show ?thesis by simp
qed

lemma split_list_last_ex: "c \<in> set xs \<Longrightarrow> \<exists>ys zs. xs = ys @ c # zs \<and> c \<notin> set zs"
  by (rule split_list_last)

lemma ex_split_Cons:
  assumes "x \<noteq> y"
  shows "(\<exists>r1 r2. x # xs = r1 @ y # r2 \<and> P r1 r2) \<longleftrightarrow> (\<exists>r1 r2. xs = r1 @ y # r2 \<and> P (x # r1) r2)"
proof
  assume "\<exists>r1 r2. x # xs = r1 @ y # r2 \<and> P r1 r2"
  then obtain r1 r2 where *: "x # xs = r1 @ y # r2" "P r1 r2" by blast
  with assms obtain r1' where "r1 = x # r1'" "xs = r1' @ y # r2" by (cases r1) auto
  with * show "\<exists>r1 r2. xs = r1 @ y # r2 \<and> P (x # r1) r2" by blast
next
  assume "\<exists>r1 r2. xs = r1 @ y # r2 \<and> P (x # r1) r2"
  then show "\<exists>r1 r2. x # xs = r1 @ y # r2 \<and> P r1 r2" by (metis append_Cons)
qed

lemma ex_split_Cons_eq:
  assumes "\<And>r1 r2. P r1 r2 \<Longrightarrow> y \<notin> set r1"
  shows "(\<exists>r1 r2. y # xs = r1 @ y # r2 \<and> P r1 r2) \<longleftrightarrow> P [] xs"
proof
  assume "\<exists>r1 r2. y # xs = r1 @ y # r2 \<and> P r1 r2"
  then obtain r1 r2 where *: "y # xs = r1 @ y # r2" "P r1 r2" by blast
  with assms [OF *(2)] have "r1 = []" by (cases r1) auto
  with * show "P [] xs" by simp
qed auto

lemma concat_map_unique:
  assumes "length xs = length ys" and "concat (map f xs) @ r = concat (map f ys) @ r'"
    and "\<And>x y r r'. x \<in> set xs \<Longrightarrow> y \<in> set ys \<Longrightarrow> f x @ r = f y @ r' \<Longrightarrow> g x = g y \<and> r = r'"
  shows "map g xs = map g ys \<and> r = r'"
  using assms
proof (induction xs ys rule: list_induct2)
  case (Cons x xs y ys)
  from Cons.prems(1) have "f x @ (concat (map f xs) @ r) = f y @ (concat (map f ys) @ r')" by simp
  from Cons.prems(2) [OF _ _ this]
  have xy: "g x = g y" and rest: "concat (map f xs) @ r = concat (map f ys) @ r'" by simp_all
  have "map g xs = map g ys \<and> r = r'"
    by (rule Cons.IH [OF rest]) (rule Cons.prems(2), simp_all)
  with xy show ?case by simp
qed simp

end
