(* ===== verification/GoStrings.thy ===== *)
theory GoStrings
  imports Prelude
begin

text \<open>
  The part of Go's string semantics the repository relies on.  A Go string is a sequence of
  bytes, here \<open>string\<close> (a list of 8-bit characters); \<open>range\<close> over a string decodes it as
  UTF-8, one rune per step, an ill-formed byte giving \<open>U+FFFD\<close> and a width of one.
  \<open>IndexByte\<close>, \<open>LastIndexByte\<close>, \<open>Cut\<close>, \<open>HasPrefix\<close> and \<open>HasSuffix\<close> are those of package
  \<open>strings\<close>, \<open>IsControl\<close> the one of package \<open>unicode\<close> (category Cc).  The order of strings is the
  bytewise lexicographic one of \<open>HOL-Library.List_Lexorder\<close> and \<open>HOL-Library.Char_ord\<close>.
\<close>

section \<open>Searching for bytes\<close>

definition IndexByte :: "string \<Rightarrow> char \<Rightarrow> int" where
  "IndexByte s c = (if c \<in> set s then int (length (takeWhile (\<lambda>x. x \<noteq> c) s)) else -1)"

definition LastIndexByte :: "string \<Rightarrow> char \<Rightarrow> int" where
  "LastIndexByte s c =
     (if c \<in> set s then int (length s) - 1 - int (length (takeWhile (\<lambda>x. x \<noteq> c) (rev s))) else -1)"

text \<open>\<^verbatim>\<open>strings.Cut(s, sep)\<close> for a one-byte separator: before, after, found.\<close>

definition Cut :: "string \<Rightarrow> char \<Rightarrow> string \<times> string \<times> bool" where
  "Cut s c =
     (if c \<in> set s
      then (takeWhile (\<lambda>x. x \<noteq> c) s, tl (dropWhile (\<lambda>x. x \<noteq> c) s), True)
      else (s, '''', False))"

definition HasPrefix :: "string \<Rightarrow> string \<Rightarrow> bool" where
  "HasPrefix s p \<longleftrightarrow> length p \<le> length s \<and> take (length p) s = p"

definition HasSuffix :: "string \<Rightarrow> string \<Rightarrow> bool" where
  "HasSuffix s p \<longleftrightarrow> length p \<le> length s \<and> drop (length s - length p) s = p"

lemma IndexByte_absent [simp]: "c \<notin> set s \<Longrightarrow> IndexByte s c = -1"
  by (simp add: IndexByte_def)

lemma IndexByte_append [simp]: "c \<notin> set xs \<Longrightarrow> IndexByte (xs @ c # ys) c = int (length xs)"
  by (simp add: IndexByte_def)

lemma LastIndexByte_absent [simp]: "c \<notin> set s \<Longrightarrow> LastIndexByte s c = -1"
  by (simp add: LastIndexByte_def)

lemma LastIndexByte_append [simp]:
  assumes "c \<notin> set ys"
  shows "LastIndexByte (xs @ c # ys) c = int (length xs)"
proof -
  have "rev (xs @ c # ys) = rev ys @ c # rev xs" by simp
  moreover have "takeWhile (\<lambda>x. x \<noteq> c) (rev ys @ c # rev xs) = rev ys"
    using assms by (intro takeWhile_neq_append) simp
  ultimately show ?thesis by (simp add: LastIndexByte_def)
qed

lemma Cut_absent [simp]: "c \<notin> set s \<Longrightarrow> Cut s c = (s, '''', False)"
  by (simp add: Cut_def)

lemma Cut_append [simp]:
  assumes "c \<notin> set xs"
  shows "Cut (xs @ c # ys) c = (xs, ys, True)"
proof -
  have "dropWhile (\<lambda>x. x \<noteq> c) (xs @ c # ys) = c # ys"
    using assms by (induction xs) auto
  with assms show ?thesis by (simp add: Cut_def)
qed

lemma HasPrefix_iff: "HasPrefix s p \<longleftrightarrow> (\<exists>t. s = p @ t)"
  by (auto simp: HasPrefix_def) (metis append_take_drop_id)

lemma HasSuffix_iff: "HasSuffix s p \<longleftrightarrow> (\<exists>t. s = t @ p)"
  by (auto simp: HasSuffix_def) (metis append_take_drop_id)

section \<open>UTF-8 decoding\<close>

type_synonym rune = nat

abbreviation byte_of :: "char \<Rightarrow> nat" where
  "byte_of \<equiv> of_char"

abbreviation RuneError :: rune where
  "RuneError \<equiv> 65533"

definition continuation :: "nat \<Rightarrow> bool" where
  "continuation b \<longleftrightarrow> 128 \<le> b \<and> b \<le> 191"

definition decode2 :: "nat \<Rightarrow> string \<Rightarrow> rune \<times> nat" where
  "decode2 b0 cs =
     (case cs of
        c1 # _ \<Rightarrow>
          if continuation (byte_of c1)
          then ((b0 - 192) * 64 + (byte_of c1 - 128), 2) else (RuneError, 1)
      | [] \<Rightarrow> (RuneError, 1))"

definition decode3 :: "nat \<Rightarrow> string \<Rightarrow> rune \<times> nat" where
  "decode3 b0 cs =
     (case cs of
        c1 # c2 # _ \<Rightarrow>
          if (if b0 = 224 then 160 else 128) \<le> byte_of c1
             \<and> byte_of c1 \<le> (if b0 = 237 then 159 else 191)
             \<and> continuation (byte_of c2)
          then ((b0 - 224) * 4096 + (byte_of c1 - 128) * 64 + (byte_of c2 - 128), 3)
          else (RuneError, 1)
      | _ \<Rightarrow> (RuneError, 1))"

definition decode4 :: "nat \<Rightarrow> string \<Rightarrow> rune \<times> nat" where
  "decode4 b0 cs =
     (case cs of
        c1 # c2 # c3 # _ \<Rightarrow>
          if (if b0 = 240 then 144 else 128) \<le> byte_of c1
             \<and> byte_of c1 \<le> (if b0 = 244 then 143 else 191)
             \<and> continuation (byte_of c2) \<and> continuation (byte_of c3)
          then ((b0 - 240) * 262144 + (byte_of c1 - 128) * 4096
                + (byte_of c2 - 128) * 64 + (byte_of c3 - 128), 4)
          else (RuneError, 1)
      | _ \<Rightarrow> (RuneError, 1))"

text \<open>\<open>utf8.DecodeRuneInString\<close>: the rune at the head of a non-empty string and its width.\<close>

fun decode_rune :: "string \<Rightarrow> rune \<times> nat" where
  "decode_rune [] = (RuneError, 0)"
| "decode_rune (c # cs) =
     (let b0 = byte_of c in
      if b0 < 128 then (b0, 1)
      else if 194 \<le> b0 \<and> b0 \<le> 223 then decode2 b0 cs
      else if 224 \<le> b0 \<and> b0 \<le> 239 then decode3 b0 cs
      else if 240 \<le> b0 \<and> b0 \<le> 244 then decode4 b0 cs
      else (RuneError, 1))"

lemma decode_width:
  "0 < snd (decode2 b cs)" "snd (decode2 b cs) \<le> Suc (length cs)"
  "0 < snd (decode3 b cs)" "snd (decode3 b cs) \<le> Suc (length cs)"
  "0 < snd (decode4 b cs)" "snd (decode4 b cs) \<le> Suc (length cs)"
  by (simp_all add: decode2_def decode3_def decode4_def split: list.split)

lemma decode_rune_width_pos: "s \<noteq> [] \<Longrightarrow> 0 < snd (decode_rune s)"
  by (cases s) (simp_all add: Let_def decode_width)

lemma decode_rune_width_le: "snd (decode_rune s) \<le> length s"
  by (cases s) (simp_all add: Let_def decode_width)

text \<open>The (byte index, rune) pairs a \<open>range\<close> loop over the string visits.\<close>

function range_from :: "nat \<Rightarrow> string \<Rightarrow> (nat \<times> rune) list" where
  "range_from i s =
     (if s = [] then []
      else (i, fst (decode_rune s)) # range_from (i + snd (decode_rune s)) (drop (snd (decode_rune s)) s))"
  by pat_completeness auto
termination
  by (relation "measure (\<lambda>(i, s). length s)") (auto simp: decode_rune_width_pos)

declare range_from.simps [simp del]

abbreviation range_string :: "string \<Rightarrow> (nat \<times> rune) list" where
  "range_string \<equiv> range_from 0"

definition runes :: "string \<Rightarrow> rune list" where
  "runes s = map snd (range_string s)"

definition IsControl :: "rune \<Rightarrow> bool" where
  "IsControl r \<longleftrightarrow> r \<le> 31 \<or> (127 \<le> r \<and> r \<le> 159)"

text \<open>\<^verbatim>\<open>strings.ContainsFunc(s, unicode.IsControl)\<close>\<close>

definition has_control :: "string \<Rightarrow> bool" where
  "has_control s \<longleftrightarrow> list_ex IsControl (runes s)"

subsection \<open>ASCII bytes are their own runes\<close>

lemma range_from_Nil [simp]: "range_from i [] = []"
  by (simp add: range_from.simps)

lemma range_from_shift: "map snd (range_from i s) = runes s"
proof -
  have "map snd (range_from i s) = map snd (range_from j s)" for j
  proof (induction i s arbitrary: j rule: range_from.induct)
    case (1 i s)
    show ?case
    proof (cases "s = []")
      case False
      with 1 have "map snd (range_from (i + snd (decode_rune s)) (drop (snd (decode_rune s)) s))
          = map snd (range_from (j + snd (decode_rune s)) (drop (snd (decode_rune s)) s))"
        by blast
      with False show ?thesis
        by (simp add: range_from.simps [of i s] range_from.simps [of j s])
    qed simp
  qed
  then show ?thesis by (simp add: runes_def)
qed

lemma runes_Nil [simp]: "runes [] = []"
  by (simp add: runes_def)

lemma runes_unfold:
  "s \<noteq> [] \<Longrightarrow> runes s = fst (decode_rune s) # runes (drop (snd (decode_rune s)) s)"
  by (subst runes_def) (simp add: range_from.simps [of 0 s] range_from_shift)

lemma runes_eq_Nil [simp]: "runes s = [] \<longleftrightarrow> s = []"
  by (cases "s = []") (simp_all add: runes_unfold)

lemma runes_Cons_ascii [simp]: "byte_of c < 128 \<Longrightarrow> runes (c # s) = byte_of c # runes s"
  by (simp add: runes_unfold)

lemma decode_before_ascii:
  assumes "byte_of c < 128"
  shows "decode2 b (t @ c # i) = decode2 b t"
    and "decode3 b (t @ c # i) = decode3 b t"
    and "decode4 b (t @ c # i) = decode4 b t"
proof -
  have nc: "\<not> continuation (byte_of c)" "\<not> 160 \<le> byte_of c" "\<not> 144 \<le> byte_of c" "\<not> 128 \<le> byte_of c"
    using assms by (auto simp: continuation_def)
  show "decode2 b (t @ c # i) = decode2 b t"
    using nc by (cases t) (simp_all add: decode2_def)
  have t: "t = [] \<or> (\<exists>x. t = [x]) \<or> (\<exists>x y. t = [x, y]) \<or> (\<exists>x y z r. t = x # y # z # r)"
    by (metis neq_Nil_conv)
  show "decode3 b (t @ c # i) = decode3 b t"
    using t nc by (elim disjE exE) (simp_all add: decode3_def split: list.split)
  show "decode4 b (t @ c # i) = decode4 b t"
    using t nc by (elim disjE exE) (simp_all add: decode4_def split: list.split)
qed

lemma decode_rune_before_ascii:
  "t \<noteq> [] \<Longrightarrow> byte_of c < 128 \<Longrightarrow> decode_rune (t @ c # i) = decode_rune t"
  by (cases t) (simp_all add: decode_before_ascii Let_def)

lemma runes_append_ascii:
  "byte_of c < 128 \<Longrightarrow> runes (t @ c # i) = runes t @ byte_of c # runes i"
proof (induction "length t" arbitrary: t rule: less_induct)
  case less
  show ?case
  proof (cases "t = []")
    case True
    with less.prems show ?thesis by simp
  next
    case False
    let ?w = "snd (decode_rune t)"
    have w: "0 < ?w" "?w \<le> length t"
      using False by (auto simp: decode_rune_width_pos decode_rune_width_le)
    have dec: "decode_rune (t @ c # i) = decode_rune t"
      using False less.prems by (rule decode_rune_before_ascii)
    have "runes (drop ?w t @ c # i) = runes (drop ?w t) @ byte_of c # runes i"
      using less.prems w False by (intro less.hyps) auto
    then show ?thesis
      using False w dec by (simp add: runes_unfold [of "t @ c # i"] runes_unfold [of t])
  qed
qed

lemma decode_multibyte:
  "194 \<le> b \<Longrightarrow> 128 \<le> fst (decode2 b cs)"
  "224 \<le> b \<Longrightarrow> 128 \<le> fst (decode3 b cs)"
  "240 \<le> b \<Longrightarrow> 128 \<le> fst (decode4 b cs)"
proof -
  show "194 \<le> b \<Longrightarrow> 128 \<le> fst (decode2 b cs)"
    by (auto simp: decode2_def split: list.split)
  show "224 \<le> b \<Longrightarrow> 128 \<le> fst (decode3 b cs)"
    by (cases "b = 224") (auto simp: decode3_def split: list.split)
  show "240 \<le> b \<Longrightarrow> 128 \<le> fst (decode4 b cs)"
    by (cases "b = 240") (auto simp: decode4_def split: list.split)
qed

lemma decode_width_bytes:
  "d \<in> set (take (snd (decode2 b cs) - Suc 0) cs) \<Longrightarrow> 128 \<le> byte_of d"
  "d \<in> set (take (snd (decode3 b cs) - Suc 0) cs) \<Longrightarrow> 128 \<le> byte_of d"
  "d \<in> set (take (snd (decode4 b cs) - Suc 0) cs) \<Longrightarrow> 128 \<le> byte_of d"
proof -
  show "d \<in> set (take (snd (decode2 b cs) - Suc 0) cs) \<Longrightarrow> 128 \<le> byte_of d"
    by (auto simp: decode2_def continuation_def split: list.splits if_splits)
  show "d \<in> set (take (snd (decode3 b cs) - Suc 0) cs) \<Longrightarrow> 128 \<le> byte_of d"
    by (auto simp: decode3_def continuation_def numeral_2_eq_2 split: list.splits if_splits)
  show "d \<in> set (take (snd (decode4 b cs) - Suc 0) cs) \<Longrightarrow> 128 \<le> byte_of d"
    by (auto simp: decode4_def continuation_def numeral_3_eq_3 split: list.splits if_splits)
qed

lemma decode_rune_multibyte:
  assumes "128 \<le> byte_of c"
  shows "128 \<le> fst (decode_rune (c # cs))"
    and "d \<in> set (take (snd (decode_rune (c # cs))) (c # cs)) \<Longrightarrow> 128 \<le> byte_of d"
proof -
  show "128 \<le> fst (decode_rune (c # cs))"
    using assms by (simp add: Let_def decode_multibyte)
  show "128 \<le> byte_of d" if "d \<in> set (take (snd (decode_rune (c # cs))) (c # cs))"
  proof -
    have w: "snd (decode_rune (c # cs)) = Suc (snd (decode_rune (c # cs)) - 1)"
      using decode_rune_width_pos [of "c # cs"] by simp
    from that have "d = c \<or> d \<in> set (take (snd (decode_rune (c # cs)) - 1) cs)"
      by (subst (asm) w) auto
    with assms show ?thesis
      by (auto simp: Let_def dest: decode_width_bytes split: if_splits)
  qed
qed

lemma ascii_rune_iff:
  "byte_of c < 128 \<Longrightarrow> byte_of c \<in> set (runes s) \<longleftrightarrow> c \<in> set s"
proof (induction "length s" arbitrary: s rule: less_induct)
  case less
  show ?case
  proof (cases s)
    case Nil
    then show ?thesis by simp
  next
    case (Cons d ds)
    let ?w = "snd (decode_rune s)"
    have w: "0 < ?w" using Cons by (intro decode_rune_width_pos) simp
    have rs: "runes s = fst (decode_rune s) # runes (drop ?w s)"
      using Cons by (intro runes_unfold) simp
    have IH: "byte_of c \<in> set (runes (drop ?w s)) \<longleftrightarrow> c \<in> set (drop ?w s)"
      using w Cons less.prems by (intro less.hyps) auto
    have parts: "set s = set (take ?w s) \<union> set (drop ?w s)"
      by (metis append_take_drop_id set_append)
    show ?thesis
    proof (cases "byte_of d < 128")
      case True
      with Cons less.hyps [of ds] less.prems show ?thesis by auto
    next
      case False
      then have "128 \<le> byte_of d" by simp
      from decode_rune_multibyte(1) [OF this, of ds] decode_rune_multibyte(2) [OF this, of c ds]
        Cons less.prems
      have "byte_of c \<noteq> fst (decode_rune s)" and "c \<notin> set (take ?w s)" by auto
      with rs IH parts show ?thesis by auto
    qed
  qed
qed

lemma has_control_append_ascii:
  "byte_of c < 128 \<Longrightarrow> has_control (t @ c # i) \<longleftrightarrow> has_control t \<or> IsControl (byte_of c) \<or> has_control i"
  by (auto simp: has_control_def runes_append_ascii)

lemma has_control_Nil [simp]: "\<not> has_control []"
  by (simp add: has_control_def)

section \<open>Integers in text (strconv)\<close>

text \<open>
  \<open>strconv.Itoa\<close> and \<open>strconv.Atoi\<close> on 64-bit \<open>int\<close>s: an optional sign and at least one decimal
  digit, with an error (\<open>None\<close>) on any other text and on values out of range.
\<close>

definition digit_char :: "nat \<Rightarrow> char" where
  "digit_char d = char_of (48 + d)"

fun nat_digits :: "nat \<Rightarrow> string" where
  "nat_digits n = (if n < 10 then [digit_char n] else nat_digits (n div 10) @ [digit_char (n mod 10)])"

declare nat_digits.simps [simp del]

definition Itoa :: "int \<Rightarrow> string" where
  "Itoa n = (if n < 0 then CHR ''-'' # nat_digits (nat (- n)) else nat_digits (nat n))"

definition digit_value :: "char \<Rightarrow> nat option" where
  "digit_value c = (if 48 \<le> byte_of c \<and> byte_of c \<le> 57 then Some (byte_of c - 48) else None)"

fun digits_value :: "nat \<Rightarrow> string \<Rightarrow> nat option" where
  "digits_value acc [] = Some acc"
| "digits_value acc (c # cs) =
     (case digit_value c of None \<Rightarrow> None | Some d \<Rightarrow> digits_value (10 * acc + d) cs)"

definition int64_range :: "int \<Rightarrow> bool" where
  "int64_range n \<longleftrightarrow> - (2 ^ 63) \<le> n \<and> n < 2 ^ 63"

text \<open>Addition on \<open>int\<close> wraps around.\<close>

definition wrap64 :: "int \<Rightarrow> int" where
  "wrap64 n = (n + 2 ^ 63) mod 2 ^ 64 - 2 ^ 63"

lemma wrap64_id [simp]: "int64_range n \<Longrightarrow> wrap64 n = n"
  by (simp add: int64_range_def wrap64_def)

definition Atoi :: "string \<Rightarrow> int option" where
  "Atoi s =
     (let (neg, ds) =
        (case s of c # cs \<Rightarrow> if c = CHR ''-'' then (True, cs) else if c = CHR ''+'' then (False, cs) else (False, s)
         | [] \<Rightarrow> (False, s)) in
      if ds = [] then None
      else case digits_value 0 ds of
        None \<Rightarrow> None
      | Some n \<Rightarrow>
          let v = (if neg then - int n else int n) in
          if int64_range v then Some v else None)"

lemma byte_of_digit_char: "d < 10 \<Longrightarrow> byte_of (digit_char d) = 48 + d"
  by (simp add: digit_char_def)

lemma digit_value_digit_char: "d < 10 \<Longrightarrow> digit_value (digit_char d) = Some d"
  by (simp add: digit_value_def byte_of_digit_char)

lemma digits_value_append:
  "digits_value acc (xs @ ys) = (case digits_value acc xs of None \<Rightarrow> None | Some v \<Rightarrow> digits_value v ys)"
  by (induction acc xs rule: digits_value.induct) (auto split: option.split)

lemma digits_value_nat_digits: "digits_value 0 (nat_digits n) = Some n"
proof (induction n rule: nat_digits.induct)
  case (1 n)
  then show ?case
    by (subst nat_digits.simps) (simp add: digits_value_append digit_value_digit_char)
qed

lemma nat_digits_head:
  "\<exists>d ds. nat_digits n = digit_char d # ds \<and> d < 10"
proof (induction n rule: nat_digits.induct)
  case (1 n)
  then show ?case by (subst nat_digits.simps) fastforce
qed

lemma digit_char_not_sign: "d < 10 \<Longrightarrow> digit_char d \<noteq> CHR ''-'' \<and> digit_char d \<noteq> CHR ''+''"
  using byte_of_digit_char [of d] by auto

lemma Atoi_Itoa [simp]:
  assumes "int64_range n"
  shows "Atoi (Itoa n) = Some n"
proof -
  obtain d ds where ds: "nat_digits (nat n) = digit_char d # ds" "d < 10" using nat_digits_head by blast
  obtain e es where es: "nat_digits (nat (- n)) = digit_char e # es" using nat_digits_head by blast
  show ?thesis
    using assms ds es digit_char_not_sign [of d] digits_value_nat_digits [of "nat n"]
      digits_value_nat_digits [of "nat (- n)"]
    by (auto simp: Atoi_def Itoa_def)
qed

lemma Itoa_not_Nil [simp]: "Itoa n \<noteq> ''''"
  using nat_digits_head [of "nat n"] by (auto simp: Itoa_def)

end
