(* ===== verification/Messages.thy ===== *)
theory Messages
  imports GoStrings "HOL-Library.Word"
begin

text \<open>
  The message types the code passes around: relationship tuples, condition contexts, usersets and
  authorization models.  They are plain data (protobuf messages); a pointer the code tests against
  \<open>nil\<close> is an \<open>option\<close>, a \<open>oneof\<close> is a datatype with one constructor per case.  Getters on a
  \<open>nil\<close> message return the zero value, which the \<open>get_\<close> functions below write out.
\<close>

section \<open>Condition contexts\<close>

text \<open>
  \<open>structpb.Value\<close>.  Numbers are kept as their IEEE bit pattern, the only thing the code reads of
  them; a \<open>nil\<close> value and a value whose kind is unset are the same constructor because every
  function of the code treats them alike.  The fields of a struct are a Go map: an association list
  with distinct keys, whose order is the (arbitrary) iteration order.
\<close>

datatype pbvalue =
    VUnset
  | VNull
  | VBool bool
  | VNumber "64 word"
  | VString string
  | VList "pbvalue list"
  | VStruct "(string \<times> pbvalue) list"

type_synonym pbstruct = "(string \<times> pbvalue) list"

section \<open>Relationship tuples\<close>

record rel_condition =
  rc_name :: string
  rc_context :: "pbstruct option"

record plain_key =
  tk_object :: string
  tk_relation :: string
  tk_user :: string

record tuple_key = plain_key +
  tk_condition :: "rel_condition option"

definition get_condition_name :: "rel_condition option \<Rightarrow> string" where
  "get_condition_name c = (case c of None \<Rightarrow> '''' | Some r \<Rightarrow> rc_name r)"

definition get_condition_context :: "rel_condition option \<Rightarrow> pbstruct option" where
  "get_condition_context c = (case c of None \<Rightarrow> None | Some r \<Rightarrow> rc_context r)"

text \<open>\<open>openfgav1.User\<close>: the \<open>oneof\<close> of an object, a userset and a typed wildcard, or unset.\<close>

datatype user_proto =
    User_Object string string
  | User_Userset string string string
  | User_Wildcard string
  | User_Unset

text \<open>\<open>openfgav1.ObjectRelation\<close>\<close>

record object_relation =
  or_object :: string
  or_relation :: string

section \<open>Authorization models\<close>

text \<open>
  \<open>openfgav1.RelationReference\<close>: a type restriction such as \<open>user\<close>, \<open>user:*\<close> or
  \<open>group#member\<close>, with an optional condition name (the empty string for none).
\<close>

datatype relation_or_wildcard = RRelation string | RWildcard

record relation_reference =
  rr_type :: string
  rr_relation_or_wildcard :: "relation_or_wildcard option"
  rr_condition :: string

definition rr_relation :: "relation_reference \<Rightarrow> string" where
  "rr_relation rr = (case rr_relation_or_wildcard rr of Some (RRelation r) \<Rightarrow> r | _ \<Rightarrow> '''')"

definition rr_is_wildcard :: "relation_reference \<Rightarrow> bool" where
  "rr_is_wildcard rr \<longleftrightarrow> rr_relation_or_wildcard rr = Some RWildcard"

text \<open>\<open>openfgav1.Userset\<close>: the rewrite of a relation; \<open>Userset_Nil\<close> is an unset \<open>oneof\<close>.\<close>

datatype userset =
    This
  | ComputedUserset string
  | TupleToUserset string string
  | Union "userset list"
  | Intersection "userset list"
  | Difference userset userset
  | Userset_Nil

text \<open>
  \<open>openfgav1.TypeDefinition\<close>: relation names with their rewrites, and per relation the directly
  related user types of the metadata.  Both are Go maps.
\<close>

record type_definition =
  td_type :: string
  td_relations :: "(string \<times> userset) list"
  td_metadata :: "string \<rightharpoonup> relation_reference list"

text \<open>\<open>openfgav1.Condition\<close> with its parameter types; the parameters are a Go map.\<close>

datatype param_type_name =
    TYPE_NAME_UNSPECIFIED | TYPE_NAME_ANY | TYPE_NAME_BOOL | TYPE_NAME_STRING | TYPE_NAME_INT | TYPE_NAME_UINT
  | TYPE_NAME_DOUBLE | TYPE_NAME_DURATION | TYPE_NAME_TIMESTAMP | TYPE_NAME_MAP | TYPE_NAME_LIST | TYPE_NAME_IPADDRESS

datatype param_type_ref = ParamTypeRef (ptr_name: param_type_name) (ptr_generics: "param_type_ref list")

record condition_def =
  cond_name :: string
  cond_expression :: string
  cond_parameters :: "(string \<times> param_type_ref) list"

record authorization_model =
  am_id :: string
  am_schema_version :: string
  am_type_definitions :: "type_definition list"
  am_conditions :: "(string \<times> condition_def) list"

lemma get_condition_simps [simp]:
  "get_condition_name None = ''''" "get_condition_name (Some r) = rc_name r"
  "get_condition_context None = None" "get_condition_context (Some r) = rc_context r"
  by (simp_all add: get_condition_name_def get_condition_context_def)

end
