(* ===== verification/Tuple.thy ===== *)
theory Tuple
  imports Messages
begin

text \<open>
  The package \<open>pkg/tuple\<close>: the textual forms of objects, usersets, users and tuples, their
  validators, and the conversions between them (\<open>src/pkg/tuple/tuple.go\<close>).  The validators are
  state machines over the runes of the string, written as the loops of the source; the lemmas
  characterise each of them by the shape of the string it accepts, and the parsers and printers
  are shown to be inverse to each other.
\<close>

section \<open>Constructing and converting tuples\<close>

definition Wildcard :: string where
  "Wildcard = ''*''"

definition String_of_Tuple :: "'a plain_key_scheme \<Rightarrow> string" where
  "String_of_Tuple t = tk_object t @ ''#'' @ tk_relation t @ ''@'' @ tk_user t"

definition ConvertCheckRequestTupleKeyToTupleKey :: "plain_key \<Rightarrow> tuple_key" where
  "ConvertCheckRequestTupleKeyToTupleKey tk =
     \<lparr>tk_object = tk_object tk, tk_relation = tk_relation tk, tk_user = tk_user tk, tk_condition = None\<rparr>"

definition ConvertAssertionTupleKeyToTupleKey :: "plain_key \<Rightarrow> tuple_key" where
  "ConvertAssertionTupleKeyToTupleKey tk =
     \<lparr>tk_object = tk_object tk, tk_relation = tk_relation tk, tk_user = tk_user tk, tk_condition = None\<rparr>"

definition ConvertReadRequestTupleKeyToTupleKey :: "plain_key \<Rightarrow> tuple_key" where
  "ConvertReadRequestTupleKeyToTupleKey tk =
     \<lparr>tk_object = tk_object tk, tk_relation = tk_relation tk, tk_user = tk_user tk, tk_condition = None\<rparr>"

definition TupleKeyToTupleKeyWithoutCondition :: "tuple_key \<Rightarrow> plain_key" where
  "TupleKeyToTupleKeyWithoutCondition tk =
     \<lparr>tk_object = tk_object tk, tk_relation = tk_relation tk, tk_user = tk_user tk\<rparr>"

definition TupleKeyWithoutConditionToTupleKey :: "plain_key \<Rightarrow> tuple_key" where
  "TupleKeyWithoutConditionToTupleKey tk =
     \<lparr>tk_object = tk_object tk, tk_relation = tk_relation tk, tk_user = tk_user tk, tk_condition = None\<rparr>"

fun TupleKeysWithoutConditionToTupleKeys :: "plain_key list \<Rightarrow> tuple_key list" where
  "TupleKeysWithoutConditionToTupleKeys [] = []"
| "TupleKeysWithoutConditionToTupleKeys (tk # tks) =
     TupleKeyWithoutConditionToTupleKey tk # TupleKeysWithoutConditionToTupleKeys tks"

definition NewTupleKey :: "string \<Rightarrow> string \<Rightarrow> string \<Rightarrow> tuple_key" where
  "NewTupleKey object relation user =
     \<lparr>tk_object = object, tk_relation = relation, tk_user = user, tk_condition = None\<rparr>"

definition NewRelationshipCondition :: "string \<Rightarrow> pbstruct option \<Rightarrow> rel_condition option" where
  "NewRelationshipCondition name context =
     (if name = '''' then None
      else case context of
        None \<Rightarrow> Some \<lparr>rc_name = name, rc_context = Some []\<rparr>
      | Some c \<Rightarrow> Some \<lparr>rc_name = name, rc_context = Some c\<rparr>)"

definition NewTupleKeyWithCondition ::
    "string \<Rightarrow> string \<Rightarrow> string \<Rightarrow> string \<Rightarrow> pbstruct option \<Rightarrow> tuple_key" where
  "NewTupleKeyWithCondition object relation user conditionName context =
     \<lparr>tk_object = object, tk_relation = relation, tk_user = user,
      tk_condition = NewRelationshipCondition conditionName context\<rparr>"

text \<open>
  \<open>TupleKeys.Less\<close> on the two elements it compares: by object, relation, user and condition name,
  and \<open>true\<close> when all of them agree.
\<close>

definition Less :: "tuple_key \<Rightarrow> tuple_key \<Rightarrow> bool" where
  "Less a b =
     (if tk_object a \<noteq> tk_object b then tk_object a < tk_object b
      else if tk_relation a \<noteq> tk_relation b then tk_relation a < tk_relation b
      else if tk_user a \<noteq> tk_user b then tk_user a < tk_user b
      else if (tk_condition a \<noteq> None \<or> tk_condition b \<noteq> None)
            \<and> get_condition_name (tk_condition a) \<noteq> get_condition_name (tk_condition b)
           then get_condition_name (tk_condition a) < get_condition_name (tk_condition b)
      else True)"

section \<open>Splitting and building objects and usersets\<close>

definition SplitObject :: "string \<Rightarrow> string \<times> string" where
  "SplitObject object =
     (let ndx = IndexByte object CHR '':'' in
      if ndx = -1 then ('''', object)
      else (take (nat ndx) object, drop (nat (ndx + 1)) object))"

definition BuildObject :: "string \<Rightarrow> string \<Rightarrow> string" where
  "BuildObject objectType objectID = objectType @ '':'' @ objectID"

definition GetObjectRelationAsString :: "object_relation \<Rightarrow> string" where
  "GetObjectRelationAsString r =
     (if or_relation r \<noteq> '''' then or_object r @ ''#'' @ or_relation r else or_object r)"

definition SplitObjectRelation :: "string \<Rightarrow> string \<times> string" where
  "SplitObjectRelation s =
     (let i = LastIndexByte s CHR ''#'' in
      if i = -1 then (s, '''')
      else if i = int (length s) - 1 then (take (nat i) s, '''')
      else (take (nat i) s, drop (nat (i + 1)) s))"

definition GetType :: "string \<Rightarrow> string" where
  "GetType objectID = (case SplitObject objectID of (t, _) \<Rightarrow> t)"

definition GetRelation :: "string \<Rightarrow> string" where
  "GetRelation objectRelation = (case SplitObjectRelation objectRelation of (_, relation) \<Rightarrow> relation)"

definition ToObjectRelationString :: "string \<Rightarrow> string \<Rightarrow> string" where
  "ToObjectRelationString object relation = object @ ''#'' @ relation"

definition TupleKeyToString :: "'a plain_key_scheme \<Rightarrow> string" where
  "TupleKeyToString tk = tk_object tk @ ''#'' @ tk_relation tk @ ''@'' @ tk_user tk"

definition TupleKeyWithConditionToString :: "tuple_key \<Rightarrow> string" where
  "TupleKeyWithConditionToString tk =
     tk_object tk @ ''#'' @ tk_relation tk @ ''@'' @ tk_user tk
     @ (case tk_condition tk of None \<Rightarrow> '''' | Some c \<Rightarrow> '' (condition '' @ rc_name c @ '')'')"

definition UserProtoToString :: "user_proto \<Rightarrow> string option" where
  "UserProtoToString obj =
     (case obj of
        User_Wildcard t \<Rightarrow> Some (t @ '':*'')
      | User_Userset t i r \<Rightarrow> Some (t @ '':'' @ i @ ''#'' @ r)
      | User_Object t i \<Rightarrow> Some (t @ '':'' @ i)
      | User_Unset \<Rightarrow> None)"

definition StringToUserProto :: "string \<Rightarrow> user_proto" where
  "StringToUserProto userKey =
     (let (userObj, userRel) = SplitObjectRelation userKey;
          (userObjType, userObjID) = SplitObject userObj in
      if userRel = '''' \<and> userObjID = ''*'' then User_Wildcard userObjType
      else if userRel = '''' then User_Object userObjType userObjID
      else User_Userset userObjType userObjID userRel)"

definition ToUserParts :: "string \<Rightarrow> string \<times> string \<times> string" where
  "ToUserParts user =
     (let (userObject, userRelation) = SplitObjectRelation user;
          (userObjectType, userObjectID) = SplitObject userObject in
      (userObjectType, userObjectID, userRelation))"

definition ToUserPartsFromObjectRelation :: "object_relation \<Rightarrow> string \<times> string \<times> string" where
  "ToUserPartsFromObjectRelation u =
     (let (userObjectType, userObjectID) = SplitObject (or_object u) in
      (userObjectType, userObjectID, or_relation u))"

text \<open>The buffer of \<open>FromUserParts\<close> holds \<open>size\<close> bytes, of which the first \<open>w\<close> are returned.\<close>

definition FromUserParts :: "string \<Rightarrow> string \<Rightarrow> string \<Rightarrow> string" where
  "FromUserParts userObjectType userObjectID userRelation =
     (let size = length userObjectType + length userObjectID + length userRelation + 2;
          buf = userObjectType;
          buf = (if length buf > 0 \<and> size > length buf then buf @ '':'' else buf);
          buf = buf @ userObjectID in
      if length userRelation > 0 then buf @ ''#'' @ userRelation else buf)"

definition IsSelfDefining :: "'a plain_key_scheme \<Rightarrow> bool" where
  "IsSelfDefining t =
     (let (userObject, userRelation) = SplitObjectRelation (tk_user t) in
      tk_relation t = userRelation \<and> tk_object t = userObject)"

definition UsersetMatchTypeAndRelation :: "string \<Rightarrow> string \<Rightarrow> string \<Rightarrow> bool" where
  "UsersetMatchTypeAndRelation userset relation typee =
     (let (userObjectType, _, userRelation) = ToUserParts userset in
      relation = userRelation \<and> typee = userObjectType)"

section \<open>Validators\<close>

text \<open>
  The four validators range over the runes of the string.  The accumulators are those of the source:
  \<open>state\<close> counts the separators seen, \<open>idLen\<close>, \<open>relLen\<close> and \<open>cnt\<close> (the source's \<open>count\<close>) the runes of a part.
  Rune 58 is a colon, 35 a hash, 64 an at sign, 42 an asterisk and 32 a space.
\<close>

fun IsValidObject_loop :: "(nat \<times> rune) list \<Rightarrow> nat \<Rightarrow> nat \<Rightarrow> bool" where
  "IsValidObject_loop [] state idLen = (idLen > 0)"
| "IsValidObject_loop ((ndx, chr) # rest) state idLen =
     (if IsControl chr then False
      else if chr = 35 \<or> chr = 32 then False
      else if chr = 58 then
        (if state > 0 \<or> ndx = 0 then False else IsValidObject_loop rest 1 idLen)
      else IsValidObject_loop rest state (idLen + state))"

definition IsValidObject :: "string \<Rightarrow> bool" where
  "IsValidObject s = IsValidObject_loop (range_string s) 0 0"

fun IsValidRelation_loop :: "(nat \<times> rune) list \<Rightarrow> nat \<Rightarrow> bool" where
  "IsValidRelation_loop [] cnt = (cnt > 0)"
| "IsValidRelation_loop ((_, chr) # rest) cnt =
     (if IsControl chr then False
      else if chr = 35 \<or> chr = 58 \<or> chr = 64 \<or> chr = 32 then False
      else IsValidRelation_loop rest (cnt + 1))"

definition IsValidRelation :: "string \<Rightarrow> bool" where
  "IsValidRelation s = IsValidRelation_loop (range_string s) 0"

fun IsValidUserID_loop :: "(nat \<times> rune) list \<Rightarrow> nat \<Rightarrow> bool" where
  "IsValidUserID_loop [] cnt = (cnt > 0)"
| "IsValidUserID_loop ((_, chr) # rest) cnt =
     (if IsControl chr then False
      else if chr = 35 \<or> chr = 58 \<or> chr = 32 then False
      else IsValidUserID_loop rest (cnt + 1))"

definition IsValidUserID :: "string \<Rightarrow> bool" where
  "IsValidUserID s = IsValidUserID_loop (range_string s) 0"

fun IsValidUserset_loop :: "(nat \<times> rune) list \<Rightarrow> nat \<Rightarrow> nat \<Rightarrow> nat \<Rightarrow> bool" where
  "IsValidUserset_loop [] state idLen relLen = (relLen > 0)"
| "IsValidUserset_loop ((ndx, chr) # rest) state idLen relLen =
     (if IsControl chr then False
      else if chr = 58 then
        (if state > 0 \<or> ndx = 0 then False else IsValidUserset_loop rest 1 idLen relLen)
      else if chr = 35 then
        (if state > 1 \<or> idLen = 0 then False else IsValidUserset_loop rest 2 idLen relLen)
      else if chr = 32 then False
      else if chr = 42 then
        (if state > 0 then False else IsValidUserset_loop rest state idLen relLen)
      else if state = 1 then IsValidUserset_loop rest state (idLen + 1) relLen
      else if state = 2 then IsValidUserset_loop rest state idLen (relLen + 1)
      else IsValidUserset_loop rest state idLen relLen)"

definition IsValidUserset :: "string \<Rightarrow> bool" where
  "IsValidUserset s = IsValidUserset_loop (range_string s) 0 0 0"

definition IsObjectRelation :: "string \<Rightarrow> bool" where
  "IsObjectRelation userset = IsValidUserset userset"

definition IsTypedWildcard :: "string \<Rightarrow> bool" where
  "IsTypedWildcard s = (let (t, i) = SplitObject s in t \<noteq> '''' \<and> i = Wildcard)"

definition IsWildcard :: "string \<Rightarrow> bool" where
  "IsWildcard s \<longleftrightarrow> s = Wildcard \<or> IsTypedWildcard s"

definition TypedPublicWildcard :: "string \<Rightarrow> string" where
  "TypedPublicWildcard objectType = BuildObject objectType Wildcard"

definition IsValidUser :: "string \<Rightarrow> bool" where
  "IsValidUser user \<longleftrightarrow>
     user = Wildcard \<or> IsValidUserID user \<or> IsValidObject user \<or> IsValidUserset user"

datatype user_type = User | UserSet

definition GetUserTypeFromUser :: "string \<Rightarrow> user_type" where
  "GetUserTypeFromUser user = (if IsObjectRelation user \<or> IsWildcard user then UserSet else User)"

section \<open>Parsing tuples\<close>

datatype parse_error =
    NoHash
  | InvalidObjectFormat
  | NoAt
  | InvalidRelationFormat
  | InvalidUserFormat

definition ParseTupleString :: "string \<Rightarrow> parse_error + tuple_key" where
  "ParseTupleString s =
     (case Cut s CHR ''#'' of (object, rhs, found) \<Rightarrow>
      if \<not> found then Inl NoHash
      else if \<not> IsValidObject object then Inl InvalidObjectFormat
      else case Cut rhs CHR ''@'' of (relation, user, found) \<Rightarrow>
        if \<not> found then Inl NoAt
        else if \<not> IsValidRelation relation then Inl InvalidRelationFormat
        else if \<not> IsValidUser user then Inl InvalidUserFormat
        else Inr (NewTupleKey object relation user))"

text \<open>\<open>MustParseTupleString\<close> panics where \<open>ParseTupleString\<close> fails; \<open>None\<close> is the panic.\<close>

definition MustParseTupleString :: "string \<Rightarrow> tuple_key option" where
  "MustParseTupleString s = (case ParseTupleString s of Inl _ \<Rightarrow> None | Inr t \<Rightarrow> Some t)"

fun MustParseTupleStrings :: "string list \<Rightarrow> tuple_key list option" where
  "MustParseTupleStrings [] = Some []"
| "MustParseTupleStrings (s # ss) =
     (case MustParseTupleString s of
        None \<Rightarrow> None
      | Some t \<Rightarrow> (case MustParseTupleStrings ss of None \<Rightarrow> None | Some ts \<Rightarrow> Some (t # ts)))"

section \<open>What the validators accept\<close>

text \<open>The runes of a type or of an identifier, and those of the identifier or relation of a userset.\<close>

definition plain_rune :: "rune \<Rightarrow> bool" where
  "plain_rune r \<longleftrightarrow> \<not> IsControl r \<and> r \<noteq> 35 \<and> r \<noteq> 58 \<and> r \<noteq> 32"

definition plain_part :: "string \<Rightarrow> bool" where
  "plain_part s \<longleftrightarrow>
     s \<noteq> [] \<and> \<not> has_control s \<and> CHR ''#'' \<notin> set s \<and> CHR '':'' \<notin> set s \<and> CHR '' '' \<notin> set s"

lemma ascii_in_runes:
  "35 \<in> set (runes s) \<longleftrightarrow> CHR ''#'' \<in> set s" "58 \<in> set (runes s) \<longleftrightarrow> CHR '':'' \<in> set s"
  "32 \<in> set (runes s) \<longleftrightarrow> CHR '' '' \<in> set s" "64 \<in> set (runes s) \<longleftrightarrow> CHR ''@'' \<in> set s"
  "42 \<in> set (runes s) \<longleftrightarrow> CHR ''*'' \<in> set s"
  using ascii_rune_iff [of "CHR ''#''" s] ascii_rune_iff [of "CHR '':''" s]
    ascii_rune_iff [of "CHR '' ''" s] ascii_rune_iff [of "CHR ''@''" s]
    ascii_rune_iff [of "CHR ''*''" s]
  by simp_all

lemma plain_part_runes: "plain_part s \<longleftrightarrow> s \<noteq> [] \<and> (\<forall>r \<in> set (runes s). plain_rune r)"
  unfolding plain_part_def plain_rune_def has_control_def list_ex_iff
  by (metis ascii_in_runes(1-3))

lemma runes_colon: "runes (t @ CHR '':'' # i) = runes t @ 58 # runes i"
  using runes_append_ascii [of "CHR '':''" t i] by simp

lemma runes_hash: "runes (t @ CHR ''#'' # i) = runes t @ 35 # runes i"
  using runes_append_ascii [of "CHR ''#''" t i] by simp

lemma runes_split_colon:
  assumes "runes s = r1 @ 58 # r2" and "58 \<notin> set r1"
  shows "\<exists>t i. s = t @ CHR '':'' # i \<and> runes t = r1 \<and> runes i = r2"
proof -
  have "CHR '':'' \<in> set s" using assms(1) ascii_in_runes(2) [of s] by simp
  then obtain t i where s: "s = t @ CHR '':'' # i" and t: "CHR '':'' \<notin> set t"
    by (metis split_list_first)
  from s assms(1) have "runes t @ 58 # runes i = r1 @ 58 # r2" by (simp add: runes_colon)
  moreover have "58 \<notin> set (runes t)" using t ascii_in_runes(2) by blast
  ultimately have "runes t = r1 \<and> runes i = r2" using assms(2) by (intro split_at_unique) auto
  with s show ?thesis by blast
qed

lemma runes_split_hash:
  assumes "runes s = r1 @ 35 # r2" and "35 \<notin> set r1"
  shows "\<exists>t i. s = t @ CHR ''#'' # i \<and> runes t = r1 \<and> runes i = r2"
proof -
  have "CHR ''#'' \<in> set s" using assms(1) ascii_in_runes(1) [of s] by simp
  then obtain t i where s: "s = t @ CHR ''#'' # i" and t: "CHR ''#'' \<notin> set t"
    by (metis split_list_first)
  from s assms(1) have "runes t @ 35 # runes i = r1 @ 35 # r2" by (simp add: runes_hash)
  moreover have "35 \<notin> set (runes t)" using t ascii_in_runes(1) by blast
  ultimately have "runes t = r1 \<and> runes i = r2" using assms(2) by (intro split_at_unique) auto
  with s show ?thesis by blast
qed

subsection \<open>The loops\<close>

lemma range_from_index: "(j, r) \<in> set (range_from i s) \<Longrightarrow> i \<le> j"
proof (induction i s rule: range_from.induct)
  case (1 i s)
  show ?case
  proof (cases "s = []")
    case False
    with 1 show ?thesis by (force simp: range_from.simps [of i s])
  qed (use 1 in simp)
qed

lemma range_from_eq_Nil [simp]: "range_from i s = [] \<longleftrightarrow> s = []"
  using range_from_shift [of i s] by (metis list.map_disc_iff runes_eq_Nil)

lemma range_string_Cons:
  assumes "s \<noteq> []"
  obtains r rest where "range_string s = (0, r) # rest" and "\<forall>p \<in> set rest. 0 < fst p"
    and "runes s = r # map snd rest"
proof -
  let ?w = "snd (decode_rune s)"
  have eq: "range_string s = (0, fst (decode_rune s)) # range_from ?w (drop ?w s)"
    using assms by (simp add: range_from.simps [of 0 s])
  have "\<forall>p \<in> set (range_from ?w (drop ?w s)). 0 < fst p"
    using range_from_index [of _ _ ?w "drop ?w s"] decode_rune_width_pos [OF assms] by fastforce
  with eq show ?thesis by (intro that [of "fst (decode_rune s)"]) (auto simp: runes_def)
qed

lemma IsValidObject_loop_1:
  "IsValidObject_loop rs 1 n \<longleftrightarrow> (\<forall>r \<in> set (map snd rs). plain_rune r) \<and> 0 < n + length rs"
  by (induction rs "1::nat" n rule: IsValidObject_loop.induct) (auto simp: plain_rune_def)

lemma IsValidObject_loop_0:
  "\<forall>p \<in> set rs. 0 < fst p \<Longrightarrow>
   IsValidObject_loop rs 0 0 \<longleftrightarrow>
     (\<exists>r1 r2. map snd rs = r1 @ 58 # r2 \<and> (\<forall>r \<in> set r1 \<union> set r2. plain_rune r) \<and> r2 \<noteq> [])"
proof (induction rs)
  case Nil
  then show ?case by simp
next
  case (Cons p rs)
  obtain j q where p: "p = (j, q)" by fastforce
  have j: "0 < j" using Cons.prems p by auto
  have IH: "IsValidObject_loop rs 0 0 \<longleftrightarrow>
     (\<exists>r1 r2. map snd rs = r1 @ 58 # r2 \<and> (\<forall>r \<in> set r1 \<union> set r2. plain_rune r) \<and> r2 \<noteq> [])"
    using Cons by simp
  show ?case
  proof (cases "q = 58")
    case True
    have "IsValidObject_loop (p # rs) 0 0 = IsValidObject_loop rs 1 0"
      using j p True by (simp add: IsControl_def)
    also have "\<dots> \<longleftrightarrow> (\<forall>r \<in> set (map snd rs). plain_rune r) \<and> map snd rs \<noteq> []"
      by (simp add: IsValidObject_loop_1 [unfolded One_nat_def])
    also have "\<dots> \<longleftrightarrow> (\<exists>r1 r2. map snd (p # rs) = r1 @ 58 # r2
        \<and> (\<forall>r \<in> set r1 \<union> set r2. plain_rune r) \<and> r2 \<noteq> [])"
      unfolding p True list.map snd_conv
      by (subst ex_split_Cons_eq) (auto simp: plain_rune_def)
    finally show ?thesis .
  next
    case False
    have "IsValidObject_loop (p # rs) 0 0 \<longleftrightarrow> plain_rune q \<and> IsValidObject_loop rs 0 0"
      using p False by (simp add: plain_rune_def)
    also have "\<dots> \<longleftrightarrow> (\<exists>r1 r2. map snd rs = r1 @ 58 # r2
        \<and> (\<forall>r \<in> set (q # r1) \<union> set r2. plain_rune r) \<and> r2 \<noteq> [])"
      unfolding IH list.set by blast
    also have "\<dots> \<longleftrightarrow> (\<exists>r1 r2. map snd (p # rs) = r1 @ 58 # r2
        \<and> (\<forall>r \<in> set r1 \<union> set r2. plain_rune r) \<and> r2 \<noteq> [])"
      unfolding p list.map snd_conv by (rule ex_split_Cons [OF False, symmetric])
    finally show ?thesis .
  qed
qed

lemma IsValidObject_iff:
  "IsValidObject s \<longleftrightarrow> (\<exists>t i. s = t @ CHR '':'' # i \<and> plain_part t \<and> plain_part i)"
proof (cases "s = []")
  case True
  then show ?thesis by (simp add: IsValidObject_def)
next
  case False
  then obtain r rest where rs: "range_string s = (0, r) # rest"
    and pos: "\<forall>p \<in> set rest. 0 < fst p" and runes: "runes s = r # map snd rest"
    by (rule range_string_Cons)
  have loop: "IsValidObject s \<longleftrightarrow> plain_rune r \<and> IsValidObject_loop rest 0 0"
    by (simp add: IsValidObject_def rs plain_rune_def)
  have "IsValidObject s \<longleftrightarrow> (\<exists>r1 r2. runes s = r1 @ 58 # r2 \<and> r1 \<noteq> [] \<and> r2 \<noteq> []
      \<and> (\<forall>x \<in> set r1 \<union> set r2. plain_rune x))"
    unfolding loop IsValidObject_loop_0 [OF pos] runes
  proof safe
    fix r1 r2 assume "plain_rune r" "map snd rest = r1 @ 58 # r2"
      "\<forall>x \<in> set r1 \<union> set r2. plain_rune x" "r2 \<noteq> []"
    then show "\<exists>r1 r2. r # map snd rest = r1 @ 58 # r2 \<and> r1 \<noteq> [] \<and> r2 \<noteq> []
        \<and> (\<forall>x \<in> set r1 \<union> set r2. plain_rune x)"
      by (intro exI [of _ "r # r1"] exI [of _ r2]) auto
  qed (auto simp: Cons_eq_append_conv, blast)
  also have "\<dots> \<longleftrightarrow> (\<exists>t i. s = t @ CHR '':'' # i \<and> plain_part t \<and> plain_part i)"
  proof safe
    fix r1 r2 assume *: "runes s = r1 @ 58 # r2" "r1 \<noteq> []" "r2 \<noteq> []"
      "\<forall>x \<in> set r1 \<union> set r2. plain_rune x"
    then have "58 \<notin> set r1" by (auto simp: plain_rune_def)
    from runes_split_colon [OF *(1) this] obtain t i
      where "s = t @ CHR '':'' # i" "runes t = r1" "runes i = r2" by blast
    with * show "\<exists>t i. s = t @ CHR '':'' # i \<and> plain_part t \<and> plain_part i"
      by (metis UnCI plain_part_runes runes_Nil)
  next
    fix t i assume "s = t @ CHR '':'' # i" "plain_part t" "plain_part i"
    then show "\<exists>r1 r2. runes (t @ CHR '':'' # i) = r1 @ 58 # r2 \<and> r1 \<noteq> [] \<and> r2 \<noteq> []
        \<and> (\<forall>x \<in> set r1 \<union> set r2. plain_rune x)"
      by (intro exI [of _ "runes t"] exI [of _ "runes i"]) (auto simp: runes_colon plain_part_runes)
  qed
  finally show ?thesis .
qed

definition userset_rune :: "rune \<Rightarrow> bool" where
  "userset_rune r \<longleftrightarrow> plain_rune r \<and> r \<noteq> 42"

definition userset_part :: "string \<Rightarrow> bool" where
  "userset_part s \<longleftrightarrow> plain_part s \<and> CHR ''*'' \<notin> set s"

lemma userset_part_runes: "userset_part s \<longleftrightarrow> s \<noteq> [] \<and> (\<forall>r \<in> set (runes s). userset_rune r)"
  unfolding userset_part_def userset_rune_def plain_part_runes
  by (metis ascii_in_runes(5))

lemma IsValidUserset_loop_2:
  "IsValidUserset_loop rs 2 k n \<longleftrightarrow> (\<forall>r \<in> set (map snd rs). userset_rune r) \<and> 0 < n + length rs"
  by (induction rs "2::nat" k n rule: IsValidUserset_loop.induct)
    (auto simp: plain_rune_def userset_rune_def)

lemma IsValidUserset_loop_1:
  "IsValidUserset_loop rs 1 n 0 \<longleftrightarrow>
     (\<exists>r1 r2. map snd rs = r1 @ 35 # r2 \<and> (\<forall>r \<in> set r1 \<union> set r2. userset_rune r)
        \<and> 0 < n + length r1 \<and> r2 \<noteq> [])"
proof (induction rs arbitrary: n)
  case (Cons p rs)
  obtain j q where p: "p = (j, q)" by fastforce
  show ?case
  proof (cases "q = 35")
    case True
    have "IsValidUserset_loop (p # rs) 1 n 0 \<longleftrightarrow> 0 < n \<and> IsValidUserset_loop rs 2 n 0"
      using p True by (simp add: IsControl_def)
    also have "\<dots> \<longleftrightarrow> (\<exists>r1 r2. map snd (p # rs) = r1 @ 35 # r2
        \<and> (\<forall>r \<in> set r1 \<union> set r2. userset_rune r) \<and> 0 < n + length r1 \<and> r2 \<noteq> [])"
      unfolding p True list.map snd_conv IsValidUserset_loop_2
      by (subst ex_split_Cons_eq) (auto simp: plain_rune_def userset_rune_def)
    finally show ?thesis .
  next
    case False
    have "IsValidUserset_loop (p # rs) 1 n 0 \<longleftrightarrow> userset_rune q \<and> IsValidUserset_loop rs 1 (n + 1) 0"
      using p False by (simp add: plain_rune_def userset_rune_def)
    also have "\<dots> \<longleftrightarrow> (\<exists>r1 r2. map snd rs = r1 @ 35 # r2
        \<and> (\<forall>r \<in> set (q # r1) \<union> set r2. userset_rune r) \<and> 0 < n + length (q # r1) \<and> r2 \<noteq> [])"
      unfolding Cons.IH list.set list.size by auto
    also have "\<dots> \<longleftrightarrow> (\<exists>r1 r2. map snd (p # rs) = r1 @ 35 # r2
        \<and> (\<forall>r \<in> set r1 \<union> set r2. userset_rune r) \<and> 0 < n + length r1 \<and> r2 \<noteq> [])"
      unfolding p list.map snd_conv by (rule ex_split_Cons [OF False, symmetric])
    finally show ?thesis .
  qed
qed simp

lemma IsValidUserset_loop_0:
  "\<forall>p \<in> set rs. 0 < fst p \<Longrightarrow>
   IsValidUserset_loop rs 0 0 0 \<longleftrightarrow>
     (\<exists>r0 rs'. map snd rs = r0 @ 58 # rs' \<and> (\<forall>r \<in> set r0. plain_rune r)
        \<and> (\<exists>r1 r2. rs' = r1 @ 35 # r2 \<and> (\<forall>r \<in> set r1 \<union> set r2. userset_rune r)
             \<and> r1 \<noteq> [] \<and> r2 \<noteq> []))" (is "_ \<Longrightarrow> _ \<longleftrightarrow> (\<exists>r0 rs'. _ \<and> _ \<and> ?Q rs')")
proof (induction rs)
  case (Cons p rs)
  obtain j q where p: "p = (j, q)" by fastforce
  have j: "0 < j" using Cons.prems p by auto
  show ?case
  proof (cases "q = 58")
    case True
    have "IsValidUserset_loop (p # rs) 0 0 0 = IsValidUserset_loop rs 1 0 0"
      using j p True by (simp add: IsControl_def)
    also have "\<dots> = ?Q (map snd rs)"
      unfolding IsValidUserset_loop_1 by simp
    also have "\<dots> \<longleftrightarrow> (\<exists>r0 rs'. map snd (p # rs) = r0 @ 58 # rs' \<and> (\<forall>r \<in> set r0. plain_rune r) \<and> ?Q rs')"
      unfolding p True list.map snd_conv
      by (subst ex_split_Cons_eq) (auto simp: plain_rune_def)
    finally show ?thesis .
  next
    case False
    have "IsValidUserset_loop (p # rs) 0 0 0 \<longleftrightarrow> plain_rune q \<and> IsValidUserset_loop rs 0 0 0"
      using p False by (simp add: plain_rune_def)
    also have "\<dots> \<longleftrightarrow> (\<exists>r0 rs'. map snd rs = r0 @ 58 # rs' \<and> (\<forall>r \<in> set (q # r0). plain_rune r) \<and> ?Q rs')"
      using Cons by simp blast
    also have "\<dots> \<longleftrightarrow> (\<exists>r0 rs'. map snd (p # rs) = r0 @ 58 # rs' \<and> (\<forall>r \<in> set r0. plain_rune r) \<and> ?Q rs')"
      unfolding p list.map snd_conv by (rule ex_split_Cons [OF False, symmetric])
    finally show ?thesis .
  qed
qed simp

lemma IsValidUserset_runes:
  "IsValidUserset s \<longleftrightarrow>
     (\<exists>r0 r1 r2. runes s = r0 @ 58 # r1 @ 35 # r2 \<and> r0 \<noteq> [] \<and> r1 \<noteq> [] \<and> r2 \<noteq> []
        \<and> (\<forall>r \<in> set r0. plain_rune r) \<and> (\<forall>r \<in> set r1 \<union> set r2. userset_rune r))"
proof (cases "s = []")
  case False
  then obtain r rest where rs: "range_string s = (0, r) # rest"
    and pos: "\<forall>p \<in> set rest. 0 < fst p" and runes: "runes s = r # map snd rest"
    by (rule range_string_Cons)
  have loop: "IsValidUserset s \<longleftrightarrow> plain_rune r \<and> IsValidUserset_loop rest 0 0 0"
    by (simp add: IsValidUserset_def rs plain_rune_def)
  show ?thesis
    unfolding loop IsValidUserset_loop_0 [OF pos] runes
  proof safe
    fix r0 r1 r2 assume "plain_rune r" "map snd rest = r0 @ 58 # r1 @ 35 # r2"
      "\<forall>x \<in> set r0. plain_rune x" "\<forall>x \<in> set r1 \<union> set r2. userset_rune x" "r1 \<noteq> []" "r2 \<noteq> []"
    then show "\<exists>r0 r1 r2. r # map snd rest = r0 @ 58 # r1 @ 35 # r2 \<and> r0 \<noteq> [] \<and> r1 \<noteq> [] \<and> r2 \<noteq> []
        \<and> (\<forall>r \<in> set r0. plain_rune r) \<and> (\<forall>r \<in> set r1 \<union> set r2. userset_rune r)"
      by (intro exI [of _ "r # r0"] exI [of _ r1] exI [of _ r2]) auto
  qed (auto simp: Cons_eq_append_conv, blast)
qed (simp add: IsValidUserset_def)

lemma IsValidUserset_iff:
  "IsValidUserset s \<longleftrightarrow>
     (\<exists>t i r. s = t @ CHR '':'' # i @ CHR ''#'' # r \<and> plain_part t \<and> userset_part i \<and> userset_part r)"
  (is "?L \<longleftrightarrow> ?R")
proof
  assume ?L
  then obtain r0 r1 r2 where *: "runes s = r0 @ 58 # r1 @ 35 # r2" "r0 \<noteq> []" "r1 \<noteq> []" "r2 \<noteq> []"
    "\<forall>r \<in> set r0. plain_rune r" "\<forall>r \<in> set r1 \<union> set r2. userset_rune r"
    unfolding IsValidUserset_runes by blast
  then have "58 \<notin> set r0" "35 \<notin> set r1" by (auto simp: plain_rune_def userset_rune_def)
  with runes_split_colon [OF *(1)] obtain t u
    where t: "s = t @ CHR '':'' # u" "runes t = r0" "runes u = r1 @ 35 # r2" by blast
  with runes_split_hash [of u] \<open>35 \<notin> set r1\<close> obtain i r
    where "u = i @ CHR ''#'' # r" "runes i = r1" "runes r = r2" by blast
  with t * show ?R by (metis UnCI plain_part_runes userset_part_runes runes_Nil)
next
  assume ?R
  then obtain t i r where "s = t @ CHR '':'' # i @ CHR ''#'' # r"
    "plain_part t" "userset_part i" "userset_part r" by blast
  then show ?L unfolding IsValidUserset_runes
    by (intro exI [of _ "runes t"] exI [of _ "runes i"] exI [of _ "runes r"])
      (auto simp: runes_colon runes_hash plain_part_runes userset_part_runes)
qed

lemma IsValidRelation_loop_iff:
  "IsValidRelation_loop rs n \<longleftrightarrow> (\<forall>r \<in> set (map snd rs). plain_rune r \<and> r \<noteq> 64) \<and> 0 < n + length rs"
  by (induction rs n rule: IsValidRelation_loop.induct) (auto simp: plain_rune_def)

lemma IsValidUserID_loop_iff:
  "IsValidUserID_loop rs n \<longleftrightarrow> (\<forall>r \<in> set (map snd rs). plain_rune r) \<and> 0 < n + length rs"
  by (induction rs n rule: IsValidUserID_loop.induct) (auto simp: plain_rune_def)

lemma IsValidRelation_iff: "IsValidRelation s \<longleftrightarrow> plain_part s \<and> CHR ''@'' \<notin> set s"
  unfolding IsValidRelation_def IsValidRelation_loop_iff plain_part_runes ascii_in_runes(4) [symmetric]
  by (cases "s = []") (auto simp: runes_def [symmetric])

lemma IsValidUserID_iff: "IsValidUserID s \<longleftrightarrow> plain_part s"
  unfolding IsValidUserID_def IsValidUserID_loop_iff plain_part_runes
  by (cases "s = []") (auto simp: runes_def [symmetric])

section \<open>Splitting what was built\<close>

lemma SplitObject_none [simp]: "CHR '':'' \<notin> set s \<Longrightarrow> SplitObject s = ('''', s)"
  by (simp add: SplitObject_def)

lemma SplitObject_append [simp]: "CHR '':'' \<notin> set t \<Longrightarrow> SplitObject (t @ CHR '':'' # i) = (t, i)"
  by (simp add: SplitObject_def Let_def nat_add_distrib)

lemma SplitObjectRelation_none [simp]:
  "CHR ''#'' \<notin> set s \<Longrightarrow> SplitObjectRelation s = (s, '''')"
  by (simp add: SplitObjectRelation_def)

lemma SplitObjectRelation_append [simp]:
  "CHR ''#'' \<notin> set r \<Longrightarrow> SplitObjectRelation (t @ CHR ''#'' # r) = (t, r)"
  by (simp add: SplitObjectRelation_def Let_def nat_add_distrib)

lemma plain_part_not_in [simp]:
  assumes "plain_part s"
  shows "s \<noteq> []" "CHR ''#'' \<notin> set s" "CHR '':'' \<notin> set s" "CHR '' '' \<notin> set s"
  using assms by (simp_all add: plain_part_def)

lemma userset_part_plain: "userset_part s \<Longrightarrow> plain_part s"
  by (simp add: userset_part_def)

lemma IsValidUser_cases:
  assumes "IsValidUser u"
  obtains (user_id) "plain_part u"
  | (object) t i where "u = t @ CHR '':'' # i" "plain_part t" "plain_part i"
  | (userset) t i r where "u = t @ CHR '':'' # i @ CHR ''#'' # r"
      "plain_part t" "plain_part i" "plain_part r" "CHR ''*'' \<notin> set i" "CHR ''*'' \<notin> set r"
proof -
  have "plain_part Wildcard" by (code_simp)
  then show ?thesis
    using assms that
    by (auto simp: IsValidUser_def IsValidUserID_iff IsValidObject_iff IsValidUserset_iff userset_part_def)
qed

lemma IsValidObject_no_hash: "IsValidObject s \<Longrightarrow> CHR ''#'' \<notin> set s"
  by (auto simp: IsValidObject_iff)

lemma IsValidRelation_no_at: "IsValidRelation s \<Longrightarrow> CHR ''@'' \<notin> set s"
  by (simp add: IsValidRelation_iff)

lemma Cut_Some:
  assumes "Cut s c = (a, b, True)"
  shows "s = a @ c # b \<and> c \<notin> set a"
proof (cases "c \<in> set s")
  case True
  then obtain u v where "s = u @ c # v" "c \<notin> set u" by (metis split_list_first)
  with assms show ?thesis by simp
qed (use assms in simp)

section \<open>Properties\<close>

text \<open>
  An object is valid exactly when it is a non-empty type, a colon and a non-empty identifier,
  neither of which holds a colon, a hash, a space or a control character.
\<close>

lemma IsValidObject_shape:
  "IsValidObject s \<longleftrightarrow> (\<exists>t i. s = BuildObject t i \<and> plain_part t \<and> plain_part i \<and> SplitObject s = (t, i))"
  unfolding IsValidObject_iff BuildObject_def by auto

text \<open>
  A userset is valid exactly when it is a type, a colon, an identifier, a hash and a relation, all
  non-empty and free of separators, spaces and control characters, with no asterisk in the
  identifier or in the relation; and \<open>ToUserParts\<close> then returns these three parts.
\<close>

lemma IsValidUserset_shape:
  "IsValidUserset s \<longleftrightarrow>
     (\<exists>t i r. s = ToObjectRelationString (BuildObject t i) r \<and> plain_part t
        \<and> userset_part i \<and> userset_part r \<and> ToUserParts s = (t, i, r))"
proof -
  have "ToUserParts (t @ CHR '':'' # i @ CHR ''#'' # r) = (t, i, r)"
    if "plain_part t" "userset_part r" for t i r
    using SplitObjectRelation_append [of r "t @ CHR '':'' # i"] that
    by (simp add: ToUserParts_def userset_part_plain)
  then show ?thesis
    unfolding IsValidUserset_iff BuildObject_def ToObjectRelationString_def by auto
qed

text \<open>
  C8: \<open>ParseTupleString\<close> accepts exactly the strings that \<open>TupleKeyToString\<close> prints for a tuple without
  condition whose object, relation and user are valid, and returns that tuple.
\<close>

theorem ParseTupleString_iff:
  "ParseTupleString s = Inr t \<longleftrightarrow>
     s = TupleKeyToString t \<and> tk_condition t = None
     \<and> IsValidObject (tk_object t) \<and> IsValidRelation (tk_relation t) \<and> IsValidUser (tk_user t)"
  (is "?L \<longleftrightarrow> ?R")
proof
  assume ?L
  then obtain rhs where "Cut s CHR ''#'' = (tk_object t, rhs, True)"
    "Cut rhs CHR ''@'' = (tk_relation t, tk_user t, True)" "tk_condition t = None"
    "IsValidObject (tk_object t)" "IsValidRelation (tk_relation t)" "IsValidUser (tk_user t)"
    by (auto simp: ParseTupleString_def NewTupleKey_def split: prod.splits if_splits)
  then show ?R by (auto simp: TupleKeyToString_def dest: Cut_Some)
next
  assume R: ?R
  then have "Cut s CHR ''#'' = (tk_object t, tk_relation t @ CHR ''@'' # tk_user t, True)"
    by (simp add: TupleKeyToString_def IsValidObject_no_hash)
  with R show ?L
    by (simp add: ParseTupleString_def NewTupleKey_def IsValidRelation_no_at)
qed

text \<open>
  Splitting a valid user into type, identifier and relation and joining the parts again gives the
  same user.
\<close>

lemma FromUserParts_ToUserParts:
  assumes "IsValidUser u"
  shows "(case ToUserParts u of (t, i, r) \<Rightarrow> FromUserParts t i r) = u"
  using assms
proof (cases rule: IsValidUser_cases)
  case (userset t i r)
  then show ?thesis
    using SplitObjectRelation_append [of r "t @ CHR '':'' # i"]
    by (simp add: ToUserParts_def FromUserParts_def)
qed (simp_all add: ToUserParts_def FromUserParts_def)

text \<open>
  Every typed valid user survives the conversion to the protobuf user and back; an untyped user
  identifier does not, it comes back with a leading colon.
\<close>

lemma UserProto_roundtrip:
  assumes "IsValidUser u"
  shows "UserProtoToString (StringToUserProto u) = Some (if GetType u = '''' then '':'' @ u else u)"
  using assms
proof (cases rule: IsValidUser_cases)
  case (userset t i r)
  then show ?thesis
    using SplitObjectRelation_append [of r "t @ CHR '':'' # i"]
    by (simp add: UserProtoToString_def StringToUserProto_def GetType_def)
qed (auto simp add: UserProtoToString_def StringToUserProto_def GetType_def)

definition tuple_order_key :: "tuple_key \<Rightarrow> string \<times> string \<times> string \<times> string" where
  "tuple_order_key t = (tk_object t, tk_relation t, tk_user t, get_condition_name (tk_condition t))"

lemma Less_iff: "Less a b \<longleftrightarrow> tuple_order_key a \<le> tuple_order_key b"
  by (auto simp: Less_def tuple_order_key_def less_eq_prod_def)

text \<open>
  \<open>Less\<close> is the reflexive lexicographic order on object, relation, user and condition name: it
  holds between equal tuples, where the comment of the method (and \<open>sort.Interface\<close>) asks for false.
\<close>

lemma Less_lexicographic:
  "Less a b \<longleftrightarrow>
     (tk_object a, tk_relation a, tk_user a, get_condition_name (tk_condition a))
     \<le> (tk_object b, tk_relation b, tk_user b, get_condition_name (tk_condition b))"
  unfolding Less_iff tuple_order_key_def by (rule refl)

end
