(* ===== verification/StorageTypes.thy ===== *)
theory StorageTypes
  imports Tuple
begin

text \<open>
  The request types of the storage interface (\<open>src/pkg/storage/storage.go\<close>): filters of the read
  methods, write options, continuation pagination and consistency.  A \<open>SortedSet\<close> is represented by
  the list its method \<open>Values\<close> returns: the elements in strictly ascending order.
\<close>

type_synonym sorted_set = "string list"

definition is_sorted_set :: "sorted_set \<Rightarrow> bool" where
  "is_sorted_set s \<longleftrightarrow> sorted s \<and> distinct s"

record read_filter =
  rf_object :: string
  rf_relation :: string
  rf_user :: string
  rf_conditions :: "string list"

record read_userset_tuples_filter =
  ruf_object :: string
  ruf_relation :: string
  ruf_allowed :: "relation_reference list"
  ruf_conditions :: "string list"

record read_starting_with_user_filter =
  rsw_object_type :: string
  rsw_relation :: string
  rsw_user_filter :: "object_relation list"
  rsw_object_ids :: "sorted_set option"
  rsw_conditions :: "string list"

text \<open>The consistency a client asks for; only \<open>HIGHER_CONSISTENCY\<close> keeps a request from cached data.\<close>

datatype consistency_preference = UNSPECIFIED | MINIMIZE_LATENCY | HIGHER_CONSISTENCY

datatype OnMissingDelete = OnMissingDeleteError | OnMissingDeleteIgnore

datatype OnDuplicateInsert = OnDuplicateInsertError | OnDuplicateInsertIgnore

record tuple_write_options =
  two_on_missing_delete :: OnMissingDelete
  two_on_duplicate_insert :: OnDuplicateInsert

text \<open>\<open>NewTupleWriteOptions\<close> applies the functional options in order over the defaults.\<close>

datatype tuple_write_option =
    WithOnMissingDelete OnMissingDelete
  | WithOnDuplicateInsert OnDuplicateInsert

fun apply_write_option :: "tuple_write_option \<Rightarrow> tuple_write_options \<Rightarrow> tuple_write_options" where
  "apply_write_option (WithOnMissingDelete d) opts = opts\<lparr>two_on_missing_delete := d\<rparr>"
| "apply_write_option (WithOnDuplicateInsert i) opts = opts\<lparr>two_on_duplicate_insert := i\<rparr>"

definition NewTupleWriteOptions :: "tuple_write_option list \<Rightarrow> tuple_write_options" where
  "NewTupleWriteOptions opts =
     fold apply_write_option opts
       \<lparr>two_on_missing_delete = OnMissingDeleteError, two_on_duplicate_insert = OnDuplicateInsertError\<rparr>"

section \<open>Options and results of the datastore\<close>

definition DefaultPageSize :: int where
  "DefaultPageSize = 50"

record pagination_options =
  po_page_size :: int
  po_from :: string

definition NewPaginationOptions :: "int \<Rightarrow> string \<Rightarrow> pagination_options" where
  "NewPaginationOptions ps contToken =
     \<lparr>po_page_size = (if ps > 0 then ps else DefaultPageSize), po_from = contToken\<rparr>"

datatype tuple_operation = TUPLE_OPERATION_WRITE | TUPLE_OPERATION_DELETE

text \<open>
  The errors of the storage layer.  \<open>AtoiError\<close> is the error of \<open>strconv.Atoi\<close>, \<open>SlicePanic\<close> a slice
  expression out of range, which panics.
\<close>

datatype storage_error =
    ErrNotFound
  | ErrCollision
  | ErrInvalidContinuationToken
  | AtoiError
  | SlicePanic
  | InvalidWriteInputError string string string tuple_operation
  | TupleConditionConflictError string string string

record tuple =
  tup_key :: tuple_key
  tup_timestamp :: "int option"

text \<open>\<open>storage.TupleRecord\<close>; a ULID is the 128-bit number it encodes, times are nanoseconds.\<close>

record tuple_record =
  tr_store :: string
  tr_object_type :: string
  tr_object_id :: string
  tr_relation :: string
  tr_user :: string
  tr_user_object_type :: string
  tr_user_object_id :: string
  tr_user_relation :: string
  tr_condition_name :: string
  tr_condition_context :: "pbstruct option"
  tr_ulid :: nat
  tr_inserted_at :: int

definition AsTuple :: "tuple_record \<Rightarrow> tuple" where
  "AsTuple t =
     (let user = (if tr_user t = '''' then FromUserParts (tr_user_object_type t) (tr_user_object_id t) (tr_user_relation t)
                  else tr_user t) in
      \<lparr>tup_key = NewTupleKeyWithCondition (BuildObject (tr_object_type t) (tr_object_id t)) (tr_relation t) user
                  (tr_condition_name t) (tr_condition_context t),
       tup_timestamp = Some (tr_inserted_at t)\<rparr>)"

record tuple_change =
  tc_key :: tuple_key
  tc_operation :: tuple_operation
  tc_timestamp :: int

end
