(* ===== verification/Keys.thy ===== *)
theory Keys
  imports StorageTypes
begin

text \<open>
  The encoding of cache keys: \<open>src/pkg/storage/cache/keys/build.go\<close> (the tagged encoder and the
  hexadecimal printer), \<open>types.go\<close> and \<open>xtypes.go\<close> (the serializable values), and the keys built with
  it in \<open>src/pkg/storage/keys.go\<close> and \<open>src/pkg/storage/cache.go\<close>.  The 64-bit hash is a third-party
  function and a parameter \<open>sum64\<close> of the definitions that use it; what is proved is that the bytes
  given to it, and the bytes of every key, determine what was encoded.
\<close>

unbundle bit_operations_syntax

type_synonym byte = "8 word"

section \<open>Bytes\<close>

definition bytes_of :: "string \<Rightarrow> byte list" where
  "bytes_of s = map of_char s"

text \<open>\<open>binary.AppendUvarint\<close> and the little-endian writers of \<open>encoding/binary\<close>.\<close>

function AppendUvarint :: "byte list \<Rightarrow> 64 word \<Rightarrow> byte list" where
  "AppendUvarint buf x =
     (if x \<ge> 0x80 then AppendUvarint (buf @ [ucast x OR 0x80]) (drop_bit 7 x) else buf @ [ucast x])"
  by pat_completeness auto
termination
proof (relation "measure (\<lambda>(_, x). unat x)")
  fix buf :: "byte list" and x :: "64 word"
  assume "x \<ge> 0x80"
  then have "unat x \<ge> 128" by (simp add: word_le_nat_alt)
  then have "unat x div 128 < unat x" by simp
  then show "((buf @ [ucast x OR 0x80], drop_bit 7 x), (buf, x)) \<in> measure (\<lambda>(_, x). unat x)"
    by (simp add: drop_bit_eq_div unat_div)
qed simp

declare AppendUvarint.simps [simp del]

definition le_bytes :: "nat \<Rightarrow> 'a::len word \<Rightarrow> byte list" where
  "le_bytes n w = map (\<lambda>k. ucast (drop_bit (8 * k) w)) [0..<n]"

section \<open>The builder\<close>

record builder =
  bdata :: "byte list"

definition empty_builder :: builder where
  "empty_builder = \<lparr>bdata = []\<rparr>"

definition tagNull :: byte where "tagNull = 0"
definition tagByte :: byte where "tagByte = 1"
definition tagBool :: byte where "tagBool = 2"
definition tagUint64 :: byte where "tagUint64 = 3"
definition tagString :: byte where "tagString = 4"
definition tagBytes :: byte where "tagBytes = 5"
definition tagArray :: byte where "tagArray = 6"
definition tagMap :: byte where "tagMap = 7"
definition tagPair :: byte where "tagPair = 8"
definition tagKey :: byte where "tagKey = 9"
definition tagValue :: byte where "tagValue = 10"
definition tagUnset :: byte where "tagUnset = 11"

definition builder_Reset :: "builder \<Rightarrow> builder" where
  "builder_Reset kb = kb\<lparr>bdata := []\<rparr>"

definition builder_Write :: "byte list \<Rightarrow> builder \<Rightarrow> builder" where
  "builder_Write b kb = kb\<lparr>bdata := bdata kb @ b\<rparr>"

definition WriteByte :: "byte \<Rightarrow> builder \<Rightarrow> builder" where
  "WriteByte b kb = kb\<lparr>bdata := bdata kb @ [b]\<rparr>"

definition WriteString :: "string \<Rightarrow> builder \<Rightarrow> builder" where
  "WriteString s kb = kb\<lparr>bdata := bdata kb @ bytes_of s\<rparr>"

definition EncodeBytes :: "byte list \<Rightarrow> builder \<Rightarrow> builder" where
  "EncodeBytes b kb =
     kb\<lparr>bdata := AppendUvarint (bdata kb @ [tagBytes]) (of_nat (length b)) @ b\<rparr>"

definition EncodeByte :: "byte \<Rightarrow> builder \<Rightarrow> builder" where
  "EncodeByte b kb = kb\<lparr>bdata := bdata kb @ [tagByte, b]\<rparr>"

definition EncodeNull :: "builder \<Rightarrow> builder" where
  "EncodeNull kb = kb\<lparr>bdata := bdata kb @ [tagNull]\<rparr>"

definition EncodeUnset :: "builder \<Rightarrow> builder" where
  "EncodeUnset kb = kb\<lparr>bdata := bdata kb @ [tagUnset]\<rparr>"

definition EncodeString :: "string \<Rightarrow> builder \<Rightarrow> builder" where
  "EncodeString s kb =
     kb\<lparr>bdata := AppendUvarint (bdata kb @ [tagString]) (of_nat (length s)) @ bytes_of s\<rparr>"

definition EncodeBool :: "bool \<Rightarrow> builder \<Rightarrow> builder" where
  "EncodeBool b kb = kb\<lparr>bdata := bdata kb @ [tagBool, if b then 1 else 0]\<rparr>"

definition EncodeUint64 :: "64 word \<Rightarrow> builder \<Rightarrow> builder" where
  "EncodeUint64 i kb = kb\<lparr>bdata := bdata kb @ [tagUint64] @ le_bytes 8 i\<rparr>"

definition EncodeArrayHeader :: "nat \<Rightarrow> builder \<Rightarrow> builder" where
  "EncodeArrayHeader n kb = kb\<lparr>bdata := AppendUvarint (bdata kb @ [tagArray]) (of_nat n)\<rparr>"

definition EncodeMapHeader :: "nat \<Rightarrow> builder \<Rightarrow> builder" where
  "EncodeMapHeader n kb = kb\<lparr>bdata := AppendUvarint (bdata kb @ [tagMap]) (of_nat n)\<rparr>"

section \<open>Protobuf values\<close>

text \<open>
  \<open>PbValue.WriteTo\<close> walks the value with an explicit stack of frames, the top of which is the last
  element of the slice.  A frame holds the key of a struct field, if any, and the value.
\<close>

type_synonym pb_frame = "string option \<times> pbvalue"

definition pb_lookup :: "pbstruct \<Rightarrow> string \<Rightarrow> pbvalue" where
  "pb_lookup flds k = (case map_of flds k of None \<Rightarrow> VUnset | Some v \<Rightarrow> v)"

definition pb_keys :: "pbstruct \<Rightarrow> string list" where
  "pb_keys flds = sort (remdups (map fst flds))"

lemma sum_set_le_sum_list: "(\<Sum>p\<in>set xs. f p) \<le> sum_list (map (f :: _ \<Rightarrow> nat) xs)"
  by (induction xs) (auto simp: sum.insert_if)

lemma sum_list_pb_keys:
  "sum_list (map (\<lambda>k. f (pb_lookup fs k)) (pb_keys fs)) \<le> sum_list (map (\<lambda>(k, v). (f v :: nat)) fs)"
proof -
  let ?g = "\<lambda>k. (k, pb_lookup fs k)"
  have sub: "?g ` set (pb_keys fs) \<subseteq> set fs"
    by (force simp: pb_keys_def pb_lookup_def map_of_eq_None_iff split: option.split dest: map_of_SomeD)
  have "sum_list (map (\<lambda>k. f (pb_lookup fs k)) (pb_keys fs))
      = (\<Sum>k\<in>set (pb_keys fs). f (pb_lookup fs k))"
    by (rule sum_list_distinct_conv_sum_set) (simp add: pb_keys_def)
  also have "\<dots> = (\<Sum>p\<in>?g ` set (pb_keys fs). f (snd p))"
    by (subst sum.reindex) (auto simp: inj_on_def)
  also have "\<dots> \<le> (\<Sum>p\<in>set fs. f (snd p))"
    by (rule sum_mono2 [OF _ sub]) auto
  also have "\<dots> \<le> sum_list (map (\<lambda>p. f (snd p)) fs)" by (rule sum_set_le_sum_list)
  finally show ?thesis by (simp add: case_prod_unfold)
qed

lemma size_list_pbvalue: "sum_list (map (\<lambda>v. Suc (size v)) vs) = size_list size vs"
  by (induction vs) auto

lemma size_list_pbstruct:
  "sum_list (map (\<lambda>(k, v). Suc (size v)) fs) \<le> size_list (size_prod f size) fs"
  by (induction fs) (auto split: prod.splits)

function PbValue_loop :: "pb_frame list \<Rightarrow> builder \<Rightarrow> builder" where
  "PbValue_loop stack kb =
     (if stack = [] then kb
      else
        let (hasKey, v) = last stack;
            stack = butlast stack;
            kb = (case hasKey of Some key \<Rightarrow> EncodeString key kb | None \<Rightarrow> kb) in
        case v of
          VBool b \<Rightarrow> PbValue_loop stack (EncodeBool b kb)
        | VNull \<Rightarrow> PbValue_loop stack (EncodeNull kb)
        | VString s \<Rightarrow> PbValue_loop stack (EncodeString s kb)
        | VNumber w \<Rightarrow> PbValue_loop stack (EncodeUint64 w kb)
        | VUnset \<Rightarrow> PbValue_loop stack (EncodeUnset kb)
        | VList vals \<Rightarrow>
            PbValue_loop (stack @ rev (map (Pair None) vals)) (EncodeArrayHeader (length vals) kb)
        | VStruct flds \<Rightarrow>
            let keys = pb_keys flds in
            PbValue_loop (stack @ rev (map (\<lambda>k. (Some k, pb_lookup flds k)) keys))
              (EncodeMapHeader (length keys) kb))"
  by pat_completeness auto

definition pb_measure :: "pb_frame list \<Rightarrow> nat" where
  "pb_measure stack = sum_list (map (\<lambda>f. Suc (size (snd f))) stack)"

lemma pb_measure_last:
  "stack \<noteq> [] \<Longrightarrow> pb_measure stack = pb_measure (butlast stack) + Suc (size (snd (last stack)))"
  by (induction stack rule: rev_induct) (auto simp: pb_measure_def)

lemma pb_measure_append: "pb_measure (s @ t) = pb_measure s + pb_measure t"
  by (simp add: pb_measure_def)

lemma pb_measure_rev: "pb_measure (rev s) = pb_measure s"
  by (simp add: pb_measure_def rev_map [symmetric] sum_list_rev)

lemma pb_measure_children:
  "pb_measure (rev (map (Pair None) vs)) < Suc (size (VList vs))"
  "pb_measure (rev (map (\<lambda>k. (Some k, pb_lookup fs k)) (pb_keys fs))) < Suc (size (VStruct fs))"
  using sum_list_pb_keys [of "\<lambda>v. Suc (size v)" fs] size_list_pbstruct [where f = "\<lambda>_. 0" and fs = fs]
  by (simp_all add: pb_measure_rev) (simp_all add: pb_measure_def comp_def size_list_pbvalue)

termination PbValue_loop
proof (relation "measure (\<lambda>(stack, _). pb_measure stack)", goal_cases)
  case (7 stack kb x hasKey v stk kb' vals)
  with pb_measure_children(1) [of vals] pb_measure_last [of stack] show ?case
    by (cases "last stack") (auto simp: pb_measure_append)
next
  case (8 stack kb x hasKey v stk kb' flds ks)
  with pb_measure_children(2) [of flds] pb_measure_last [of stack] show ?case
    by (cases "last stack") (auto simp: pb_measure_append)
qed (auto simp: pb_measure_last)

declare PbValue_loop.simps [simp del]

text \<open>A \<open>nil\<close> \<open>*PbValue\<close> is \<open>None\<close>.\<close>

definition PbValue_WriteTo :: "pbvalue option \<Rightarrow> builder \<Rightarrow> builder" where
  "PbValue_WriteTo pbvalue kb =
     (case pbvalue of None \<Rightarrow> EncodeUnset kb | Some v \<Rightarrow> PbValue_loop [(None, v)] kb)"

text \<open>\<open>structpb.NewStructValue\<close> of a struct that may be \<open>nil\<close>: its fields are then the empty map.\<close>

definition NewStructValue :: "pbstruct option \<Rightarrow> pbvalue" where
  "NewStructValue s = VStruct (case s of None \<Rightarrow> [] | Some flds \<Rightarrow> flds)"

definition Tuple_WriteTo :: "tuple_key \<Rightarrow> builder \<Rightarrow> builder" where
  "Tuple_WriteTo tk kb =
     (let kb = EncodeString (tk_object tk) kb;
          kb = EncodeString (tk_relation tk) kb;
          kb = EncodeString (tk_user tk) kb in
      case tk_condition tk of
        None \<Rightarrow> kb
      | Some c \<Rightarrow> PbValue_WriteTo (Some (NewStructValue (rc_context c))) (EncodeString (rc_name c) kb))"

section \<open>Serializable values\<close>

text \<open>The types that implement \<open>Serializable\<close>, one constructor each.\<close>

datatype serializable =
    SBytes "byte list"
  | SByte byte
  | SBool bool
  | SNull
  | SUnset
  | SUint64 "64 word"
  | SString string
  | SArray "serializable list"
  | SMap "(serializable \<times> serializable) list"
  | SPair serializable serializable
  | SPbValue "pbvalue option"
  | STuple tuple_key

fun WriteTo :: "serializable \<Rightarrow> builder \<Rightarrow> builder" where
  "WriteTo (SBytes b) kb = EncodeBytes b kb"
| "WriteTo (SByte b) kb = EncodeByte b kb"
| "WriteTo (SBool b) kb = EncodeBool b kb"
| "WriteTo SNull kb = EncodeNull kb"
| "WriteTo SUnset kb = EncodeUnset kb"
| "WriteTo (SUint64 i) kb = EncodeUint64 i kb"
| "WriteTo (SString s) kb = EncodeString s kb"
| "WriteTo (SArray a) kb = fold WriteTo a (EncodeArrayHeader (length a) kb)"
| "WriteTo (SMap entries) kb =
     fold (\<lambda>e kb. WriteTo (snd e) (WriteTo (fst e) kb)) entries (EncodeMapHeader (length entries) kb)"
| "WriteTo (SPair key v) kb =
     (let kb = builder_Write [tagPair, tagKey] kb;
          kb = WriteTo key kb;
          kb = builder_Write [tagValue] kb in
      WriteTo v kb)"
| "WriteTo (SPbValue v) kb = PbValue_WriteTo v kb"
| "WriteTo (STuple t) kb = Tuple_WriteTo t kb"

definition EncodeArray :: "serializable list \<Rightarrow> builder \<Rightarrow> builder" where
  "EncodeArray a kb = fold WriteTo a (EncodeArrayHeader (length a) kb)"

definition EncodeMap :: "(serializable \<times> serializable) list \<Rightarrow> builder \<Rightarrow> builder" where
  "EncodeMap entries kb =
     fold (\<lambda>e kb. WriteTo (snd e) (WriteTo (fst e) kb)) entries (EncodeMapHeader (length entries) kb)"

definition EncodePair :: "serializable \<Rightarrow> serializable \<Rightarrow> builder \<Rightarrow> builder" where
  "EncodePair key v kb =
     WriteTo v (builder_Write [tagValue] (WriteTo key (builder_Write [tagPair, tagKey] kb)))"

definition Serialize :: "serializable \<Rightarrow> builder \<Rightarrow> builder" where
  "Serialize v kb = WriteTo v kb"

section \<open>Keys and their printed form\<close>

type_synonym key = "byte list"

definition builder_Key :: "builder \<Rightarrow> key" where
  "builder_Key kb = bdata kb"

definition hex_alphabet :: "byte list" where
  "hex_alphabet = bytes_of ''0123456789ABCDEF''"

definition hexTable :: "byte \<Rightarrow> 16 word" where
  "hexTable i =
     push_bit 8 (ucast (hex_alphabet ! unat (i AND 0x0F))) OR ucast (hex_alphabet ! unat (drop_bit 4 i))"

definition pack4 :: "byte \<Rightarrow> byte \<Rightarrow> byte \<Rightarrow> byte \<Rightarrow> 64 word" where
  "pack4 a b c d =
     ucast (hexTable a) OR push_bit 16 (ucast (hexTable b))
     OR push_bit 32 (ucast (hexTable c)) OR push_bit 48 (ucast (hexTable d))"

definition pack2 :: "byte \<Rightarrow> byte \<Rightarrow> 32 word" where
  "pack2 a b = ucast (hexTable a) OR push_bit 16 (ucast (hexTable b))"

text \<open>The loop over eight bytes at a time returns what it wrote and what is left of the source.\<close>

fun hex_loop8 :: "byte list \<Rightarrow> byte list \<times> byte list" where
  "hex_loop8 (a # b # c # d # e # f # g # h # src) =
     (case hex_loop8 src of (out, src) \<Rightarrow>
        (le_bytes 8 (pack4 a b c d) @ le_bytes 8 (pack4 e f g h) @ out, src))"
| "hex_loop8 src = ([], src)"

definition hex_step4 :: "byte list \<Rightarrow> byte list \<times> byte list" where
  "hex_step4 src =
     (case src of a # b # c # d # rest \<Rightarrow> (le_bytes 8 (pack4 a b c d), rest) | _ \<Rightarrow> ([], src))"

definition hex_tail :: "byte list \<Rightarrow> byte list" where
  "hex_tail src =
     (case src of
        [a, b, c] \<Rightarrow> le_bytes 4 (pack2 a b) @ le_bytes 2 (hexTable c)
      | [a, b] \<Rightarrow> le_bytes 4 (pack2 a b)
      | [a] \<Rightarrow> le_bytes 2 (hexTable a)
      | _ \<Rightarrow> [])"

definition Key_String :: "key \<Rightarrow> byte list" where
  "Key_String k =
     (if length k = 0 then []
      else case hex_loop8 k of (out8, src) \<Rightarrow>
           case hex_step4 src of (out4, src) \<Rightarrow> out8 @ out4 @ hex_tail src)"

section \<open>The keys of the storage layer\<close>

text \<open>
  The three \<open>copy\<close> functions fill a slice \<open>a\<close> of length \<open>n\<close> and return how much they wrote; the
  definitions return the part written.
\<close>

definition PrefixSubproblemCache :: string where "PrefixSubproblemCache = ''SP''"
definition PrefixIteratorCache :: string where "PrefixIteratorCache = ''IC''"
definition PrefixChangelogCache :: string where "PrefixChangelogCache = ''CC''"
definition PrefixInvalidIteratorCache :: string where "PrefixInvalidIteratorCache = ''IQ''"

definition object_relation_subject :: "object_relation \<Rightarrow> string" where
  "object_relation_subject rel =
     (if or_relation rel \<noteq> '''' then ToObjectRelationString (or_object rel) (or_relation rel)
      else or_object rel)"

definition copyObjectRelations :: "nat \<Rightarrow> object_relation list \<Rightarrow> serializable list" where
  "copyObjectRelations n rels =
     (if rels = [] \<or> n = 0 then []
      else map SString (take n (sort (map object_relation_subject rels))))"

definition copyConditions :: "nat \<Rightarrow> string list \<Rightarrow> serializable list" where
  "copyConditions n conditions =
     (if conditions = [] \<or> n = 0 then [] else map SString (take n (sort conditions)))"

definition relation_reference_part :: "relation_reference \<Rightarrow> string" where
  "relation_reference_part ref =
     (case rr_relation_or_wildcard ref of
        Some (RRelation r) \<Rightarrow> rr_type ref @ ''#'' @ r
      | Some RWildcard \<Rightarrow> rr_type ref @ '':*''
      | None \<Rightarrow> rr_type ref)"

definition copyRelationReferences :: "nat \<Rightarrow> relation_reference list \<Rightarrow> serializable list" where
  "copyRelationReferences n refs =
     (if refs = [] \<or> n = 0 then []
      else map SString (take n (sort (map relation_reference_part refs))))"

text \<open>The part of each filter that is hashed is built first; the key then holds its digest.\<close>

definition ReadStartingWithUser_filter_builder :: "read_starting_with_user_filter \<Rightarrow> builder" where
  "ReadStartingWithUser_filter_builder f =
     (let kb = empty_builder;
          kb = EncodeArray (copyObjectRelations (length (rsw_user_filter f)) (rsw_user_filter f)) kb;
          kb = EncodeArray (case rsw_object_ids f of None \<Rightarrow> [] | Some vs \<Rightarrow> map SString vs) kb in
      EncodeArray (copyConditions (length (rsw_conditions f)) (rsw_conditions f)) kb)"

definition ReadStartingWithUserKey ::
    "(byte list \<Rightarrow> 64 word) \<Rightarrow> string \<Rightarrow> read_starting_with_user_filter \<Rightarrow> key" where
  "ReadStartingWithUserKey sum64 store f =
     (let kb = ReadStartingWithUser_filter_builder f;
          suffix = sum64 (bdata kb);
          kb = builder_Reset kb;
          kb = EncodeString PrefixIteratorCache kb;
          kb = EncodeString ''RSWU'' kb;
          kb = EncodeString store kb;
          kb = EncodeString (rsw_object_type f) kb;
          kb = EncodeString (rsw_relation f) kb;
          kb = EncodeUint64 suffix kb in
      builder_Key kb)"

definition ReadUsersetTuples_filter_builder :: "read_userset_tuples_filter \<Rightarrow> builder" where
  "ReadUsersetTuples_filter_builder f =
     (let kb = empty_builder;
          kb = EncodeArray (copyRelationReferences (length (ruf_allowed f)) (ruf_allowed f)) kb in
      EncodeArray (copyConditions (length (ruf_conditions f)) (ruf_conditions f)) kb)"

definition ReadUsersetTuplesKey ::
    "(byte list \<Rightarrow> 64 word) \<Rightarrow> string \<Rightarrow> read_userset_tuples_filter \<Rightarrow> key" where
  "ReadUsersetTuplesKey sum64 store f =
     (let kb = ReadUsersetTuples_filter_builder f;
          suffix = sum64 (bdata kb);
          kb = builder_Reset kb;
          kb = EncodeString PrefixIteratorCache kb;
          kb = EncodeString ''RUT'' kb;
          kb = EncodeString store kb;
          kb = EncodeString (ruf_object f) kb;
          kb = EncodeString (ruf_relation f) kb;
          kb = EncodeUint64 suffix kb in
      builder_Key kb)"

definition Read_filter_builder :: "read_filter \<Rightarrow> builder" where
  "Read_filter_builder f =
     EncodeArray (copyConditions (length (rf_conditions f)) (rf_conditions f)) empty_builder"

definition ReadKey :: "(byte list \<Rightarrow> 64 word) \<Rightarrow> string \<Rightarrow> read_filter \<Rightarrow> key" where
  "ReadKey sum64 store f =
     (let kb = Read_filter_builder f;
          suffix = sum64 (bdata kb);
          kb = builder_Reset kb;
          kb = EncodeString PrefixIteratorCache kb;
          kb = EncodeString ''READ'' kb;
          kb = EncodeString store kb;
          kb = EncodeString (rf_object f) kb;
          kb = EncodeString (rf_relation f) kb;
          kb = EncodeString (rf_user f) kb;
          kb = EncodeUint64 suffix kb in
      builder_Key kb)"

definition ChangelogCacheKey :: "string \<Rightarrow> key" where
  "ChangelogCacheKey storeID =
     builder_Key (EncodeString storeID (EncodeString PrefixChangelogCache empty_builder))"

definition InvalidIteratorCacheKey :: "string \<Rightarrow> key" where
  "InvalidIteratorCacheKey storeID =
     builder_Key (EncodeString storeID (EncodeString PrefixInvalidIteratorCache empty_builder))"

definition InvalidIteratorByObjectRelationCacheKey :: "string \<Rightarrow> string \<Rightarrow> string \<Rightarrow> key" where
  "InvalidIteratorByObjectRelationCacheKey storeID object relation =
     (let kb = EncodeString PrefixInvalidIteratorCache empty_builder;
          kb = EncodeString ''OR'' kb;
          kb = EncodeString storeID kb;
          kb = EncodeString object kb;
          kb = EncodeString relation kb in
      builder_Key kb)"

definition InvalidIteratorByUserObjectTypeCacheKey :: "string \<Rightarrow> string \<Rightarrow> string \<Rightarrow> key" where
  "InvalidIteratorByUserObjectTypeCacheKey storeID user objectType =
     (let kb = EncodeString PrefixInvalidIteratorCache empty_builder;
          kb = EncodeString ''UOT'' kb;
          kb = EncodeString storeID kb;
          kb = EncodeString user kb;
          kb = EncodeString objectType kb in
      builder_Key kb)"

definition CheckCacheKey :: "string \<Rightarrow> string \<Rightarrow> string \<Rightarrow> string \<Rightarrow> 64 word \<Rightarrow> key" where
  "CheckCacheKey storeID object relation user invariant =
     (let kb = EncodeString PrefixSubproblemCache empty_builder;
          kb = EncodeString storeID kb;
          kb = EncodeString object kb;
          kb = EncodeString relation kb;
          kb = EncodeString user kb;
          kb = EncodeUint64 invariant kb in
      builder_Key kb)"

text \<open>
  \<open>sort.Sort\<close> on tuple keys.  For up to twelve elements it is the insertion sort below, which moves
  an element to the left as long as \<open>Less\<close> holds (the sorted prefix is kept reversed).  On longer
  slices the library may order tuples with equal object, relation, user and condition name
  differently; on tuples that differ in these fields the result is the same.
\<close>

fun insert_left :: "tuple_key \<Rightarrow> tuple_key list \<Rightarrow> tuple_key list" where
  "insert_left x [] = [x]"
| "insert_left x (y # ys) = (if Less x y then y # insert_left x ys else x # y # ys)"

definition sort_tuples :: "tuple_key list \<Rightarrow> tuple_key list" where
  "sort_tuples ts = rev (fold insert_left ts [])"

definition invariant_builder ::
    "string \<Rightarrow> string \<Rightarrow> pbstruct option \<Rightarrow> tuple_key list \<Rightarrow> builder" where
  "invariant_builder storeID modelID ctx contextualTuples =
     (let kb = EncodeString storeID empty_builder;
          kb = EncodeString modelID kb;
          kb = EncodeArray (map STuple (sort_tuples contextualTuples)) kb in
      Serialize (SPbValue (Some (NewStructValue ctx))) kb)"

definition InvariantCacheKey ::
    "(byte list \<Rightarrow> 64 word) \<Rightarrow> string \<Rightarrow> string \<Rightarrow> pbstruct option \<Rightarrow> tuple_key list \<Rightarrow> 64 word" where
  "InvariantCacheKey sum64 storeID modelID ctx contextualTuples =
     sum64 (bdata (invariant_builder storeID modelID ctx contextualTuples))"

end
