(* ===== verification/KeyEncoding.thy ===== *)
theory KeyEncoding
  imports Keys
begin

text \<open>
  The encoding of cache keys is unambiguous.  Every \<open>Encode\<close> method appends the encoding of one
  token; token encodings are prefix-free, so a byte sequence determines the tokens it was built
  from, and the token sequences of protobuf values, tuples and filters determine the values (up to
  the order of map fields, which the encoder sorts).  Lengths are Go \<open>int\<close>s, hence below \<open>2 ^ 63\<close>.
\<close>

section \<open>Variable-length integers\<close>

definition uvarint :: "64 word \<Rightarrow> byte list" where
  "uvarint x = AppendUvarint [] x"

lemma AppendUvarint_append: "AppendUvarint buf x = buf @ uvarint x"
proof -
  have "AppendUvarint (buf @ b) x = buf @ AppendUvarint b x" for buf b
    by (induction b x rule: AppendUvarint.induct) (subst (1 2) AppendUvarint.simps, simp)
  from this [of buf "[]"] show ?thesis by (simp add: uvarint_def)
qed

lemma uvarint_rec:
  "uvarint x = (if x \<ge> 0x80 then (ucast x OR 0x80) # uvarint (drop_bit 7 x) else [ucast x])"
  by (subst uvarint_def, subst AppendUvarint.simps) (simp add: AppendUvarint_append [of "[_]"])

lemma uvarint_not_Nil [simp]: "uvarint x \<noteq> []"
  by (cases "x \<ge> 0x80") (simp_all add: uvarint_rec [of x])

lemma bit_0x80: "bit (0x80 :: 8 word) n \<longleftrightarrow> n = 7"
proof -
  have "(0x80 :: 8 word) = 2 ^ 7" by simp
  then show ?thesis by (simp only: bit_exp_iff) auto
qed

lemma small_word_no_bit7: "y < 0x80 \<Longrightarrow> \<not> bit (y :: 64 word) 7"
  by (simp add: bit_iff_odd word_less_nat_alt word_arith_nat_div)

lemma ucast_small_eq:
  fixes x y :: "64 word"
  assumes "x < 0x80" "y < 0x80" "ucast x = (ucast y :: 8 word)"
  shows "x = y"
proof -
  have "unat (ucast x :: 8 word) = unat x" "unat (ucast y :: 8 word) = unat y"
    using assms(1,2) by (simp_all add: unsigned_ucast_eq take_bit_eq_mod word_less_nat_alt)
  with assms(3) show ?thesis by (simp add: word_unat_eq_iff)
qed

lemma uvarint_prefix: "uvarint x @ u = uvarint y @ v \<Longrightarrow> x = y \<and> u = v"
proof (induction "unat x" arbitrary: x y rule: less_induct)
  case less
  note eq = less.prems
  consider "x \<ge> 0x80" "y \<ge> 0x80" | "x < 0x80" "y < 0x80" | "x \<ge> 0x80" "y < 0x80" | "x < 0x80" "y \<ge> 0x80"
    by force
  then show ?case
  proof cases
    case 1
    with eq have head: "ucast x OR 0x80 = (ucast y OR 0x80 :: 8 word)"
      and tail: "uvarint (drop_bit 7 x) @ u = uvarint (drop_bit 7 y) @ v"
      by (simp_all add: uvarint_rec [of x] uvarint_rec [of y])
    have "unat (drop_bit 7 x) < unat x"
      using 1(1) by (simp add: drop_bit_eq_div unat_div word_le_nat_alt)
    from less.hyps [OF this tail] have drop: "drop_bit 7 x = drop_bit 7 y" and "u = v" by auto
    have "bit x n = bit y n" if "n < 64" for n
    proof (cases "n < 7")
      case True
      have "bit (ucast x OR 0x80 :: 8 word) n = bit (ucast y OR 0x80 :: 8 word) n"
        using head by simp
      with True show ?thesis by (simp only: bit_or_iff bit_0x80 bit_ucast_iff) simp
    next
      case False
      have "bit (drop_bit 7 x) (n - 7) = bit (drop_bit 7 y) (n - 7)" using drop by simp
      with False show ?thesis by (simp add: bit_drop_bit_eq)
    qed
    then have "x = y" by (intro bit_word_eqI) simp
    with \<open>u = v\<close> show ?thesis by simp
  next
    case 2
    with eq ucast_small_eq [of x y] show ?thesis
      by (simp add: uvarint_rec [of x] uvarint_rec [of y] not_le [symmetric])
  next
    case 3
    with eq have "ucast x OR 0x80 = (ucast y :: 8 word)"
      by (simp add: uvarint_rec [of x] uvarint_rec [of y] not_le [symmetric])
    then have "bit (ucast x OR 0x80 :: 8 word) 7 = bit (ucast y :: 8 word) 7" by simp
    with small_word_no_bit7 [of y] 3 show ?thesis by (simp add: bit_or_iff bit_0x80 bit_ucast_iff)
  next
    case 4
    with eq have "ucast x = (ucast y OR 0x80 :: 8 word)"
      by (simp add: uvarint_rec [of x] uvarint_rec [of y] not_le [symmetric])
    then have "bit (ucast x :: 8 word) 7 = bit (ucast y OR 0x80 :: 8 word) 7" by simp
    with small_word_no_bit7 [of x] 4 show ?thesis by (simp add: bit_or_iff bit_0x80 bit_ucast_iff)
  qed
qed

section \<open>Fixed-width integers and strings\<close>

lemma length_le_bytes [simp]: "length (le_bytes n w) = n"
  by (simp add: le_bytes_def)

lemma le_bytes_inj:
  fixes x y :: "'a::len word"
  assumes "le_bytes n x = le_bytes n y" and "LENGTH('a) = 8 * n"
  shows "x = y"
proof (rule bit_word_eqI)
  fix i assume "i < LENGTH('a)"
  then have k: "i div 8 < n" using assms(2) by simp
  from assms(1) have "le_bytes n x ! (i div 8) = le_bytes n y ! (i div 8)" by simp
  with k have "ucast (drop_bit (8 * (i div 8)) x) = (ucast (drop_bit (8 * (i div 8)) y) :: 8 word)"
    by (simp add: le_bytes_def)
  then have "bit (ucast (drop_bit (8 * (i div 8)) x) :: 8 word) (i mod 8)
      = bit (ucast (drop_bit (8 * (i div 8)) y) :: 8 word) (i mod 8)" by simp
  then show "bit x i = bit y i"
    by (simp add: bit_ucast_iff bit_drop_bit_eq)
qed

lemma inj_bytes_of: "bytes_of s = bytes_of t \<Longrightarrow> s = t"
proof -
  have "inj (of_char :: char \<Rightarrow> 8 word)"
  proof (rule injI)
    fix c d :: char assume "of_char c = (of_char d :: 8 word)"
    then have "unat (of_nat (of_char c) :: 8 word) = unat (of_nat (of_char d) :: 8 word)"
      by (simp only: of_nat_of_char)
    then have "of_char c mod (2 :: nat) ^ 8 = of_char d mod 2 ^ 8"
      unfolding unat_of_nat by simp
    then show "c = d"
      using nat_of_char_less_256 [of c] nat_of_char_less_256 [of d] by simp
  qed
  then show "bytes_of s = bytes_of t \<Longrightarrow> s = t"
    by (simp add: bytes_of_def inj_map_eq_map)
qed

lemma length_bytes_of [simp]: "length (bytes_of s) = length s"
  by (simp add: bytes_of_def)

section \<open>Tokens\<close>

abbreviation go_len :: "'a list \<Rightarrow> bool" where
  "go_len xs \<equiv> length xs < 2 ^ 63"

datatype token =
    TNull
  | TByte byte
  | TBool bool
  | TUint64 "64 word"
  | TString string
  | TBytes "byte list"
  | TArray "64 word"
  | TMap "64 word"
  | TPair
  | TKey
  | TValue
  | TUnset

fun enc_tok :: "token \<Rightarrow> byte list" where
  "enc_tok TNull = [tagNull]"
| "enc_tok (TByte b) = [tagByte, b]"
| "enc_tok (TBool b) = [tagBool, if b then 1 else 0]"
| "enc_tok (TUint64 w) = tagUint64 # le_bytes 8 w"
| "enc_tok (TString s) = tagString # uvarint (of_nat (length s)) @ bytes_of s"
| "enc_tok (TBytes s) = tagBytes # uvarint (of_nat (length s)) @ s"
| "enc_tok (TArray n) = tagArray # uvarint n"
| "enc_tok (TMap n) = tagMap # uvarint n"
| "enc_tok TPair = [tagPair]"
| "enc_tok TKey = [tagKey]"
| "enc_tok TValue = [tagValue]"
| "enc_tok TUnset = [tagUnset]"

fun tok_fits :: "token \<Rightarrow> bool" where
  "tok_fits (TString s) = go_len s"
| "tok_fits (TBytes s) = go_len s"
| "tok_fits _ = True"

definition emit :: "token list \<Rightarrow> builder \<Rightarrow> builder" where
  "emit ts kb = kb\<lparr>bdata := bdata kb @ concat (map enc_tok ts)\<rparr>"

lemma emit_Nil [simp]: "emit [] kb = kb"
  by (simp add: emit_def)

lemma emit_emit [simp]: "emit ts (emit us kb) = emit (us @ ts) kb"
  by (simp add: emit_def)

lemma bdata_emit [simp]: "bdata (emit ts kb) = bdata kb @ concat (map enc_tok ts)"
  by (simp add: emit_def)

lemma encode_emit:
  "EncodeBytes b kb = emit [TBytes b] kb" "EncodeByte c kb = emit [TByte c] kb"
  "EncodeNull kb = emit [TNull] kb" "EncodeUnset kb = emit [TUnset] kb"
  "EncodeString s kb = emit [TString s] kb" "EncodeBool d kb = emit [TBool d] kb"
  "EncodeUint64 w kb = emit [TUint64 w] kb"
  "EncodeArrayHeader n kb = emit [TArray (of_nat n)] kb"
  "EncodeMapHeader n kb = emit [TMap (of_nat n)] kb"
  "builder_Write [tagPair, tagKey] kb = emit [TPair, TKey] kb"
  "builder_Write [tagValue] kb = emit [TValue] kb"
  by (simp_all add: emit_def EncodeBytes_def EncodeByte_def EncodeNull_def EncodeUnset_def
      EncodeString_def EncodeBool_def EncodeUint64_def EncodeArrayHeader_def EncodeMapHeader_def
      builder_Write_def AppendUvarint_append)

lemmas tag_defs = tagNull_def tagByte_def tagBool_def tagUint64_def tagString_def tagBytes_def
  tagArray_def tagMap_def tagPair_def tagKey_def tagValue_def tagUnset_def

lemma go_len_of_nat_eq:
  assumes "m < 2 ^ 63" "n < 2 ^ 63" and "(of_nat m :: 64 word) = of_nat n"
  shows "m = n"
proof -
  have fits: "unat (of_nat k :: 64 word) = k" if "k < 2 ^ 63" for k
  proof (rule of_nat_inverse [OF refl])
    have "(2 :: nat) ^ 63 < 2 ^ LENGTH(64)" by simp
    with that show "k < 2 ^ LENGTH(64)" by (rule less_trans)
  qed
  show ?thesis using fits [OF assms(1)] fits [OF assms(2)] assms(3) by metis
qed

lemma counted_prefix:
  assumes "uvarint (of_nat (length a)) @ a @ u = uvarint (of_nat (length b)) @ b @ v"
    and "length a < 2 ^ 63" "length b < 2 ^ 63"
  shows "a = b \<and> u = v"
proof -
  from uvarint_prefix [OF assms(1)]
  have "(of_nat (length a) :: 64 word) = of_nat (length b)" and tail: "a @ u = b @ v" by auto
  with assms(2,3) have "length a = length b" by (blast intro: go_len_of_nat_eq)
  with tail show ?thesis by simp
qed

lemma enc_tok_prefix:
  assumes "enc_tok a @ u = enc_tok b @ v" and "tok_fits a" "tok_fits b"
  shows "a = b \<and> u = v"
proof (cases a)
  case (TUint64 x)
  then obtain y where b: "b = TUint64 y" using assms by (cases b) (simp_all add: tag_defs)
  with TUint64 assms have "le_bytes 8 x @ u = le_bytes 8 y @ v" by simp
  then have "le_bytes 8 x = le_bytes 8 y \<and> u = v" by (subst (asm) append_eq_append_conv) auto
  with TUint64 b le_bytes_inj [of 8 x y] show ?thesis by simp
next
  case (TString s)
  then obtain t where b: "b = TString t" using assms by (cases b) (simp_all add: tag_defs)
  with TString assms have "uvarint (of_nat (length (bytes_of s))) @ bytes_of s @ u
      = uvarint (of_nat (length (bytes_of t))) @ bytes_of t @ v" by simp
  from counted_prefix [OF this] TString b assms(2,3) inj_bytes_of [of s t] show ?thesis by simp
next
  case (TBytes s)
  then obtain t where "b = TBytes t" using assms by (cases b) (simp_all add: tag_defs)
  with TBytes assms counted_prefix [of s u t v] show ?thesis by simp
next
  case (TArray m)
  then obtain n where "b = TArray n" using assms by (cases b) (simp_all add: tag_defs)
  with TArray assms uvarint_prefix [of m u n v] show ?thesis by simp
next
  case (TMap m)
  then obtain n where "b = TMap n" using assms by (cases b) (simp_all add: tag_defs)
  with TMap assms uvarint_prefix [of m u n v] show ?thesis by simp
qed (use assms in \<open>cases b; simp add: tag_defs split: if_splits\<close>)+

lemma enc_tok_not_Nil [simp]: "enc_tok t \<noteq> []"
  by (cases t) simp_all

lemma enc_toks_inj:
  "concat (map enc_tok ts) = concat (map enc_tok us) \<Longrightarrow> list_all tok_fits ts \<Longrightarrow> list_all tok_fits us
   \<Longrightarrow> ts = us"
proof (induction ts arbitrary: us)
  case Nil
  then show ?case by (cases us) auto
next
  case (Cons t ts)
  then obtain u us' where us: "us = u # us'" by (cases us) auto
  with Cons.prems enc_tok_prefix [of t "concat (map enc_tok ts)" u "concat (map enc_tok us')"]
  have "t = u" "concat (map enc_tok ts) = concat (map enc_tok us')" by auto
  with Cons us show ?case by simp
qed

section \<open>Protobuf values\<close>

lemma size_pb_lookup:
  assumes "k \<in> set (pb_keys fs)"
  shows "size (pb_lookup fs k) < size (VStruct fs)"
proof -
  have "size (pb_lookup fs k) < sum_list (map (\<lambda>k. Suc (size (pb_lookup fs k))) (pb_keys fs))"
    using member_le_sum_list [of "Suc (size (pb_lookup fs k))"
        "map (\<lambda>k. Suc (size (pb_lookup fs k))) (pb_keys fs)"] assms
    by simp
  also have "\<dots> \<le> sum_list (map (\<lambda>(k, v). Suc (size v)) fs)"
    by (rule sum_list_pb_keys)
  also have "\<dots> \<le> size_list (size_prod (\<lambda>_. 0) size) fs" by (rule size_list_pbstruct)
  finally show ?thesis by simp
qed

lemma size_pb_member: "v \<in> set vs \<Longrightarrow> size v < size (VList vs)"
  using size_list_estimation' [of v vs "size v" size] by simp

text \<open>The tokens of a value, by recursion, and its normal form: map fields sorted by key.\<close>

function pb_tokens :: "pbvalue \<Rightarrow> token list" where
  "pb_tokens VUnset = [TUnset]"
| "pb_tokens VNull = [TNull]"
| "pb_tokens (VBool b) = [TBool b]"
| "pb_tokens (VNumber w) = [TUint64 w]"
| "pb_tokens (VString s) = [TString s]"
| "pb_tokens (VList vs) = TArray (of_nat (length vs)) # concat (map pb_tokens vs)"
| "pb_tokens (VStruct fs) =
     TMap (of_nat (length (pb_keys fs)))
     # concat (map (\<lambda>k. TString k # pb_tokens (pb_lookup fs k)) (pb_keys fs))"
  by pat_completeness auto
termination
  by (relation "measure size") (auto dest: size_pb_lookup size_pb_member)

function pb_norm :: "pbvalue \<Rightarrow> pbvalue" where
  "pb_norm VUnset = VUnset"
| "pb_norm VNull = VNull"
| "pb_norm (VBool b) = VBool b"
| "pb_norm (VNumber w) = VNumber w"
| "pb_norm (VString s) = VString s"
| "pb_norm (VList vs) = VList (map pb_norm vs)"
| "pb_norm (VStruct fs) = VStruct (map (\<lambda>k. (k, pb_norm (pb_lookup fs k))) (pb_keys fs))"
  by pat_completeness auto
termination
  by (relation "measure size") (auto dest: size_pb_lookup size_pb_member)

function pb_fits :: "pbvalue \<Rightarrow> bool" where
  "pb_fits VUnset = True"
| "pb_fits VNull = True"
| "pb_fits (VBool b) = True"
| "pb_fits (VNumber w) = True"
| "pb_fits (VString s) = go_len s"
| "pb_fits (VList vs) = (go_len vs \<and> list_all pb_fits vs)"
| "pb_fits (VStruct fs) =
     (go_len (pb_keys fs) \<and> list_all (\<lambda>k. go_len k \<and> pb_fits (pb_lookup fs k)) (pb_keys fs))"
  by pat_completeness auto
termination
  by (relation "measure size") (auto dest: size_pb_lookup size_pb_member)

definition frame_tokens :: "pb_frame \<Rightarrow> token list" where
  "frame_tokens f = (case fst f of Some k \<Rightarrow> [TString k] | None \<Rightarrow> []) @ pb_tokens (snd f)"

lemma frame_tokens_simps [simp]:
  "frame_tokens (None, v) = pb_tokens v" "frame_tokens (Some k, v) = TString k # pb_tokens v"
  by (simp_all add: frame_tokens_def)

lemma PbValue_loop_emit:
  "PbValue_loop stack kb = emit (concat (map frame_tokens (rev stack))) kb"
proof (induction "pb_measure stack" arbitrary: stack kb rule: less_induct)
  case less
  show ?case
  proof (cases "stack = []")
    case True
    then show ?thesis by (simp add: PbValue_loop.simps [of "[]"])
  next
    case False
    then obtain st k v where stack: "stack = st @ [(k, v)]"
      by (metis append_butlast_last_id surj_pair)
    let ?k = "case k of Some s \<Rightarrow> [TString s] | None \<Rightarrow> []"
    have kb: "(case k of Some key \<Rightarrow> EncodeString key kb | None \<Rightarrow> kb) = emit ?k kb"
      by (simp add: encode_emit split: option.split)
    have m: "pb_measure stack = pb_measure st + Suc (size v)"
      by (simp add: stack pb_measure_def)
    have IH: "PbValue_loop (st @ s) kb' = emit (concat (map frame_tokens (rev (st @ s)))) kb'"
      if "pb_measure s < Suc (size v)" for s kb'
      using that by (intro less) (simp add: m pb_measure_append)
    have [simp]: "pb_measure [] = 0" by (simp add: pb_measure_def)
    note IH0 = IH [of "[]", simplified]
    note step = PbValue_loop.simps [of "st @ [(k, v)]" kb]
    show ?thesis
    proof (cases v)
      case (VList vs)
      with IH [of "rev (map (Pair None) vs)"] pb_measure_children(1) [of vs] show ?thesis
        by (simp add: stack step [unfolded VList] kb encode_emit frame_tokens_def rev_map [symmetric] comp_def)
    next
      case (VStruct fs)
      with IH [of "rev (map (\<lambda>k. (Some k, pb_lookup fs k)) (pb_keys fs))"]
        pb_measure_children(2) [of fs] show ?thesis
        by (simp add: stack step [unfolded VStruct] kb encode_emit frame_tokens_def rev_map [symmetric] comp_def Let_def)
    qed (use step in \<open>simp_all add: stack kb encode_emit frame_tokens_def IH0\<close>)
  qed
qed

lemma pb_tokens_prefix:
  "pb_tokens v @ r = pb_tokens v' @ r' \<Longrightarrow> pb_fits v \<Longrightarrow> pb_fits v' \<Longrightarrow> pb_norm v = pb_norm v' \<and> r = r'"
proof (induction v arbitrary: v' r r' rule: pb_tokens.induct)
  case (6 vs)
  then obtain vs' where v': "v' = VList vs'" by (cases v') auto
  with 6 have len: "length vs = length vs'" by (auto intro: go_len_of_nat_eq)
  have "map pb_norm vs = map pb_norm vs' \<and> r = r'"
  proof (rule concat_map_unique [OF len])
    show "concat (map pb_tokens vs) @ r = concat (map pb_tokens vs') @ r'" using 6 v' by simp
  next
    fix x y s s' assume "x \<in> set vs" "y \<in> set vs'" and eq: "pb_tokens x @ s = pb_tokens y @ s'"
    with 6(3,4) v' have "pb_fits x" "pb_fits y" by (simp_all add: list_all_iff)
    with 6(1) [OF \<open>x \<in> set vs\<close> eq] show "pb_norm x = pb_norm y \<and> s = s'" by simp
  qed
  with v' show ?case by simp
next
  case (7 fs)
  then obtain fs' where v': "v' = VStruct fs'" by (cases v') auto
  with 7 have len: "length (pb_keys fs) = length (pb_keys fs')" by (auto intro: go_len_of_nat_eq)
  let ?p = "\<lambda>fs k. (k, pb_lookup fs k)"
  let ?f = "\<lambda>(k, v). TString k # pb_tokens v"
  have "map (\<lambda>(k, v). (k, pb_norm v)) (map (?p fs) (pb_keys fs))
      = map (\<lambda>(k, v). (k, pb_norm v)) (map (?p fs') (pb_keys fs')) \<and> r = r'"
  proof (rule concat_map_unique)
    show "concat (map ?f (map (?p fs) (pb_keys fs))) @ r
        = concat (map ?f (map (?p fs') (pb_keys fs'))) @ r'" using 7 v' by (simp add: comp_def)
    show "length (map (?p fs) (pb_keys fs)) = length (map (?p fs') (pb_keys fs'))" using len by simp
  next
    fix x y s s' assume x: "x \<in> set (map (?p fs) (pb_keys fs))" and y: "y \<in> set (map (?p fs') (pb_keys fs'))"
      and eq: "?f x @ s = ?f y @ s'"
    from x y obtain k k' where "k \<in> set (pb_keys fs)" "k' \<in> set (pb_keys fs')"
      "x = (k, pb_lookup fs k)" "y = (k', pb_lookup fs' k')" unfolding set_map by blast
    with eq have k: "k \<in> set (pb_keys fs)" "k \<in> set (pb_keys fs')"
      "x = (k, pb_lookup fs k)" "y = (k, pb_lookup fs' k)" by simp_all
    with 7(3,4) v' have "pb_fits (pb_lookup fs k)" "pb_fits (pb_lookup fs' k)"
      by (simp_all add: list_all_iff)
    with 7(1) [OF k(1), of s "pb_lookup fs' k" s'] eq k
    show "(case x of (k, v) \<Rightarrow> (k, pb_norm v)) = (case y of (k, v) \<Rightarrow> (k, pb_norm v)) \<and> s = s'" by simp
  qed
  with v' show ?case by (simp add: comp_def)
next
  case 1 then show ?case by (cases v') auto
next
  case 2 then show ?case by (cases v') auto
next
  case 3 then show ?case by (cases v') auto
next
  case 4 then show ?case by (cases v') auto
next
  case 5 then show ?case by (cases v') auto
qed

section \<open>Serializable values and tuples\<close>

definition tuple_tokens :: "tuple_key \<Rightarrow> token list" where
  "tuple_tokens t =
     TString (tk_object t) # TString (tk_relation t) # TString (tk_user t)
     # (case tk_condition t of None \<Rightarrow> []
        | Some c \<Rightarrow> TString (rc_name c) # pb_tokens (NewStructValue (rc_context c)))"

fun tokens_of :: "serializable \<Rightarrow> token list" where
  "tokens_of (SBytes b) = [TBytes b]"
| "tokens_of (SByte b) = [TByte b]"
| "tokens_of (SBool b) = [TBool b]"
| "tokens_of SNull = [TNull]"
| "tokens_of SUnset = [TUnset]"
| "tokens_of (SUint64 i) = [TUint64 i]"
| "tokens_of (SString s) = [TString s]"
| "tokens_of (SArray a) = TArray (of_nat (length a)) # concat (map tokens_of a)"
| "tokens_of (SMap es) =
     TMap (of_nat (length es)) # concat (map (\<lambda>e. tokens_of (fst e) @ tokens_of (snd e)) es)"
| "tokens_of (SPair k v) = TPair # TKey # tokens_of k @ TValue # tokens_of v"
| "tokens_of (SPbValue v) = (case v of None \<Rightarrow> [TUnset] | Some x \<Rightarrow> pb_tokens x)"
| "tokens_of (STuple t) = tuple_tokens t"

lemma PbValue_WriteTo_emit:
  "PbValue_WriteTo v kb = emit (case v of None \<Rightarrow> [TUnset] | Some x \<Rightarrow> pb_tokens x) kb"
  by (simp add: PbValue_WriteTo_def encode_emit PbValue_loop_emit split: option.split)

lemma Tuple_WriteTo_emit: "Tuple_WriteTo t kb = emit (tuple_tokens t) kb"
  by (simp add: Tuple_WriteTo_def tuple_tokens_def encode_emit PbValue_WriteTo_emit Let_def
      split: option.split)

lemma fold_emit:
  "(\<And>x kb. x \<in> set xs \<Longrightarrow> f x kb = emit (g x) kb) \<Longrightarrow> fold f xs kb = emit (concat (map g xs)) kb"
  by (induction xs arbitrary: kb) simp_all

lemma WriteTo_emit: "WriteTo v kb = emit (tokens_of v) kb"
proof (induction v arbitrary: kb rule: tokens_of.induct)
  case (8 a)
  then show ?case by (simp add: encode_emit fold_emit [where g = tokens_of])
next
  case (9 es)
  have "fold (\<lambda>e kb. WriteTo (snd e) (WriteTo (fst e) kb)) es kb'
      = emit (concat (map (\<lambda>e. tokens_of (fst e) @ tokens_of (snd e)) es)) kb'" for kb'
    by (rule fold_emit) (simp add: 9)
  then show ?case by (simp add: encode_emit)
qed (simp_all add: encode_emit PbValue_WriteTo_emit Tuple_WriteTo_emit Let_def)

lemma EncodeArray_emit:
  "EncodeArray a kb = emit (TArray (of_nat (length a)) # concat (map tokens_of a)) kb"
  by (simp add: EncodeArray_def encode_emit fold_emit [where g = tokens_of] WriteTo_emit)

text \<open>What the encoding of a tuple keeps: everything but the order of context fields.\<close>

definition tuple_norm ::
    "tuple_key \<Rightarrow> string \<times> string \<times> string \<times> (string \<times> pbvalue) option" where
  "tuple_norm t =
     (tk_object t, tk_relation t, tk_user t,
      map_option (\<lambda>c. (rc_name c, pb_norm (NewStructValue (rc_context c)))) (tk_condition t))"

definition tuple_fits :: "tuple_key \<Rightarrow> bool" where
  "tuple_fits t \<longleftrightarrow> go_len (tk_object t) \<and> go_len (tk_relation t) \<and> go_len (tk_user t)
     \<and> (case tk_condition t of None \<Rightarrow> True
        | Some c \<Rightarrow> go_len (rc_name c) \<and> pb_fits (NewStructValue (rc_context c)))"

lemma NewStructValue_tokens: "\<exists>n r. pb_tokens (NewStructValue c) = TMap n # r"
  by (simp add: NewStructValue_def)

lemma pb_tokens_fit: "pb_fits v \<Longrightarrow> list_all tok_fits (pb_tokens v)"
  by (induction v rule: pb_tokens.induct) (auto simp: list_all_iff)

lemma tuple_tokens_fit: "tuple_fits t \<Longrightarrow> list_all tok_fits (tuple_tokens t)"
  by (auto simp: tuple_fits_def tuple_tokens_def pb_tokens_fit split: option.splits)

lemma tuples_no_map:
  "TString nm # TMap m # s \<noteq> concat (map tuple_tokens us) @ TMap n # r"
  by (cases us) (simp_all add: tuple_tokens_def)

lemma tuples_tokens_prefix:
  "length ts = length us \<Longrightarrow> list_all tuple_fits ts \<Longrightarrow> list_all tuple_fits us \<Longrightarrow>
   concat (map tuple_tokens ts) @ TMap m # r = concat (map tuple_tokens us) @ TMap n # r' \<Longrightarrow>
   map tuple_norm ts = map tuple_norm us \<and> TMap m # r = TMap n # r'"
proof (induction ts us rule: list_induct2)
  case (Cons t ts u us)
  have same: "tk_object t = tk_object u" "tk_relation t = tk_relation u" "tk_user t = tk_user u"
    using Cons.prems by (auto simp: tuple_tokens_def)
  show ?case
  proof (cases "tk_condition t"; cases "tk_condition u")
    assume "tk_condition t = None" "tk_condition u = None"
    with Cons same show ?thesis by (simp add: tuple_tokens_def tuple_norm_def)
  next
    fix c assume c: "tk_condition t = None" "tk_condition u = Some c"
    obtain k s where "pb_tokens (NewStructValue (rc_context c)) = TMap k # s"
      using NewStructValue_tokens by blast
    with Cons.prems(3) c
    have "TString (rc_name c) # TMap k # s @ concat (map tuple_tokens us) @ TMap n # r'
        = concat (map tuple_tokens ts) @ TMap m # r"
      by (simp add: tuple_tokens_def [of t] tuple_tokens_def [of u])
    with tuples_no_map show ?thesis by blast
  next
    fix c assume c: "tk_condition t = Some c" "tk_condition u = None"
    obtain k s where "pb_tokens (NewStructValue (rc_context c)) = TMap k # s"
      using NewStructValue_tokens by blast
    with Cons.prems(3) c
    have "TString (rc_name c) # TMap k # s @ concat (map tuple_tokens ts) @ TMap m # r
        = concat (map tuple_tokens us) @ TMap n # r'"
      by (simp add: tuple_tokens_def [of t] tuple_tokens_def [of u])
    with tuples_no_map show ?thesis by blast
  next
    fix c d assume c: "tk_condition t = Some c" "tk_condition u = Some d"
    with Cons.prems have "rc_name c = rc_name d"
      and eq: "pb_tokens (NewStructValue (rc_context c)) @ concat (map tuple_tokens ts) @ TMap m # r
        = pb_tokens (NewStructValue (rc_context d)) @ concat (map tuple_tokens us) @ TMap n # r'"
      by (simp_all add: tuple_tokens_def [of t] tuple_tokens_def [of u])
    moreover have "pb_fits (NewStructValue (rc_context c))" "pb_fits (NewStructValue (rc_context d))"
      using Cons.prems c by (simp_all add: tuple_fits_def)
    note pb_tokens_prefix [OF eq this]
    ultimately show ?thesis using Cons c same by (simp add: tuple_norm_def)
  qed
qed simp

section \<open>The request invariant\<close>

lemma mset_insert_left: "mset (insert_left x ys) = add_mset x (mset ys)"
  by (induction ys) auto

lemma set_insert_left [simp]: "set (insert_left x ys) = insert x (set ys)"
  using mset_insert_left [of x ys] by (metis set_mset_add_mset_insert set_mset_mset)

lemma sorted_insert_left:
  "sorted_wrt (\<lambda>a b. tuple_order_key b \<le> tuple_order_key a) ys \<Longrightarrow>
   sorted_wrt (\<lambda>a b. tuple_order_key b \<le> tuple_order_key a) (insert_left x ys)"
  by (induction ys) (auto simp: Less_iff)

lemma mset_sort_tuples [simp]: "mset (sort_tuples ts) = mset ts"
proof -
  have "mset (fold insert_left ts acc) = mset ts + mset acc" for acc
    by (induction ts arbitrary: acc) (simp_all add: mset_insert_left)
  then show ?thesis by (simp add: sort_tuples_def)
qed

lemma length_sort_tuples [simp]: "length (sort_tuples ts) = length ts"
  by (metis mset_sort_tuples size_mset)

lemma set_sort_tuples [simp]: "set (sort_tuples ts) = set ts"
  by (metis mset_sort_tuples set_mset_mset)

lemma sorted_sort_tuples: "sorted (map tuple_order_key (sort_tuples ts))"
proof -
  have "sorted_wrt (\<lambda>a b. tuple_order_key b \<le> tuple_order_key a) (fold insert_left ts acc)"
    if "sorted_wrt (\<lambda>a b. tuple_order_key b \<le> tuple_order_key a) acc" for acc
    using that by (induction ts arbitrary: acc) (simp_all add: sorted_insert_left)
  then show ?thesis by (simp add: sort_tuples_def sorted_wrt_map sorted_wrt_rev)
qed

lemma sort_tuples_eq_sort_key:
  "inj_on tuple_order_key (set ts) \<Longrightarrow> sort_tuples ts = sort_key tuple_order_key ts"
  by (rule sort_key_inj_key_eq [symmetric]) (simp_all add: sorted_sort_tuples)

definition request_fits :: "string \<Rightarrow> string \<Rightarrow> pbstruct option \<Rightarrow> tuple_key list \<Rightarrow> bool" where
  "request_fits s m c ts \<longleftrightarrow>
     go_len s \<and> go_len m \<and> pb_fits (NewStructValue c) \<and> go_len ts \<and> list_all tuple_fits ts"

lemma invariant_builder_emit:
  "invariant_builder s m c ts =
     emit (TString s # TString m # TArray (of_nat (length ts))
           # concat (map tuple_tokens (sort_tuples ts)) @ pb_tokens (NewStructValue c)) empty_builder"
  by (simp add: invariant_builder_def Serialize_def WriteTo_emit EncodeArray_emit encode_emit Let_def comp_def)

lemma bdata_empty_builder [simp]: "bdata empty_builder = []"
  by (simp add: empty_builder_def)

lemma invariant_tokens_fit:
  "request_fits s m c ts \<Longrightarrow>
   list_all tok_fits (TString s # TString m # TArray n
     # concat (map tuple_tokens (sort_tuples ts)) @ pb_tokens (NewStructValue c))"
  using tuple_tokens_fit pb_tokens_fit
  by (fastforce simp: request_fits_def list_all_iff)

lemma invariant_bytes_determine:
  assumes "request_fits s m c ts" and "request_fits s' m' c' ts'"
    and "bdata (invariant_builder s m c ts) = bdata (invariant_builder s' m' c' ts')"
  shows "s = s' \<and> m = m' \<and> pb_norm (NewStructValue c) = pb_norm (NewStructValue c')
    \<and> map tuple_norm (sort_tuples ts) = map tuple_norm (sort_tuples ts')"
proof -
  let ?toks = "\<lambda>s m c ts. TString s # TString m # TArray (of_nat (length ts))
      # concat (map tuple_tokens (sort_tuples ts)) @ pb_tokens (NewStructValue c)"
  from assms(3) have "concat (map enc_tok (?toks s m c ts)) = concat (map enc_tok (?toks s' m' c' ts'))"
    unfolding invariant_builder_emit bdata_emit bdata_empty_builder by simp
  then have eq: "?toks s m c ts = ?toks s' m' c' ts'"
    by (rule enc_toks_inj) (intro invariant_tokens_fit assms)+
  obtain k r k' r' where k: "pb_tokens (NewStructValue c) = TMap k # r"
    "pb_tokens (NewStructValue c') = TMap k' # r'" using NewStructValue_tokens by metis
  have len: "length (sort_tuples ts) = length (sort_tuples ts')"
    using eq assms(1,2) by (auto simp: request_fits_def intro: go_len_of_nat_eq)
  have "map tuple_norm (sort_tuples ts) = map tuple_norm (sort_tuples ts') \<and> TMap k # r = TMap k' # r'"
    using eq assms(1,2) k
    by (intro tuples_tokens_prefix [OF len]) (simp_all add: request_fits_def list_all_iff)
  moreover have "pb_norm (NewStructValue c) = pb_norm (NewStructValue c')"
    if "pb_tokens (NewStructValue c) = pb_tokens (NewStructValue c')"
    using pb_tokens_prefix [of "NewStructValue c" "[]" "NewStructValue c'" "[]"] that assms(1,2)
    by (simp add: request_fits_def)
  ultimately show ?thesis using eq k by simp
qed

text \<open>
  C9: the bytes that are hashed into the request invariant determine the request: two requests with
  the same bytes have the same store, model, context (up to the order of its fields) and the same
  sorted contextual tuples.
\<close>

theorem invariant_builder_injective:
  assumes "request_fits s m c ts" and "request_fits s' m' c' ts'"
    and "bdata (invariant_builder s m c ts) = bdata (invariant_builder s' m' c' ts')"
  shows "s = s' \<and> m = m' \<and> pb_norm (NewStructValue c) = pb_norm (NewStructValue c')
    \<and> map tuple_norm (sort_tuples ts) = map tuple_norm (sort_tuples ts')"
  by (rule invariant_bytes_determine [OF assms])

lemma request_fits_small:
  "request_fits ''store'' ''model'' None
     [\<lparr>tk_object = ''doc:1'', tk_relation = ''viewer'', tk_user = ''user:a'', tk_condition = None\<rparr>]"
  "request_fits ''store'' ''model'' (Some [])
     [\<lparr>tk_object = ''doc:1'', tk_relation = ''viewer'', tk_user = ''user:a'', tk_condition = None\<rparr>]"
  by (simp_all add: request_fits_def NewStructValue_def pb_keys_def tuple_fits_def)

theorem invariant_builder_injective_witness:
  "pb_norm (NewStructValue None) = pb_norm (NewStructValue (Some []))"
proof -
  have "bdata (invariant_builder ''store'' ''model'' None
      [\<lparr>tk_object = ''doc:1'', tk_relation = ''viewer'', tk_user = ''user:a'', tk_condition = None\<rparr>])
    = bdata (invariant_builder ''store'' ''model'' (Some [])
      [\<lparr>tk_object = ''doc:1'', tk_relation = ''viewer'', tk_user = ''user:a'', tk_condition = None\<rparr>])"
    by code_simp
  from invariant_builder_injective [OF request_fits_small this] show ?thesis by simp
qed

lemma pb_tokens_norm: "pb_norm v = pb_norm v' \<Longrightarrow> pb_tokens v = pb_tokens v'"
proof (induction v arbitrary: v' rule: pb_tokens.induct)
  case (6 vs)
  then obtain vs' where v': "v' = VList vs'" "map pb_norm vs = map pb_norm vs'" by (cases v') auto
  then have "length vs = length vs'" by (metis length_map)
  then have "map pb_tokens vs = map pb_tokens vs'"
    using v'(2) 6(1) by (induction vs vs' rule: list_induct2) auto
  with v' \<open>length vs = length vs'\<close> show ?case by simp
next
  case (7 fs)
  then obtain fs' where v': "v' = VStruct fs'" by (cases v') auto
  with 7(2) have *: "map (\<lambda>k. (k, pb_norm (pb_lookup fs k))) (pb_keys fs)
      = map (\<lambda>k. (k, pb_norm (pb_lookup fs' k))) (pb_keys fs')" by simp
  then have keys: "pb_keys fs = pb_keys fs'"
    by (metis (no_types, lifting) comp_apply fst_conv list.map_comp list.map_ident_strong)
  with * 7(1) have "pb_tokens (pb_lookup fs k) = pb_tokens (pb_lookup fs' k)" if "k \<in> set (pb_keys fs)" for k
    using that by simp
  with keys v' show ?case by (auto intro!: arg_cong [where f = concat])
next
  case 1 then show ?case by (cases v') auto
next
  case 2 then show ?case by (cases v') auto
next
  case (3 b) then show ?case by (cases v') auto
next
  case (4 w) then show ?case by (cases v') auto
next
  case (5 s) then show ?case by (cases v') auto
qed

text \<open>
  The request invariant does not depend on the order in which the contextual tuples are listed
  (as long as no two of them agree on object, relation, user and condition name), nor on the order
  of the fields of the context.
\<close>

lemma InvariantCacheKey_order_independent:
  assumes "mset ts = mset ts'" and "distinct (map tuple_order_key ts)"
    and "pb_norm (NewStructValue c) = pb_norm (NewStructValue c')"
  shows "InvariantCacheKey sum64 s m c ts = InvariantCacheKey sum64 s m c' ts'"
proof -
  have inj: "inj_on tuple_order_key (set ts)" using assms(2) by (simp add: distinct_map)
  moreover have set: "set ts = set ts'" using assms(1) by (metis set_mset_mset)
  ultimately have "sort_tuples ts = sort_tuples ts'"
    using assms(1) sort_tuples_eq_sort_key [of ts] sort_tuples_eq_sort_key [of ts']
    by (metis mset_sort_tuples sort_key_inj_key_eq sorted_sort_tuples)
  moreover have "length ts = length ts'" using assms(1) by (metis size_mset)
  ultimately show ?thesis
    using pb_tokens_norm [OF assms(3)] by (simp add: InvariantCacheKey_def invariant_builder_emit)
qed

section \<open>The iterator cache keys\<close>

lemma builder_Reset_eq: "builder_Reset kb = empty_builder"
  by (simp add: builder_Reset_def empty_builder_def)

lemmas key_defs = ReadStartingWithUserKey_def ReadUsersetTuplesKey_def ReadKey_def ChangelogCacheKey_def
  InvalidIteratorCacheKey_def InvalidIteratorByObjectRelationCacheKey_def
  InvalidIteratorByUserObjectTypeCacheKey_def CheckCacheKey_def builder_Key_def builder_Reset_eq
  PrefixSubproblemCache_def PrefixIteratorCache_def PrefixChangelogCache_def PrefixInvalidIteratorCache_def

text \<open>Every key is the encoding of a sequence of tokens.\<close>

lemma key_tokens:
  "ReadStartingWithUserKey sum64 st f = concat (map enc_tok
     [TString ''IC'', TString ''RSWU'', TString st, TString (rsw_object_type f), TString (rsw_relation f),
      TUint64 (sum64 (bdata (ReadStartingWithUser_filter_builder f)))])"
  "ReadUsersetTuplesKey sum64 st g = concat (map enc_tok
     [TString ''IC'', TString ''RUT'', TString st, TString (ruf_object g), TString (ruf_relation g),
      TUint64 (sum64 (bdata (ReadUsersetTuples_filter_builder g)))])"
  "ReadKey sum64 st h = concat (map enc_tok
     [TString ''IC'', TString ''READ'', TString st, TString (rf_object h), TString (rf_relation h),
      TString (rf_user h), TUint64 (sum64 (bdata (Read_filter_builder h)))])"
  "ChangelogCacheKey st = concat (map enc_tok [TString ''CC'', TString st])"
  "InvalidIteratorCacheKey st = concat (map enc_tok [TString ''IQ'', TString st])"
  "InvalidIteratorByObjectRelationCacheKey st ob re = concat (map enc_tok
     [TString ''IQ'', TString ''OR'', TString st, TString ob, TString re])"
  "InvalidIteratorByUserObjectTypeCacheKey st us ot = concat (map enc_tok
     [TString ''IQ'', TString ''UOT'', TString st, TString us, TString ot])"
  "CheckCacheKey st ob re us iv = concat (map enc_tok
     [TString ''SP'', TString st, TString ob, TString re, TString us, TUint64 iv])"
  by (simp_all add: key_defs encode_emit Let_def)

text \<open>The filter parts are arrays of strings; their token sequences determine the strings.\<close>

lemma strings_array_prefix:
  "map TString xs @ TArray m # r = map TString ys @ TArray n # r' \<Longrightarrow> xs = ys \<and> m = n \<and> r = r'"
proof (induction xs arbitrary: ys)
  case Nil
  then show ?case by (cases ys) auto
next
  case (Cons x xs)
  then obtain y ys' where "ys = y # ys'" by (cases ys) auto
  with Cons show ?case by auto
qed

lemma strings_array_eq [simp]:
  "map TString xs @ TArray m # r = map TString ys @ TArray n # r' \<longleftrightarrow> xs = ys \<and> m = n \<and> r = r'"
  using strings_array_prefix by blast

lemma map_TString_eq [simp]: "map TString xs = map TString ys \<longleftrightarrow> xs = ys"
  by (simp add: inj_map_eq_map inj_def)

lemma tokens_of_SString [simp]: "concat (map (tokens_of \<circ> SString) ss) = map TString ss"
  by (induction ss) simp_all

definition rsw_subjects :: "read_starting_with_user_filter \<Rightarrow> string list" where
  "rsw_subjects f = sort (map object_relation_subject (rsw_user_filter f))"

definition rsw_ids :: "read_starting_with_user_filter \<Rightarrow> string list" where
  "rsw_ids f = (case rsw_object_ids f of None \<Rightarrow> [] | Some vs \<Rightarrow> vs)"

lemma sort_eq_iff: "sort xs = sort ys \<longleftrightarrow> mset xs = mset ys"
  by (metis mset_sort properties_for_sort sorted_sort)

lemma copy_eq:
  "copyObjectRelations (length rels) rels = map SString (sort (map object_relation_subject rels))"
  "copyConditions (length cs) cs = map SString (sort cs)"
  "copyRelationReferences (length refs) refs = map SString (sort (map relation_reference_part refs))"
  by (auto simp: copyObjectRelations_def copyConditions_def copyRelationReferences_def)

lemma ReadStartingWithUser_filter_tokens:
  "bdata (ReadStartingWithUser_filter_builder f) = concat (map enc_tok
     (TArray (of_nat (length (rsw_subjects f))) # map TString (rsw_subjects f)
      @ TArray (of_nat (length (rsw_ids f))) # map TString (rsw_ids f)
      @ TArray (of_nat (length (rsw_conditions f))) # map TString (sort (rsw_conditions f))))"
  by (simp add: ReadStartingWithUser_filter_builder_def EncodeArray_emit copy_eq rsw_subjects_def rsw_ids_def
      Let_def comp_def tokens_of_SString [unfolded comp_def] split: option.split)

definition rsw_fits :: "string \<Rightarrow> read_starting_with_user_filter \<Rightarrow> bool" where
  "rsw_fits st f \<longleftrightarrow> go_len st \<and> go_len (rsw_object_type f) \<and> go_len (rsw_relation f)
     \<and> list_all go_len (rsw_subjects f) \<and> list_all go_len (rsw_ids f) \<and> list_all go_len (rsw_conditions f)"

text \<open>
  C31: as long as the hash does not collide on the two filters, two \<open>ReadStartingWithUser\<close> queries
  share a cache key exactly when they agree on store, object type, relation, users, object identifiers
  and conditions, where the order of users and conditions does not matter.  The key does not tell a
  missing filter of object identifiers from an empty one, although the datastore answers the two
  differently.
\<close>

theorem ReadStartingWithUserKey_eq_iff:
  assumes "rsw_fits st f" and "rsw_fits st' f'"
    and "inj_on sum64 {bdata (ReadStartingWithUser_filter_builder f), bdata (ReadStartingWithUser_filter_builder f')}"
  shows "ReadStartingWithUserKey sum64 st f = ReadStartingWithUserKey sum64 st' f' \<longleftrightarrow>
    st = st' \<and> rsw_object_type f = rsw_object_type f' \<and> rsw_relation f = rsw_relation f'
    \<and> mset (map object_relation_subject (rsw_user_filter f)) = mset (map object_relation_subject (rsw_user_filter f'))
    \<and> rsw_ids f = rsw_ids f' \<and> mset (rsw_conditions f) = mset (rsw_conditions f')"
proof -
  let ?T = "\<lambda>f. TArray (of_nat (length (rsw_subjects f))) # map TString (rsw_subjects f)
      @ TArray (of_nat (length (rsw_ids f))) # map TString (rsw_ids f)
      @ TArray (of_nat (length (rsw_conditions f))) # map TString (sort (rsw_conditions f))"
  let ?K = "\<lambda>st f. [TString ''IC'', TString ''RSWU'', TString st, TString (rsw_object_type f),
      TString (rsw_relation f), TUint64 (sum64 (bdata (ReadStartingWithUser_filter_builder f)))]"
  have fitT: "list_all tok_fits (?T f)" "list_all tok_fits (?T f')"
    using assms(1,2) by (auto simp: rsw_fits_def list_all_iff)
  have fitK: "list_all tok_fits (?K st f)" "list_all tok_fits (?K st' f')"
    using assms(1,2) by (simp_all add: rsw_fits_def)
  have "ReadStartingWithUserKey sum64 st f = ReadStartingWithUserKey sum64 st' f' \<longleftrightarrow> ?K st f = ?K st' f'"
    unfolding key_tokens using enc_toks_inj [OF _ fitK] by metis
  also have "\<dots> \<longleftrightarrow> st = st' \<and> rsw_object_type f = rsw_object_type f' \<and> rsw_relation f = rsw_relation f'
      \<and> bdata (ReadStartingWithUser_filter_builder f) = bdata (ReadStartingWithUser_filter_builder f')"
    using inj_on_eq_iff [OF assms(3)] by simp
  also have "bdata (ReadStartingWithUser_filter_builder f) = bdata (ReadStartingWithUser_filter_builder f') \<longleftrightarrow> ?T f = ?T f'"
    unfolding ReadStartingWithUser_filter_tokens using enc_toks_inj [OF _ fitT] by metis
  also have "\<dots> \<longleftrightarrow> rsw_subjects f = rsw_subjects f' \<and> rsw_ids f = rsw_ids f' \<and> sort (rsw_conditions f) = sort (rsw_conditions f')"
    by (auto dest: arg_cong [where f = length])
  finally show ?thesis by (simp only: rsw_subjects_def sort_eq_iff)
qed

theorem ReadStartingWithUserKey_eq_iff_witness:
  "ReadStartingWithUserKey (\<lambda>b. of_nat (length b)) ''s''
     \<lparr>rsw_object_type = ''doc'', rsw_relation = ''viewer'',
      rsw_user_filter = [\<lparr>or_object = ''user:b'', or_relation = ''''\<rparr>, \<lparr>or_object = ''group:a'', or_relation = ''m''\<rparr>],
      rsw_object_ids = None, rsw_conditions = []\<rparr>
   = ReadStartingWithUserKey (\<lambda>b. of_nat (length b)) ''s''
     \<lparr>rsw_object_type = ''doc'', rsw_relation = ''viewer'',
      rsw_user_filter = [\<lparr>or_object = ''group:a'', or_relation = ''m''\<rparr>, \<lparr>or_object = ''user:b'', or_relation = ''''\<rparr>],
      rsw_object_ids = Some [], rsw_conditions = []\<rparr>"
  (is "ReadStartingWithUserKey ?h ?s ?f = ReadStartingWithUserKey ?h ?s ?g")
proof -
  have "rsw_fits ?s ?f" "rsw_fits ?s ?g"
    by (simp_all add: rsw_fits_def rsw_subjects_def rsw_ids_def object_relation_subject_def
        ToObjectRelationString_def list_all_iff)
  moreover have "bdata (ReadStartingWithUser_filter_builder ?f) = bdata (ReadStartingWithUser_filter_builder ?g)"
    by code_simp
  ultimately show ?thesis
    using ReadStartingWithUserKey_eq_iff [of ?s ?f ?s ?g ?h]
    by (simp add: object_relation_subject_def rsw_ids_def)
qed

text \<open>
  Keys of different cache domains never coincide, whatever they were built from: the keys of the
  three kinds of iterators, of check subproblems, of the changelog and of the three kinds of
  invalidation entries are pairwise different.
\<close>

lemma cache_key_domains_disjoint:
  assumes "list_all go_len [st, st', rsw_object_type f, rsw_relation f, ruf_object g, ruf_relation g,
      rf_object h, rf_relation h, rf_user h, ob, re, us, ot]"
  shows "distinct
    [ReadStartingWithUserKey sum64 st f, ReadUsersetTuplesKey sum64 st g, ReadKey sum64 st h,
     CheckCacheKey st ob re us iv, ChangelogCacheKey st', InvalidIteratorCacheKey st',
     InvalidIteratorByObjectRelationCacheKey st ob re, InvalidIteratorByUserObjectTypeCacheKey st us ot]"
proof -
  have neq: "concat (map enc_tok ts) \<noteq> concat (map enc_tok us)"
    if "ts \<noteq> us" "list_all tok_fits ts" "list_all tok_fits us" for ts us
    using enc_toks_inj that by blast
  show ?thesis
    unfolding key_tokens distinct.simps list.set insert_iff empty_iff simp_thms de_Morgan_disj
    by (intro conjI neq) (use assms in simp_all)
qed

section \<open>The printed form of a key\<close>

definition hex_byte :: "byte \<Rightarrow> byte list" where
  "hex_byte b = [hex_alphabet ! unat (drop_bit 4 b), hex_alphabet ! unat (b AND 0x0F)]"

lemma bit_byte_high: "8 \<le> i \<Longrightarrow> \<not> bit (b :: byte) i"
  by (auto dest: bit_imp_le_length)

lemma le_bytes_2: "le_bytes 2 (push_bit 8 (ucast lo) OR ucast (hi :: byte) :: 16 word) = [hi, lo]"
  by (auto simp: le_bytes_def upt_rec intro!: bit_word_eqI simp: bit_simps bit_byte_high)

lemma le_bytes_hexTable: "le_bytes 2 (hexTable b) = hex_byte b"
  unfolding hexTable_def le_bytes_2 hex_byte_def ..

lemma le_bytes_split:
  "le_bytes (m + n) (w :: 'a::len word) = le_bytes m w @ le_bytes n (drop_bit (8 * m) w)"
  by (auto simp: le_bytes_def upt_add_eq_append [of 0 m n] comp_def add.commute intro!: nth_equalityI)

lemma le_bytes_cong:
  fixes v :: "'a::len word" and w :: "'b::len word"
  assumes "\<And>i. i < 8 * n \<Longrightarrow> bit v i = bit w i"
  shows "le_bytes n v = le_bytes n w"
  using assms unfolding le_bytes_def
  by (auto intro!: map_cong bit_word_eqI simp: bit_ucast_iff bit_drop_bit_eq)

lemma bit_hexTable_high: "16 \<le> i \<Longrightarrow> \<not> bit (hexTable b) i"
  by (auto dest: bit_imp_le_length)

lemma le_bytes_pack4:
  "le_bytes 8 (pack4 a b c d) = hex_byte a @ hex_byte b @ hex_byte c @ hex_byte d"
proof -
  have "le_bytes 8 (pack4 a b c d) = le_bytes 2 (pack4 a b c d) @ le_bytes 2 (drop_bit 16 (pack4 a b c d))
      @ le_bytes 2 (drop_bit 32 (pack4 a b c d)) @ le_bytes 2 (drop_bit 48 (pack4 a b c d))"
    using le_bytes_split [of 2 6 "pack4 a b c d"] le_bytes_split [of 2 4 "drop_bit 16 (pack4 a b c d)"]
      le_bytes_split [of 2 2 "drop_bit 32 (pack4 a b c d)"] by simp
  moreover have "le_bytes 2 (pack4 a b c d) = le_bytes 2 (hexTable a)"
    by (rule le_bytes_cong) (auto simp: pack4_def bit_simps)
  moreover have "le_bytes 2 (drop_bit 16 (pack4 a b c d)) = le_bytes 2 (hexTable b)"
    by (rule le_bytes_cong) (auto simp: pack4_def bit_simps bit_hexTable_high)
  moreover have "le_bytes 2 (drop_bit 32 (pack4 a b c d)) = le_bytes 2 (hexTable c)"
    by (rule le_bytes_cong) (auto simp: pack4_def bit_simps bit_hexTable_high)
  moreover have "le_bytes 2 (drop_bit 48 (pack4 a b c d)) = le_bytes 2 (hexTable d)"
    by (rule le_bytes_cong) (auto simp: pack4_def bit_simps bit_hexTable_high)
  ultimately show ?thesis by (simp add: le_bytes_hexTable)
qed

lemma le_bytes_pack2: "le_bytes 4 (pack2 a b) = hex_byte a @ hex_byte b"
proof -
  have "le_bytes 4 (pack2 a b) = le_bytes 2 (pack2 a b) @ le_bytes 2 (drop_bit 16 (pack2 a b))"
    using le_bytes_split [of 2 2 "pack2 a b"] by simp
  moreover have "le_bytes 2 (pack2 a b) = le_bytes 2 (hexTable a)"
    by (rule le_bytes_cong) (auto simp: pack2_def bit_simps)
  moreover have "le_bytes 2 (drop_bit 16 (pack2 a b)) = le_bytes 2 (hexTable b)"
    by (rule le_bytes_cong) (auto simp: pack2_def bit_simps bit_hexTable_high)
  ultimately show ?thesis by (simp add: le_bytes_hexTable)
qed

lemma hex_loop8_spec:
  "hex_loop8 src = (out, rest) \<Longrightarrow> \<exists>done. src = done @ rest \<and> out = concat (map hex_byte done) \<and> length rest < 8"
proof (induction src arbitrary: out rule: hex_loop8.induct)
  case (1 a b c d e f g h src)
  then obtain out' where "hex_loop8 src = (out', rest)"
    "out = le_bytes 8 (pack4 a b c d) @ le_bytes 8 (pack4 e f g h) @ out'" by (auto split: prod.splits)
  with 1 obtain dn where "src = dn @ rest" "out' = concat (map hex_byte dn)" "length rest < 8" by blast
  then show ?case
    using \<open>out = _\<close> by (intro exI [of _ "a # b # c # d # e # f # g # h # dn"]) (simp add: le_bytes_pack4)
qed auto

lemma Key_String_tail:
  assumes "length src < 8"
  shows "(case hex_step4 src of (out4, src) \<Rightarrow> out4 @ hex_tail src) = concat (map hex_byte src)"
proof -
  have tail: "hex_tail t = concat (map hex_byte t)" if "length t < 4" for t
    using that by (auto simp: hex_tail_def le_bytes_pack2 le_bytes_hexTable split: list.splits)
  show ?thesis
  proof (cases "length src < 4")
    case True
    then have "hex_step4 src = ([], src)" by (auto simp: hex_step4_def split: list.splits)
    with tail [OF True] show ?thesis by simp
  next
    case False
    then obtain a b c d t where "src = a # b # c # d # t"
      by (auto simp: not_less numeral_eq_Suc Suc_le_length_iff)
    with tail [of t] assms show ?thesis by (simp add: hex_step4_def le_bytes_pack4)
  qed
qed

lemma Key_String_eq: "Key_String k = concat (map hex_byte k)"
proof (cases "k = []")
  case False
  obtain out rest where h: "hex_loop8 k = (out, rest)" by fastforce
  from hex_loop8_spec [OF h] Key_String_tail [of rest] h False show ?thesis
    by (auto simp: Key_String_def split: prod.splits)
qed (simp add: Key_String_def)

lemma hex_alphabet_inj:
  assumes "i < 16" "j < 16" "hex_alphabet ! i = hex_alphabet ! j"
  shows "i = j"
proof -
  have "distinct hex_alphabet" "length hex_alphabet = 16" by code_simp+
  with assms show ?thesis by (metis nth_eq_iff_index_eq)
qed

lemma nibbles_inj:
  fixes a b :: byte
  assumes "hex_byte a = hex_byte b"
  shows "a = b"
proof -
  have hi: "unat (drop_bit 4 x) < 16" and lo: "unat (x AND 0x0F) < 16" for x :: byte
  proof -
    have "unat (drop_bit 4 x) = unat x div 16" by (simp add: drop_bit_eq_div unat_div)
    then show "unat (drop_bit 4 x) < 16" using unsigned_less [of x, where 'a = nat] by simp
    have "x AND 0x0F = take_bit 4 x" by (simp add: take_bit_eq_mask mask_eq_exp_minus_1)
    then show "unat (x AND 0x0F) < 16" by (simp add: take_bit_eq_mod unat_mod)
  qed
  from assms hi lo have "unat (drop_bit 4 a) = unat (drop_bit 4 b)" "unat (a AND 0x0F) = unat (b AND 0x0F)"
    unfolding hex_byte_def by (blast intro: hex_alphabet_inj)+
  then have "drop_bit 4 a = drop_bit 4 b" "a AND 0x0F = b AND 0x0F" by (simp_all add: word_unat_eq_iff)
  moreover have "x AND 0x0F = take_bit 4 x" for x :: byte
    by (simp add: take_bit_eq_mask mask_eq_exp_minus_1)
  ultimately show ?thesis by (metis bits_ident)
qed

text \<open>
  The printed form of a key is the two upper-case hexadecimal digits of each of its bytes in
  order, whatever the unrolled loops write; different keys print differently.
\<close>

lemma Key_String_hex:
  "Key_String k = concat (map (\<lambda>b. [hex_alphabet ! unat (drop_bit 4 b), hex_alphabet ! unat (b AND 0x0F)]) k)
   \<and> inj Key_String"
proof
  show "Key_String k = concat (map (\<lambda>b. [hex_alphabet ! unat (drop_bit 4 b), hex_alphabet ! unat (b AND 0x0F)]) k)"
    unfolding Key_String_eq hex_byte_def ..
  have len: "length (concat (map hex_byte k)) = 2 * length k" for k
    by (induction k) (simp_all add: hex_byte_def)
  show "inj Key_String"
  proof (rule injI)
    fix k k' assume eq: "Key_String k = Key_String k'"
    have l: "length k = length k'" using eq len [of k] len [of k'] by (simp add: Key_String_eq)
    have "map id k = map id k' \<and> ([] :: byte list) = []"
    proof (rule concat_map_unique [OF l])
      show "concat (map hex_byte k) @ [] = concat (map hex_byte k') @ []"
        using eq by (simp add: Key_String_eq)
      show "id x = id y \<and> r = r'" if "hex_byte x @ r = hex_byte y @ r'" for x y r r'
        using that nibbles_inj [of x y] by (simp add: hex_byte_def)
    qed
    then show "k = k'" by simp
  qed
qed

text \<open>
  Two check requests that share a cache key ask the same question, as long as the hash does not
  confuse the bytes of their invariants.
\<close>

lemma check_key_determines:
  assumes fits: "request_fits st m c ts" "request_fits st' m' c' ts'"
    and parts: "list_all go_len [ob, re, us, ob', re', us']"
    and hash: "sum64 (bdata (invariant_builder st m c ts)) = sum64 (bdata (invariant_builder st' m' c' ts')) \<Longrightarrow>
      bdata (invariant_builder st m c ts) = bdata (invariant_builder st' m' c' ts')"
    and eq: "CheckCacheKey st ob re us (InvariantCacheKey sum64 st m c ts) =
      CheckCacheKey st' ob' re' us' (InvariantCacheKey sum64 st' m' c' ts')"
  shows "st = st' \<and> m = m' \<and> ob = ob' \<and> re = re' \<and> us = us' \<and>
    pb_norm (NewStructValue c) = pb_norm (NewStructValue c') \<and>
    map tuple_norm (sort_tuples ts) = map tuple_norm (sort_tuples ts')"
proof -
  have "go_len st" "go_len st'" using fits by (simp_all add: request_fits_def)
  with eq parts have toks: "[TString ''SP'', TString st, TString ob, TString re, TString us,
      TUint64 (InvariantCacheKey sum64 st m c ts)] =
    [TString ''SP'', TString st', TString ob', TString re', TString us', TUint64 (InvariantCacheKey sum64 st' m' c' ts')]"
    unfolding key_tokens by (intro enc_toks_inj) simp_all
  from arg_cong [OF toks, of last] have "bdata (invariant_builder st m c ts) = bdata (invariant_builder st' m' c' ts')"
    by (intro hash) (simp add: InvariantCacheKey_def)
  with toks invariant_bytes_determine [OF fits] show ?thesis by simp
qed

end
