(* ===== verification/TypeSystem.thy ===== *)
theory TypeSystem
  imports Tuple "HOL-Library.AList"
begin

text \<open>
  The type system of \<open>src/pkg/typesystem/typesystem.go\<close>: the lookup structures built from an
  authorization model, the queries on them, and the validation of a model (names, rewrites, type
  restrictions, entrypoints, cycles, conditions).  Go maps are association lists whose order is the
  iteration order.  The model graphs built by the language library and the compiler of conditions are
  parameters.
\<close>

section \<open>Errors\<close>

datatype relation_cause =
    ErrInvalidUsersetRewrite | ErrReservedKeywords | ErrNoEntrypoints | ErrNoEntryPointsLoop | ErrCycle

datatype ts_error =
    ObjectTypeUndefinedError string
  | RelationUndefinedError string string
  | InvalidTypeError string
  | InvalidRelationError string string relation_cause
  | ErrDuplicateTypes
  | ErrInvalidSchemaVersion
  | EmptyTypeName
  | EmptyRelationName string
  | TuplesetNotDirect string string
  | ComputedNotInUserTypes string
  | AssignableRelationError string string
  | NonAssignableRelationError string string
  | InvalidRelationTypeError string string string string
  | RelationConditionError string string
  | ConditionNameMismatch string string
  | ConditionCompileError string
  | UndefinedTypeDefinition string string
  | TooFewChildren string string
  | UnknownRewrite string string
  | UnsupportedRewrite
  | UnexpectedUsersetRewrite
  | InvalidTuplesetRestriction string string string string
  | ModelGraphError string
  | TypeAssertionPanic
  | RewritePanic

section \<open>Schema versions and constructors\<close>

definition SchemaVersion1_0 :: string where "SchemaVersion1_0 = ''1.0''"

definition SchemaVersion1_1 :: string where "SchemaVersion1_1 = ''1.1''"

definition SchemaVersion1_2 :: string where "SchemaVersion1_2 = ''1.2''"

definition IsSchemaVersionSupported :: "string \<Rightarrow> bool" where
  "IsSchemaVersionSupported version \<longleftrightarrow> version = SchemaVersion1_1 \<or> version = SchemaVersion1_2"

definition DirectRelationReference :: "string \<Rightarrow> string \<Rightarrow> relation_reference" where
  "DirectRelationReference objectType relation =
     \<lparr>rr_type = objectType, rr_relation_or_wildcard = (if relation \<noteq> '''' then Some (RRelation relation) else None),
      rr_condition = ''''\<rparr>"

definition WildcardRelationReference :: "string \<Rightarrow> relation_reference" where
  "WildcardRelationReference objectType =
     \<lparr>rr_type = objectType, rr_relation_or_wildcard = Some RWildcard, rr_condition = ''''\<rparr>"

definition ConditionedRelationReference :: "relation_reference \<Rightarrow> string \<Rightarrow> relation_reference" where
  "ConditionedRelationReference rel condition = rel\<lparr>rr_condition := condition\<rparr>"

section \<open>The type system and its construction\<close>

record relation_def =
  rel_name :: string
  rel_rewrite :: userset
  rel_related :: "relation_reference list"

type_synonym relations_map = "(string \<times> (string \<times> relation_def) list) list"

record type_system =
  ts_type_definitions :: "(string \<times> type_definition) list"
  ts_relations :: relations_map
  ts_conditions :: "(string \<times> condition_def) list"
  ts_ttu_relations :: "(string \<times> (string \<times> (string \<times> string) list) list) list"
  ts_model_id :: string
  ts_schema_version :: string

fun flattenUserset :: "userset \<Rightarrow> (string \<times> string) list" where
  "flattenUserset (TupleToUserset tupleset computed) = [(tupleset, computed)]"
| "flattenUserset (Union cs) = concat (map flattenUserset cs)"
| "flattenUserset (Intersection cs) = concat (map flattenUserset cs)"
| "flattenUserset (Difference base sub) = flattenUserset base @ flattenUserset sub"
| "flattenUserset _ = []"

definition new_relation :: "type_definition \<Rightarrow> string \<times> userset \<Rightarrow> string \<times> relation_def" where
  "new_relation td = (\<lambda>(relation, rewrite).
     (relation, \<lparr>rel_name = relation, rel_rewrite = rewrite,
        rel_related = (case td_metadata td relation of None \<Rightarrow> [] | Some types \<Rightarrow> types)\<rparr>))"

text \<open>The loop over the type definitions: a later definition of a type replaces an earlier one.\<close>

definition New_loop :: "type_definition list \<Rightarrow> type_system \<Rightarrow> type_system" where
  "New_loop tds t0 = foldl (\<lambda>t td.
     t\<lparr>ts_type_definitions := AList.update (td_type td) td (ts_type_definitions t),
       ts_relations := AList.update (td_type td) (map (new_relation td) (td_relations td)) (ts_relations t),
       ts_ttu_relations := AList.update (td_type td)
         (map (\<lambda>(relation, rewrite). (relation, flattenUserset rewrite)) (td_relations td)) (ts_ttu_relations t)\<rparr>) t0 tds"

definition New :: "(authorization_model \<Rightarrow> string option) \<Rightarrow> authorization_model \<Rightarrow> ts_error + type_system" where
  "New graph_error model =
     (case graph_error model of
        Some e \<Rightarrow> Inl (ModelGraphError e)
      | None \<Rightarrow> Inr (New_loop (am_type_definitions model)
          \<lparr>ts_type_definitions = [], ts_relations = [], ts_conditions = am_conditions model, ts_ttu_relations = [],
           ts_model_id = am_id model, ts_schema_version = am_schema_version model\<rparr>))"

section \<open>Lookups\<close>

definition GetTypeDefinition :: "type_system \<Rightarrow> string \<Rightarrow> type_definition option" where
  "GetTypeDefinition t objectType = map_of (ts_type_definitions t) objectType"

definition GetRelations :: "type_system \<Rightarrow> string \<Rightarrow> ts_error + (string \<times> relation_def) list" where
  "GetRelations t objectType =
     (case GetTypeDefinition t objectType of
        None \<Rightarrow> Inl (ObjectTypeUndefinedError objectType)
      | Some _ \<Rightarrow> Inr (case map_of (ts_relations t) objectType of None \<Rightarrow> [] | Some rs \<Rightarrow> rs))"

definition GetRelation :: "type_system \<Rightarrow> string \<Rightarrow> string \<Rightarrow> ts_error + relation_def" where
  "GetRelation t objectType relation =
     (case GetRelations t objectType of
        Inl e \<Rightarrow> Inl e
      | Inr relations \<Rightarrow>
          (case map_of relations relation of
             None \<Rightarrow> Inl (RelationUndefinedError objectType relation)
           | Some r \<Rightarrow> Inr r))"

definition GetCondition :: "type_system \<Rightarrow> string \<Rightarrow> condition_def option" where
  "GetCondition t name = map_of (ts_conditions t) name"

text \<open>\<open>GetRelationReferenceAsString\<close> panics on a plain type; \<open>None\<close> is a \<open>nil\<close> reference.\<close>

definition GetRelationReferenceAsString :: "relation_reference option \<Rightarrow> ts_error + string" where
  "GetRelationReferenceAsString rr =
     (case rr of
        None \<Rightarrow> Inr ''''
      | Some r \<Rightarrow>
          (case rr_relation_or_wildcard r of
             Some (RRelation rel) \<Rightarrow> Inr (rr_type r @ ''#'' @ rel)
           | Some RWildcard \<Rightarrow> Inr (TypedPublicWildcard (rr_type r))
           | None \<Rightarrow> Inl RewritePanic))"

definition GetDirectlyRelatedUserTypes :: "type_system \<Rightarrow> string \<Rightarrow> string \<Rightarrow> ts_error + relation_reference list" where
  "GetDirectlyRelatedUserTypes t objectType relation =
     (case GetRelation t objectType relation of Inl e \<Rightarrow> Inl e | Inr r \<Rightarrow> Inr (rel_related r))"

definition DirectlyRelatedUsersets :: "type_system \<Rightarrow> string \<Rightarrow> string \<Rightarrow> ts_error + relation_reference list" where
  "DirectlyRelatedUsersets t objectType relation =
     (case GetDirectlyRelatedUserTypes t objectType relation of
        Inl e \<Rightarrow> Inl e
      | Inr refs \<Rightarrow> Inr (filter (\<lambda>ref. rr_relation ref \<noteq> '''') refs))"

definition RelationEquals :: "relation_reference \<Rightarrow> relation_reference \<Rightarrow> bool" where
  "RelationEquals a b =
     (if rr_type a \<noteq> rr_type b then False
      else if rr_relation_or_wildcard a = None \<and> rr_relation_or_wildcard b = None then True
      else if rr_is_wildcard a \<and> rr_is_wildcard b then True
      else rr_relation a \<noteq> '''' \<and> rr_relation b \<noteq> '''' \<and> rr_relation a = rr_relation b)"

definition IsDirectlyRelated :: "type_system \<Rightarrow> relation_reference \<Rightarrow> relation_reference \<Rightarrow> ts_error + bool" where
  "IsDirectlyRelated t target source =
     (case GetRelation t (rr_type target) (rr_relation target) of
        Inl e \<Rightarrow> Inl e
      | Inr relation \<Rightarrow> Inr (\<exists>r \<in> set (rel_related relation). RelationEquals source r))"

definition PubliclyAssignableReferences ::
    "type_system \<Rightarrow> relation_reference \<Rightarrow> string \<Rightarrow> ts_error + relation_reference option" where
  "PubliclyAssignableReferences t target objectType =
     (case GetRelation t (rr_type target) (rr_relation target) of
        Inl e \<Rightarrow> Inl e
      | Inr relation \<Rightarrow> Inr (find_first (\<lambda>r. rr_type r = objectType \<and> rr_is_wildcard r) (rel_related relation)))"

definition IsPubliclyAssignable :: "type_system \<Rightarrow> relation_reference \<Rightarrow> string \<Rightarrow> ts_error + bool" where
  "IsPubliclyAssignable t target objectType =
     (case PubliclyAssignableReferences t target objectType of Inl e \<Rightarrow> Inl e | Inr ref \<Rightarrow> Inr (ref \<noteq> None))"

definition HasTypeInfo :: "type_system \<Rightarrow> string \<Rightarrow> string \<Rightarrow> ts_error + bool" where
  "HasTypeInfo t objectType relation =
     (case GetRelation t objectType relation of
        Inl e \<Rightarrow> Inl e
      | Inr _ \<Rightarrow> Inr (IsSchemaVersionSupported (ts_schema_version t)))"

definition IsTuplesetRelation :: "type_system \<Rightarrow> string \<Rightarrow> string \<Rightarrow> ts_error + bool" where
  "IsTuplesetRelation t objectType relation =
     (case GetRelation t objectType relation of
        Inl e \<Rightarrow> Inl e
      | Inr _ \<Rightarrow>
          Inr (case map_of (ts_ttu_relations t) objectType of
                 None \<Rightarrow> False
               | Some defs \<Rightarrow> \<exists>(_, ttus) \<in> set defs. \<exists>(tupleset, _) \<in> set ttus. tupleset = relation))"

text \<open>
  \<open>PathExists\<close> asks the model graph of the language library, a parameter, for a path between two
  labels; an error of the first query is returned, one of the second means no path.
\<close>

definition PathExists :: "(string \<Rightarrow> string \<Rightarrow> string + bool) \<Rightarrow> string \<Rightarrow> string \<Rightarrow> string \<Rightarrow> string + bool" where
  "PathExists graph_path user relation objectType =
     (let (userType, _, userRelation) = ToUserParts user;
          isUserset = userRelation \<noteq> '''';
          fromLabel = (if isUserset then ToObjectRelationString userType userRelation else userType);
          toLabel = ToObjectRelationString objectType relation in
      case graph_path fromLabel toLabel of
        Inl e \<Rightarrow> Inl e
      | Inr True \<Rightarrow> Inr True
      | Inr False \<Rightarrow>
          if isUserset then Inr False
          else (case graph_path (TypedPublicWildcard userType) toLabel of
                  Inl _ \<Rightarrow> Inr False
                | Inr b \<Rightarrow> Inr b))"

text \<open>
  \<open>ResolveComputedRelation\<close> remembers the relations it resolved; the memo is keyed by the two names
  joined by a dash.  On a cyclic model it never returns.
\<close>

definition memoizeKey :: "string \<Rightarrow> string \<Rightarrow> string" where
  "memoizeKey objectType relation = objectType @ ''-'' @ relation"

partial_function (option) ResolveComputedRelation ::
    "type_system \<Rightarrow> string \<Rightarrow> string \<Rightarrow> (string \<rightharpoonup> string) \<Rightarrow> ((ts_error + string) \<times> (string \<rightharpoonup> string)) option" where
  "ResolveComputedRelation t objectType relation computedRelations =
     (case computedRelations (memoizeKey objectType relation) of
        Some val \<Rightarrow> Some (Inr val, computedRelations)
      | None \<Rightarrow>
          (case GetRelation t objectType relation of
             Inl e \<Rightarrow> Some (Inl e, computedRelations)
           | Inr rel \<Rightarrow>
               (case rel_rewrite rel of
                  ComputedUserset computed \<Rightarrow> ResolveComputedRelation t objectType computed computedRelations
                | This \<Rightarrow> Some (Inr relation, computedRelations(memoizeKey objectType relation \<mapsto> relation))
                | _ \<Rightarrow> Some (Inl UnsupportedRewrite, computedRelations))))"

section \<open>Walking rewrites\<close>

text \<open>
  A handler may change a state and stops the walk by a result; \<open>None\<close> stands for a handler that does
  not return.  At a leaf that gave no result the handler is called a second time.
\<close>

type_synonym ('st, 'r) rewrite_handler = "userset \<Rightarrow> 'st \<Rightarrow> ('r option \<times> 'st) option"

fun WalkUsersetRewrite :: "('st, 'r) rewrite_handler \<Rightarrow> userset \<Rightarrow> 'st \<Rightarrow> ((ts_error + 'r option) \<times> 'st) option"
and walk_children :: "('st, 'r) rewrite_handler \<Rightarrow> userset list \<Rightarrow> 'st \<Rightarrow> ((ts_error + 'r option) \<times> 'st) option" where
  "WalkUsersetRewrite handler rewrite st =
     (case handler rewrite st of
        None \<Rightarrow> None
      | Some (Some r, st) \<Rightarrow> Some (Inr (Some r), st)
      | Some (None, st) \<Rightarrow>
          (case rewrite of
             Union cs \<Rightarrow> walk_children handler cs st
           | Intersection cs \<Rightarrow> walk_children handler cs st
           | Difference base sub \<Rightarrow>
               (case WalkUsersetRewrite handler base st of
                  Some (Inr None, st) \<Rightarrow> WalkUsersetRewrite handler sub st
                | res \<Rightarrow> res)
           | Userset_Nil \<Rightarrow> Some (Inl UnexpectedUsersetRewrite, st)
           | _ \<Rightarrow> map_option (map_prod Inr id) (handler rewrite st)))"
| "walk_children handler [] st = Some (Inr None, st)"
| "walk_children handler (c # cs) st =
     (case WalkUsersetRewrite handler c st of
        Some (Inr None, st) \<Rightarrow> walk_children handler cs st
      | res \<Rightarrow> res)"

definition self_handler :: "(unit, bool) rewrite_handler" where
  "self_handler r st = Some (if r = This then Some True else None, st)"

definition RewriteContainsSelf :: "userset \<Rightarrow> ts_error + bool" where
  "RewriteContainsSelf rewrite =
     (case WalkUsersetRewrite self_handler rewrite () of
        Some (Inr (Some b), _) \<Rightarrow> Inr b
      | Some (Inr None, _) \<Rightarrow> Inr False
      | _ \<Rightarrow> Inl RewritePanic)"

definition IsDirectlyAssignable :: "relation_def \<Rightarrow> ts_error + bool" where
  "IsDirectlyAssignable relation = RewriteContainsSelf (rel_rewrite relation)"

section \<open>Which relations involve intersections or exclusions\<close>

text \<open>
  \<open>relationInvolves\<close> calls itself through the handler of the walk.  The body below takes the
  recursive call as an argument; \<open>relationInvolves\<close> ties the knot with a bound on the depth, which
  the set of visited relations limits to the number of relations.
\<close>

datatype set_operator = intersectionSetOperator | exclusionSetOperator

datatype walk_result = WErr ts_error | WBool bool

type_synonym involves_call = "string \<Rightarrow> string \<Rightarrow> string set \<Rightarrow> ((ts_error + bool) \<times> string set) option"

fun involves_ttu :: "involves_call \<Rightarrow> type_system \<Rightarrow> string \<Rightarrow> string \<Rightarrow> string \<Rightarrow> relation_reference list
    \<Rightarrow> string set \<Rightarrow> (walk_result option \<times> string set) option" where
  "involves_ttu rec t objectType tupleset rewritten [] visited = Some (None, visited)"
| "involves_ttu rec t objectType tupleset rewritten (related # rest) visited =
     (if rr_relation related \<noteq> '''' then
        Some (Some (WErr (InvalidTuplesetRestriction (rr_type related) (rr_relation related) objectType tupleset)), visited)
      else
        (case GetRelation t (rr_type related) rewritten of
           Inl _ \<Rightarrow> involves_ttu rec t objectType tupleset rewritten rest visited
         | Inr rel \<Rightarrow>
             (case rec (rr_type related) (rel_name rel) visited of
                None \<Rightarrow> None
              | Some (Inl e, visited) \<Rightarrow> Some (Some (WErr e), visited)
              | Some (Inr True, visited) \<Rightarrow> Some (Some (WBool True), visited)
              | Some (Inr False, visited) \<Rightarrow> involves_ttu rec t objectType tupleset rewritten rest visited)))"

definition involves_handler ::
    "involves_call \<Rightarrow> type_system \<Rightarrow> string \<Rightarrow> set_operator \<Rightarrow> (string set, walk_result) rewrite_handler" where
  "involves_handler rec t objectType target r visited =
     (case r of
        ComputedUserset rewritten \<Rightarrow>
          (case GetRelation t objectType rewritten of
             Inl e \<Rightarrow> Some (Some (WErr e), visited)
           | Inr rel \<Rightarrow>
               (case rec objectType (rel_name rel) visited of
                  None \<Rightarrow> None
                | Some (Inl e, visited) \<Rightarrow> Some (Some (WErr e), visited)
                | Some (Inr b, visited) \<Rightarrow> Some (if b then Some (WBool True) else None, visited)))
      | TupleToUserset tupleset rewritten \<Rightarrow>
          (case GetRelation t objectType tupleset of
             Inl e \<Rightarrow> Some (Some (WErr e), visited)
           | Inr tuplesetRel \<Rightarrow> involves_ttu rec t objectType tupleset rewritten (rel_related tuplesetRel) visited)
      | Intersection _ \<Rightarrow> Some (Some (WBool (target = intersectionSetOperator)), visited)
      | Difference _ _ \<Rightarrow> Some (Some (WBool (target = exclusionSetOperator)), visited)
      | _ \<Rightarrow> Some (None, visited))"

fun involves_restrictions :: "involves_call \<Rightarrow> relation_reference list \<Rightarrow> string set \<Rightarrow> ((ts_error + bool) \<times> string set) option" where
  "involves_restrictions rec [] visited = Some (Inr False, visited)"
| "involves_restrictions rec (r # rs) visited =
     (if rr_relation r \<noteq> '''' \<and> ToObjectRelationString (rr_type r) (rr_relation r) \<notin> visited then
        (case rec (rr_type r) (rr_relation r) visited of
           Some (Inr False, visited) \<Rightarrow> involves_restrictions rec rs visited
         | res \<Rightarrow> res)
      else involves_restrictions rec rs visited)"

text \<open>A handler result that is an error makes the type assertion \<open>result.(bool)\<close> panic.\<close>

definition involves_body :: "involves_call \<Rightarrow> type_system \<Rightarrow> set_operator \<Rightarrow> involves_call" where
  "involves_body rec t target objectType relation visited =
     (let key = ToObjectRelationString objectType relation in
      if key \<in> visited then Some (Inr False, visited)
      else
        let visited = insert key visited in
        (case GetRelation t objectType relation of
           Inl e \<Rightarrow> Some (Inl e, visited)
         | Inr rel \<Rightarrow>
             (case WalkUsersetRewrite (involves_handler rec t objectType target) (rel_rewrite rel) visited of
                None \<Rightarrow> None
              | Some (Inl e, visited) \<Rightarrow> Some (Inl e, visited)
              | Some (Inr (Some (WErr _)), visited) \<Rightarrow> Some (Inl TypeAssertionPanic, visited)
              | Some (Inr (Some (WBool True)), visited) \<Rightarrow> Some (Inr True, visited)
              | Some (Inr _, visited) \<Rightarrow> involves_restrictions rec (rel_related rel) visited)))"

fun relationInvolves :: "nat \<Rightarrow> type_system \<Rightarrow> set_operator \<Rightarrow> involves_call" where
  "relationInvolves 0 t target objectType relation visited = None"
| "relationInvolves (Suc n) t target objectType relation visited =
     involves_body (relationInvolves n t target) t target objectType relation visited"

definition relation_count :: "relations_map \<Rightarrow> nat" where
  "relation_count rels = sum_list (map (\<lambda>(_, rs). length rs) rels)"

definition RelationInvolvesIntersection :: "type_system \<Rightarrow> string \<Rightarrow> string \<Rightarrow> (ts_error + bool) option" where
  "RelationInvolvesIntersection t objectType relation =
     map_option fst (relationInvolves (relation_count (ts_relations t) + 2) t intersectionSetOperator objectType relation {})"

definition RelationInvolvesExclusion :: "type_system \<Rightarrow> string \<Rightarrow> string \<Rightarrow> (ts_error + bool) option" where
  "RelationInvolvesExclusion t objectType relation =
     map_option fst (relationInvolves (relation_count (ts_relations t) + 2) t exclusionSetOperator objectType relation {})"

section \<open>Cycles\<close>

text \<open>
  The map of visited relations is cloned before it is passed on; what a callee adds to its copy is
  either already there or never read again, so passing the set down a path is what the code does.
\<close>

definition visit_key :: "string \<Rightarrow> string \<Rightarrow> string" where
  "visit_key objectType relation = objectType @ ''#'' @ relation"

definition type_keys :: "type_system \<Rightarrow> string \<Rightarrow> string set" where
  "type_keys t objectType =
     visit_key objectType ` set (map fst (case map_of (ts_relations t) objectType of None \<Rightarrow> [] | Some rs \<Rightarrow> rs))"

lemma GetRelation_type_keys: "GetRelation t ot cr = Inr rel \<Longrightarrow> visit_key ot cr \<in> type_keys t ot"
  by (auto simp: GetRelation_def GetRelations_def type_keys_def split: option.splits sum.splits
      intro!: imageI dest!: map_of_SomeD intro: rev_image_eqI)

lemma finite_type_keys [simp]: "finite (type_keys t ot)"
  unfolding type_keys_def by (intro finite_imageI finite_set)

text \<open>
  Termination: following a computed relation leaves one relation of the type fewer to visit, the
  other calls go down in the rewrite.
\<close>

function (sequential) hasCycle :: "type_system \<Rightarrow> string \<Rightarrow> string \<Rightarrow> userset \<Rightarrow> string set \<Rightarrow> ts_error + bool"
and hasCycle_children :: "type_system \<Rightarrow> string \<Rightarrow> string \<Rightarrow> userset list \<Rightarrow> string set \<Rightarrow> ts_error + bool" where
  "hasCycle t ot rn (ComputedUserset cr) visited =
     (let visited = insert (visit_key ot rn) visited in
      if visit_key ot cr \<in> visited then Inr True
      else (case GetRelation t ot cr of
              Inl e \<Rightarrow> Inl e
            | Inr rel \<Rightarrow> hasCycle t ot cr (rel_rewrite rel) visited))"
| "hasCycle t ot rn (Union cs) visited = hasCycle_children t ot rn cs (insert (visit_key ot rn) visited)"
| "hasCycle t ot rn (Intersection cs) visited = hasCycle_children t ot rn cs (insert (visit_key ot rn) visited)"
| "hasCycle t ot rn (Difference b s) visited =
     (case hasCycle t ot rn b (insert (visit_key ot rn) visited) of
        Inl e \<Rightarrow> Inl e
      | Inr c \<Rightarrow> if c then Inr True else hasCycle t ot rn s (insert (visit_key ot rn) visited))"
| "hasCycle t ot rn rw visited = Inr False"
| "hasCycle_children t ot rn [] visited = Inr False"
| "hasCycle_children t ot rn (c # cs) visited =
     (case hasCycle t ot rn c visited of
        Inl e \<Rightarrow> Inl e
      | Inr b \<Rightarrow> if b then Inr True else hasCycle_children t ot rn cs visited)"
  by pat_completeness auto

termination
proof (relation "measures
    [\<lambda>x. case x of Inl (t, ot, rn, rw, v) \<Rightarrow> card (type_keys t ot - insert (visit_key ot rn) v)
               | Inr (t, ot, rn, cs, v) \<Rightarrow> card (type_keys t ot - insert (visit_key ot rn) v),
     \<lambda>x. case x of Inl (t, ot, rn, rw, v) \<Rightarrow> size rw | Inr (t, ot, rn, cs, v) \<Rightarrow> size_list size cs]")
  fix t ot rn cr v x rel
  assume x: "x = insert (visit_key ot rn) v" "visit_key ot cr \<notin> x" and rel: "GetRelation t ot cr = Inr rel"
  have "card (type_keys t ot - insert (visit_key ot cr) x) < card (type_keys t ot - x)"
    using GetRelation_type_keys [OF rel] x(2) by (intro psubset_card_mono) auto
  then show "(Inl (t, ot, cr, rel_rewrite rel, x), Inl (t, ot, rn, ComputedUserset cr, v)) \<in> measures
    [\<lambda>x. case x of Inl (t, ot, rn, rw, v) \<Rightarrow> card (type_keys t ot - insert (visit_key ot rn) v)
               | Inr (t, ot, rn, cs, v) \<Rightarrow> card (type_keys t ot - insert (visit_key ot rn) v),
     \<lambda>x. case x of Inl (t, ot, rn, rw, v) \<Rightarrow> size rw | Inr (t, ot, rn, cs, v) \<Rightarrow> size_list size cs]"
    using x(1) by simp
qed (auto simp: card_mono intro: le_less_trans)

definition HasCycle :: "type_system \<Rightarrow> string \<Rightarrow> string \<Rightarrow> ts_error + bool" where
  "HasCycle t objectType relationName =
     (case GetRelation t objectType relationName of
        Inl e \<Rightarrow> Inl e
      | Inr relation \<Rightarrow> hasCycle t objectType relationName (rel_rewrite relation) {})"

section \<open>Entrypoints\<close>

text \<open>
  \<open>hasEntrypoints\<close> records visited relations in a map from types to maps from relations to flags.
  \<open>maps.Clone\<close> copies only the outer map, so the inner maps are shared between the copies: they live
  in a heap (a list, the address is the index) and the outer map holds their addresses.
\<close>

type_synonym visit_heap = "(string \<rightharpoonup> bool) list"

type_synonym visit_map = "string \<rightharpoonup> nat"

definition mark_visited :: "string \<Rightarrow> string \<Rightarrow> bool \<Rightarrow> visit_map \<Rightarrow> visit_heap \<Rightarrow> visit_map \<times> visit_heap" where
  "mark_visited typeName relationName b v h =
     (case v typeName of
        Some a \<Rightarrow> (v, h[a := (h ! a)(relationName \<mapsto> b)])
      | None \<Rightarrow> (v(typeName \<mapsto> length h), h @ [[relationName \<mapsto> b]]))"

definition visited_flag :: "visit_map \<Rightarrow> visit_heap \<Rightarrow> string \<Rightarrow> string \<Rightarrow> bool option" where
  "visited_flag v h typeName relationName =
     (case v typeName of None \<Rightarrow> None | Some a \<Rightarrow> (h ! a) relationName)"

definition lookup_relation :: "relations_map \<Rightarrow> string \<Rightarrow> string \<Rightarrow> relation_def option" where
  "lookup_relation typedefs typeName relationName =
     (case map_of typedefs typeName of None \<Rightarrow> None | Some rs \<Rightarrow> map_of rs relationName)"

type_synonym entry_result = "((ts_error + bool \<times> bool) \<times> visit_heap) option"

type_synonym entry_call = "string \<Rightarrow> string \<Rightarrow> userset \<Rightarrow> visit_map \<Rightarrow> visit_heap \<Rightarrow> entry_result"

fun entry_this :: "entry_call \<Rightarrow> relations_map \<Rightarrow> string \<Rightarrow> string \<Rightarrow> relation_reference list
    \<Rightarrow> visit_map \<Rightarrow> visit_heap \<Rightarrow> entry_result" where
  "entry_this rec typedefs typeName relationName [] v h = Some (Inr (False, False), h)"
| "entry_this rec typedefs typeName relationName (assignable # rest) v h =
     (if rr_relation_or_wildcard assignable = None \<or> rr_is_wildcard assignable then
        Some (Inr (True, False), snd (mark_visited typeName relationName True v h))
      else
        (case lookup_relation typedefs (rr_type assignable) (rr_relation assignable) of
           None \<Rightarrow> Some (Inl (UndefinedTypeDefinition (rr_type assignable) (rr_relation assignable)), h)
         | Some rel \<Rightarrow>
             if visited_flag v h (rr_type assignable) (rr_relation assignable) \<noteq> None then
               entry_this rec typedefs typeName relationName rest v h
             else
               (case rec (rr_type assignable) (rr_relation assignable) (rel_rewrite rel) v h of
                  None \<Rightarrow> None
                | Some (Inl e, h) \<Rightarrow> Some (Inl e, h)
                | Some (Inr (b, _), h) \<Rightarrow>
                    if b then Some (Inr (True, False), h)
                    else entry_this rec typedefs typeName relationName rest v h)))"

fun entry_ttu :: "entry_call \<Rightarrow> relations_map \<Rightarrow> string \<Rightarrow> relation_reference list
    \<Rightarrow> visit_map \<Rightarrow> visit_heap \<Rightarrow> entry_result" where
  "entry_ttu rec typedefs computed [] v h = Some (Inr (False, False), h)"
| "entry_ttu rec typedefs computed (assignable # rest) v h =
     (case lookup_relation typedefs (rr_type assignable) computed of
        None \<Rightarrow> entry_ttu rec typedefs computed rest v h
      | Some rel \<Rightarrow>
          (case visited_flag v h (rr_type assignable) computed of
             Some b \<Rightarrow> if b then Some (Inr (True, False), h) else entry_ttu rec typedefs computed rest v h
           | None \<Rightarrow>
               (case rec (rr_type assignable) computed (rel_rewrite rel) v h of
                  None \<Rightarrow> None
                | Some (Inl e, h) \<Rightarrow> Some (Inl e, h)
                | Some (Inr (b, _), h) \<Rightarrow>
                    if b then Some (Inr (True, False), h) else entry_ttu rec typedefs computed rest v h)))"

text \<open>
  One call, with the calls for other relations as an argument.  The operands of a set operation are
  visited with the map the caller passed (not the clone).
\<close>

fun entry_body :: "entry_call \<Rightarrow> relations_map \<Rightarrow> entry_call"
and entry_union :: "entry_call \<Rightarrow> relations_map \<Rightarrow> string \<Rightarrow> string \<Rightarrow> userset list \<Rightarrow> bool
    \<Rightarrow> visit_map \<Rightarrow> visit_heap \<Rightarrow> entry_result"
and entry_intersection :: "entry_call \<Rightarrow> relations_map \<Rightarrow> string \<Rightarrow> string \<Rightarrow> userset list
    \<Rightarrow> visit_map \<Rightarrow> visit_heap \<Rightarrow> entry_result" where
  "entry_body rec typedefs typeName relationName rewrite visited h =
     (let (v, h) = mark_visited typeName relationName False visited h in
      case lookup_relation typedefs typeName relationName of
        None \<Rightarrow> Some (Inl (UndefinedTypeDefinition typeName relationName), h)
      | Some relation \<Rightarrow>
          (case rewrite of
             This \<Rightarrow> entry_this rec typedefs typeName relationName (rel_related relation) v h
           | ComputedUserset computed \<Rightarrow>
               (case lookup_relation typedefs typeName computed of
                  None \<Rightarrow> Some (Inl (UndefinedTypeDefinition typeName computed), h)
                | Some rel \<Rightarrow>
                    (case visited_flag v h typeName computed of
                       Some b \<Rightarrow> Some (Inr (b, True), h)
                     | None \<Rightarrow> rec typeName computed (rel_rewrite rel) v h))
           | TupleToUserset tupleset computed \<Rightarrow>
               (case lookup_relation typedefs typeName tupleset of
                  None \<Rightarrow> Some (Inl (UndefinedTypeDefinition typeName tupleset), h)
                | Some rel \<Rightarrow> entry_ttu rec typedefs computed (rel_related rel) v h)
           | Union cs \<Rightarrow>
               if length cs < 2 then Some (Inl (TooFewChildren typeName relationName), h)
               else entry_union rec typedefs typeName relationName cs False visited h
           | Intersection cs \<Rightarrow>
               if length cs < 2 then Some (Inl (TooFewChildren typeName relationName), h)
               else entry_intersection rec typedefs typeName relationName cs visited h
           | Difference base sub \<Rightarrow>
               (case entry_body rec typedefs typeName relationName base visited h of
                  None \<Rightarrow> None
                | Some (Inl e, h) \<Rightarrow> Some (Inl e, h)
                | Some (Inr (b, loop), h) \<Rightarrow>
                    if \<not> b then Some (Inr (False, loop), h)
                    else
                      (case entry_body rec typedefs typeName relationName sub visited h of
                         None \<Rightarrow> None
                       | Some (Inl e, h) \<Rightarrow> Some (Inl e, h)
                       | Some (Inr (b, loop), h) \<Rightarrow>
                           if \<not> b then Some (Inr (False, loop), h) else Some (Inr (True, False), h)))
           | Userset_Nil \<Rightarrow> Some (Inl (UnknownRewrite typeName relationName), h)))"
| "entry_union rec typedefs typeName relationName [] loop visited h = Some (Inr (False, loop), h)"
| "entry_union rec typedefs typeName relationName (c # cs) loop visited h =
     (case entry_body rec typedefs typeName relationName c visited h of
        None \<Rightarrow> None
      | Some (Inl e, h) \<Rightarrow> Some (Inl e, h)
      | Some (Inr (b, childLoop), h) \<Rightarrow>
          if b then Some (Inr (True, False), h)
          else entry_union rec typedefs typeName relationName cs (loop \<or> childLoop) visited h)"
| "entry_intersection rec typedefs typeName relationName [] visited h = Some (Inr (True, False), h)"
| "entry_intersection rec typedefs typeName relationName (c # cs) visited h =
     (case entry_body rec typedefs typeName relationName c visited h of
        None \<Rightarrow> None
      | Some (Inl e, h) \<Rightarrow> Some (Inl e, h)
      | Some (Inr (b, childLoop), h) \<Rightarrow>
          if \<not> b then Some (Inr (False, childLoop), h)
          else entry_intersection rec typedefs typeName relationName cs visited h)"

text \<open>Every call for another relation visits a new one, so the number of relations bounds the depth.\<close>

fun hasEntrypoints :: "nat \<Rightarrow> relations_map \<Rightarrow> entry_call" where
  "hasEntrypoints 0 typedefs typeName relationName rewrite visited h = None"
| "hasEntrypoints (Suc n) typedefs typeName relationName rewrite visited h =
     entry_body (hasEntrypoints n typedefs) typedefs typeName relationName rewrite visited h"

section \<open>Validation\<close>

fun isUsersetRewriteValid :: "type_system \<Rightarrow> string \<Rightarrow> string \<Rightarrow> userset \<Rightarrow> ts_error option" where
  "isUsersetRewriteValid t objectType relation Userset_Nil =
     Some (InvalidRelationError objectType relation ErrInvalidUsersetRewrite)"
| "isUsersetRewriteValid t objectType relation This = None"
| "isUsersetRewriteValid t objectType relation (ComputedUserset computed) =
     (if computed = relation then Some (InvalidRelationError objectType relation ErrInvalidUsersetRewrite)
      else (case GetRelation t objectType computed of
              Inl _ \<Rightarrow> Some (RelationUndefinedError objectType computed)
            | Inr _ \<Rightarrow> None))"
| "isUsersetRewriteValid t objectType relation (TupleToUserset tupleset computed) =
     (case GetRelation t objectType tupleset of
        Inl _ \<Rightarrow> Some (RelationUndefinedError objectType tupleset)
      | Inr tuplesetRelation \<Rightarrow>
          if rel_rewrite tuplesetRelation \<noteq> This then Some (TuplesetNotDirect objectType tupleset)
          else if IsSchemaVersionSupported (ts_schema_version t) then
            (if \<exists>rr \<in> set (rel_related tuplesetRelation). \<not> isl (GetRelation t (rr_type rr) computed) then None
             else Some (ComputedNotInUserTypes computed))
          else if \<exists>typeName \<in> fst ` set (ts_relations t). \<not> isl (GetRelation t typeName computed) then None
          else Some (RelationUndefinedError '''' computed))"
| "isUsersetRewriteValid t objectType relation (Union cs) =
     first_err (isUsersetRewriteValid t objectType relation) cs"
| "isUsersetRewriteValid t objectType relation (Intersection cs) =
     first_err (isUsersetRewriteValid t objectType relation) cs"
| "isUsersetRewriteValid t objectType relation (Difference base sub) =
     (case isUsersetRewriteValid t objectType relation base of
        Some e \<Rightarrow> Some e
      | None \<Rightarrow> isUsersetRewriteValid t objectType relation sub)"

definition validateTypeRestriction :: "type_system \<Rightarrow> string \<Rightarrow> string \<Rightarrow> relation_reference \<Rightarrow> ts_error option" where
  "validateTypeRestriction t objectType relationName related =
     (let invalid = InvalidRelationTypeError objectType relationName (rr_type related) (rr_relation related) in
      if isl (GetRelations t (rr_type related)) then Some invalid
      else if rr_relation_or_wildcard related \<noteq> None \<and> IsTuplesetRelation t objectType relationName = Inr True then Some invalid
      else if rr_relation_or_wildcard related \<noteq> None \<and> rr_relation related \<noteq> ''''
          \<and> isl (GetRelation t (rr_type related) (rr_relation related)) then Some invalid
      else if rr_condition related \<noteq> '''' \<and> GetCondition t (rr_condition related) = None then
        Some (RelationConditionError relationName (rr_condition related))
      else None)"

definition validateTypeRestrictions :: "type_system \<Rightarrow> string \<Rightarrow> string \<Rightarrow> ts_error option" where
  "validateTypeRestrictions t objectType relationName =
     (case GetRelation t objectType relationName of
        Inl e \<Rightarrow> Some e
      | Inr relation \<Rightarrow>
          (case IsDirectlyAssignable relation of
             Inl e \<Rightarrow> Some e
           | Inr assignable \<Rightarrow>
               if assignable \<and> rel_related relation = [] then Some (AssignableRelationError objectType relationName)
               else if \<not> assignable \<and> rel_related relation \<noteq> [] then Some (NonAssignableRelationError objectType relationName)
               else first_err (validateTypeRestriction t objectType relationName) (rel_related relation)))"

definition validateRelation :: "type_system \<Rightarrow> string \<Rightarrow> string \<Rightarrow> userset \<Rightarrow> ts_error option" where
  "validateRelation t typeName relationName rewrite =
     (case isUsersetRewriteValid t typeName relationName rewrite of
        Some e \<Rightarrow> Some e
      | None \<Rightarrow>
          (case validateTypeRestrictions t typeName relationName of
             Some e \<Rightarrow> Some e
           | None \<Rightarrow>
               (case hasEntrypoints (relation_count (ts_relations t) + 2) (ts_relations t) typeName relationName rewrite
                       Map.empty [] of
                  None \<Rightarrow> Some RewritePanic
                | Some (Inl e, _) \<Rightarrow> Some e
                | Some (Inr (b, loop), _) \<Rightarrow>
                    if \<not> b then
                      Some (InvalidRelationError typeName relationName (if loop then ErrNoEntryPointsLoop else ErrNoEntrypoints))
                    else
                      (case HasCycle t typeName relationName of
                         Inl e \<Rightarrow> Some e
                       | Inr c \<Rightarrow> if c then Some (InvalidRelationError typeName relationName ErrCycle) else None))))"

definition containsDuplicateType :: "authorization_model \<Rightarrow> bool" where
  "containsDuplicateType model \<longleftrightarrow> \<not> distinct (map td_type (am_type_definitions model))"

definition validateName :: "type_definition \<Rightarrow> ts_error option" where
  "validateName td =
     (let objectType = td_type td in
      if objectType = '''' then Some EmptyTypeName
      else if objectType = ''self'' \<or> objectType = ''this'' then Some (InvalidTypeError objectType)
      else first_err (\<lambda>(relation, _).
        if relation = '''' then Some (EmptyRelationName objectType)
        else if relation = ''self'' \<or> relation = ''this'' then Some (InvalidRelationError objectType relation ErrReservedKeywords)
        else None) (td_relations td))"

definition validateNames :: "type_system \<Rightarrow> ts_error option" where
  "validateNames t = first_err (\<lambda>(_, td). validateName td) (ts_type_definitions t)"

definition validateConditions :: "(condition_def \<Rightarrow> string option) \<Rightarrow> type_system \<Rightarrow> ts_error option" where
  "validateConditions compile t = first_err (\<lambda>(key, c).
     if key \<noteq> cond_name c then Some (ConditionNameMismatch key (cond_name c))
     else map_option ConditionCompileError (compile c)) (ts_conditions t)"

text \<open>The types and the relations of each type are validated in the order of their names.\<close>

definition validateRelations :: "type_system \<Rightarrow> ts_error option" where
  "validateRelations t = first_err (\<lambda>typeName.
     case map_of (ts_type_definitions t) typeName of
       None \<Rightarrow> None
     | Some td \<Rightarrow> first_err (\<lambda>relationName.
         validateRelation t typeName relationName
           (case map_of (td_relations td) relationName of None \<Rightarrow> Userset_Nil | Some rewrite \<Rightarrow> rewrite))
         (sort (map fst (td_relations td)))) (sort (map fst (ts_type_definitions t)))"

definition NewAndValidate ::
    "(authorization_model \<Rightarrow> string option) \<Rightarrow> (condition_def \<Rightarrow> string option) \<Rightarrow> authorization_model \<Rightarrow> ts_error + type_system" where
  "NewAndValidate graph_error compile model =
     (case New graph_error model of
        Inl e \<Rightarrow> Inl e
      | Inr t \<Rightarrow>
          if \<not> IsSchemaVersionSupported (ts_schema_version t) then Inl ErrInvalidSchemaVersion
          else if containsDuplicateType model then Inl ErrDuplicateTypes
          else (case validateNames t of
                  Some e \<Rightarrow> Inl e
                | None \<Rightarrow>
                    (case validateRelations t of
                       Some e \<Rightarrow> Inl e
                     | None \<Rightarrow>
                         (case validateConditions compile t of Some e \<Rightarrow> Inl e | None \<Rightarrow> Inr t))))"

end
