(* ===== verification/TypeSystemProps.thy ===== *)
theory TypeSystemProps
  imports TypeSystem
begin

text \<open>
  Properties of the type system: the cycle check decides whether a chain of computed relations leads
  into a cycle, a validated model is closed under its references, the resolution of computed
  relations ends on validated models, and its memo.
\<close>

section \<open>Counting relations\<close>

definition relation_pairs :: "relations_map \<Rightarrow> (string \<times> string) set" where
  "relation_pairs rels = (\<Union>(t, rs) \<in> set rels. {t} \<times> fst ` set rs)"

lemma finite_relation_pairs [simp]: "finite (relation_pairs rels)"
  unfolding relation_pairs_def by (rule finite_UN_I) auto

lemma card_relation_pairs: "card (relation_pairs rels) \<le> relation_count rels"
proof (induction rels)
  case (Cons p rels)
  obtain t rs where p: "p = (t, rs)" by (cases p)
  have "card ({t} \<times> fst ` set rs) \<le> length rs"
    by (metis card_cartesian_product_singleton card_image_le card_length finite_set order_trans)
  moreover have "relation_pairs (p # rels) = {t} \<times> fst ` set rs \<union> relation_pairs rels"
    by (simp add: relation_pairs_def p)
  ultimately show ?case
    using Cons card_Un_le [of "{t} \<times> fst ` set rs" "relation_pairs rels"] by (simp add: relation_count_def p)
qed (simp add: relation_pairs_def)

lemma lookup_relation_pairs: "lookup_relation rels t r \<noteq> None \<Longrightarrow> (t, r) \<in> relation_pairs rels"
  by (force simp: lookup_relation_def relation_pairs_def split: option.splits dest: map_of_SomeD)

section \<open>Computed relations as a graph\<close>

fun computed_of :: "userset \<Rightarrow> string set" where
  "computed_of (ComputedUserset r) = {r}"
| "computed_of (Union cs) = (\<Union>c \<in> set cs. computed_of c)"
| "computed_of (Intersection cs) = (\<Union>c \<in> set cs. computed_of c)"
| "computed_of (Difference b s) = computed_of b \<union> computed_of s"
| "computed_of _ = {}"

definition computed_step :: "type_system \<Rightarrow> string \<Rightarrow> string \<Rightarrow> string \<Rightarrow> bool" where
  "computed_step t ot r r' \<longleftrightarrow> (\<exists>rel. GetRelation t ot r = Inr rel \<and> r' \<in> computed_of (rel_rewrite rel))"

definition leads_to_cycle :: "type_system \<Rightarrow> string \<Rightarrow> string \<Rightarrow> bool" where
  "leads_to_cycle t ot r \<longleftrightarrow> (\<exists>x. (computed_step t ot)\<^sup>*\<^sup>* r x \<and> (computed_step t ot)\<^sup>+\<^sup>+ x x)"

text \<open>A walk from a relation that comes back to itself or to a set of relations.\<close>

inductive comes_back :: "type_system \<Rightarrow> string \<Rightarrow> string set \<Rightarrow> string \<Rightarrow> bool" for t ot where
  here: "r \<in> V \<Longrightarrow> comes_back t ot V r"
| onward: "computed_step t ot r r' \<Longrightarrow> comes_back t ot (insert r V) r' \<Longrightarrow> comes_back t ot V r"

lemma visit_key_inj [simp]: "visit_key ot r = visit_key ot r' \<longleftrightarrow> r = r'"
  by (simp add: visit_key_def)

lemma visit_key_image [simp]: "visit_key ot r \<in> visit_key ot ` V \<longleftrightarrow> r \<in> V"
  by auto

lemma comes_back_unfold:
  "comes_back t ot V r \<longleftrightarrow> r \<in> V \<or> (\<exists>r'. computed_step t ot r r' \<and> comes_back t ot (insert r V) r')"
  by (subst comes_back.simps) blast

lemma hasCycle_comes_back:
  "hasCycle t ot rn rw (visit_key ot ` V) = Inr b \<Longrightarrow>
     b \<longleftrightarrow> (\<exists>c \<in> computed_of rw. comes_back t ot (insert rn V) c)"
  "hasCycle_children t ot rn cs (visit_key ot ` insert rn V) = Inr b \<Longrightarrow>
     b \<longleftrightarrow> (\<exists>w \<in> set cs. \<exists>c \<in> computed_of w. comes_back t ot (insert rn V) c)"
proof (induction t ot rn rw "visit_key ot ` V" and t ot rn cs "visit_key ot ` insert rn V"
    arbitrary: V b and V b rule: hasCycle_hasCycle_children.induct)
  case (1 t ot rn cr)
  show ?case
  proof (cases "cr \<in> insert rn V")
    case True
    with 1 show ?thesis by (auto simp: comes_back.here)
  next
    case False
    then obtain rel where rel: "GetRelation t ot cr = Inr rel"
      and b: "hasCycle t ot cr (rel_rewrite rel) (visit_key ot ` insert rn V) = Inr b"
      using 1 by (auto split: sum.splits)
    have "b \<longleftrightarrow> (\<exists>c \<in> computed_of (rel_rewrite rel). comes_back t ot (insert cr (insert rn V)) c)"
      by (rule 1(1) [OF _ _ rel b]) (use False in auto)
    also have "\<dots> \<longleftrightarrow> comes_back t ot (insert rn V) cr"
      using False rel by (subst (2) comes_back_unfold) (auto simp: computed_step_def)
    finally show ?thesis by simp
  qed
next
  case (2 t ot rn cs)
  from 2(1) [of V b] 2(2) show ?case by simp
next
  case (3 t ot rn cs)
  from 3(1) [of V b] 3(2) show ?case by simp
next
  case (4 t ot rn w1 w2)
  let ?V = "insert rn V"
  from 4(3) obtain b1 where b1: "hasCycle t ot rn w1 (visit_key ot ` ?V) = Inr b1" by (auto split: sum.splits)
  from 4(1) [OF _ b1] have c1: "b1 \<longleftrightarrow> (\<exists>c \<in> computed_of w1. comes_back t ot ?V c)" by simp
  show ?case
  proof (cases b1)
    case True
    with 4(3) b1 c1 show ?thesis by auto
  next
    case False
    with 4(3) b1 have b2: "hasCycle t ot rn w2 (visit_key ot ` ?V) = Inr b" by simp
    have "b \<longleftrightarrow> (\<exists>c \<in> computed_of w2. comes_back t ot (insert rn ?V) c)"
      by (rule 4(2) [OF _ _ _ b2]) (use b1 False in simp_all)
    with False c1 show ?thesis by auto
  qed
next
  case (7 t ot rn c cs)
  let ?V = "insert rn V"
  from 7(3) obtain b1 where b1: "hasCycle t ot rn c (visit_key ot ` ?V) = Inr b1" by (auto split: sum.splits)
  from 7(1) [OF _ b1] have c1: "b1 \<longleftrightarrow> (\<exists>c \<in> computed_of c. comes_back t ot ?V c)" by simp
  show ?case
  proof (cases b1)
    case True
    with 7(3) b1 c1 show ?thesis by auto
  next
    case False
    with 7(3) b1 have b2: "hasCycle_children t ot rn cs (visit_key ot ` ?V) = Inr b" by simp
    have "b \<longleftrightarrow> (\<exists>w \<in> set cs. \<exists>c \<in> computed_of w. comes_back t ot ?V c)"
      by (rule 7(2) [OF _ _ _ b2]) (use b1 False in simp_all)
    with False c1 show ?thesis by auto
  qed
qed simp_all

lemma comes_back_cycle:
  "comes_back t ot V r \<Longrightarrow> (\<exists>x \<in> V. (computed_step t ot)\<^sup>*\<^sup>* r x) \<or> leads_to_cycle t ot r"
proof (induction rule: comes_back.induct)
  case (onward r r' V)
  then consider x where "x \<in> insert r V" "(computed_step t ot)\<^sup>*\<^sup>* r' x" | "leads_to_cycle t ot r'" by blast
  then show ?case
  proof cases
    case (1 x)
    with onward(1) have "(computed_step t ot)\<^sup>+\<^sup>+ r x" by (simp add: rtranclp_into_tranclp2)
    with 1 show ?thesis by (auto simp: leads_to_cycle_def dest: tranclp_into_rtranclp)
  next
    case 2
    with onward(1) show ?thesis by (auto simp: leads_to_cycle_def intro: converse_rtranclp_into_rtranclp)
  qed
qed auto

lemma leads_to_cycle_step:
  assumes "leads_to_cycle t ot r"
  obtains r' where "computed_step t ot r r'" "leads_to_cycle t ot r'"
proof -
  from assms obtain x where x: "(computed_step t ot)\<^sup>*\<^sup>* r x" "(computed_step t ot)\<^sup>+\<^sup>+ x x"
    by (auto simp: leads_to_cycle_def)
  have "(computed_step t ot)\<^sup>+\<^sup>+ r x" using x by auto
  then obtain r' where "computed_step t ot r r'" "(computed_step t ot)\<^sup>*\<^sup>* r' x"
    by (meson tranclpD)
  with x(2) that show thesis by (auto simp: leads_to_cycle_def)
qed

lemma cycle_comes_back:
  "leads_to_cycle t ot r \<Longrightarrow> comes_back t ot V r"
proof (induction "card (type_keys t ot - visit_key ot ` V)" arbitrary: V r rule: less_induct)
  case less
  show ?case
  proof (cases "r \<in> V")
    case False
    from less(2) obtain r' where r': "computed_step t ot r r'" "leads_to_cycle t ot r'" by (rule leads_to_cycle_step)
    then have "visit_key ot r \<in> type_keys t ot" by (auto simp: computed_step_def dest: GetRelation_type_keys)
    with False have "card (type_keys t ot - visit_key ot ` insert r V) < card (type_keys t ot - visit_key ot ` V)"
      by (intro psubset_card_mono) auto
    from less(1) [OF this r'(2)] r'(1) show ?thesis by (rule comes_back.onward [rotated])
  qed (rule comes_back.here)
qed

lemma hasCycle_defined:
  assumes "\<And>r rel. GetRelation t ot r = Inr rel \<Longrightarrow> \<forall>c \<in> computed_of (rel_rewrite rel). \<not> isl (GetRelation t ot c)"
  shows "\<forall>c \<in> computed_of rw. \<not> isl (GetRelation t ot c) \<Longrightarrow> \<exists>b. hasCycle t ot rn rw v = Inr b"
    "\<forall>w \<in> set cs. \<forall>c \<in> computed_of w. \<not> isl (GetRelation t ot c) \<Longrightarrow> \<exists>b. hasCycle_children t ot rn cs v = Inr b"
  using assms
  by (induction t ot rn rw v and t ot rn cs v rule: hasCycle_hasCycle_children.induct)
    (fastforce simp: Let_def isl_def split: sum.splits)+

lemma HasCycle_decides:
  assumes "\<And>r rel. GetRelation t ot r = Inr rel \<Longrightarrow> \<forall>c \<in> computed_of (rel_rewrite rel). \<not> isl (GetRelation t ot c)"
    and "GetRelation t ot r = Inr rel"
  shows "HasCycle t ot r = Inr (leads_to_cycle t ot r)"
proof -
  obtain b where b: "hasCycle t ot r (rel_rewrite rel) {} = Inr b"
    using hasCycle_defined(1) [OF assms(1)] assms by meson
  with hasCycle_comes_back(1) [of t ot r "rel_rewrite rel" "{}"]
  have "b \<longleftrightarrow> (\<exists>c \<in> computed_of (rel_rewrite rel). comes_back t ot {r} c)" by simp
  also have "\<dots> \<longleftrightarrow> comes_back t ot {} r"
    using assms(2) by (subst (2) comes_back_unfold) (auto simp: computed_step_def)
  also have "\<dots> \<longleftrightarrow> leads_to_cycle t ot r"
    using comes_back_cycle [of t ot "{}" r] cycle_comes_back by auto
  finally show ?thesis using b assms(2) by (simp add: HasCycle_def)
qed

section \<open>The structures built from a model\<close>

text \<open>The relations and tuplesets of a type are those of its (last) definition.\<close>

definition ts_consistent :: "type_system \<Rightarrow> bool" where
  "ts_consistent t \<longleftrightarrow> (\<forall>ot.
     map_of (ts_relations t) ot
       = map_option (\<lambda>td. map (new_relation td) (td_relations td)) (map_of (ts_type_definitions t) ot)
     \<and> map_of (ts_ttu_relations t) ot
       = map_option (\<lambda>td. map (\<lambda>(r, rw). (r, flattenUserset rw)) (td_relations td)) (map_of (ts_type_definitions t) ot)
     \<and> (\<forall>td. map_of (ts_type_definitions t) ot = Some td \<longrightarrow> td_type td = ot))"

lemma New_loop_Cons: "New_loop (td # tds) t = New_loop tds (New_loop [td] t)"
  by (simp add: New_loop_def)

lemma New_loop_consistent: "ts_consistent t \<Longrightarrow> ts_consistent (New_loop tds t)"
proof (induction tds arbitrary: t)
  case (Cons td tds)
  have "ts_consistent (New_loop [td] t)"
    using Cons.prems by (auto simp: ts_consistent_def New_loop_def update_conv')
  with Cons.IH show ?case by (subst New_loop_Cons) blast
qed (simp add: New_loop_def)

lemma New_loop_fields:
  "ts_schema_version (New_loop tds t) = ts_schema_version t \<and> ts_conditions (New_loop tds t) = ts_conditions t"
proof (induction tds arbitrary: t)
  case (Cons td tds)
  then show ?case by (subst (1 2) New_loop_Cons) (simp add: New_loop_def)
qed (simp add: New_loop_def)

lemma New_consistent: "New g m = Inr t \<Longrightarrow> ts_consistent t"
  by (auto simp: New_def ts_consistent_def intro!: New_loop_consistent [unfolded ts_consistent_def, rule_format]
      split: option.splits)

lemma new_relation_lookup:
  "map_of (map (new_relation td) rs) r =
     map_option (\<lambda>rw. \<lparr>rel_name = r, rel_rewrite = rw,
       rel_related = (case td_metadata td r of None \<Rightarrow> [] | Some ts \<Rightarrow> ts)\<rparr>) (map_of rs r)"
  by (induction rs) (auto simp: new_relation_def)

lemma GetRelation_consistent:
  assumes "ts_consistent t"
  shows "GetRelation t ot r = Inr rel \<longleftrightarrow>
    (\<exists>td rw. map_of (ts_type_definitions t) ot = Some td \<and> map_of (td_relations td) r = Some rw
       \<and> rel = \<lparr>rel_name = r, rel_rewrite = rw,
                rel_related = (case td_metadata td r of None \<Rightarrow> [] | Some ts \<Rightarrow> ts)\<rparr>)"
  using assms
  by (auto simp: GetRelation_def GetRelations_def GetTypeDefinition_def ts_consistent_def new_relation_lookup
      split: option.splits)

section \<open>What validation establishes\<close>

fun complete_rewrite :: "userset \<Rightarrow> bool" where
  "complete_rewrite Userset_Nil = False"
| "complete_rewrite (Union cs) = (\<forall>c \<in> set cs. complete_rewrite c)"
| "complete_rewrite (Intersection cs) = (\<forall>c \<in> set cs. complete_rewrite c)"
| "complete_rewrite (Difference b s) = (complete_rewrite b \<and> complete_rewrite s)"
| "complete_rewrite _ = True"

fun contains_this :: "userset \<Rightarrow> bool" where
  "contains_this This = True"
| "contains_this (Union cs) = (\<exists>c \<in> set cs. contains_this c)"
| "contains_this (Intersection cs) = (\<exists>c \<in> set cs. contains_this c)"
| "contains_this (Difference b s) = (contains_this b \<or> contains_this s)"
| "contains_this _ = False"

lemma walk_self:
  "complete_rewrite rw \<Longrightarrow>
     WalkUsersetRewrite self_handler rw st = Some (Inr (if contains_this rw then Some True else None), st)"
  "\<forall>c \<in> set cs. complete_rewrite c \<Longrightarrow>
     walk_children self_handler cs st = Some (Inr (if \<exists>c \<in> set cs. contains_this c then Some True else None), st)"
proof (induction "self_handler :: (unit, bool) rewrite_handler" rw st and "self_handler :: (unit, bool) rewrite_handler" cs st
    rule: WalkUsersetRewrite_walk_children.induct)
  case (1 rw st)
  then show ?case
    by (cases rw) (auto simp: self_handler_def)
qed auto

lemma RewriteContainsSelf_iff: "complete_rewrite rw \<Longrightarrow> RewriteContainsSelf rw = Inr (contains_this rw)"
  by (simp add: RewriteContainsSelf_def walk_self del: WalkUsersetRewrite.simps)

lemma isUsersetRewriteValid_complete: "isUsersetRewriteValid t ot r rw = None \<Longrightarrow> complete_rewrite rw"
  by (induction t ot r rw rule: isUsersetRewriteValid.induct)
    (auto simp: first_err_None_iff split: option.splits)

lemma isUsersetRewriteValid_computed:
  "isUsersetRewriteValid t ot r rw = None \<Longrightarrow> c \<in> computed_of rw \<Longrightarrow> c \<noteq> r \<and> \<not> isl (GetRelation t ot c)"
  by (induction t ot r rw rule: isUsersetRewriteValid.induct)
    (auto simp: first_err_None_iff isl_def split: option.splits if_splits sum.splits)

lemma isUsersetRewriteValid_ttu:
  "isUsersetRewriteValid t ot r rw = None \<Longrightarrow> IsSchemaVersionSupported (ts_schema_version t) \<Longrightarrow>
   (ts, c) \<in> set (flattenUserset rw) \<Longrightarrow>
   \<exists>trel. GetRelation t ot ts = Inr trel \<and> rel_rewrite trel = This
     \<and> (\<exists>rr \<in> set (rel_related trel). \<not> isl (GetRelation t (rr_type rr) c))"
  by (induction t ot r rw rule: isUsersetRewriteValid.induct)
    (auto simp: first_err_None_iff split: option.splits if_splits sum.splits)

lemma NewAndValidate_facts:
  assumes "NewAndValidate g compile m = Inr t"
  shows "ts_consistent t" and "IsSchemaVersionSupported (ts_schema_version t)"
    and "distinct (map td_type (am_type_definitions m))" and "New g m = Inr t"
    and "GetRelation t ot r = Inr rel \<Longrightarrow> validateRelation t ot r (rel_rewrite rel) = None"
    and "(k, c) \<in> set (ts_conditions t) \<Longrightarrow> k = cond_name c \<and> compile c = None"
proof -
  from assms show new: "New g m = Inr t" by (auto simp: NewAndValidate_def split: sum.splits if_splits option.splits)
  then show cons: "ts_consistent t" by (rule New_consistent)
  from assms show "IsSchemaVersionSupported (ts_schema_version t)" "distinct (map td_type (am_type_definitions m))"
    by (auto simp: NewAndValidate_def containsDuplicateType_def new split: if_splits)
  from assms have rels: "validateRelations t = None" and conds: "validateConditions compile t = None"
    by (auto simp: NewAndValidate_def new split: if_splits option.splits)
  from conds show "(k, c) \<in> set (ts_conditions t) \<Longrightarrow> k = cond_name c \<and> compile c = None"
    by (force simp: validateConditions_def first_err_None_iff split: if_splits)
  show "validateRelation t ot r (rel_rewrite rel) = None" if rel: "GetRelation t ot r = Inr rel"
  proof -
    from rel obtain td rw where td: "map_of (ts_type_definitions t) ot = Some td" "map_of (td_relations td) r = Some rw"
      "rel_rewrite rel = rw" by (auto simp: GetRelation_consistent [OF cons])
    from td(1) have "ot \<in> fst ` set (ts_type_definitions t)" by (force dest: map_of_SomeD)
    moreover from td(2) have "r \<in> fst ` set (td_relations td)" by (force dest: map_of_SomeD)
    ultimately show ?thesis using rels td by (force simp: validateRelations_def first_err_None_iff)
  qed
qed

lemma validateRelation_None:
  assumes "validateRelation t ot r rw = None"
  shows "isUsersetRewriteValid t ot r rw = None" and "validateTypeRestrictions t ot r = None"
    and "\<exists>l h. hasEntrypoints (relation_count (ts_relations t) + 2) (ts_relations t) ot r rw Map.empty [] = Some (Inr (True, l), h)"
    and "HasCycle t ot r = Inr False"
  using assms by (auto simp: validateRelation_def split: option.splits sum.splits if_splits)

lemma validateTypeRestrictions_None:
  assumes "validateTypeRestrictions t ot r = None" and "GetRelation t ot r = Inr rel" and "complete_rewrite (rel_rewrite rel)"
  shows "(rel_related rel \<noteq> []) = contains_this (rel_rewrite rel)"
    and "rr \<in> set (rel_related rel) \<Longrightarrow> \<not> isl (GetRelations t (rr_type rr))"
    and "rr \<in> set (rel_related rel) \<Longrightarrow> rr_relation rr \<noteq> '''' \<Longrightarrow> \<not> isl (GetRelation t (rr_type rr) (rr_relation rr))"
    and "rr \<in> set (rel_related rel) \<Longrightarrow> rr_condition rr \<noteq> '''' \<Longrightarrow> GetCondition t (rr_condition rr) \<noteq> None"
    and "rr \<in> set (rel_related rel) \<Longrightarrow> IsTuplesetRelation t ot r = Inr True \<Longrightarrow> rr_relation_or_wildcard rr = None"
proof -
  from assms have all: "contains_this (rel_rewrite rel) = (rel_related rel \<noteq> [])"
    "\<forall>rr \<in> set (rel_related rel). validateTypeRestriction t ot r rr = None"
    by (auto simp: validateTypeRestrictions_def IsDirectlyAssignable_def RewriteContainsSelf_iff first_err_None_iff
        split: if_splits)
  then show "(rel_related rel \<noteq> []) = contains_this (rel_rewrite rel)" by simp
  fix rr assume rr: "rr \<in> set (rel_related rel)"
  with all(2) have none: "validateTypeRestriction t ot r rr = None" by blast
  show "\<not> isl (GetRelations t (rr_type rr))"
    using none by (auto simp: validateTypeRestriction_def Let_def split: if_splits)
  show "rr_relation rr \<noteq> '''' \<Longrightarrow> \<not> isl (GetRelation t (rr_type rr) (rr_relation rr))"
    using none by (auto simp: validateTypeRestriction_def Let_def rr_relation_def split: if_splits)
  show "rr_condition rr \<noteq> '''' \<Longrightarrow> GetCondition t (rr_condition rr) \<noteq> None"
    using none by (auto simp: validateTypeRestriction_def Let_def split: if_splits)
  show "IsTuplesetRelation t ot r = Inr True \<Longrightarrow> rr_relation_or_wildcard rr = None"
    using none by (auto simp: validateTypeRestriction_def Let_def split: if_splits)
qed

lemma validated_computed:
  assumes "NewAndValidate g compile m = Inr t" and "GetRelation t ot r = Inr rel" and "c \<in> computed_of (rel_rewrite rel)"
  shows "\<not> isl (GetRelation t ot c)"
  using isUsersetRewriteValid_computed [OF validateRelation_None(1) [OF NewAndValidate_facts(5) [OF assms(1,2)]] assms(3)]
  by simp

lemma validated_acyclic:
  assumes "NewAndValidate g compile m = Inr t" and "GetRelation t ot r = Inr rel"
  shows "\<not> leads_to_cycle t ot r"
proof -
  have "HasCycle t ot r = Inr False" by (rule validateRelation_None(4) [OF NewAndValidate_facts(5) [OF assms]])
  moreover have "HasCycle t ot r = Inr (leads_to_cycle t ot r)"
    by (rule HasCycle_decides [OF _ assms(2)]) (use validated_computed [OF assms(1)] in blast)
  ultimately show ?thesis by simp
qed

section \<open>Properties of validation\<close>

text \<open>
  C15: the cycle check ends on every model whose computed relations are defined, and answers whether
  following computed relations from the given one can lead into a cycle.
\<close>

theorem HasCycle_exact:
  assumes "\<forall>r rel. GetRelation t ot r = Inr rel \<longrightarrow> (\<forall>c \<in> computed_of (rel_rewrite rel). \<exists>rel'. GetRelation t ot c = Inr rel')"
    and "GetRelation t ot r = Inr rel"
  shows "HasCycle t ot r = Inr (\<exists>x. (computed_step t ot)\<^sup>*\<^sup>* r x \<and> (computed_step t ot)\<^sup>+\<^sup>+ x x)"
  by (rule HasCycle_decides [unfolded leads_to_cycle_def, OF _ assms(2)]) (use assms(1) in \<open>metis sum.disc(2)\<close>)

text \<open>
  C11: a model that passes validation is closed: its types are different, every computed relation is
  a defined relation of the type other than itself, no chain of computed relations is cyclic, every
  tupleset is a direct relation one of whose types defines the computed relation, a relation has
  type restrictions exactly when it can be assigned directly, and every restriction names a defined
  type, relation and condition.
\<close>

theorem NewAndValidate_closed:
  assumes "NewAndValidate g compile m = Inr t" and "GetRelation t ot r = Inr rel"
  shows "distinct (map td_type (am_type_definitions m))
    \<and> (\<forall>c \<in> computed_of (rel_rewrite rel). c \<noteq> r \<and> (\<exists>rel'. GetRelation t ot c = Inr rel'))
    \<and> \<not> leads_to_cycle t ot r
    \<and> (\<forall>(ts, c) \<in> set (flattenUserset (rel_rewrite rel)). \<exists>trel. GetRelation t ot ts = Inr trel
         \<and> rel_rewrite trel = This \<and> (\<exists>rr \<in> set (rel_related trel). \<exists>rel'. GetRelation t (rr_type rr) c = Inr rel'))
    \<and> (rel_related rel \<noteq> [] \<longleftrightarrow> contains_this (rel_rewrite rel))
    \<and> (\<forall>rr \<in> set (rel_related rel). (\<exists>rels. GetRelations t (rr_type rr) = Inr rels)
         \<and> (rr_relation rr \<noteq> '''' \<longrightarrow> (\<exists>rel'. GetRelation t (rr_type rr) (rr_relation rr) = Inr rel'))
         \<and> (rr_condition rr \<noteq> '''' \<longrightarrow> GetCondition t (rr_condition rr) \<noteq> None))"
proof -
  note facts = NewAndValidate_facts [OF assms(1)]
  note none = validateRelation_None [OF facts(5) [OF assms(2)]]
  note restr = validateTypeRestrictions_None [OF none(2) assms(2) isUsersetRewriteValid_complete [OF none(1)]]
  have ex: "\<not> isl x \<longleftrightarrow> (\<exists>y. x = Inr y)" for x :: "ts_error + 'b" by (cases x) auto
  have computed: "\<forall>c \<in> computed_of (rel_rewrite rel). c \<noteq> r \<and> (\<exists>rel'. GetRelation t ot c = Inr rel')"
    using isUsersetRewriteValid_computed [OF none(1)] ex by blast
  have ttu: "\<forall>(ts, c) \<in> set (flattenUserset (rel_rewrite rel)). \<exists>trel. GetRelation t ot ts = Inr trel
      \<and> rel_rewrite trel = This \<and> (\<exists>rr \<in> set (rel_related trel). \<exists>rel'. GetRelation t (rr_type rr) c = Inr rel')"
    using isUsersetRewriteValid_ttu [OF none(1) facts(2)] ex by fast
  have rr: "\<forall>rr \<in> set (rel_related rel). (\<exists>rels. GetRelations t (rr_type rr) = Inr rels)
      \<and> (rr_relation rr \<noteq> '''' \<longrightarrow> (\<exists>rel'. GetRelation t (rr_type rr) (rr_relation rr) = Inr rel'))
      \<and> (rr_condition rr \<noteq> '''' \<longrightarrow> GetCondition t (rr_condition rr) \<noteq> None)"
    by (intro ballI conjI impI) (simp_all add: restr(2-4) ex [symmetric])
  show ?thesis by (intro conjI facts(3) computed validated_acyclic [OF assms] ttu restr(1) rr)
qed

section \<open>Resolution of computed relations\<close>

lemma ResolveComputedRelation_ends:
  assumes "\<And>r rel. GetRelation t ot r = Inr rel \<Longrightarrow> \<not> leads_to_cycle t ot r"
    and "\<forall>x \<in> V. (computed_step t ot)\<^sup>+\<^sup>+ x r"
  shows "\<exists>res memo'. ResolveComputedRelation t ot r memo = Some (res, memo')"
  using assms(2)
proof (induction "card (type_keys t ot - visit_key ot ` V)" arbitrary: V r rule: less_induct)
  case less
  consider v where "memo (memoizeKey ot r) = Some v" | e where "GetRelation t ot r = Inl e"
    | rel c where "memo (memoizeKey ot r) = None" "GetRelation t ot r = Inr rel" "rel_rewrite rel = ComputedUserset c"
    | rel where "GetRelation t ot r = Inr rel" "\<nexists>c. rel_rewrite rel = ComputedUserset c"
    by (metis not_None_eq sum.exhaust)
  then show ?case
  proof cases
    case (3 rel c)
    have step: "computed_step t ot r c" using 3 by (simp add: computed_step_def)
    have "r \<notin> V" using assms(1) [OF 3(2)] less(2) by (auto simp: leads_to_cycle_def)
    with GetRelation_type_keys [OF 3(2)]
    have "card (type_keys t ot - visit_key ot ` insert r V) < card (type_keys t ot - visit_key ot ` V)"
      by (intro psubset_card_mono) auto
    moreover have "\<forall>x \<in> insert r V. (computed_step t ot)\<^sup>+\<^sup>+ x c" using less(2) step by auto
    ultimately have "\<exists>res memo'. ResolveComputedRelation t ot c memo = Some (res, memo')" by (rule less(1))
    with 3 show ?thesis by (subst ResolveComputedRelation.simps) simp
  qed (subst ResolveComputedRelation.simps; auto split: option.split userset.split)+
qed

text \<open>
  C28: on a validated model the resolution of a computed relation always returns, whatever is in its memo.
\<close>

theorem ResolveComputedRelation_terminates:
  assumes "NewAndValidate g compile m = Inr t"
  shows "\<exists>res memo'. ResolveComputedRelation t ot r memo = Some (res, memo')"
  by (rule ResolveComputedRelation_ends [of t ot "{}"]) (use validated_acyclic [OF assms] in auto)

text \<open>The memos that calls for types without a dash in their names can produce.\<close>

inductive memo_reachable :: "type_system \<Rightarrow> (string \<rightharpoonup> string) \<Rightarrow> bool" for t where
  memo_empty: "memo_reachable t Map.empty"
| memo_call: "memo_reachable t memo \<Longrightarrow> CHR ''-'' \<notin> set ot \<Longrightarrow>
    ResolveComputedRelation t ot r memo = Some (res, memo') \<Longrightarrow> memo_reachable t memo'"

definition memo_sound :: "type_system \<Rightarrow> (string \<rightharpoonup> string) \<Rightarrow> bool" where
  "memo_sound t memo \<longleftrightarrow> (\<forall>key v. memo key = Some v \<longrightarrow>
     (\<exists>ot rel. CHR ''-'' \<notin> set ot \<and> key = memoizeKey ot v \<and> GetRelation t ot v = Inr rel \<and> rel_rewrite rel = This))"

lemma memoizeKey_inj:
  "CHR ''-'' \<notin> set ot \<Longrightarrow> CHR ''-'' \<notin> set ot' \<Longrightarrow> memoizeKey ot r = memoizeKey ot' r' \<longleftrightarrow> ot = ot' \<and> r = r'"
  unfolding memoizeKey_def using split_at_unique [of ot "CHR ''-''" r ot' r'] by auto

lemma memo_sound_store:
  "memo_sound t memo \<Longrightarrow> CHR ''-'' \<notin> set ot \<Longrightarrow> GetRelation t ot r = Inr rel \<Longrightarrow> rel_rewrite rel = This \<Longrightarrow>
   memo_sound t (memo(memoizeKey ot r \<mapsto> r))"
  unfolding memo_sound_def by auto

lemma memo_sound_hit:
  assumes "memo_sound t memo" and "CHR ''-'' \<notin> set ot" and "memo (memoizeKey ot r) = Some v"
  shows "v = r \<and> (\<exists>rel. GetRelation t ot r = Inr rel \<and> rel_rewrite rel = This)"
proof -
  from assms(1,3) obtain ot' rel where "CHR ''-'' \<notin> set ot'" "memoizeKey ot r = memoizeKey ot' v"
    and rel: "GetRelation t ot' v = Inr rel" "rel_rewrite rel = This"
    unfolding memo_sound_def by blast
  with memoizeKey_inj [OF assms(2), of ot' r v] have "ot = ot'" "r = v" by auto
  with rel show ?thesis by auto
qed

lemma ResolveComputedRelation_sound:
  assumes "ResolveComputedRelation t ot r memo = Some y"
  shows "\<forall>res memo'. y = (res, memo') \<longrightarrow> memo_sound t memo \<longrightarrow> CHR ''-'' \<notin> set ot \<longrightarrow>
    memo_sound t memo' \<and> (\<exists>m. ResolveComputedRelation t ot r Map.empty = Some (res, m))"
proof (rule ResolveComputedRelation.raw_induct [OF _ assms], intro allI impI, goal_cases)
  case (1 rec t ot r memo y res memo')
  then show ?case
  proof (cases "memo (memoizeKey ot r)")
    case (Some v)
    with 1 memo_sound_hit [OF 1(4,5) Some] show ?thesis by (subst ResolveComputedRelation.simps) auto
  next
    case None
    show ?thesis
    proof (cases "GetRelation t ot r")
      case (Inl e)
      with None 1 show ?thesis by (subst ResolveComputedRelation.simps) auto
    next
      case (Inr rel)
      with None 1 show ?thesis
        by (cases "rel_rewrite rel"; subst ResolveComputedRelation.simps) (auto intro: memo_sound_store)
    qed
  qed
qed

lemma ResolveComputedRelation_complete:
  assumes "ResolveComputedRelation t ot r m0 = Some y"
  shows "\<forall>res m. y = (res, m) \<longrightarrow> m0 = Map.empty \<longrightarrow> memo_sound t memo \<longrightarrow> CHR ''-'' \<notin> set ot \<longrightarrow>
    (\<exists>m'. ResolveComputedRelation t ot r memo = Some (res, m'))"
proof (rule ResolveComputedRelation.raw_induct [OF _ assms], intro allI impI, goal_cases)
  case (1 rec t ot r m0 y res m)
  show ?case
  proof (cases "memo (memoizeKey ot r)")
    case (Some v)
    with 1 memo_sound_hit [OF 1(5,6) Some] show ?thesis by (subst ResolveComputedRelation.simps) auto
  next
    case None
    show ?thesis
    proof (cases "GetRelation t ot r")
      case (Inl e)
      with None 1 show ?thesis by (subst ResolveComputedRelation.simps) auto
    next
      case (Inr rel)
      with None 1 show ?thesis
        by (cases "rel_rewrite rel"; subst ResolveComputedRelation.simps) auto
    qed
  qed
qed

lemma memo_reachable_sound: "memo_reachable t memo \<Longrightarrow> memo_sound t memo"
proof (induction rule: memo_reachable.induct)
  case (memo_call memo ot r res memo')
  with ResolveComputedRelation_sound [OF memo_call(3)] show ?case by blast
qed (simp add: memo_sound_def)

text \<open>
  C29: as long as no type has a dash in its name, the memo does not show: after any sequence of calls,
  a call returns what it would return with an empty memo.
\<close>

theorem ResolveComputedRelation_memo_transparent:
  assumes "memo_reachable t memo" and "CHR ''-'' \<notin> set ot"
  shows "map_option fst (ResolveComputedRelation t ot r memo) = map_option fst (ResolveComputedRelation t ot r Map.empty)"
proof (cases "ResolveComputedRelation t ot r memo")
  case None
  with ResolveComputedRelation_complete [of t ot r Map.empty, where memo = memo] memo_reachable_sound [OF assms(1)] assms(2)
  show ?thesis by (cases "ResolveComputedRelation t ot r Map.empty") auto
next
  case (Some y)
  with ResolveComputedRelation_sound [OF Some] memo_reachable_sound [OF assms(1)] assms(2) show ?thesis
    by (cases y) auto
qed

text \<open>
  C32: with dashes in names the memo mixes up relations: after the relation \<open>z\<close> of the type \<open>x-y\<close> was
  resolved, the relation \<open>y-z\<close> of the type \<open>x\<close> resolves to \<open>z\<close> and no longer to itself.
\<close>

theorem ResolveComputedRelation_memo_collision:
  assumes "GetRelation t (x @ ''-'' @ y) z = Inr rel" and "rel_rewrite rel = This"
    and "GetRelation t x (y @ ''-'' @ z) = Inr rel'" and "rel_rewrite rel' = This"
  shows "\<exists>memo. ResolveComputedRelation t (x @ ''-'' @ y) z Map.empty = Some (Inr z, memo)
    \<and> ResolveComputedRelation t x (y @ ''-'' @ z) memo = Some (Inr z, memo)
    \<and> map_option fst (ResolveComputedRelation t x (y @ ''-'' @ z) Map.empty) = Some (Inr (y @ ''-'' @ z))"
  using assms
  by (intro exI [of _ "[memoizeKey (x @ ''-'' @ y) z \<mapsto> z]"])
    (simp add: ResolveComputedRelation.simps memoizeKey_def)

section \<open>A model\<close>

text \<open>
  Documents with a parent document, editors and viewers, where a viewer is an editor or a viewer of
  the parent; and a type with a dash in its name.
\<close>

definition example_model :: authorization_model where
  "example_model =
     \<lparr>am_id = ''m'', am_schema_version = ''1.1'',
      am_type_definitions =
        [\<lparr>td_type = ''user'', td_relations = [], td_metadata = Map.empty\<rparr>,
         \<lparr>td_type = ''doc'',
          td_relations = [(''parent'', This), (''editor'', This),
            (''viewer'', Union [ComputedUserset ''editor'', TupleToUserset ''parent'' ''viewer'']),
            (''reader'', ComputedUserset ''editor'')],
          td_metadata = [''parent'' \<mapsto> [DirectRelationReference ''doc'' ''''],
            ''editor'' \<mapsto> [DirectRelationReference ''user'' '''', WildcardRelationReference ''user'']]\<rparr>],
      am_conditions = []\<rparr>"

definition example_ts :: type_system where
  "example_ts = (case New (\<lambda>_. None) example_model of Inr t \<Rightarrow> t)"

lemma example_ts_eq:
  "example_ts =
     \<lparr>ts_type_definitions = map (\<lambda>td. (td_type td, td)) (am_type_definitions example_model),
      ts_relations = map (\<lambda>td. (td_type td, map (new_relation td) (td_relations td))) (am_type_definitions example_model),
      ts_conditions = [],
      ts_ttu_relations = [(''user'', []), (''doc'', [(''parent'', []), (''editor'', []), (''viewer'', [(''parent'', ''viewer'')]), (''reader'', [])])],
      ts_model_id = ''m'', ts_schema_version = ''1.1''\<rparr>"
  by (simp add: example_ts_def New_def New_loop_def example_model_def)

lemma example_valid: "NewAndValidate (\<lambda>_. None) (\<lambda>_. None) example_model = Inr example_ts"
proof -
  have "New (\<lambda>_. None) example_model = Inr example_ts" by (simp add: example_ts_def New_def)
  moreover have "IsSchemaVersionSupported (ts_schema_version example_ts)" by code_simp
  moreover have "\<not> containsDuplicateType example_model" by code_simp
  moreover have "validateNames example_ts = None" by code_simp
  moreover have "validateRelations example_ts = None" by code_simp
  moreover have "validateConditions (\<lambda>_. None) example_ts = None" by code_simp
  ultimately show ?thesis by (simp add: NewAndValidate_def)
qed

lemma example_viewer: "\<exists>rel. GetRelation example_ts ''doc'' ''viewer'' = Inr rel
    \<and> rel_rewrite rel = Union [ComputedUserset ''editor'', TupleToUserset ''parent'' ''viewer'']"
proof -
  have "(case GetRelation example_ts ''doc'' ''viewer'' of Inl _ \<Rightarrow> Userset_Nil | Inr rel \<Rightarrow> rel_rewrite rel)
      = Union [ComputedUserset ''editor'', TupleToUserset ''parent'' ''viewer'']" by code_simp
  then show ?thesis by (auto split: sum.splits)
qed

theorem HasCycle_exact_witness:
  "HasCycle example_ts ''doc'' ''viewer'' = Inr False
   \<and> \<not> (\<exists>x. (computed_step example_ts ''doc'')\<^sup>*\<^sup>* ''viewer'' x \<and> (computed_step example_ts ''doc'')\<^sup>+\<^sup>+ x x)"
proof -
  obtain rel where rel: "GetRelation example_ts ''doc'' ''viewer'' = Inr rel" using example_viewer by blast
  have defined: "\<forall>r rel. GetRelation example_ts ''doc'' r = Inr rel \<longrightarrow>
      (\<forall>c \<in> computed_of (rel_rewrite rel). \<exists>rel'. GetRelation example_ts ''doc'' c = Inr rel')"
    using validated_computed [OF example_valid] by (metis sum.collapse(2))
  have "HasCycle example_ts ''doc'' ''viewer'' = Inr False" by code_simp
  with HasCycle_exact [OF defined rel] show ?thesis by simp
qed

theorem NewAndValidate_closed_witness:
  "\<exists>trel rr rel'. GetRelation example_ts ''doc'' ''parent'' = Inr trel \<and> rr \<in> set (rel_related trel)
     \<and> GetRelation example_ts (rr_type rr) ''viewer'' = Inr rel'"
proof -
  obtain rel where rel: "GetRelation example_ts ''doc'' ''viewer'' = Inr rel"
    "rel_rewrite rel = Union [ComputedUserset ''editor'', TupleToUserset ''parent'' ''viewer'']"
    using example_viewer by blast
  from NewAndValidate_closed [OF example_valid rel(1)]
  have "\<forall>(ts, c) \<in> set (flattenUserset (rel_rewrite rel)). \<exists>trel. GetRelation example_ts ''doc'' ts = Inr trel
      \<and> rel_rewrite trel = This \<and> (\<exists>rr \<in> set (rel_related trel). \<exists>rel'. GetRelation example_ts (rr_type rr) c = Inr rel')"
    by (elim conjE)
  with rel(2) show ?thesis by auto
qed

theorem ResolveComputedRelation_terminates_witness:
  "\<exists>res memo. ResolveComputedRelation example_ts ''doc'' ''reader'' Map.empty = Some (res, memo)"
  by (rule ResolveComputedRelation_terminates [OF example_valid])

lemma memo_reachable_example: "\<exists>memo. memo_reachable example_ts memo \<and> memo ''doc-editor'' = Some ''editor''"
proof -
  have "(case GetRelation example_ts ''doc'' ''editor'' of Inl _ \<Rightarrow> Userset_Nil | Inr rel \<Rightarrow> rel_rewrite rel) = This"
    by code_simp
  then have "ResolveComputedRelation example_ts ''doc'' ''editor'' Map.empty
      = Some (Inr ''editor'', [''doc-editor'' \<mapsto> ''editor''])"
    by (subst ResolveComputedRelation.simps) (auto simp: memoizeKey_def split: sum.splits)
  then have "memo_reachable example_ts [''doc-editor'' \<mapsto> ''editor'']"
    by (rule memo_reachable.memo_call [OF memo_reachable.memo_empty, rotated]) simp
  then show ?thesis by auto
qed

theorem ResolveComputedRelation_memo_transparent_witness:
  "\<exists>memo. memo ''doc-editor'' = Some ''editor'' \<and>
     map_option fst (ResolveComputedRelation example_ts ''doc'' ''reader'' memo)
       = map_option fst (ResolveComputedRelation example_ts ''doc'' ''reader'' Map.empty)"
proof -
  obtain memo where "memo_reachable example_ts memo" "memo ''doc-editor'' = Some ''editor''"
    using memo_reachable_example by blast
  with ResolveComputedRelation_memo_transparent [of example_ts memo "''doc''" "''reader''"] show ?thesis by auto
qed

definition dash_ts :: type_system where
  "dash_ts =
     \<lparr>ts_type_definitions =
        [(''a-b'', \<lparr>td_type = ''a-b'', td_relations = [(''c'', This)], td_metadata = Map.empty\<rparr>),
         (''a'', \<lparr>td_type = ''a'', td_relations = [(''b-c'', This)], td_metadata = Map.empty\<rparr>)],
      ts_relations =
        [(''a-b'', [(''c'', \<lparr>rel_name = ''c'', rel_rewrite = This, rel_related = []\<rparr>)]),
         (''a'', [(''b-c'', \<lparr>rel_name = ''b-c'', rel_rewrite = This, rel_related = []\<rparr>)])],
      ts_conditions = [], ts_ttu_relations = [], ts_model_id = ''m'', ts_schema_version = ''1.1''\<rparr>"

theorem ResolveComputedRelation_memo_collision_witness:
  "\<exists>memo. ResolveComputedRelation dash_ts ''a-b'' ''c'' Map.empty = Some (Inr ''c'', memo)
     \<and> ResolveComputedRelation dash_ts ''a'' ''b-c'' memo = Some (Inr ''c'', memo)"
proof -
  have "GetRelation dash_ts (''a'' @ ''-'' @ ''b'') ''c'' = Inr \<lparr>rel_name = ''c'', rel_rewrite = This, rel_related = []\<rparr>"
    "GetRelation dash_ts ''a'' (''b'' @ ''-'' @ ''c'') = Inr \<lparr>rel_name = ''b-c'', rel_rewrite = This, rel_related = []\<rparr>"
    by (simp_all add: dash_ts_def GetRelation_def GetRelations_def GetTypeDefinition_def)
  from ResolveComputedRelation_memo_collision [OF this(1) _ this(2)] show ?thesis by auto
qed

end
