(* ===== verification/Entrypoints.thy ===== *)
theory Entrypoints
  imports TypeSystemProps
begin

text \<open>
  The entrypoint check of the type system.  A relation has an entrypoint when some finite set of
  tuples can relate a concrete user to it; this is the least fixed point below.  The check, with its
  shared maps of visited relations, ends and finds only real entrypoints; it can miss one.
\<close>

section \<open>Meaning\<close>

inductive has_entry :: "relations_map \<Rightarrow> string \<Rightarrow> string \<Rightarrow> userset \<Rightarrow> bool" for td where
  entry_direct: "lookup_relation td tn rn = Some rel \<Longrightarrow> a \<in> set (rel_related rel) \<Longrightarrow>
    rr_relation_or_wildcard a = None \<or> rr_is_wildcard a \<Longrightarrow> has_entry td tn rn This"
| entry_userset: "lookup_relation td tn rn = Some rel \<Longrightarrow> a \<in> set (rel_related rel) \<Longrightarrow>
    lookup_relation td (rr_type a) (rr_relation a) = Some rel' \<Longrightarrow>
    has_entry td (rr_type a) (rr_relation a) (rel_rewrite rel') \<Longrightarrow> has_entry td tn rn This"
| entry_computed: "lookup_relation td tn c = Some rel \<Longrightarrow> has_entry td tn c (rel_rewrite rel) \<Longrightarrow>
    has_entry td tn rn (ComputedUserset c)"
| entry_tupleset: "lookup_relation td tn ts = Some rel \<Longrightarrow> a \<in> set (rel_related rel) \<Longrightarrow>
    lookup_relation td (rr_type a) c = Some rel' \<Longrightarrow> has_entry td (rr_type a) c (rel_rewrite rel') \<Longrightarrow>
    has_entry td tn rn (TupleToUserset ts c)"
| entry_or: "w \<in> set cs \<Longrightarrow> has_entry td tn rn w \<Longrightarrow> has_entry td tn rn (Union cs)"
| entry_and: "(\<And>w. w \<in> set cs \<Longrightarrow> has_entry td tn rn w) \<Longrightarrow> has_entry td tn rn (Intersection cs)"
| entry_but_not: "has_entry td tn rn b \<Longrightarrow> has_entry td tn rn s \<Longrightarrow> has_entry td tn rn (Difference b s)"

definition full_entry :: "relations_map \<Rightarrow> string \<Rightarrow> string \<Rightarrow> bool" where
  "full_entry td t r \<longleftrightarrow> (\<exists>rel. lookup_relation td t r = Some rel \<and> has_entry td t r (rel_rewrite rel))"

section \<open>The visited maps\<close>

definition vis_ok :: "visit_map \<Rightarrow> visit_heap \<Rightarrow> bool" where
  "vis_ok v h \<longleftrightarrow> (\<forall>t a. v t = Some a \<longrightarrow> a < length h) \<and> (\<forall>t t' a. v t = Some a \<longrightarrow> v t' = Some a \<longrightarrow> t = t')"

text \<open>A flag that is set belongs to a relation with an entrypoint, except for those in \<open>X\<close>.\<close>

definition flags_ok :: "relations_map \<Rightarrow> visit_map \<Rightarrow> visit_heap \<Rightarrow> (string \<times> string) set \<Rightarrow> bool" where
  "flags_ok td v h X \<longleftrightarrow> (\<forall>t r. visited_flag v h t r = Some True \<longrightarrow> (t, r) \<in> X \<or> full_entry td t r)"

text \<open>Flags of visited relations outside \<open>X\<close> are kept.\<close>

definition flags_kept :: "visit_map \<Rightarrow> visit_heap \<Rightarrow> visit_heap \<Rightarrow> (string \<times> string) set \<Rightarrow> bool" where
  "flags_kept v h h' X \<longleftrightarrow> length h \<le> length h' \<and>
     (\<forall>t r. (t, r) \<notin> X \<longrightarrow> visited_flag v h t r \<noteq> None \<longrightarrow> visited_flag v h' t r = visited_flag v h t r)"

lemma flags_kept_refl [simp]: "flags_kept v h h X"
  by (simp add: flags_kept_def)

lemma flags_kept_trans: "flags_kept v h h' X \<Longrightarrow> flags_kept v h' h'' X \<Longrightarrow> flags_kept v h h'' X"
  unfolding flags_kept_def by (metis order_trans)

lemma flags_keptD:
  "flags_kept v h h' X \<Longrightarrow> (t, r) \<notin> X \<Longrightarrow> visited_flag v h t r = Some b \<Longrightarrow> visited_flag v h' t r = Some b"
  unfolding flags_kept_def by (metis option.distinct(1))

lemma vis_ok_grow: "vis_ok v h \<Longrightarrow> flags_kept v h h' X \<Longrightarrow> vis_ok v h'"
  unfolding vis_ok_def flags_kept_def by (meson order_less_le_trans)

lemma mark_visited_spec:
  assumes "vis_ok v h" and "mark_visited t r b v h = (v', h')"
  shows "vis_ok v' h'" and "visited_flag v' h' t r = Some b"
    and "\<And>t' r'. (t', r') \<noteq> (t, r) \<Longrightarrow> visited_flag v' h' t' r' = visited_flag v h t' r'"
    and "v \<subseteq>\<^sub>m v'"
    and "flags_kept v h h' {(t, r)}"
proof -
  have "vis_ok v' h' \<and> visited_flag v' h' t r = Some b
    \<and> (\<forall>t' r'. (t', r') \<noteq> (t, r) \<longrightarrow> visited_flag v' h' t' r' = visited_flag v h t' r')
    \<and> v \<subseteq>\<^sub>m v'
    \<and> flags_kept v h h' {(t, r)}"
  proof (cases "v t")
    case None
    with assms have v': "v' = v(t \<mapsto> length h)" "h' = h @ [[r \<mapsto> b]]" by (auto simp: mark_visited_def)
    from assms(1) have lt: "v t' = Some a \<Longrightarrow> a < length h" for t' a by (simp add: vis_ok_def)
    have inj: "v s = Some a \<Longrightarrow> v s' = Some a \<Longrightarrow> s = s'" for s s' a using assms(1) unfolding vis_ok_def by blast
    have new: "v s \<noteq> Some (length h)" for s using lt less_irrefl by blast
    have "vis_ok v' h'" unfolding vis_ok_def v'
    proof (intro conjI allI impI)
      show "a < length (h @ [[r \<mapsto> b]])" if "(v(t \<mapsto> length h)) s = Some a" for s a
        using that lt [of s a] by (cases "s = t") auto
      show "s = s'" if "(v(t \<mapsto> length h)) s = Some a" "(v(t \<mapsto> length h)) s' = Some a" for s s' a
        using that new inj by (metis fun_upd_apply option.inject)
    qed
    moreover have "visited_flag v' h' t' r' = visited_flag v h t' r'" if "(t', r') \<noteq> (t, r)" for t' r'
      using that None lt by (auto simp: visited_flag_def v' nth_append split: option.splits)
    moreover have "visited_flag v h' t' r' = visited_flag v h t' r'" for t' r'
      using lt by (auto simp: visited_flag_def v' nth_append split: option.splits)
    ultimately show ?thesis using None
      by (auto simp: visited_flag_def v' flags_kept_def map_le_def split: option.splits)
  next
    case (Some a)
    with assms have v': "v' = v" "h' = h[a := (h ! a)(r \<mapsto> b)]" by (auto simp: mark_visited_def)
    from assms(1) Some have a: "a < length h" "\<And>t'. v t' = Some a \<Longrightarrow> t' = t" by (auto simp: vis_ok_def)
    have "visited_flag v' h' t' r' = visited_flag v h t' r'" if "(t', r') \<noteq> (t, r)" for t' r'
    proof (cases "t' = t")
      case True
      with that Some a(1) show ?thesis by (simp add: visited_flag_def v')
    next
      case False
      with a(2) have "v t' \<noteq> Some a" by blast
      then show ?thesis by (auto simp: visited_flag_def v' split: option.splits)
    qed
    moreover from this have "flags_kept v h h' {(t, r)}" by (simp add: flags_kept_def v')
    moreover have "vis_ok v' h'" using assms(1) by (simp add: vis_ok_def v')
    moreover have "visited_flag v' h' t r = Some b" using Some a(1) by (simp add: visited_flag_def v')
    ultimately show ?thesis using v'(1) map_le_refl by blast
  qed
  then show "vis_ok v' h'" and "visited_flag v' h' t r = Some b"
    and "\<And>t' r'. (t', r') \<noteq> (t, r) \<Longrightarrow> visited_flag v' h' t' r' = visited_flag v h t' r'"
    and "v \<subseteq>\<^sub>m v'"
    and "flags_kept v h h' {(t, r)}" by blast+
qed

lemma visited_flag_sub: "v \<subseteq>\<^sub>m v' \<Longrightarrow> visited_flag v h t r \<noteq> None \<Longrightarrow> visited_flag v' h t r = visited_flag v h t r"
  by (force simp: visited_flag_def map_le_def dom_def split: option.splits)

section \<open>Soundness\<close>

definition call_ok :: "relations_map \<Rightarrow> string \<Rightarrow> string \<Rightarrow> userset \<Rightarrow> visit_map \<Rightarrow> visit_heap \<Rightarrow> visit_heap \<Rightarrow> bool \<Rightarrow> bool" where
  "call_ok td t r rw v h h' b \<longleftrightarrow> flags_kept v h h' {(t, r)} \<and> flags_ok td v h' {(t, r)}
     \<and> (b \<longrightarrow> has_entry td t r rw) \<and> (\<not> b \<longrightarrow> visited_flag v h' t r \<noteq> Some True)"

definition entry_good :: "relations_map \<Rightarrow> entry_call \<Rightarrow> bool" where
  "entry_good td rec \<longleftrightarrow> (\<forall>t r rw v h b l h'. vis_ok v h \<longrightarrow> flags_ok td v h {(t, r)} \<longrightarrow>
     rec t r rw v h = Some (Inr (b, l), h') \<longrightarrow> call_ok td t r rw v h h' b)"

text \<open>A call for a relation that was not visited yet.\<close>

lemma entry_good_jump:
  assumes "entry_good td rec" "vis_ok v h" "flags_ok td v h {}" "visited_flag v h t r = None"
    and "lookup_relation td t r = Some rel" "rec t r (rel_rewrite rel) v h = Some (Inr (b, l), h')"
  shows "vis_ok v h' \<and> flags_ok td v h' {} \<and> flags_kept v h h' {} \<and> (b \<longrightarrow> full_entry td t r)"
proof -
  have "flags_ok td v h {(t, r)}" using assms(3) by (auto simp: flags_ok_def)
  with assms have ok: "call_ok td t r (rel_rewrite rel) v h h' b" unfolding entry_good_def by blast
  then have "flags_kept v h h' {(t, r)}" by (simp add: call_ok_def)
  with assms(4) have kept: "flags_kept v h h' {}" unfolding flags_kept_def by (metis empty_iff insert_iff prod.inject)
  have "b \<longrightarrow> full_entry td t r" using ok assms(5) by (auto simp: call_ok_def full_entry_def)
  moreover from this have "flags_ok td v h' {}" using ok by (auto simp: call_ok_def flags_ok_def)
  ultimately show ?thesis using kept vis_ok_grow [OF assms(2) kept] by blast
qed

lemma flags_ok_mono: "flags_ok td v h X \<Longrightarrow> X \<subseteq> Y \<Longrightarrow> flags_ok td v h Y"
  by (auto simp: flags_ok_def)

lemma flags_kept_mono: "flags_kept v h h' X \<Longrightarrow> X \<subseteq> Y \<Longrightarrow> flags_kept v h h' Y"
  by (auto simp: flags_kept_def)

lemma call_ok_after:
  "flags_kept v h h1 {} \<Longrightarrow> call_ok td t r rw v h1 h' b \<Longrightarrow> call_ok td t r rw v h h' b"
  unfolding call_ok_def by (meson empty_subsetI flags_kept_mono flags_kept_trans)

text \<open>The state at a leaf of the rewrite of a relation: its own flag is there and not set.\<close>

definition leaf_ok :: "relations_map \<Rightarrow> string \<Rightarrow> string \<Rightarrow> visit_map \<Rightarrow> visit_heap \<Rightarrow> bool" where
  "leaf_ok td t r v h \<longleftrightarrow> vis_ok v h \<and> flags_ok td v h {} \<and> visited_flag v h t r = Some False"

lemma leaf_ok_jump:
  assumes "entry_good td rec" "leaf_ok td t r v h" "visited_flag v h t' r' = None"
    and "lookup_relation td t' r' = Some rel" "rec t' r' (rel_rewrite rel) v h = Some (Inr (b, l), h')"
  shows "leaf_ok td t r v h' \<and> flags_kept v h h' {} \<and> (b \<longrightarrow> full_entry td t' r')"
proof -
  have "vis_ok v h' \<and> flags_ok td v h' {} \<and> flags_kept v h h' {} \<and> (b \<longrightarrow> full_entry td t' r')"
    by (rule entry_good_jump [OF assms(1) _ _ assms(3-5)]) (use assms(2) in \<open>simp_all add: leaf_ok_def\<close>)
  with assms(2) flags_keptD [of v h h' "{}" t r False] show ?thesis by (simp add: leaf_ok_def)
qed

lemma leaf_ok_call:
  "leaf_ok td t r v h \<Longrightarrow> (b \<Longrightarrow> has_entry td t r rw) \<Longrightarrow> call_ok td t r rw v h h b"
  by (auto simp: leaf_ok_def call_ok_def intro: flags_ok_mono)

lemma entry_this_ok:
  assumes "entry_good td rec" and "lookup_relation td tn rn = Some rel"
  shows "leaf_ok td tn rn v h \<Longrightarrow> set as \<subseteq> set (rel_related rel) \<Longrightarrow>
    entry_this rec td tn rn as v h = Some (Inr (b, l), h') \<Longrightarrow> call_ok td tn rn This v h h' b"
proof (induction as arbitrary: h)
  case Nil
  then show ?case by (auto intro: leaf_ok_call)
next
  case (Cons a as)
  from Cons.prems(2) have a: "a \<in> set (rel_related rel)" by simp
  show ?case
  proof (cases "rr_relation_or_wildcard a = None \<or> rr_is_wildcard a")
    case True
    with Cons.prems obtain v' where h': "mark_visited tn rn True v h = (v', h')" "b" "v' = v"
      by (auto simp: mark_visited_def leaf_ok_def visited_flag_def split: option.splits)
    note m = mark_visited_spec [OF _ h'(1)]
    have "flags_ok td v h' {(tn, rn)}"
      using Cons.prems(1) m(3) h'(3) unfolding leaf_ok_def flags_ok_def by (metis empty_iff insert_iff)
    with m(5) h'(2) entry_direct [OF assms(2) a True] Cons.prems(1) show ?thesis by (simp add: call_ok_def leaf_ok_def)
  next
    case False
    from False Cons.prems(3) obtain rel' where rel': "lookup_relation td (rr_type a) (rr_relation a) = Some rel'"
      by (auto split: option.splits)
    show ?thesis
    proof (cases "visited_flag v h (rr_type a) (rr_relation a)")
      case (Some f)
      with False rel' Cons show ?thesis by auto
    next
      case None
      with False rel' Cons.prems(3) obtain b1 l1 h1 where
        r: "rec (rr_type a) (rr_relation a) (rel_rewrite rel') v h = Some (Inr (b1, l1), h1)"
        by (auto split: option.splits sum.splits prod.splits)
      note j = leaf_ok_jump [OF assms(1) Cons.prems(1) None rel' r]
      show ?thesis
      proof (cases b1)
        case True
        with j rel' have "has_entry td tn rn This" using entry_userset [OF assms(2) a] by (auto simp: full_entry_def)
        with j have "call_ok td tn rn This v h1 h1 True" by (auto intro: leaf_ok_call)
        with True False rel' None r Cons.prems(3) j show ?thesis by (auto intro: call_ok_after)
      next
        case b1: False
        with False rel' None r Cons.prems(3) have "entry_this rec td tn rn as v h1 = Some (Inr (b, l), h')" by auto
        with Cons.IH [of h1] j Cons.prems(2) have "call_ok td tn rn This v h1 h' b" by simp
        with j show ?thesis by (blast intro: call_ok_after)
      qed
    qed
  qed
qed

lemma entry_ttu_ok:
  assumes "entry_good td rec" and "lookup_relation td tn ts = Some rel"
  shows "leaf_ok td tn rn v h \<Longrightarrow> set as \<subseteq> set (rel_related rel) \<Longrightarrow>
    entry_ttu rec td c as v h = Some (Inr (b, l), h') \<Longrightarrow> call_ok td tn rn (TupleToUserset ts c) v h h' b"
proof (induction as arbitrary: h)
  case Nil
  then show ?case by (auto intro: leaf_ok_call)
next
  case (Cons a as)
  from Cons.prems(2) have a: "a \<in> set (rel_related rel)" by simp
  show ?case
  proof (cases "lookup_relation td (rr_type a) c")
    case None
    with Cons show ?thesis by simp
  next
    case rel': (Some rel')
    have entry: "full_entry td (rr_type a) c \<Longrightarrow> has_entry td tn rn (TupleToUserset ts c)"
      using entry_tupleset [OF assms(2) a rel'] rel' by (auto simp: full_entry_def)
    show ?thesis
    proof (cases "visited_flag v h (rr_type a) c")
      case (Some f)
      show ?thesis
      proof (cases f)
        case True
        with Some Cons.prems(1) have "full_entry td (rr_type a) c" by (auto simp: leaf_ok_def flags_ok_def)
        with True Some rel' Cons.prems entry show ?thesis by (auto intro!: leaf_ok_call)
      next
        case False
        with Some rel' Cons show ?thesis by simp
      qed
    next
      case None
      with rel' Cons.prems(3) obtain b1 l1 h1 where r: "rec (rr_type a) c (rel_rewrite rel') v h = Some (Inr (b1, l1), h1)"
        by (auto split: option.splits sum.splits prod.splits)
      note j = leaf_ok_jump [OF assms(1) Cons.prems(1) None rel' r]
      show ?thesis
      proof (cases b1)
        case True
        with j entry have "call_ok td tn rn (TupleToUserset ts c) v h1 h1 True" by (auto intro: leaf_ok_call)
        with True rel' None r Cons.prems(3) j show ?thesis by (auto intro: call_ok_after)
      next
        case False
        with rel' None r Cons.prems(3) have "entry_ttu rec td c as v h1 = Some (Inr (b, l), h')" by simp
        with Cons.IH [of h1] j Cons.prems(2) have "call_ok td tn rn (TupleToUserset ts c) v h1 h' b" by simp
        with j show ?thesis by (blast intro: call_ok_after)
      qed
    qed
  qed
qed

lemma mark_leaf_ok:
  assumes "vis_ok vis h" and "flags_ok td vis h {(tn, rn)}" and "mark_visited tn rn False vis h = (v, h1)"
  shows "leaf_ok td tn rn v h1"
proof -
  note m = mark_visited_spec [OF assms(1,3)]
  have "flags_ok td v h1 {}" unfolding flags_ok_def
  proof (intro allI impI)
    fix t r assume true: "visited_flag v h1 t r = Some True"
    with m(2) have "(t, r) \<noteq> (tn, rn)" by auto
    with m(3) true assms(2) show "(t, r) \<in> {} \<or> full_entry td t r" unfolding flags_ok_def by (metis empty_iff insert_iff)
  qed
  with m(1,2) show ?thesis by (simp add: leaf_ok_def)
qed

lemma call_ok_lift:
  assumes "vis_ok vis h" and "mark_visited tn rn False vis h = (v, h1)" and "call_ok td tn rn rw v h1 h' b"
  shows "call_ok td tn rn rw vis h h' b"
proof -
  note m = mark_visited_spec [OF assms(1,2)]
  have same: "visited_flag v x t r = visited_flag vis x t r" if "visited_flag vis x t r \<noteq> None" for x t r
    using visited_flag_sub [OF m(4) that] .
  have kept: "flags_kept vis h h' {(tn, rn)}" unfolding flags_kept_def
  proof (intro conjI allI impI)
    show "length h \<le> length h'" using m(5) assms(3) by (simp add: call_ok_def flags_kept_def)
    fix t r assume ne: "(t, r) \<notin> {(tn, rn)}" and some: "visited_flag vis h t r \<noteq> None"
    then have "visited_flag v h' t r = visited_flag vis h t r"
      using m(3) [of t r] assms(3) by (auto simp: call_ok_def flags_kept_def)
    moreover from some have "v t = vis t" using m(4) by (auto simp: visited_flag_def map_le_def dom_def split: option.splits)
    ultimately show "visited_flag vis h' t r = visited_flag vis h t r" by (simp add: visited_flag_def)
  qed
  have "flags_ok td vis h' {(tn, rn)}"
    using assms(3) same unfolding call_ok_def flags_ok_def by (metis option.distinct(1))
  moreover have "\<not> b \<Longrightarrow> visited_flag vis h' tn rn \<noteq> Some True"
    using assms(3) same unfolding call_ok_def by (metis option.distinct(1))
  ultimately show ?thesis using kept assms(3) by (simp add: call_ok_def)
qed

lemma mark_operand_ok:
  assumes "vis_ok vis h" and "flags_ok td vis h {(tn, rn)}" and "mark_visited tn rn False vis h = (v, h1)"
  shows "vis_ok vis h1 \<and> flags_ok td vis h1 {(tn, rn)} \<and> visited_flag vis h1 tn rn \<noteq> Some True"
proof -
  note m = mark_visited_spec [OF assms(1,3)] and leaf = mark_leaf_ok [OF assms]
  have same: "visited_flag v x t r = visited_flag vis x t r" if "visited_flag vis x t r \<noteq> None" for x t r
    using visited_flag_sub [OF m(4) that] .
  have "flags_ok td vis h1 {(tn, rn)}"
    using leaf same unfolding leaf_ok_def flags_ok_def by (metis empty_iff option.distinct(1))
  moreover have "visited_flag vis h1 tn rn \<noteq> Some True"
    using m(2) same [of h1 tn rn] by fastforce
  ultimately show ?thesis using vis_ok_grow [OF assms(1) m(5)] by blast
qed

lemma call_ok_trans:
  "flags_kept v h h1 {(t, r)} \<Longrightarrow> call_ok td t r rw v h1 h' b \<Longrightarrow> call_ok td t r rw v h h' b"
  unfolding call_ok_def by (blast intro: flags_kept_trans)

lemma call_ok_weaken: "call_ok td t r rw v h h' b \<Longrightarrow> (has_entry td t r rw \<Longrightarrow> has_entry td t r rw') \<Longrightarrow> call_ok td t r rw' v h h' b"
  by (simp add: call_ok_def)

lemma call_ok_next: "vis_ok v h \<Longrightarrow> call_ok td t r rw v h h' b \<Longrightarrow> vis_ok v h' \<and> flags_ok td v h' {(t, r)}"
  unfolding call_ok_def by (blast intro: vis_ok_grow)

inductive_cases entry_orE: "has_entry td tn rn (Union cs)"
inductive_cases entry_andE: "has_entry td tn rn (Intersection cs)"

lemma has_entry_Union_Cons: "has_entry td tn rn (Union cs) \<Longrightarrow> has_entry td tn rn (Union (c # cs))"
  by (elim entry_orE) (auto intro: entry_or)

lemma has_entry_Intersection_Cons:
  "has_entry td tn rn c \<Longrightarrow> has_entry td tn rn (Intersection cs) \<Longrightarrow> has_entry td tn rn (Intersection (c # cs))"
  by (elim entry_andE, rule entry_and) auto

definition operand_ok :: "relations_map \<Rightarrow> entry_call \<Rightarrow> string \<Rightarrow> string \<Rightarrow> visit_map \<Rightarrow> userset \<Rightarrow> bool" where
  "operand_ok td rec tn rn vis c \<longleftrightarrow> (\<forall>h b l h'. vis_ok vis h \<longrightarrow> flags_ok td vis h {(tn, rn)} \<longrightarrow>
     entry_body rec td tn rn c vis h = Some (Inr (b, l), h') \<longrightarrow> call_ok td tn rn c vis h h' b)"

lemma operand_okD:
  "operand_ok td rec tn rn vis c \<Longrightarrow> vis_ok vis h \<Longrightarrow> flags_ok td vis h {(tn, rn)} \<Longrightarrow>
   entry_body rec td tn rn c vis h = Some (Inr (b, l), h') \<Longrightarrow>
   call_ok td tn rn c vis h h' b \<and> vis_ok vis h' \<and> flags_ok td vis h' {(tn, rn)} \<and> flags_kept vis h h' {(tn, rn)}"
proof -
  assume "operand_ok td rec tn rn vis c" and v: "vis_ok vis h" and "flags_ok td vis h {(tn, rn)}"
    and "entry_body rec td tn rn c vis h = Some (Inr (b, l), h')"
  then have ok: "call_ok td tn rn c vis h h' b" unfolding operand_ok_def by blast
  with call_ok_next [OF v ok] show ?thesis by (simp add: call_ok_def)
qed

lemma entry_union_ok:
  "(\<And>c. c \<in> set cs \<Longrightarrow> operand_ok td rec tn rn vis c) \<Longrightarrow> vis_ok vis h \<Longrightarrow> flags_ok td vis h {(tn, rn)} \<Longrightarrow>
   visited_flag vis h tn rn \<noteq> Some True \<Longrightarrow>
   entry_union rec td tn rn cs loop vis h = Some (Inr (b, l), h') \<Longrightarrow> call_ok td tn rn (Union cs) vis h h' b"
proof (induction cs arbitrary: h loop)
  case (Cons c cs)
  from Cons.prems(5) obtain b1 l1 h1 where c: "entry_body rec td tn rn c vis h = Some (Inr (b1, l1), h1)"
    by (auto simp del: entry_body.simps split: option.splits sum.splits prod.splits)
  note ok = operand_okD [OF Cons.prems(1) Cons.prems(2,3) c, simplified]
  show ?case
  proof (cases b1)
    case True
    with ok have "call_ok td tn rn (Union (c # cs)) vis h h1 True" by (simp add: call_ok_def entry_or [of c])
    with True c Cons.prems(5) show ?thesis by (simp del: entry_body.simps)
  next
    case False
    with c Cons.prems(5) have "entry_union rec td tn rn cs (loop \<or> l1) vis h1 = Some (Inr (b, l), h')"
      by (simp del: entry_body.simps)
    moreover from ok False have "visited_flag vis h1 tn rn \<noteq> Some True" by (simp add: call_ok_def)
    ultimately have "call_ok td tn rn (Union cs) vis h1 h' b" using Cons ok by auto
    with ok show ?thesis by (blast intro: call_ok_trans call_ok_weaken has_entry_Union_Cons)
  qed
qed (simp add: call_ok_def)

lemma entry_intersection_ok:
  "(\<And>c. c \<in> set cs \<Longrightarrow> operand_ok td rec tn rn vis c) \<Longrightarrow> vis_ok vis h \<Longrightarrow> flags_ok td vis h {(tn, rn)} \<Longrightarrow>
   entry_intersection rec td tn rn cs vis h = Some (Inr (b, l), h') \<Longrightarrow> call_ok td tn rn (Intersection cs) vis h h' b"
proof (induction cs arbitrary: h)
  case (Cons c cs)
  from Cons.prems(4) obtain b1 l1 h1 where c: "entry_body rec td tn rn c vis h = Some (Inr (b1, l1), h1)"
    by (auto simp del: entry_body.simps split: option.splits sum.splits prod.splits)
  note ok = operand_okD [OF Cons.prems(1) Cons.prems(2,3) c, simplified]
  show ?case
  proof (cases b1)
    case False
    with ok have "call_ok td tn rn (Intersection (c # cs)) vis h h1 False" by (simp add: call_ok_def)
    with False c Cons.prems(4) show ?thesis by (simp del: entry_body.simps)
  next
    case True
    with c Cons.prems(4) have "entry_intersection rec td tn rn cs vis h1 = Some (Inr (b, l), h')"
      by (simp del: entry_body.simps)
    then have "call_ok td tn rn (Intersection cs) vis h1 h' b" using Cons ok by auto
    moreover have "has_entry td tn rn c" using ok True by (simp add: call_ok_def)
    ultimately show ?thesis using ok by (blast intro: call_ok_trans call_ok_weaken has_entry_Intersection_Cons)
  qed
qed (auto simp: call_ok_def intro: entry_and)

lemma entry_body_ok:
  assumes good: "entry_good td rec"
  shows "operand_ok td rec tn rn vis rw"
proof (induction rw)
  case This
  show ?case unfolding operand_ok_def
  proof (intro allI impI)
    fix h b l h'
    assume pre: "vis_ok vis h" "flags_ok td vis h {(tn, rn)}" and e: "entry_body rec td tn rn This vis h = Some (Inr (b, l), h')"
    obtain v h1 where m: "mark_visited tn rn False vis h = (v, h1)" by fastforce
    with e obtain rel where "lookup_relation td tn rn = Some rel"
      "entry_this rec td tn rn (rel_related rel) v h1 = Some (Inr (b, l), h')" by (auto split: option.splits)
    from entry_this_ok [OF good this(1) mark_leaf_ok [OF pre m] order_refl this(2)]
    show "call_ok td tn rn This vis h h' b" by (rule call_ok_lift [OF pre(1) m])
  qed
next
  case (ComputedUserset c)
  show ?case unfolding operand_ok_def
  proof (intro allI impI)
    fix h b l h'
    assume pre: "vis_ok vis h" "flags_ok td vis h {(tn, rn)}"
      and e: "entry_body rec td tn rn (ComputedUserset c) vis h = Some (Inr (b, l), h')"
    obtain v h1 where m: "mark_visited tn rn False vis h = (v, h1)" by fastforce
    note leaf = mark_leaf_ok [OF pre m]
    from e m obtain rel where rel: "lookup_relation td tn c = Some rel" by (auto split: option.splits)
    have entry: "full_entry td tn c \<Longrightarrow> has_entry td tn rn (ComputedUserset c)"
      using entry_computed [OF rel] rel by (auto simp: full_entry_def)
    have "call_ok td tn rn (ComputedUserset c) v h1 h' b"
    proof (cases "visited_flag v h1 tn c")
      case (Some f)
      with e m rel have "h' = h1" "b = f" by (auto split: option.splits)
      with leaf Some entry show ?thesis by (auto simp: leaf_ok_def flags_ok_def intro!: leaf_ok_call)
    next
      case None
      with e m rel have r: "rec tn c (rel_rewrite rel) v h1 = Some (Inr (b, l), h')" by (auto split: option.splits)
      from leaf_ok_jump [OF good leaf None rel r] entry show ?thesis
        by (blast intro: call_ok_after leaf_ok_call)
    qed
    then show "call_ok td tn rn (ComputedUserset c) vis h h' b" by (rule call_ok_lift [OF pre(1) m])
  qed
next
  case (TupleToUserset ts c)
  show ?case unfolding operand_ok_def
  proof (intro allI impI)
    fix h b l h'
    assume pre: "vis_ok vis h" "flags_ok td vis h {(tn, rn)}"
      and e: "entry_body rec td tn rn (TupleToUserset ts c) vis h = Some (Inr (b, l), h')"
    obtain v h1 where m: "mark_visited tn rn False vis h = (v, h1)" by fastforce
    with e obtain rel where "lookup_relation td tn ts = Some rel"
      "entry_ttu rec td c (rel_related rel) v h1 = Some (Inr (b, l), h')" by (auto split: option.splits)
    from entry_ttu_ok [OF good this(1) mark_leaf_ok [OF pre m] order_refl this(2)]
    show "call_ok td tn rn (TupleToUserset ts c) vis h h' b" by (rule call_ok_lift [OF pre(1) m])
  qed
next
  case (Union cs)
  show ?case unfolding operand_ok_def
  proof (intro allI impI)
    fix h b l h'
    assume pre: "vis_ok vis h" "flags_ok td vis h {(tn, rn)}"
      and e: "entry_body rec td tn rn (Union cs) vis h = Some (Inr (b, l), h')"
    obtain v h1 where m: "mark_visited tn rn False vis h = (v, h1)" by fastforce
    with e have "entry_union rec td tn rn cs False vis h1 = Some (Inr (b, l), h')" by (auto split: option.splits if_splits)
    with entry_union_ok [OF Union] mark_operand_ok [OF pre m] have "call_ok td tn rn (Union cs) vis h1 h' b" by blast
    with mark_visited_spec(5) [OF pre(1) m] show "call_ok td tn rn (Union cs) vis h h' b" by (rule call_ok_trans)
  qed
next
  case (Intersection cs)
  show ?case unfolding operand_ok_def
  proof (intro allI impI)
    fix h b l h'
    assume pre: "vis_ok vis h" "flags_ok td vis h {(tn, rn)}"
      and e: "entry_body rec td tn rn (Intersection cs) vis h = Some (Inr (b, l), h')"
    obtain v h1 where m: "mark_visited tn rn False vis h = (v, h1)" by fastforce
    with e have "entry_intersection rec td tn rn cs vis h1 = Some (Inr (b, l), h')" by (auto split: option.splits if_splits)
    with entry_intersection_ok [OF Intersection] mark_operand_ok [OF pre m]
    have "call_ok td tn rn (Intersection cs) vis h1 h' b" by blast
    with mark_visited_spec(5) [OF pre(1) m] show "call_ok td tn rn (Intersection cs) vis h h' b" by (rule call_ok_trans)
  qed
next
  case (Difference w1 w2)
  show ?case unfolding operand_ok_def
  proof (intro allI impI)
    fix h b l h'
    assume pre: "vis_ok vis h" "flags_ok td vis h {(tn, rn)}"
      and e: "entry_body rec td tn rn (Difference w1 w2) vis h = Some (Inr (b, l), h')"
    obtain v h1 where m: "mark_visited tn rn False vis h = (v, h1)" by fastforce
    with e have "\<exists>l. entry_intersection rec td tn rn [w1, w2] vis h1 = Some (Inr (b, l), h')"
      by (auto simp del: entry_body.simps simp: entry_body.simps [of _ _ _ _ "Difference w1 w2"]
          split: option.splits sum.splits prod.splits if_splits)
    then obtain l' where i: "entry_intersection rec td tn rn [w1, w2] vis h1 = Some (Inr (b, l'), h')" by blast
    have "call_ok td tn rn (Intersection [w1, w2]) vis h1 h' b"
      by (rule entry_intersection_ok [OF _ _ _ i]) (use Difference mark_operand_ok [OF pre m] in auto)
    then have "call_ok td tn rn (Difference w1 w2) vis h1 h' b"
      by (rule call_ok_weaken) (auto elim!: entry_andE intro: entry_but_not)
    with mark_visited_spec(5) [OF pre(1) m] show "call_ok td tn rn (Difference w1 w2) vis h h' b" by (rule call_ok_trans)
  qed
next
  case Userset_Nil
  show ?case unfolding operand_ok_def by (auto split: option.splits prod.splits)
qed

lemma hasEntrypoints_good: "entry_good td (hasEntrypoints n td)"
proof (induction n)
  case (Suc n)
  from entry_body_ok [OF Suc] show ?case by (simp add: entry_good_def operand_ok_def del: entry_body.simps)
qed (simp add: entry_good_def)

section \<open>Termination\<close>

definition grows :: "visit_map \<Rightarrow> visit_heap \<Rightarrow> visit_heap \<Rightarrow> bool" where
  "grows v h h' \<longleftrightarrow> length h \<le> length h' \<and> (\<forall>t r. visited_flag v h t r \<noteq> None \<longrightarrow> visited_flag v h' t r \<noteq> None)"

definition todo :: "relations_map \<Rightarrow> visit_map \<Rightarrow> visit_heap \<Rightarrow> (string \<times> string) set" where
  "todo td v h = {(t, r). lookup_relation td t r \<noteq> None \<and> visited_flag v h t r = None}"

definition returns :: "entry_result \<Rightarrow> visit_map \<Rightarrow> visit_heap \<Rightarrow> bool" where
  "returns x v h \<longleftrightarrow> (\<exists>res h'. x = Some (res, h') \<and> grows v h h')"

lemma grows_refl [simp]: "grows v h h"
  by (simp add: grows_def)

lemma grows_trans: "grows v h h' \<Longrightarrow> grows v h' h'' \<Longrightarrow> grows v h h''"
  unfolding grows_def by (meson order_trans)

lemma returns_Some [simp]: "returns (Some (res, h')) v h = grows v h h'"
  by (simp add: returns_def)

lemma returns_trans: "grows v h h1 \<Longrightarrow> returns x v h1 \<Longrightarrow> returns x v h"
  unfolding returns_def by (blast intro: grows_trans)

lemma vis_ok_grows: "vis_ok v h \<Longrightarrow> grows v h h' \<Longrightarrow> vis_ok v h'"
  unfolding vis_ok_def grows_def by (meson order_less_le_trans)

lemma todo_subset: "todo td v h \<subseteq> relation_pairs td"
  by (auto simp: todo_def intro!: lookup_relation_pairs)

lemma finite_todo [simp]: "finite (todo td v h)"
  by (rule finite_subset [OF todo_subset finite_relation_pairs])

lemma card_todo: "card (todo td v h) \<le> relation_count td"
  using card_mono [OF finite_relation_pairs todo_subset] card_relation_pairs by (rule order_trans)

lemma todo_grows: "grows v h h' \<Longrightarrow> todo td v h' \<subseteq> todo td v h"
  unfolding todo_def grows_def by blast

lemma mark_grows:
  assumes "vis_ok v h" and "mark_visited t r b v h = (v', h')"
  shows "grows v h h'"
proof -
  note m = mark_visited_spec [OF assms]
  have "visited_flag v h' t r \<noteq> None" if "visited_flag v h t r \<noteq> None"
  proof -
    from that assms(2) have "v' = v" by (auto simp: visited_flag_def mark_visited_def split: option.splits)
    with m(2) show ?thesis by simp
  qed
  with m(5) show ?thesis unfolding grows_def flags_kept_def by (metis prod.inject singletonD)
qed

definition entry_total :: "relations_map \<Rightarrow> entry_call \<Rightarrow> nat \<Rightarrow> bool" where
  "entry_total td rec n \<longleftrightarrow> (\<forall>t r rw v h. vis_ok v h \<longrightarrow> card (todo td v h - {(t, r)}) < n \<longrightarrow> returns (rec t r rw v h) v h)"

lemma entry_total_jump:
  assumes "entry_total td rec n" and "vis_ok v h" and "card (todo td v h) \<le> n"
    and "visited_flag v h t r = None" and "lookup_relation td t r = Some rel"
  shows "returns (rec t r (rel_rewrite rel) v h) v h"
proof -
  have "(t, r) \<in> todo td v h" using assms(4,5) by (simp add: todo_def)
  then have "card (todo td v h - {(t, r)}) < card (todo td v h)" by (intro psubset_card_mono) auto
  with assms show ?thesis unfolding entry_total_def by (meson order_less_le_trans)
qed

lemma card_todo_grows: "grows v h h' \<Longrightarrow> card (todo td v h) \<le> n \<Longrightarrow> card (todo td v h') \<le> n"
  by (meson card_mono finite_todo order_trans todo_grows)

lemma entry_this_returns:
  assumes "entry_total td rec n"
  shows "vis_ok v h \<Longrightarrow> card (todo td v h) \<le> n \<Longrightarrow> returns (entry_this rec td tn rn as v h) v h"
proof (induction as arbitrary: h)
  case (Cons a as)
  have mark: "grows v h (snd (mark_visited tn rn True v h))"
    using mark_grows [OF Cons.prems(1)] by (metis prod.collapse)
  show ?case
  proof (cases "lookup_relation td (rr_type a) (rr_relation a)")
    case (Some rel)
    show ?thesis
    proof (cases "visited_flag v h (rr_type a) (rr_relation a)")
      case None
      from entry_total_jump [OF assms Cons.prems None Some] obtain res h1
        where r: "rec (rr_type a) (rr_relation a) (rel_rewrite rel) v h = Some (res, h1)" "grows v h h1"
        by (auto simp: returns_def)
      have "returns (entry_this rec td tn rn as v h1) v h"
        using Cons.IH [of h1] vis_ok_grows [OF Cons.prems(1) r(2)] card_todo_grows [OF r(2) Cons.prems(2)] r(2)
        by (blast intro: returns_trans)
      with mark r Some None show ?thesis by (auto split: sum.split)
    qed (use Cons mark Some in auto)
  qed (use mark in auto)
qed simp

lemma entry_ttu_returns:
  assumes "entry_total td rec n"
  shows "vis_ok v h \<Longrightarrow> card (todo td v h) \<le> n \<Longrightarrow> returns (entry_ttu rec td c as v h) v h"
proof (induction as arbitrary: h)
  case (Cons a as)
  show ?case
  proof (cases "lookup_relation td (rr_type a) c")
    case (Some rel)
    show ?thesis
    proof (cases "visited_flag v h (rr_type a) c")
      case None
      from entry_total_jump [OF assms Cons.prems None Some] obtain res h1
        where r: "rec (rr_type a) c (rel_rewrite rel) v h = Some (res, h1)" "grows v h h1" by (auto simp: returns_def)
      have "returns (entry_ttu rec td c as v h1) v h"
        using Cons.IH [of h1] vis_ok_grows [OF Cons.prems(1) r(2)] card_todo_grows [OF r(2) Cons.prems(2)] r(2)
        by (blast intro: returns_trans)
      with r Some None show ?thesis by (auto split: sum.split)
    qed (use Cons Some in auto)
  qed (use Cons in auto)
qed simp

definition operand_total :: "relations_map \<Rightarrow> entry_call \<Rightarrow> nat \<Rightarrow> string \<Rightarrow> string \<Rightarrow> visit_map \<Rightarrow> userset \<Rightarrow> bool" where
  "operand_total td rec n tn rn vis c \<longleftrightarrow> (\<forall>h. vis_ok vis h \<longrightarrow> card (todo td vis h - {(tn, rn)}) \<le> n \<longrightarrow>
     returns (entry_body rec td tn rn c vis h) vis h)"

lemma card_todo_diff_grows:
  assumes "grows v h h'" and "card (todo td v h - X) \<le> n"
  shows "card (todo td v h' - X) \<le> n"
proof -
  have "card (todo td v h' - X) \<le> card (todo td v h - X)"
    by (rule card_mono) (use todo_grows [OF assms(1), of td] in auto)
  with assms(2) show ?thesis by simp
qed

lemma operand_totalD:
  assumes "operand_total td rec n tn rn vis c" and "vis_ok vis h" and "card (todo td vis h - {(tn, rn)}) \<le> n"
  obtains res h' where "entry_body rec td tn rn c vis h = Some (res, h')" "grows vis h h'" "vis_ok vis h'"
    "card (todo td vis h' - {(tn, rn)}) \<le> n"
  using assms vis_ok_grows card_todo_diff_grows unfolding operand_total_def returns_def by metis

lemma entry_union_returns:
  "(\<And>c. c \<in> set cs \<Longrightarrow> operand_total td rec n tn rn vis c) \<Longrightarrow> vis_ok vis h \<Longrightarrow>
   card (todo td vis h - {(tn, rn)}) \<le> n \<Longrightarrow> returns (entry_union rec td tn rn cs loop vis h) vis h"
proof (induction cs arbitrary: h loop)
  case (Cons c cs)
  obtain res h1 where c: "entry_body rec td tn rn c vis h = Some (res, h1)" "grows vis h h1" "vis_ok vis h1"
    "card (todo td vis h1 - {(tn, rn)}) \<le> n"
    by (rule operand_totalD [OF Cons.prems(1) [of c] Cons.prems(2,3)]) auto
  have "returns (entry_union rec td tn rn cs loop' vis h1) vis h" for loop'
    using Cons.IH [OF Cons.prems(1), of h1 loop'] c by (auto intro: returns_trans)
  with c show ?case by (auto simp del: entry_body.simps split: sum.split)
qed simp

lemma entry_intersection_returns:
  "(\<And>c. c \<in> set cs \<Longrightarrow> operand_total td rec n tn rn vis c) \<Longrightarrow> vis_ok vis h \<Longrightarrow>
   card (todo td vis h - {(tn, rn)}) \<le> n \<Longrightarrow> returns (entry_intersection rec td tn rn cs vis h) vis h"
proof (induction cs arbitrary: h)
  case (Cons c cs)
  obtain res h1 where c: "entry_body rec td tn rn c vis h = Some (res, h1)" "grows vis h h1" "vis_ok vis h1"
    "card (todo td vis h1 - {(tn, rn)}) \<le> n"
    by (rule operand_totalD [OF Cons.prems(1) [of c] Cons.prems(2,3)]) auto
  have "returns (entry_intersection rec td tn rn cs vis h1) vis h"
    using Cons.IH [OF Cons.prems(1), of h1] c by (auto intro: returns_trans)
  with c show ?case by (auto simp del: entry_body.simps split: sum.split)
qed simp

lemma mark_todo:
  assumes "vis_ok vis h" and "mark_visited tn rn b vis h = (v, h1)" and "card (todo td vis h - {(tn, rn)}) \<le> n"
  shows "card (todo td v h1) \<le> n" and "vis_ok vis h1" and "card (todo td vis h1 - {(tn, rn)}) \<le> n"
proof -
  note m = mark_visited_spec [OF assms(1,2)] and g = mark_grows [OF assms(1,2)]
  have "todo td v h1 \<subseteq> todo td vis h - {(tn, rn)}"
  proof
    fix p assume p: "p \<in> todo td v h1"
    obtain t r where tr: "p = (t, r)" by (cases p)
    with p m(2) have "(t, r) \<noteq> (tn, rn)" by (auto simp: todo_def)
    with p tr m(3) [of t r] show "p \<in> todo td vis h - {(tn, rn)}" by (simp add: todo_def)
  qed
  then have "card (todo td v h1) \<le> card (todo td vis h - {(tn, rn)})" by (intro card_mono) auto
  with assms(3) show "card (todo td v h1) \<le> n" by simp
  show "vis_ok vis h1" by (rule vis_ok_grows [OF assms(1) g])
  show "card (todo td vis h1 - {(tn, rn)}) \<le> n" by (rule card_todo_diff_grows [OF g assms(3)])
qed

lemma returns_lift:
  assumes "vis_ok vis h" and "mark_visited tn rn b vis h = (v, h1)" and "returns x v h1"
  shows "returns x vis h"
proof -
  from assms(3) obtain res h' where x: "x = Some (res, h')" "grows v h1 h'" by (auto simp: returns_def)
  note m = mark_visited_spec [OF assms(1,2)]
  have sub: "visited_flag vis y t r \<noteq> None \<longleftrightarrow> vis t \<noteq> None \<and> visited_flag v y t r \<noteq> None" for y t r
    using m(4) by (auto simp: visited_flag_def map_le_def dom_def split: option.splits)
  have "grows vis h1 h'" using x(2) sub unfolding grows_def by blast
  with grows_trans [OF mark_grows [OF assms(1,2)]] x(1) show ?thesis by simp
qed

lemma entry_body_returns:
  assumes total: "entry_total td rec n"
  shows "operand_total td rec n tn rn vis rw"
proof (induction rw)
  case (Union cs)
  show ?case unfolding operand_total_def
  proof (intro allI impI)
    fix h assume pre: "vis_ok vis h" "card (todo td vis h - {(tn, rn)}) \<le> n"
    obtain v h1 where m: "mark_visited tn rn False vis h = (v, h1)" by fastforce
    note g = mark_grows [OF pre(1) m]
    have "returns (entry_union rec td tn rn cs False vis h1) vis h"
      by (rule returns_trans [OF g entry_union_returns [OF Union mark_todo(2,3) [OF pre(1) m pre(2)]]])
    with m g show "returns (entry_body rec td tn rn (Union cs) vis h) vis h" by (auto split: option.split)
  qed
next
  case (Intersection cs)
  show ?case unfolding operand_total_def
  proof (intro allI impI)
    fix h assume pre: "vis_ok vis h" "card (todo td vis h - {(tn, rn)}) \<le> n"
    obtain v h1 where m: "mark_visited tn rn False vis h = (v, h1)" by fastforce
    note g = mark_grows [OF pre(1) m]
    have "returns (entry_intersection rec td tn rn cs vis h1) vis h"
      by (rule returns_trans [OF g entry_intersection_returns [OF Intersection mark_todo(2,3) [OF pre(1) m pre(2)]]])
    with m g show "returns (entry_body rec td tn rn (Intersection cs) vis h) vis h" by (auto split: option.split)
  qed
next
  case (Difference w1 w2)
  show ?case unfolding operand_total_def
  proof (intro allI impI)
    fix h assume pre: "vis_ok vis h" "card (todo td vis h - {(tn, rn)}) \<le> n"
    obtain v h1 where m: "mark_visited tn rn False vis h = (v, h1)" by fastforce
    note g = mark_grows [OF pre(1) m] and t = mark_todo [OF pre(1) m pre(2)]
    obtain res1 h2 where b: "entry_body rec td tn rn w1 vis h1 = Some (res1, h2)" "grows vis h1 h2" "vis_ok vis h2"
      "card (todo td vis h2 - {(tn, rn)}) \<le> n"
      by (rule operand_totalD [OF Difference(1) t(2,3)])
    obtain res2 h3 where s: "entry_body rec td tn rn w2 vis h2 = Some (res2, h3)" "grows vis h2 h3"
      by (rule operand_totalD [OF Difference(2) b(3,4)])
    from g b(2) s(2) have "grows vis h h1" "grows vis h h2" "grows vis h h3" by (blast intro: grows_trans)+
    with m b(1) s(1) show "returns (entry_body rec td tn rn (Difference w1 w2) vis h) vis h"
      by (auto simp del: entry_body.simps simp: entry_body.simps [of _ _ _ _ "Difference w1 w2"]
          split: option.split sum.split)
  qed
next
  case (ComputedUserset c)
  show ?case unfolding operand_total_def
  proof (intro allI impI)
    fix h assume pre: "vis_ok vis h" "card (todo td vis h - {(tn, rn)}) \<le> n"
    obtain v h1 where m: "mark_visited tn rn False vis h = (v, h1)" by fastforce
    note ok = mark_visited_spec(1) [OF pre(1) m] and t = mark_todo(1) [OF pre(1) m pre(2)]
    have "returns (entry_body rec td tn rn (ComputedUserset c) vis h) v h1"
      using m entry_total_jump [OF total ok t, of tn c] by (auto split: option.split)
    then show "returns (entry_body rec td tn rn (ComputedUserset c) vis h) vis h" by (rule returns_lift [OF pre(1) m])
  qed
next
  case (TupleToUserset ts c)
  show ?case unfolding operand_total_def
  proof (intro allI impI)
    fix h assume pre: "vis_ok vis h" "card (todo td vis h - {(tn, rn)}) \<le> n"
    obtain v h1 where m: "mark_visited tn rn False vis h = (v, h1)" by fastforce
    note ok = mark_visited_spec(1) [OF pre(1) m] and t = mark_todo(1) [OF pre(1) m pre(2)]
    have "returns (entry_body rec td tn rn (TupleToUserset ts c) vis h) v h1"
      using m entry_ttu_returns [OF total ok t] by (auto split: option.split)
    then show "returns (entry_body rec td tn rn (TupleToUserset ts c) vis h) vis h" by (rule returns_lift [OF pre(1) m])
  qed
next
  case This
  show ?case unfolding operand_total_def
  proof (intro allI impI)
    fix h assume pre: "vis_ok vis h" "card (todo td vis h - {(tn, rn)}) \<le> n"
    obtain v h1 where m: "mark_visited tn rn False vis h = (v, h1)" by fastforce
    note ok = mark_visited_spec(1) [OF pre(1) m] and t = mark_todo(1) [OF pre(1) m pre(2)]
    have "returns (entry_body rec td tn rn This vis h) v h1"
      using m entry_this_returns [OF total ok t] by (auto split: option.split)
    then show "returns (entry_body rec td tn rn This vis h) vis h" by (rule returns_lift [OF pre(1) m])
  qed
next
  case Userset_Nil
  show ?case unfolding operand_total_def
  proof (intro allI impI)
    fix h assume pre: "vis_ok vis h"
    obtain v h1 where m: "mark_visited tn rn False vis h = (v, h1)" by fastforce
    with mark_grows [OF pre m] show "returns (entry_body rec td tn rn Userset_Nil vis h) vis h" by (auto split: option.split)
  qed
qed

lemma hasEntrypoints_total: "entry_total td (hasEntrypoints n td) n"
proof (induction n)
  case (Suc n)
  from entry_body_returns [OF Suc] show ?case
    by (auto simp: entry_total_def operand_total_def less_Suc_eq_le simp del: entry_body.simps)
qed (simp add: entry_total_def)

lemma visit_empty: "vis_ok Map.empty []" "flags_ok td Map.empty [] X"
  by (simp_all add: vis_ok_def flags_ok_def visited_flag_def)

lemma hasEntrypoints_accepts:
  "hasEntrypoints n td tn rn rw Map.empty [] = Some (Inr (True, l), h) \<Longrightarrow> has_entry td tn rn rw"
  using hasEntrypoints_good [of td n] visit_empty unfolding entry_good_def call_ok_def by metis

section \<open>Properties\<close>

text \<open>
  C16: the entrypoint check returns on every model, and a relation it accepts really has an
  entrypoint.
\<close>

theorem hasEntrypoints_sound:
  "\<exists>res h. hasEntrypoints (relation_count td + 2) td tn rn rw Map.empty [] = Some (res, h)
     \<and> (\<forall>l. res = Inr (True, l) \<longrightarrow> has_entry td tn rn rw)"
proof -
  have "card (todo td Map.empty [] - {(tn, rn)}) < relation_count td + 2"
    using card_mono [OF finite_todo Diff_subset, of td Map.empty "[]" "{(tn, rn)}"] card_todo [of td Map.empty "[]"] by simp
  then have "returns (hasEntrypoints (relation_count td + 2) td tn rn rw Map.empty []) Map.empty []"
    using hasEntrypoints_total [of td "relation_count td + 2"] visit_empty(1) unfolding entry_total_def by blast
  then obtain res h where run: "hasEntrypoints (relation_count td + 2) td tn rn rw Map.empty [] = Some (res, h)"
    by (auto simp: returns_def)
  moreover have "has_entry td tn rn rw" if "res = Inr (True, l)" for l
    by (rule hasEntrypoints_accepts [OF run [unfolded that]])
  ultimately show ?thesis by blast
qed

theorem hasEntrypoints_sound_witness: "has_entry (ts_relations example_ts) ''doc'' ''reader'' (ComputedUserset ''editor'')"
proof -
  obtain res h where "hasEntrypoints (relation_count (ts_relations example_ts) + 2) (ts_relations example_ts) ''doc'' ''reader''
      (ComputedUserset ''editor'') Map.empty [] = Some (res, h)"
    and sound: "\<forall>l. res = Inr (True, l) \<longrightarrow> has_entry (ts_relations example_ts) ''doc'' ''reader'' (ComputedUserset ''editor'')"
    using hasEntrypoints_sound [of "ts_relations example_ts" "''doc''" "''reader''" "ComputedUserset ''editor''"] by blast
  moreover have "map_option fst (hasEntrypoints (relation_count (ts_relations example_ts) + 2) (ts_relations example_ts)
      ''doc'' ''reader'' (ComputedUserset ''editor'') Map.empty []) = Some (Inr (True, False))" by code_simp
  ultimately have "res = Inr (True, False)" by simp
  with sound show ?thesis by blast
qed

text \<open>
  The check is not complete, because a relation that was visited while another one was in progress
  stays marked as having no entrypoint: in the following model \<open>x\<close> is visited while \<open>y\<close> is in progress.
\<close>

definition shared_relations :: "(string \<times> userset) list" where
  "shared_relations =
     [(''parent'', This),
      (''y'', Union [TupleToUserset ''parent'' ''x'', This]),
      (''x'', TupleToUserset ''parent'' ''y''),
      (''r'', Intersection [TupleToUserset ''parent'' ''y'', TupleToUserset ''parent'' ''x''])]"

definition shared_model :: "(string \<times> userset) list \<Rightarrow> authorization_model" where
  "shared_model extra =
     \<lparr>am_id = ''m'', am_schema_version = ''1.1'',
      am_type_definitions =
        [\<lparr>td_type = ''user'', td_relations = [], td_metadata = Map.empty\<rparr>,
         \<lparr>td_type = ''doc'', td_relations = shared_relations @ extra,
          td_metadata = [''parent'' \<mapsto> [DirectRelationReference ''doc'' ''''],
            ''y'' \<mapsto> [DirectRelationReference ''user'' '''']]\<rparr>],
      am_conditions = []\<rparr>"

definition shared_ts :: "(string \<times> userset) list \<Rightarrow> type_system" where
  "shared_ts extra = (case New (\<lambda>_. None) (shared_model extra) of Inr t \<Rightarrow> t)"

text \<open>
  C33: the entrypoint check rejects a valid model: the relation \<open>r\<close> passes it, but a relation \<open>t\<close>
  defined as \<open>r\<close> does not, although it has an entrypoint whenever \<open>r\<close> has; the model is accepted
  without \<open>t\<close> and refused with it.
\<close>

theorem hasEntrypoints_incomplete:
  "has_entry (ts_relations (shared_ts [(''t'', ComputedUserset ''r'')])) ''doc'' ''t'' (ComputedUserset ''r'')
   \<and> NewAndValidate (\<lambda>_. None) (\<lambda>_. None) (shared_model [(''t'', ComputedUserset ''r'')])
       = Inl (InvalidRelationError ''doc'' ''t'' ErrNoEntrypoints)
   \<and> NewAndValidate (\<lambda>_. None) (\<lambda>_. None) (shared_model []) = Inr (shared_ts [])"
proof (intro conjI)
  let ?rels = "ts_relations (shared_ts [(''t'', ComputedUserset ''r'')])"
  have "(case lookup_relation ?rels ''doc'' ''r'' of None \<Rightarrow> Userset_Nil | Some rel \<Rightarrow> rel_rewrite rel)
      = Intersection [TupleToUserset ''parent'' ''y'', TupleToUserset ''parent'' ''x'']" by code_simp
  then obtain rel where rel: "lookup_relation ?rels ''doc'' ''r'' = Some rel"
    "rel_rewrite rel = Intersection [TupleToUserset ''parent'' ''y'', TupleToUserset ''parent'' ''x'']"
    by (auto split: option.splits)
  have "map_option fst (hasEntrypoints 6 ?rels ''doc'' ''r''
      (Intersection [TupleToUserset ''parent'' ''y'', TupleToUserset ''parent'' ''x'']) Map.empty [])
      = Some (Inr (True, False))" by code_simp
  with rel have "has_entry ?rels ''doc'' ''r'' (rel_rewrite rel)" by (auto dest: hasEntrypoints_accepts)
  with rel(1) show "has_entry ?rels ''doc'' ''t'' (ComputedUserset ''r'')" by (rule entry_computed)
  have rejects: "validateRelations (shared_ts [(''t'', ComputedUserset ''r'')])
      = Some (InvalidRelationError ''doc'' ''t'' ErrNoEntrypoints)"
    and names: "validateNames (shared_ts [(''t'', ComputedUserset ''r'')]) = None"
    and version: "IsSchemaVersionSupported (ts_schema_version (shared_ts [(''t'', ComputedUserset ''r'')]))"
    and types: "\<not> containsDuplicateType (shared_model [(''t'', ComputedUserset ''r'')])" by code_simp+
  have "New (\<lambda>_. None) (shared_model extra) = Inr (shared_ts extra)" for extra by (simp add: shared_ts_def New_def)
  note new = this
  from rejects names version types
  show "NewAndValidate (\<lambda>_. None) (\<lambda>_. None) (shared_model [(''t'', ComputedUserset ''r'')])
      = Inl (InvalidRelationError ''doc'' ''t'' ErrNoEntrypoints)" by (simp add: NewAndValidate_def new)
  have "validateRelations (shared_ts []) = None" "validateNames (shared_ts []) = None"
    "IsSchemaVersionSupported (ts_schema_version (shared_ts []))" "\<not> containsDuplicateType (shared_model [])"
    "validateConditions (\<lambda>_. None) (shared_ts []) = None" by code_simp+
  then show "NewAndValidate (\<lambda>_. None) (\<lambda>_. None) (shared_model []) = Inr (shared_ts [])"
    by (simp add: NewAndValidate_def new)
qed

end
