(* ===== verification/Involves.thy ===== *)
theory Involves
  imports TypeSystemProps
begin

text \<open>
  Which relations involve an intersection or an exclusion.  The search of the type system ends, never
  fails on a validated model and answers yes only when there is such an operator; because the walk
  stops at the first operator it meets, it can miss one below the other kind.
\<close>

section \<open>Nodes of a rewrite\<close>

fun nodes :: "userset \<Rightarrow> userset set" where
  "nodes (Union cs) = insert (Union cs) (\<Union>c \<in> set cs. nodes c)"
| "nodes (Intersection cs) = insert (Intersection cs) (\<Union>c \<in> set cs. nodes c)"
| "nodes (Difference b s) = insert (Difference b s) (nodes b \<union> nodes s)"
| "nodes rw = {rw}"

lemma node_self: "rw \<in> nodes rw"
  by (cases rw) auto

lemma computed_nodes: "ComputedUserset c \<in> nodes rw \<Longrightarrow> c \<in> computed_of rw"
  by (induction rw rule: nodes.induct) auto

lemma ttu_nodes: "TupleToUserset ts c \<in> nodes rw \<Longrightarrow> (ts, c) \<in> set (flattenUserset rw)"
  by (induction rw rule: nodes.induct) auto

section \<open>Meaning\<close>

fun is_operator :: "set_operator \<Rightarrow> userset \<Rightarrow> bool" where
  "is_operator intersectionSetOperator (Intersection _) = True"
| "is_operator exclusionSetOperator (Difference _ _) = True"
| "is_operator _ _ = False"

inductive relation_involves :: "type_system \<Rightarrow> set_operator \<Rightarrow> string \<Rightarrow> string \<Rightarrow> bool" for t op where
  by_operator: "GetRelation t ot r = Inr rel \<Longrightarrow> w \<in> nodes (rel_rewrite rel) \<Longrightarrow> is_operator op w \<Longrightarrow>
    relation_involves t op ot r"
| by_computed: "GetRelation t ot r = Inr rel \<Longrightarrow> ComputedUserset c \<in> nodes (rel_rewrite rel) \<Longrightarrow>
    GetRelation t ot c = Inr rel' \<Longrightarrow> relation_involves t op ot (rel_name rel') \<Longrightarrow> relation_involves t op ot r"
| by_tupleset: "GetRelation t ot r = Inr rel \<Longrightarrow> TupleToUserset ts c \<in> nodes (rel_rewrite rel) \<Longrightarrow>
    GetRelation t ot ts = Inr trel \<Longrightarrow> rr \<in> set (rel_related trel) \<Longrightarrow> GetRelation t (rr_type rr) c = Inr rel' \<Longrightarrow>
    relation_involves t op (rr_type rr) (rel_name rel') \<Longrightarrow> relation_involves t op ot r"
| by_restriction: "GetRelation t ot r = Inr rel \<Longrightarrow> rr \<in> set (rel_related rel) \<Longrightarrow>
    relation_involves t op (rr_type rr) (rr_relation rr) \<Longrightarrow> relation_involves t op ot r"

text \<open>What the search relies on to end without an error.\<close>

definition closed_ts :: "type_system \<Rightarrow> bool" where
  "closed_ts t \<longleftrightarrow> (\<forall>ot r rel. GetRelation t ot r = Inr rel \<longrightarrow>
     rel_name rel = r \<and> complete_rewrite (rel_rewrite rel)
     \<and> (\<forall>c. ComputedUserset c \<in> nodes (rel_rewrite rel) \<longrightarrow> \<not> isl (GetRelation t ot c))
     \<and> (\<forall>ts c. TupleToUserset ts c \<in> nodes (rel_rewrite rel) \<longrightarrow>
          (\<exists>trel. GetRelation t ot ts = Inr trel \<and> (\<forall>rr \<in> set (rel_related trel). rr_relation rr = '''')))
     \<and> (\<forall>rr \<in> set (rel_related rel). rr_relation rr \<noteq> '''' \<longrightarrow> \<not> isl (GetRelation t (rr_type rr) (rr_relation rr))))"

lemma tupleset_IsTuplesetRelation:
  assumes "ts_consistent t" and "GetRelation t ot r = Inr rel" and "(ts, c) \<in> set (flattenUserset (rel_rewrite rel))"
    and "GetRelation t ot ts = Inr trel"
  shows "IsTuplesetRelation t ot ts = Inr True"
proof -
  from assms(1,2) obtain td where td: "map_of (ts_type_definitions t) ot = Some td"
    "map_of (td_relations td) r = Some (rel_rewrite rel)" by (auto simp: GetRelation_consistent)
  with assms(1) have "map_of (ts_ttu_relations t) ot = Some (map (\<lambda>(r, rw). (r, flattenUserset rw)) (td_relations td))"
    by (simp add: ts_consistent_def)
  moreover have "(r, flattenUserset (rel_rewrite rel)) \<in> set (map (\<lambda>(r, rw). (r, flattenUserset rw)) (td_relations td))"
    using td(2) by (force dest: map_of_SomeD)
  then have "\<exists>(_, ttus) \<in> set (map (\<lambda>(r, rw). (r, flattenUserset rw)) (td_relations td)). \<exists>(tupleset, _) \<in> set ttus. tupleset = ts"
    by (rule bexI [rotated]) (use assms(3) in auto)
  ultimately show ?thesis using assms(4) by (simp add: IsTuplesetRelation_def del: set_map)
qed

lemma validated_closed:
  assumes "NewAndValidate g compile m = Inr t"
  shows "closed_ts t"
  unfolding closed_ts_def
proof (intro allI impI conjI ballI)
  fix ot r rel assume rel: "GetRelation t ot r = Inr rel"
  note facts = NewAndValidate_facts [OF assms]
  note none = validateRelation_None [OF facts(5) [OF rel]]
  note complete = isUsersetRewriteValid_complete [OF none(1)]
  show "rel_name rel = r" using rel by (auto simp: GetRelation_consistent [OF facts(1)])
  show "complete_rewrite (rel_rewrite rel)" by (rule complete)
  show "\<not> isl (GetRelation t ot c)" if "ComputedUserset c \<in> nodes (rel_rewrite rel)" for c
    using isUsersetRewriteValid_computed [OF none(1) computed_nodes [OF that]] by simp
  show "\<exists>trel. GetRelation t ot ts = Inr trel \<and> (\<forall>rr \<in> set (rel_related trel). rr_relation rr = '''')"
    if "TupleToUserset ts c \<in> nodes (rel_rewrite rel)" for ts c
  proof -
    note flat = ttu_nodes [OF that]
    from isUsersetRewriteValid_ttu [OF none(1) facts(2) flat] obtain trel where trel: "GetRelation t ot ts = Inr trel" by blast
    note none' = validateRelation_None [OF facts(5) [OF trel]]
    have "\<forall>rr \<in> set (rel_related trel). rr_relation_or_wildcard rr = None"
      using validateTypeRestrictions_None(5) [OF none'(2) trel isUsersetRewriteValid_complete [OF none'(1)]]
        tupleset_IsTuplesetRelation [OF facts(1) rel flat trel] by blast
    with trel show ?thesis by (auto simp: rr_relation_def)
  qed
  show "\<not> isl (GetRelation t (rr_type rr) (rr_relation rr))" if "rr \<in> set (rel_related rel)" "rr_relation rr \<noteq> ''''" for rr
    by (rule validateTypeRestrictions_None(3) [OF none(2) rel complete that])
qed

section \<open>The walk\<close>

definition handler_ok ::
    "string set \<Rightarrow> nat \<Rightarrow> (userset \<Rightarrow> 'r \<Rightarrow> bool) \<Rightarrow> userset set \<Rightarrow> (string set, 'r) rewrite_handler \<Rightarrow> bool" where
  "handler_ok K n Q N h \<longleftrightarrow> (\<forall>w \<in> N. \<forall>V. card (K - V) \<le> n \<longrightarrow>
     (\<exists>r V'. h w V = Some (r, V') \<and> V \<subseteq> V' \<and> (\<forall>x. r = Some x \<longrightarrow> Q w x)))"

definition walk_ok ::
    "string set \<Rightarrow> (userset \<Rightarrow> 'r \<Rightarrow> bool) \<Rightarrow> userset set \<Rightarrow> ((ts_error + 'r option) \<times> string set) option \<Rightarrow> bool \<Rightarrow> bool" where
  "walk_ok V Q N res complete \<longleftrightarrow> (\<exists>r V'. res = Some (r, V') \<and> V \<subseteq> V'
     \<and> (\<forall>x. r = Inr (Some x) \<longrightarrow> (\<exists>w \<in> N. Q w x)) \<and> (complete \<longrightarrow> \<not> isl r))"

lemma card_diff_le: "finite K \<Longrightarrow> V \<subseteq> V' \<Longrightarrow> card (K - V) \<le> n \<Longrightarrow> card (K - V') \<le> (n :: nat)"
proof -
  assume "finite K" "V \<subseteq> V'" and n: "card (K - V) \<le> n"
  then have "card (K - V') \<le> card (K - V)" by (intro card_mono) auto
  with n show "card (K - V') \<le> n" by simp
qed

lemma walk_ok_mono:
  assumes "walk_ok V' Q N res complete" and "V \<subseteq> V'" and "N \<subseteq> N'" and "complete' \<Longrightarrow> complete"
  shows "walk_ok V Q N' res complete'"
proof -
  from assms(1) obtain r W where r: "res = Some (r, W)" "V' \<subseteq> W" "\<forall>x. r = Inr (Some x) \<longrightarrow> (\<exists>w \<in> N. Q w x)"
    "complete \<longrightarrow> \<not> isl r" unfolding walk_ok_def by blast
  with assms(2-4) have "V \<subseteq> W" "\<forall>x. r = Inr (Some x) \<longrightarrow> (\<exists>w \<in> N'. Q w x)" "complete' \<longrightarrow> \<not> isl r" by blast+
  with r(1) show ?thesis unfolding walk_ok_def by blast
qed

lemma walk_children_ok:
  assumes "finite K"
  shows "(\<And>c V. c \<in> set cs \<Longrightarrow> card (K - V) \<le> n \<Longrightarrow> walk_ok V Q (nodes c) (WalkUsersetRewrite h c V) (complete_rewrite c)) \<Longrightarrow>
    card (K - V) \<le> n \<Longrightarrow>
    walk_ok V Q (\<Union>c \<in> set cs. nodes c) (walk_children h cs V) (\<forall>c \<in> set cs. complete_rewrite c)"
proof (induction cs arbitrary: V)
  case (Cons c cs)
  from Cons.prems(1) [of c V] Cons.prems(2) have "walk_ok V Q (nodes c) (WalkUsersetRewrite h c V) (complete_rewrite c)" by simp
  then obtain r V1 where c: "WalkUsersetRewrite h c V = Some (r, V1)" "V \<subseteq> V1"
    "\<forall>x. r = Inr (Some x) \<longrightarrow> (\<exists>w \<in> nodes c. Q w x)" "complete_rewrite c \<longrightarrow> \<not> isl r" unfolding walk_ok_def by blast
  have "walk_ok V1 Q (\<Union>c \<in> set cs. nodes c) (walk_children h cs V1) (\<forall>c \<in> set cs. complete_rewrite c)"
    using Cons.IH [of V1] Cons.prems(1) card_diff_le [OF assms c(2) Cons.prems(2)] by simp
  then have rest: "walk_ok V Q (\<Union>c \<in> set (c # cs). nodes c) (walk_children h cs V1) (\<forall>c \<in> set (c # cs). complete_rewrite c)"
    by (rule walk_ok_mono) (use c(2) in auto)
  show ?case
  proof (cases "r = Inr None")
    case True
    with c(1) rest show ?thesis by (simp del: WalkUsersetRewrite.simps)
  next
    case False
    with c(1) have "walk_children h (c # cs) V = Some (r, V1)"
      by (auto simp del: WalkUsersetRewrite.simps split: sum.splits option.splits)
    with c(2-4) show ?thesis by (auto simp: walk_ok_def)
  qed
qed (simp add: walk_ok_def)

lemma walk_leaf_ok:
  assumes "finite K" and "handler_ok K n Q {rw} h" and "card (K - V) \<le> n"
    and "rw = This \<or> rw = ComputedUserset c \<or> rw = TupleToUserset ts c"
  shows "walk_ok V Q {rw} (WalkUsersetRewrite h rw V) True"
proof -
  from assms obtain r V1 where h: "h rw V = Some (r, V1)" "V \<subseteq> V1" "\<forall>x. r = Some x \<longrightarrow> Q rw x"
    unfolding handler_ok_def by blast
  from card_diff_le [OF assms(1) h(2) assms(3)] assms(2) obtain r' V2
    where h': "h rw V1 = Some (r', V2)" "V1 \<subseteq> V2" "\<forall>x. r' = Some x \<longrightarrow> Q rw x"
    unfolding handler_ok_def by blast
  from h h' assms(4) show ?thesis by (cases r) (auto simp: walk_ok_def)
qed

lemma WalkUsersetRewrite_ok:
  assumes "finite K"
  shows "handler_ok K n Q (nodes rw) h \<Longrightarrow> card (K - V) \<le> n \<Longrightarrow>
    walk_ok V Q (nodes rw) (WalkUsersetRewrite h rw V) (complete_rewrite rw)"
proof (induction rw arbitrary: V)
  case (Union cs)
  have "handler_ok K n Q (nodes c) h" if "c \<in> set cs" for c
    using Union.prems(1) that unfolding handler_ok_def by auto
  with Union.IH have ih: "c \<in> set cs \<Longrightarrow> card (K - V) \<le> n \<Longrightarrow> walk_ok V Q (nodes c) (WalkUsersetRewrite h c V) (complete_rewrite c)"
    for c V by blast
  from Union.prems obtain r V1 where h: "h (Union cs) V = Some (r, V1)" "V \<subseteq> V1" "\<forall>x. r = Some x \<longrightarrow> Q (Union cs) x"
    unfolding handler_ok_def using node_self by meson
  have "walk_ok V1 Q (\<Union>c \<in> set cs. nodes c) (walk_children h cs V1) (\<forall>c \<in> set cs. complete_rewrite c)"
    by (rule walk_children_ok [OF assms ih card_diff_le [OF assms h(2) Union.prems(2)]])
  then have "walk_ok V Q (nodes (Union cs)) (walk_children h cs V1) (complete_rewrite (Union cs))"
    by (rule walk_ok_mono) (use h(2) in auto)
  with h show ?case by (cases r) (auto simp: walk_ok_def)
next
  case (Intersection cs)
  have "handler_ok K n Q (nodes c) h" if "c \<in> set cs" for c
    using Intersection.prems(1) that unfolding handler_ok_def by auto
  with Intersection.IH have ih: "c \<in> set cs \<Longrightarrow> card (K - V) \<le> n \<Longrightarrow> walk_ok V Q (nodes c) (WalkUsersetRewrite h c V) (complete_rewrite c)"
    for c V by blast
  from Intersection.prems obtain r V1 where h: "h (Intersection cs) V = Some (r, V1)" "V \<subseteq> V1"
    "\<forall>x. r = Some x \<longrightarrow> Q (Intersection cs) x"
    unfolding handler_ok_def using node_self by meson
  have "walk_ok V1 Q (\<Union>c \<in> set cs. nodes c) (walk_children h cs V1) (\<forall>c \<in> set cs. complete_rewrite c)"
    by (rule walk_children_ok [OF assms ih card_diff_le [OF assms h(2) Intersection.prems(2)]])
  then have "walk_ok V Q (nodes (Intersection cs)) (walk_children h cs V1) (complete_rewrite (Intersection cs))"
    by (rule walk_ok_mono) (use h(2) in auto)
  with h show ?case by (cases r) (auto simp: walk_ok_def)
next
  case (Difference b s)
  have hs: "handler_ok K n Q (nodes b) h" "handler_ok K n Q (nodes s) h"
    using Difference.prems(1) unfolding handler_ok_def by auto
  from Difference.prems obtain r V1 where h: "h (Difference b s) V = Some (r, V1)" "V \<subseteq> V1"
    "\<forall>x. r = Some x \<longrightarrow> Q (Difference b s) x"
    unfolding handler_ok_def using node_self by meson
  have ih: "c \<in> set [b, s] \<Longrightarrow> card (K - V) \<le> n \<Longrightarrow> walk_ok V Q (nodes c) (WalkUsersetRewrite h c V) (complete_rewrite c)" for c V
    using Difference.IH hs by auto
  have "walk_ok V1 Q (\<Union>c \<in> set [b, s]. nodes c) (walk_children h [b, s] V1) (\<forall>c \<in> set [b, s]. complete_rewrite c)"
    by (rule walk_children_ok [OF assms ih card_diff_le [OF assms h(2) Difference.prems(2)]])
  then have "walk_ok V Q (nodes (Difference b s)) (walk_children h [b, s] V1) (complete_rewrite (Difference b s))"
    by (rule walk_ok_mono) (use h(2) in auto)
  moreover have "r = None \<Longrightarrow> WalkUsersetRewrite h (Difference b s) V = walk_children h [b, s] V1"
    using h(1) by (subst WalkUsersetRewrite.simps) (auto simp del: WalkUsersetRewrite.simps split: option.split sum.split)
  ultimately show ?case using h by (cases r) (auto simp: walk_ok_def)
next
  case Userset_Nil
  from Userset_Nil.prems obtain r V1 where "h Userset_Nil V = Some (r, V1)" "V \<subseteq> V1" "\<forall>x. r = Some x \<longrightarrow> Q Userset_Nil x"
    unfolding handler_ok_def using node_self by meson
  then show ?case by (cases r) (auto simp: walk_ok_def)
qed (simp_all add: walk_leaf_ok [OF assms] del: WalkUsersetRewrite.simps)

section \<open>The search\<close>

definition relation_keys :: "type_system \<Rightarrow> string set" where
  "relation_keys t = {ToObjectRelationString ot r | ot r. \<not> isl (GetRelation t ot r)}"

definition rec_ok :: "type_system \<Rightarrow> set_operator \<Rightarrow> nat \<Rightarrow> involves_call \<Rightarrow> bool" where
  "rec_ok t op n rec \<longleftrightarrow> (\<forall>ot r V. card (relation_keys t - V) < n \<longrightarrow>
     (\<exists>res V'. rec ot r V = Some (res, V') \<and> V \<subseteq> V' \<and> (res = Inr True \<longrightarrow> relation_involves t op ot r)
       \<and> (closed_ts t \<longrightarrow> \<not> isl (GetRelation t ot r) \<longrightarrow> \<not> isl res)))"

definition node_result :: "type_system \<Rightarrow> set_operator \<Rightarrow> string \<Rightarrow> string \<Rightarrow> walk_result \<Rightarrow> bool" where
  "node_result t op ot r x \<longleftrightarrow> (x = WBool True \<longrightarrow> relation_involves t op ot r) \<and> (closed_ts t \<longrightarrow> (\<forall>e. x \<noteq> WErr e))"

lemma relation_keys_subset:
  "relation_keys t \<subseteq> (\<lambda>(ot, r). ToObjectRelationString ot r) ` relation_pairs (ts_relations t)"
proof
  fix k assume "k \<in> relation_keys t"
  then obtain ot r where k: "k = ToObjectRelationString ot r" "\<not> isl (GetRelation t ot r)" by (auto simp: relation_keys_def)
  then have "lookup_relation (ts_relations t) ot r \<noteq> None"
    by (auto simp: GetRelation_def GetRelations_def lookup_relation_def split: option.splits)
  from lookup_relation_pairs [OF this] k(1)
  show "k \<in> (\<lambda>(ot, r). ToObjectRelationString ot r) ` relation_pairs (ts_relations t)"
    by (intro image_eqI [of _ _ "(ot, r)"]) auto
qed

lemma finite_relation_keys [simp]: "finite (relation_keys t)"
  by (rule finite_subset [OF relation_keys_subset]) simp

lemma card_relation_keys: "card (relation_keys t - V) \<le> relation_count (ts_relations t)"
proof -
  have "card (relation_keys t - V) \<le> card ((\<lambda>(ot, r). ToObjectRelationString ot r) ` relation_pairs (ts_relations t))"
    using relation_keys_subset [of t] by (intro card_mono) auto
  also have "\<dots> \<le> card (relation_pairs (ts_relations t))" by (rule card_image_le) simp
  also have "\<dots> \<le> relation_count (ts_relations t)" by (rule card_relation_pairs)
  finally show ?thesis .
qed

lemma involves_ttu_ok:
  assumes rec: "rec_ok t op (Suc m) rec" and rel: "GetRelation t ot r = Inr rel"
    and node: "TupleToUserset ts c \<in> nodes (rel_rewrite rel)" and trel: "GetRelation t ot ts = Inr trel"
  shows "card (relation_keys t - V) \<le> m \<Longrightarrow> set as \<subseteq> set (rel_related trel) \<Longrightarrow>
    \<exists>res V'. involves_ttu rec t ot ts c as V = Some (res, V') \<and> V \<subseteq> V' \<and> (\<forall>x. res = Some x \<longrightarrow> node_result t op ot r x)"
proof (induction as arbitrary: V)
  case (Cons a as)
  from Cons.prems(2) have a: "a \<in> set (rel_related trel)" by simp
  show ?case
  proof (cases "rr_relation a = ''''")
    case False
    with a rel node trel have "\<not> closed_ts t" unfolding closed_ts_def by fastforce
    with False show ?thesis by (auto simp: node_result_def)
  next
    case True
    show ?thesis
    proof (cases "GetRelation t (rr_type a) c")
      case (Inl e)
      with True Cons show ?thesis by auto
    next
      case (Inr rel')
      from rec Cons.prems(1) obtain res V1 where r: "rec (rr_type a) (rel_name rel') V = Some (res, V1)" "V \<subseteq> V1"
        "res = Inr True \<longrightarrow> relation_involves t op (rr_type a) (rel_name rel')"
        "closed_ts t \<longrightarrow> \<not> isl (GetRelation t (rr_type a) (rel_name rel')) \<longrightarrow> \<not> isl res"
        unfolding rec_ok_def by (metis le_imp_less_Suc)
      have name: "closed_ts t \<Longrightarrow> rel_name rel' = c" using Inr unfolding closed_ts_def by blast
      consider e where "res = Inl e" | "res = Inr True" | "res = Inr False" by (cases res) auto
      then show ?thesis
      proof cases
        case 1
        with r(4) name Inr have "\<not> closed_ts t" by auto
        with 1 r True Inr show ?thesis by (auto simp: node_result_def)
      next
        case 2
        with r(3) have "relation_involves t op ot r" using by_tupleset [OF rel node trel a Inr] by blast
        with 2 r True Inr show ?thesis by (auto simp: node_result_def)
      next
        case 3
        have "\<exists>res V'. involves_ttu rec t ot ts c as V1 = Some (res, V') \<and> V1 \<subseteq> V'
            \<and> (\<forall>x. res = Some x \<longrightarrow> node_result t op ot r x)"
          using Cons.IH [OF card_diff_le [OF finite_relation_keys r(2) Cons.prems(1)]] Cons.prems(2) by simp
        with 3 r True Inr show ?thesis by auto
      qed
    qed
  qed
qed simp

lemma involves_handler_ok:
  assumes rec: "rec_ok t op (Suc m) rec" and rel: "GetRelation t ot r = Inr rel"
  shows "handler_ok (relation_keys t) m (\<lambda>_. node_result t op ot r) (nodes (rel_rewrite rel)) (involves_handler rec t ot op)"
  unfolding handler_ok_def
proof (intro ballI allI impI)
  fix w V assume w: "w \<in> nodes (rel_rewrite rel)" and V: "card (relation_keys t - V) \<le> m"
  show "\<exists>res V'. involves_handler rec t ot op w V = Some (res, V') \<and> V \<subseteq> V' \<and> (\<forall>x. res = Some x \<longrightarrow> node_result t op ot r x)"
  proof (cases w)
    case (ComputedUserset c)
    show ?thesis
    proof (cases "GetRelation t ot c")
      case (Inl e)
      with w ComputedUserset rel have "\<not> closed_ts t" unfolding closed_ts_def by (metis sum.disc(1))
      with Inl ComputedUserset show ?thesis by (auto simp: involves_handler_def node_result_def)
    next
      case (Inr rel')
      from rec V obtain res V1 where r: "rec ot (rel_name rel') V = Some (res, V1)" "V \<subseteq> V1"
        "res = Inr True \<longrightarrow> relation_involves t op ot (rel_name rel')"
        "closed_ts t \<longrightarrow> \<not> isl (GetRelation t ot (rel_name rel')) \<longrightarrow> \<not> isl res"
        unfolding rec_ok_def by (metis le_imp_less_Suc)
      have name: "closed_ts t \<Longrightarrow> rel_name rel' = c" using Inr unfolding closed_ts_def by blast
      show ?thesis
      proof (cases res)
        case Inl': (Inl e)
        with r(4) name Inr have "\<not> closed_ts t" by auto
        with Inl' r Inr ComputedUserset show ?thesis by (auto simp: involves_handler_def node_result_def)
      next
        case Inr': (Inr b)
        have "b \<Longrightarrow> relation_involves t op ot r"
          using r(3) Inr' by_computed [OF rel w [unfolded ComputedUserset] Inr] by simp
        with Inr' r Inr ComputedUserset show ?thesis by (auto simp: involves_handler_def node_result_def)
      qed
    qed
  next
    case (TupleToUserset ts c)
    show ?thesis
    proof (cases "GetRelation t ot ts")
      case (Inl e)
      with w TupleToUserset rel have "\<not> closed_ts t" unfolding closed_ts_def by force
      with Inl TupleToUserset show ?thesis by (auto simp: involves_handler_def node_result_def)
    next
      case (Inr trel)
      from involves_ttu_ok [OF rec rel w [unfolded TupleToUserset] Inr V order_refl] Inr TupleToUserset show ?thesis
        by (auto simp: involves_handler_def)
    qed
  next
    case (Intersection cs)
    have "op = intersectionSetOperator \<Longrightarrow> relation_involves t op ot r"
      using by_operator [OF rel w, of op] Intersection by (cases op) auto
    with Intersection show ?thesis by (auto simp: involves_handler_def node_result_def)
  next
    case (Difference b s)
    have "op = exclusionSetOperator \<Longrightarrow> relation_involves t op ot r"
      using by_operator [OF rel w, of op] Difference by (cases op) auto
    with Difference show ?thesis by (auto simp: involves_handler_def node_result_def)
  qed (auto simp: involves_handler_def)
qed

lemma involves_restrictions_ok:
  assumes rec: "rec_ok t op (Suc m) rec" and rel: "GetRelation t ot r = Inr rel"
  shows "card (relation_keys t - V) \<le> m \<Longrightarrow> set rs \<subseteq> set (rel_related rel) \<Longrightarrow>
    \<exists>res V'. involves_restrictions rec rs V = Some (res, V') \<and> V \<subseteq> V' \<and> (res = Inr True \<longrightarrow> relation_involves t op ot r)
      \<and> (closed_ts t \<longrightarrow> \<not> isl res)"
proof (induction rs arbitrary: V)
  case (Cons a rs)
  from Cons.prems(2) have a: "a \<in> set (rel_related rel)" by simp
  show ?case
  proof (cases "rr_relation a \<noteq> '''' \<and> ToObjectRelationString (rr_type a) (rr_relation a) \<notin> V")
    case False
    with Cons show ?thesis by auto
  next
    case True
    from rec Cons.prems(1) obtain res V1 where r: "rec (rr_type a) (rr_relation a) V = Some (res, V1)" "V \<subseteq> V1"
      "res = Inr True \<longrightarrow> relation_involves t op (rr_type a) (rr_relation a)"
      "closed_ts t \<longrightarrow> \<not> isl (GetRelation t (rr_type a) (rr_relation a)) \<longrightarrow> \<not> isl res"
      unfolding rec_ok_def by (metis le_imp_less_Suc)
    have "closed_ts t \<Longrightarrow> \<not> isl (GetRelation t (rr_type a) (rr_relation a))"
      using rel a True unfolding closed_ts_def by blast
    with r(4) have closed: "closed_ts t \<longrightarrow> \<not> isl res" by blast
    have involved: "res = Inr True \<longrightarrow> relation_involves t op ot r" using r(3) by_restriction [OF rel a] by blast
    show ?thesis
    proof (cases "res = Inr False")
      case False
      with True r(1) have "involves_restrictions rec (a # rs) V = Some (res, V1)" by (auto split: sum.splits bool.splits)
      with r(2) closed involved show ?thesis by blast
    next
      case res: True
      obtain res' V' where "involves_restrictions rec rs V1 = Some (res', V')" "V1 \<subseteq> V'"
        "res' = Inr True \<longrightarrow> relation_involves t op ot r" "closed_ts t \<longrightarrow> \<not> isl res'"
        using Cons.IH [OF card_diff_le [OF finite_relation_keys r(2) Cons.prems(1)]] Cons.prems(2) by auto
      with True res r show ?thesis by auto
    qed
  qed
qed simp

lemma involves_body_ok:
  assumes rec: "rec_ok t op n rec"
  shows "rec_ok t op (Suc n) (involves_body rec t op)"
  unfolding rec_ok_def
proof (intro allI impI)
  fix ot r V assume V: "card (relation_keys t - V) < Suc n"
  let ?key = "ToObjectRelationString ot r"
  show "\<exists>res V'. involves_body rec t op ot r V = Some (res, V') \<and> V \<subseteq> V' \<and> (res = Inr True \<longrightarrow> relation_involves t op ot r)
      \<and> (closed_ts t \<longrightarrow> \<not> isl (GetRelation t ot r) \<longrightarrow> \<not> isl res)"
  proof (cases "?key \<in> V \<or> isl (GetRelation t ot r)")
    case True
    then show ?thesis by (cases "GetRelation t ot r") (auto simp: involves_body_def Let_def)
  next
    case False
    then obtain rel where rel: "GetRelation t ot r = Inr rel" by (cases "GetRelation t ot r") auto
    let ?V = "insert ?key V"
    have "?key \<in> relation_keys t" using False by (auto simp: relation_keys_def)
    with False have "card (relation_keys t - ?V) < card (relation_keys t - V)" by (intro psubset_card_mono) auto
    with V have "card (relation_keys t - ?V) < n" by linarith
    then obtain m where n: "n = Suc m" and m: "card (relation_keys t - ?V) \<le> m" by (cases n) auto
    have "walk_ok ?V (\<lambda>_. node_result t op ot r) (nodes (rel_rewrite rel))
        (WalkUsersetRewrite (involves_handler rec t ot op) (rel_rewrite rel) ?V) (complete_rewrite (rel_rewrite rel))"
      by (rule WalkUsersetRewrite_ok [OF finite_relation_keys involves_handler_ok [OF rec [unfolded n] rel] m])
    then obtain w V1 where w: "WalkUsersetRewrite (involves_handler rec t ot op) (rel_rewrite rel) ?V = Some (w, V1)" "?V \<subseteq> V1"
      "\<forall>x. w = Inr (Some x) \<longrightarrow> node_result t op ot r x" "complete_rewrite (rel_rewrite rel) \<longrightarrow> \<not> isl w"
      unfolding walk_ok_def by blast
    have complete: "closed_ts t \<Longrightarrow> complete_rewrite (rel_rewrite rel)" using rel unfolding closed_ts_def by blast
    obtain res V2 where rs: "involves_restrictions rec (rel_related rel) V1 = Some (res, V2)" "V1 \<subseteq> V2"
      "res = Inr True \<longrightarrow> relation_involves t op ot r" "closed_ts t \<longrightarrow> \<not> isl res"
      using involves_restrictions_ok [OF rec [unfolded n] rel card_diff_le [OF finite_relation_keys w(2) m] order_refl] by auto
    consider e where "w = Inl e" | e where "w = Inr (Some (WErr e))" | "w = Inr (Some (WBool True))"
      | "w = Inr None \<or> w = Inr (Some (WBool False))"
    proof (cases w)
      case (Inr x)
      show thesis
      proof (cases x)
        case (Some y)
        show thesis
        proof (cases y)
          case (WBool b)
          with Inr Some that(3,4) show thesis by (cases b) simp_all
        qed (use Inr Some that(2) in simp)
      qed (use Inr that(4) in simp)
    qed (use that(1) in simp)
    then show ?thesis
      using False rel w rs complete
      by cases (auto simp: involves_body_def Let_def node_result_def simp del: WalkUsersetRewrite.simps)
  qed
qed

lemma relationInvolves_ok: "rec_ok t op n (relationInvolves n t op)"
proof (induction n)
  case (Suc n)
  from involves_body_ok [OF Suc] show ?case by (simp add: rec_ok_def)
qed (simp add: rec_ok_def)

lemma relationInvolves_result:
  obtains res V where "relationInvolves (relation_count (ts_relations t) + 2) t op ot r {} = Some (res, V)"
    "res = Inr True \<longrightarrow> relation_involves t op ot r" "closed_ts t \<longrightarrow> \<not> isl (GetRelation t ot r) \<longrightarrow> \<not> isl res"
proof -
  have "card (relation_keys t - {}) < relation_count (ts_relations t) + 2"
    using card_relation_keys [of t "{}"] by simp
  with relationInvolves_ok [of t op "relation_count (ts_relations t) + 2"] that show thesis
    unfolding rec_ok_def by metis
qed

section \<open>Properties\<close>

text \<open>
  C17: the searches for intersections and exclusions return; on a validated model they do not fail for
  a defined relation, and a positive answer is right.
\<close>

theorem RelationInvolves_sound:
  assumes "NewAndValidate g compile m = Inr t" and "GetRelation t ot r = Inr rel"
  shows "\<exists>b c. RelationInvolvesIntersection t ot r = Some (Inr b) \<and> (b \<longrightarrow> relation_involves t intersectionSetOperator ot r)
    \<and> RelationInvolvesExclusion t ot r = Some (Inr c) \<and> (c \<longrightarrow> relation_involves t exclusionSetOperator ot r)"
proof -
  have ok: "\<exists>b V. relationInvolves (relation_count (ts_relations t) + 2) t op ot r {} = Some (Inr b, V)
      \<and> (b \<longrightarrow> relation_involves t op ot r)" for op
  proof -
    obtain res V where "relationInvolves (relation_count (ts_relations t) + 2) t op ot r {} = Some (res, V)"
      "res = Inr True \<longrightarrow> relation_involves t op ot r" "\<not> isl res"
      by (rule relationInvolves_result [of t op ot r]) (use validated_closed [OF assms(1)] assms(2) in simp)
    then show ?thesis by (cases res) auto
  qed
  from ok [of intersectionSetOperator] ok [of exclusionSetOperator] show ?thesis
    unfolding RelationInvolvesIntersection_def RelationInvolvesExclusion_def
    by (elim exE conjE) (simp del: relationInvolves.simps)
qed

theorem RelationInvolves_sound_witness:
  "\<exists>b c. RelationInvolvesIntersection example_ts ''doc'' ''viewer'' = Some (Inr b)
     \<and> RelationInvolvesExclusion example_ts ''doc'' ''viewer'' = Some (Inr c)"
proof -
  obtain rel where "GetRelation example_ts ''doc'' ''viewer'' = Inr rel" using example_viewer by blast
  from RelationInvolves_sound [OF example_valid this] show ?thesis by blast
qed

text \<open>
  C34: the walk takes the answer of the first operator it meets, so that an exclusion below an
  intersection is not found.  In every model, a relation whose rewrite is an intersection with an
  exclusion anywhere below it, and which is not restricted to usersets, involves an exclusion, and
  \<open>RelationInvolvesExclusion\<close> answers no.
\<close>

theorem RelationInvolvesExclusion_misses:
  assumes "GetRelation t ot r = Inr rel" and "rel_rewrite rel = Intersection cs"
    and "Difference b s \<in> nodes (rel_rewrite rel)" and "\<forall>rr \<in> set (rel_related rel). rr_relation rr = ''''"
  shows "relation_involves t exclusionSetOperator ot r \<and> RelationInvolvesExclusion t ot r = Some (Inr False)"
proof
  show "relation_involves t exclusionSetOperator ot r"
    by (rule by_operator [OF assms(1,3)]) simp
  have "involves_restrictions rec rrs visited = Some (Inr False, visited)" if "\<forall>rr \<in> set rrs. rr_relation rr = ''''" for rec rrs visited
    using that by (induction rrs) simp_all
  then show "RelationInvolvesExclusion t ot r = Some (Inr False)"
    using assms(1,2,4) by (simp add: RelationInvolvesExclusion_def involves_body_def involves_handler_def Let_def)
qed

text \<open>A viewer must be an editor and an editor who is not blocked.\<close>

definition nested_model :: authorization_model where
  "nested_model =
     \<lparr>am_id = ''m'', am_schema_version = ''1.1'',
      am_type_definitions =
        [\<lparr>td_type = ''user'', td_relations = [], td_metadata = Map.empty\<rparr>,
         \<lparr>td_type = ''doc'',
          td_relations = [(''editor'', This), (''blocked'', This),
            (''viewer'', Intersection [ComputedUserset ''editor'',
               Difference (ComputedUserset ''editor'') (ComputedUserset ''blocked'')])],
          td_metadata = [''editor'' \<mapsto> [DirectRelationReference ''user'' ''''], ''blocked'' \<mapsto> [DirectRelationReference ''user'' '''']]\<rparr>],
      am_conditions = []\<rparr>"

definition nested_ts :: type_system where
  "nested_ts = (case New (\<lambda>_. None) nested_model of Inr t \<Rightarrow> t)"

theorem RelationInvolvesExclusion_misses_witness:
  "NewAndValidate (\<lambda>_. None) (\<lambda>_. None) nested_model = Inr nested_ts
   \<and> relation_involves nested_ts exclusionSetOperator ''doc'' ''viewer''
   \<and> RelationInvolvesExclusion nested_ts ''doc'' ''viewer'' = Some (Inr False)"
proof
  have new: "New (\<lambda>_. None) nested_model = Inr nested_ts" by (simp add: nested_ts_def New_def)
  have "IsSchemaVersionSupported (ts_schema_version nested_ts)" "\<not> containsDuplicateType nested_model"
    "validateNames nested_ts = None" "validateRelations nested_ts = None" "validateConditions (\<lambda>_. None) nested_ts = None"
    by code_simp+
  then show "NewAndValidate (\<lambda>_. None) (\<lambda>_. None) nested_model = Inr nested_ts" by (simp add: NewAndValidate_def new)
  have "GetRelation nested_ts ''doc'' ''viewer'' = Inr \<lparr>rel_name = ''viewer'',
      rel_rewrite = Intersection [ComputedUserset ''editor'', Difference (ComputedUserset ''editor'') (ComputedUserset ''blocked'')],
      rel_related = []\<rparr>"
    by (simp add: nested_ts_def New_def New_loop_def nested_model_def GetRelation_def GetRelations_def GetTypeDefinition_def new_relation_def)
  from RelationInvolvesExclusion_misses [OF this] show "relation_involves nested_ts exclusionSetOperator ''doc'' ''viewer''
      \<and> RelationInvolvesExclusion nested_ts ''doc'' ''viewer'' = Some (Inr False)" by simp
qed

end
