(* ===== verification/Conditions.thy ===== *)
theory Conditions
  imports Tuple "HOL-Library.AList"
begin

text \<open>
  Relationship conditions: \<open>src/internal/condition\<close>.  Parameter types and the conversion of context
  values to them, the compilation state of a condition, the evaluation of a condition and of the
  condition of a tuple, and IP addresses.  The expression language (compiler and evaluator), the
  conversion of protobuf values to Go values and the text formats of numbers, durations, timestamps
  and addresses are parameters.
\<close>

unbundle bit_operations_syntax

section \<open>Numbers\<close>

text \<open>
  \<open>big.Float\<close>: a sign, a mantissa and a binary exponent, or an infinity.  \<open>NewFloat\<close> panics on
  not-a-number.
\<close>

datatype big_float = BigFin bool nat int | BigInf bool

definition NewFloat :: "64 word \<Rightarrow> big_float option" where
  "NewFloat w =
     (let neg = bit w 63; expo = unat (take_bit 11 (drop_bit 52 w)); frac = unat (take_bit 52 w) in
      if expo = 2047 then (if frac = 0 then Some (BigInf neg) else None)
      else if expo = 0 then Some (BigFin neg frac (- 1074))
      else Some (BigFin neg (frac + 2 ^ 52) (int expo - 1075)))"

fun IsInt :: "big_float \<Rightarrow> bool" where
  "IsInt (BigInf _) = False"
| "IsInt (BigFin neg mant e) = (mant = 0 \<or> 0 \<le> e \<or> 2 ^ nat (- e) dvd mant)"

text \<open>\<open>Int64\<close> truncates towards zero and is clamped to the range of a signed 64-bit integer.\<close>

definition max_int64 :: int where "max_int64 = 2 ^ 63 - 1"

definition min_int64 :: int where "min_int64 = - (2 ^ 63)"

definition clamp_int64 :: "int \<Rightarrow> int" where
  "clamp_int64 x = max min_int64 (min max_int64 x)"

fun truncated :: "big_float \<Rightarrow> int" where
  "truncated (BigInf neg) = (if neg then min_int64 else max_int64)"
| "truncated (BigFin neg mant e) =
     (let m = (if 0 \<le> e then mant * 2 ^ nat e else mant div 2 ^ nat (- e)) in if neg then - int m else int m)"

definition Int64 :: "big_float \<Rightarrow> 64 word" where
  "Int64 f = word_of_int (clamp_int64 (truncated f))"

text \<open>\<open>Float64\<close> of a value; \<open>None\<close> when the nearest float is below or above it.\<close>

fun strip_twos :: "nat \<Rightarrow> int \<Rightarrow> nat \<times> int" where
  "strip_twos m e = (if m \<noteq> 0 \<and> even m then strip_twos (m div 2) (e + 1) else (m, e))"

fun bit_length :: "nat \<Rightarrow> nat" where
  "bit_length m = (if m = 0 then 0 else Suc (bit_length (m div 2)))"

declare strip_twos.simps [simp del] bit_length.simps [simp del]

definition float_word :: "bool \<Rightarrow> nat \<Rightarrow> nat \<Rightarrow> 64 word" where
  "float_word neg expo frac = of_nat ((if neg then 2 ^ 63 else 0) + expo * 2 ^ 52 + frac)"

fun Float64 :: "big_float \<Rightarrow> 64 word option" where
  "Float64 (BigInf neg) = Some (float_word neg 2047 0)"
| "Float64 (BigFin neg mant e) =
     (let (m, e) = strip_twos mant e; len = bit_length m in
      if m = 0 then Some (float_word neg 0 0)
      else if 53 < len \<or> e < - 1074 \<or> 1024 < int len + e then None
      else if int len + e < - 1021 then Some (float_word neg 0 (m * 2 ^ nat (e + 1074)))
      else Some (float_word neg (nat (int len + e + 1022)) (m * 2 ^ (53 - len) - 2 ^ 52)))"

section \<open>IP addresses\<close>

text \<open>\<open>netip.Addr\<close>: an IPv4 address, or an IPv6 address with its zone.\<close>

datatype addr = AddrZero | Addr4 "32 word" | Addr6 "128 word" string

definition Is4In6 :: "addr \<Rightarrow> bool" where
  "Is4In6 a = (case a of Addr6 w _ \<Rightarrow> drop_bit 32 w = 0xFFFF | _ \<Rightarrow> False)"

definition Unmap :: "addr \<Rightarrow> addr" where
  "Unmap a = (case a of Addr6 w z \<Rightarrow> if Is4In6 a then Addr4 (ucast w) else a | _ \<Rightarrow> a)"

definition Is4 :: "addr \<Rightarrow> bool" where
  "Is4 a = (case a of Addr4 _ \<Rightarrow> True | _ \<Rightarrow> False)"

text \<open>\<open>netip.Prefix\<close>; a prefix with a negative length is invalid.\<close>

record prefix =
  pfx_addr :: addr
  pfx_bits :: int

definition PrefixFrom :: "addr \<Rightarrow> int \<Rightarrow> prefix" where
  "PrefixFrom a bits =
     (let len = (case a of AddrZero \<Rightarrow> -1 | Addr4 _ \<Rightarrow> 32 | Addr6 _ _ \<Rightarrow> 128);
          a = (case a of Addr6 w _ \<Rightarrow> Addr6 w '''' | _ \<Rightarrow> a) in
      if 0 \<le> bits \<and> bits \<le> len then \<lparr>pfx_addr = a, pfx_bits = bits\<rparr> else \<lparr>pfx_addr = a, pfx_bits = -1\<rparr>)"

definition Contains :: "prefix \<Rightarrow> addr \<Rightarrow> bool" where
  "Contains p ip =
     (0 \<le> pfx_bits p \<and>
      (case (pfx_addr p, ip) of
         (Addr4 n, Addr4 w) \<Rightarrow> drop_bit (nat (32 - pfx_bits p)) (w XOR n) = 0
       | (Addr6 n _, Addr6 w z) \<Rightarrow> z = '''' \<and> drop_bit (nat (128 - pfx_bits p)) (w XOR n) = 0
       | _ \<Rightarrow> False))"

section \<open>Values\<close>

text \<open>
  The Go values a condition parameter can have: what a protobuf value converts to, and what the
  converters make of it.  Time is seconds, nanoseconds and zone offset.
\<close>

type_synonym go_time = "int \<times> int \<times> int"

datatype any_value =
    ANil | ABool bool | AFloat64 "64 word" | AString string | AList "any_value list" | AMap "(string \<times> any_value) list"
  | AInt64 "64 word" | AUint64 "64 word" | ADuration "64 word" | ATime go_time | AIPAddress addr

text \<open>
  The library functions the converters call: \<open>structpb.Value.AsInterface\<close>, \<open>big.ParseFloat\<close>,
  \<open>time.ParseDuration\<close>, \<open>time.Parse\<close> with the RFC 3339 layout, \<open>netip.ParseAddr\<close> and
  \<open>netip.ParsePrefix\<close>.
\<close>

record value_library =
  AsInterface :: "pbvalue \<Rightarrow> any_value"
  ParseFloat :: "string \<Rightarrow> big_float option"
  ParseDuration :: "string \<Rightarrow> 64 word option"
  ParseTime :: "string \<Rightarrow> go_time option"
  ParseAddr :: "string \<Rightarrow> addr option"
  ParsePrefix :: "string \<Rightarrow> prefix option"

definition ParseIPAddress :: "value_library \<Rightarrow> string \<Rightarrow> addr option" where
  "ParseIPAddress lib ip = map_option Unmap (ParseAddr lib ip)"

text \<open>
  \<open>ipaddressCELBinaryBinding\<close>, the \<open>in_cidr\<close> method of expressions: an address and the value of the
  right-hand side.
\<close>

datatype cidr_error = CIDRStringRequired | MalformedCIDR string | IPAddressRequired

definition ipaddressCELBinaryBinding :: "value_library \<Rightarrow> any_value \<Rightarrow> any_value \<Rightarrow> cidr_error + bool" where
  "ipaddressCELBinaryBinding lib lhs rhs =
     (case rhs of
        AString cidr \<Rightarrow>
          (case ParsePrefix lib cidr of
             None \<Rightarrow> Inl (MalformedCIDR cidr)
           | Some network \<Rightarrow>
               (case lhs of
                  AIPAddress ipaddr \<Rightarrow>
                    (let addr = Unmap (pfx_addr network);
                         bits = pfx_bits network;
                         network = (if Is4 addr \<and> 96 \<le> bits then PrefixFrom addr (bits - 96) else network) in
                     Inr (Contains network ipaddr))
                | _ \<Rightarrow> Inl IPAddressRequired))
      | _ \<Rightarrow> Inl CIDRStringRequired)"

definition stringToIPAddress :: "value_library \<Rightarrow> any_value \<Rightarrow> any_value option" where
  "stringToIPAddress lib arg =
     (case arg of AString ipStr \<Rightarrow> map_option AIPAddress (ParseIPAddress lib ipStr) | _ \<Rightarrow> None)"

section \<open>Converters\<close>

datatype convert_error =
    ExpectedType param_type_name
  | InvalidNumberString string
  | ExpectedInt
  | ExpectedUint
  | NegativeUint
  | NotAFloat64
  | ExpectedDuration
  | ExpectedTimestamp
  | ExpectedIPAddress
  | MapRequired
  | ListRequired
  | InvalidMapValue string convert_error
  | InvalidListItem nat convert_error
  | NaNPanic
  | GenericTypesPanic

datatype numeric_type = Numeric_int64 | Numeric_uint64 | Numeric_float64

fun numeric_name :: "numeric_type \<Rightarrow> param_type_name" where
  "numeric_name Numeric_int64 = TYPE_NAME_INT"
| "numeric_name Numeric_uint64 = TYPE_NAME_UINT"
| "numeric_name Numeric_float64 = TYPE_NAME_DOUBLE"

fun is_numeric_type :: "numeric_type \<Rightarrow> any_value \<Rightarrow> bool" where
  "is_numeric_type Numeric_int64 (AInt64 _) = True"
| "is_numeric_type Numeric_uint64 (AUint64 _) = True"
| "is_numeric_type Numeric_float64 (AFloat64 _) = True"
| "is_numeric_type _ _ = False"

definition numeric_big_float :: "value_library \<Rightarrow> numeric_type \<Rightarrow> any_value \<Rightarrow> convert_error + big_float" where
  "numeric_big_float lib t v =
     (case v of
        AFloat64 w \<Rightarrow> (case NewFloat w of None \<Rightarrow> Inl NaNPanic | Some f \<Rightarrow> Inr f)
      | AString s \<Rightarrow> (case ParseFloat lib s of None \<Rightarrow> Inl (InvalidNumberString s) | Some f \<Rightarrow> Inr f)
      | _ \<Rightarrow> Inl (ExpectedType (numeric_name t)))"

definition numericTypeConverterFunc :: "value_library \<Rightarrow> numeric_type \<Rightarrow> any_value \<Rightarrow> convert_error + any_value" where
  "numericTypeConverterFunc lib t v =
     (if is_numeric_type t v then Inr v
      else (case numeric_big_float lib t v of
              Inl e \<Rightarrow> Inl e
            | Inr bigFloat \<Rightarrow>
                (case t of
                   Numeric_int64 \<Rightarrow> if \<not> IsInt bigFloat then Inl ExpectedInt else Inr (AInt64 (Int64 bigFloat))
                 | Numeric_uint64 \<Rightarrow>
                     if \<not> IsInt bigFloat then Inl ExpectedUint
                     else if Int64 bigFloat <s 0 then Inl NegativeUint
                     else Inr (AUint64 (Int64 bigFloat))
                 | Numeric_float64 \<Rightarrow>
                     (case Float64 bigFloat of None \<Rightarrow> Inl NotAFloat64 | Some w \<Rightarrow> Inr (AFloat64 w)))))"

definition boolTypeConverterFunc :: "any_value \<Rightarrow> convert_error + any_value" where
  "boolTypeConverterFunc v = (case v of ABool _ \<Rightarrow> Inr v | _ \<Rightarrow> Inl (ExpectedType TYPE_NAME_BOOL))"

definition stringTypeConverterFunc :: "any_value \<Rightarrow> convert_error + any_value" where
  "stringTypeConverterFunc v = (case v of AString _ \<Rightarrow> Inr v | _ \<Rightarrow> Inl (ExpectedType TYPE_NAME_STRING))"

definition anyTypeConverterFunc :: "any_value \<Rightarrow> convert_error + any_value" where
  "anyTypeConverterFunc v = Inr v"

definition durationTypeConverterFunc :: "value_library \<Rightarrow> any_value \<Rightarrow> convert_error + any_value" where
  "durationTypeConverterFunc lib v =
     (case v of
        AString s \<Rightarrow> (case ParseDuration lib s of None \<Rightarrow> Inl ExpectedDuration | Some d \<Rightarrow> Inr (ADuration d))
      | _ \<Rightarrow> Inl ExpectedDuration)"

definition timestampTypeConverterFunc :: "value_library \<Rightarrow> any_value \<Rightarrow> convert_error + any_value" where
  "timestampTypeConverterFunc lib v =
     (case v of
        AString s \<Rightarrow> (case ParseTime lib s of None \<Rightarrow> Inl ExpectedTimestamp | Some d \<Rightarrow> Inr (ATime d))
      | _ \<Rightarrow> Inl ExpectedTimestamp)"

definition ipaddressTypeConverterFunc :: "value_library \<Rightarrow> any_value \<Rightarrow> convert_error + any_value" where
  "ipaddressTypeConverterFunc lib v =
     (case v of
        AIPAddress _ \<Rightarrow> Inr v
      | AString s \<Rightarrow> (case ParseIPAddress lib s of None \<Rightarrow> Inl ExpectedIPAddress | Some d \<Rightarrow> Inr (AIPAddress d))
      | _ \<Rightarrow> Inl ExpectedIPAddress)"

fun convert_fields :: "(any_value \<Rightarrow> convert_error + any_value) \<Rightarrow> (string \<times> any_value) list
    \<Rightarrow> convert_error + (string \<times> any_value) list" where
  "convert_fields conv [] = Inr []"
| "convert_fields conv ((key, item) # rest) =
     (case conv item of
        Inl e \<Rightarrow> Inl (InvalidMapValue key e)
      | Inr c \<Rightarrow> (case convert_fields conv rest of Inl e \<Rightarrow> Inl e | Inr cs \<Rightarrow> Inr ((key, c) # cs)))"

fun convert_items :: "(any_value \<Rightarrow> convert_error + any_value) \<Rightarrow> nat \<Rightarrow> any_value list
    \<Rightarrow> convert_error + any_value list" where
  "convert_items conv index [] = Inr []"
| "convert_items conv index (item # rest) =
     (case conv item of
        Inl e \<Rightarrow> Inl (InvalidListItem index e)
      | Inr c \<Rightarrow> (case convert_items conv (Suc index) rest of Inl e \<Rightarrow> Inl e | Inr cs \<Rightarrow> Inr (c # cs)))"

definition mapTypeConverterFunc :: "(any_value \<Rightarrow> convert_error + any_value) \<Rightarrow> any_value \<Rightarrow> convert_error + any_value" where
  "mapTypeConverterFunc conv v =
     (case v of
        AMap kvs \<Rightarrow> (case convert_fields conv kvs of Inl e \<Rightarrow> Inl e | Inr cs \<Rightarrow> Inr (AMap cs))
      | _ \<Rightarrow> Inl MapRequired)"

definition listTypeConverterFunc :: "(any_value \<Rightarrow> convert_error + any_value) \<Rightarrow> any_value \<Rightarrow> convert_error + any_value" where
  "listTypeConverterFunc conv v =
     (case v of
        AList items \<Rightarrow> (case convert_items conv 0 items of Inl e \<Rightarrow> Inl e | Inr cs \<Rightarrow> Inr (AList cs))
      | _ \<Rightarrow> Inl ListRequired)"

section \<open>Parameter types\<close>

text \<open>
  A registered parameter type: its name determines the converter (and the type of the expression
  language), together with the generic types.
\<close>

datatype parameter_type = ParameterType param_type_name "parameter_type list"

text \<open>The number of generic types with which a name is registered.\<close>

definition genericTypeCount :: "param_type_name \<Rightarrow> nat option" where
  "genericTypeCount n =
     (case n of
        TYPE_NAME_UNSPECIFIED \<Rightarrow> None
      | TYPE_NAME_MAP \<Rightarrow> Some 1
      | TYPE_NAME_LIST \<Rightarrow> Some 1
      | _ \<Rightarrow> Some 0)"

datatype decode_error = UnknownParameterType param_type_name | GenericTypeCountMismatch param_type_name nat nat

fun DecodeParameterType :: "param_type_ref \<Rightarrow> decode_error + parameter_type"
and decode_generics :: "param_type_ref list \<Rightarrow> decode_error + parameter_type list" where
  "DecodeParameterType (ParamTypeRef n generics) =
     (case genericTypeCount n of
        None \<Rightarrow> Inl (UnknownParameterType n)
      | Some cnt \<Rightarrow>
          if length generics \<noteq> cnt then Inl (GenericTypeCountMismatch n cnt (length generics))
          else (case decode_generics generics of
                  Inl e \<Rightarrow> Inl e
                | Inr genericTypes \<Rightarrow> Inr (ParameterType n genericTypes)))"
| "decode_generics [] = Inr []"
| "decode_generics (g # gs) =
     (case DecodeParameterType g of
        Inl e \<Rightarrow> Inl e
      | Inr t \<Rightarrow> (case decode_generics gs of Inl e \<Rightarrow> Inl e | Inr ts \<Rightarrow> Inr (t # ts)))"

fun ConvertValue :: "value_library \<Rightarrow> parameter_type \<Rightarrow> any_value \<Rightarrow> convert_error + any_value" where
  "ConvertValue lib (ParameterType TYPE_NAME_MAP (g # gs)) v = mapTypeConverterFunc (ConvertValue lib g) v"
| "ConvertValue lib (ParameterType TYPE_NAME_LIST (g # gs)) v = listTypeConverterFunc (ConvertValue lib g) v"
| "ConvertValue lib (ParameterType n gs) v =
     (case n of
        TYPE_NAME_ANY \<Rightarrow> anyTypeConverterFunc v
      | TYPE_NAME_BOOL \<Rightarrow> boolTypeConverterFunc v
      | TYPE_NAME_STRING \<Rightarrow> stringTypeConverterFunc v
      | TYPE_NAME_INT \<Rightarrow> numericTypeConverterFunc lib Numeric_int64 v
      | TYPE_NAME_UINT \<Rightarrow> numericTypeConverterFunc lib Numeric_uint64 v
      | TYPE_NAME_DOUBLE \<Rightarrow> numericTypeConverterFunc lib Numeric_float64 v
      | TYPE_NAME_DURATION \<Rightarrow> durationTypeConverterFunc lib v
      | TYPE_NAME_TIMESTAMP \<Rightarrow> timestampTypeConverterFunc lib v
      | TYPE_NAME_IPADDRESS \<Rightarrow> ipaddressTypeConverterFunc lib v
      | _ \<Rightarrow> Inl GenericTypesPanic)"

text \<open>The types of the expression language: what \<open>CelType\<close> returns for each registered type.\<close>

datatype cel_type =
    CelAnyType | CelBoolType | CelStringType | CelIntType | CelUintType | CelDoubleType | CelDurationType
  | CelTimestampType | CelMapType cel_type cel_type | CelListType cel_type | CelObjectType string | CelNoType

fun CelType :: "parameter_type \<Rightarrow> cel_type" where
  "CelType (ParameterType TYPE_NAME_MAP (g # gs)) = CelMapType CelStringType (CelType g)"
| "CelType (ParameterType TYPE_NAME_LIST (g # gs)) = CelListType (CelType g)"
| "CelType (ParameterType n gs) =
     (case n of
        TYPE_NAME_ANY \<Rightarrow> CelAnyType
      | TYPE_NAME_BOOL \<Rightarrow> CelBoolType
      | TYPE_NAME_STRING \<Rightarrow> CelStringType
      | TYPE_NAME_INT \<Rightarrow> CelIntType
      | TYPE_NAME_UINT \<Rightarrow> CelUintType
      | TYPE_NAME_DOUBLE \<Rightarrow> CelDoubleType
      | TYPE_NAME_DURATION \<Rightarrow> CelDurationType
      | TYPE_NAME_TIMESTAMP \<Rightarrow> CelTimestampType
      | TYPE_NAME_IPADDRESS \<Rightarrow> CelObjectType ''IPAddress''
      | _ \<Rightarrow> CelNoType)"

section \<open>Typed parameters\<close>

datatype parameter_type_cause =
    NoParametersDefined
  | DecodeFailed param_type_name decode_error
  | ConvertFailed string convert_error

datatype parameter_type_error = ParameterTypeError string parameter_type_cause

fun cast_loop :: "value_library \<Rightarrow> pbstruct \<Rightarrow> (string \<times> param_type_ref) list \<Rightarrow> (string \<times> any_value) list
    \<Rightarrow> parameter_type_cause + (string \<times> any_value) list" where
  "cast_loop lib contextMap [] converted = Inr converted"
| "cast_loop lib contextMap ((parameterKey, paramTypeRef) # rest) converted =
     (case map_of contextMap parameterKey of
        None \<Rightarrow> cast_loop lib contextMap rest converted
      | Some contextValue \<Rightarrow>
          (case DecodeParameterType paramTypeRef of
             Inl e \<Rightarrow> Inl (DecodeFailed (ptr_name paramTypeRef) e)
           | Inr varType \<Rightarrow>
               (case ConvertValue lib varType (AsInterface lib contextValue) of
                  Inl e \<Rightarrow> Inl (ConvertFailed parameterKey e)
                | Inr convertedParam \<Rightarrow> cast_loop lib contextMap rest (AList.update parameterKey convertedParam converted))))"

definition CastContextToTypedParameters ::
    "value_library \<Rightarrow> condition_def \<Rightarrow> pbstruct \<Rightarrow> parameter_type_error + (string \<times> any_value) list" where
  "CastContextToTypedParameters lib c contextMap =
     (if contextMap = [] then Inr []
      else if cond_parameters c = [] then Inl (ParameterTypeError (cond_name c) NoParametersDefined)
      else (case cast_loop lib contextMap (cond_parameters c) [] of
              Inl e \<Rightarrow> Inl (ParameterTypeError (cond_name c) e)
            | Inr converted \<Rightarrow> Inr converted))"

section \<open>Compilation and evaluation\<close>

text \<open>
  The expression language: extending the base environment by variables, compiling a source, the
  output type of a syntax tree, building a program, partial activations and evaluation.
\<close>

datatype cel_value = CelUnknown | CelBool bool | CelOther

record ('env, 'ast, 'prg, 'act) cel_library =
  Extend :: "(string \<times> cel_type) list \<Rightarrow> string + 'env"
  CompileSource :: "'env \<Rightarrow> string \<Rightarrow> string \<Rightarrow> string + 'ast"
  Program :: "'env \<Rightarrow> 'ast \<Rightarrow> string + 'prg"
  OutputType :: "'ast \<Rightarrow> cel_type"
  PartialVars :: "'env \<Rightarrow> (string \<times> any_value) list \<Rightarrow> string + 'act"
  ResolveName :: "'act \<Rightarrow> string \<Rightarrow> bool"
  ContextEval :: "'prg \<Rightarrow> 'act \<Rightarrow> string + cel_value \<times> nat option"

datatype compile_cause =
    ParameterDecodeFailed string decode_error
  | EnvironmentError string
  | SourceError string
  | ProgramError string
  | ExpectedBoolOutput cel_type

datatype compilation_error = CompilationError string compile_cause

text \<open>
  An evaluable condition: whether \<open>compileOnce\<close> has run, and the environment and the program it set.
\<close>

record ('env, 'prg) evaluable_condition =
  ec_condition :: condition_def
  ec_compile_once :: bool
  ec_compiled :: "('env \<times> 'prg) option"

fun compile_params :: "(string \<times> param_type_ref) list \<Rightarrow> compile_cause + (string \<times> cel_type) list" where
  "compile_params [] = Inr []"
| "compile_params ((paramName, paramTypeRef) # rest) =
     (case DecodeParameterType paramTypeRef of
        Inl e \<Rightarrow> Inl (ParameterDecodeFailed paramName e)
      | Inr paramType \<Rightarrow>
          (case compile_params rest of Inl e \<Rightarrow> Inl e | Inr ps \<Rightarrow> Inr ((paramName, CelType paramType) # ps)))"

definition compile :: "('env, 'ast, 'prg, 'act) cel_library \<Rightarrow> condition_def \<Rightarrow> compile_cause + 'env \<times> 'prg" where
  "compile cel c =
     (case compile_params (cond_parameters c) of
        Inl e \<Rightarrow> Inl e
      | Inr envOpts \<Rightarrow>
          (case Extend cel envOpts of
             Inl e \<Rightarrow> Inl (EnvironmentError e)
           | Inr env \<Rightarrow>
               (case CompileSource cel env (cond_expression c) (cond_name c) of
                  Inl e \<Rightarrow> Inl (SourceError e)
                | Inr ast \<Rightarrow>
                    (case Program cel env ast of
                       Inl e \<Rightarrow> Inl (ProgramError e)
                     | Inr prg \<Rightarrow>
                         if OutputType cel ast \<noteq> CelBoolType then Inl (ExpectedBoolOutput (OutputType cel ast))
                         else Inr (env, prg)))))"

definition Compile :: "('env, 'ast, 'prg, 'act) cel_library \<Rightarrow> ('env, 'prg) evaluable_condition
    \<Rightarrow> compilation_error option \<times> ('env, 'prg) evaluable_condition" where
  "Compile cel e =
     (if ec_compile_once e then (None, e)
      else (case compile cel (ec_condition e) of
              Inl cause \<Rightarrow> (Some (CompilationError (cond_name (ec_condition e)) cause), e\<lparr>ec_compile_once := True\<rparr>)
            | Inr ep \<Rightarrow> (None, e\<lparr>ec_compile_once := True, ec_compiled := Some ep\<rparr>)))"

definition NewUncompiled :: "condition_def \<Rightarrow> ('env, 'prg) evaluable_condition" where
  "NewUncompiled c = \<lparr>ec_condition = c, ec_compile_once = False, ec_compiled = None\<rparr>"

definition NewCompiled :: "('env, 'ast, 'prg, 'act) cel_library \<Rightarrow> condition_def
    \<Rightarrow> compilation_error + ('env, 'prg) evaluable_condition" where
  "NewCompiled cel c = (case Compile cel (NewUncompiled c) of (Some e, _) \<Rightarrow> Inl e | (None, ec) \<Rightarrow> Inr ec)"

record evaluation_result =
  er_cost :: nat
  er_condition_met :: bool
  er_missing :: "string list"

datatype eval_cause =
    CompileFailed compilation_error
  | CastFailed parameter_type_error
  | PartialVarsFailed string
  | EvalFailed string
  | OutputNotBool
  | ConditionNotFound
  | MissingContextParameters tuple_key "string list"
  | NilProgramPanic

datatype evaluation_error = EvaluationError string eval_cause

text \<open>\<open>maps.Copy\<close>: the fields of the second map replace those of the first.\<close>

definition maps_Copy :: "pbstruct \<Rightarrow> pbstruct \<Rightarrow> pbstruct" where
  "maps_Copy dst src = fold (\<lambda>(k, v). AList.update k v) src dst"

definition merge_contexts :: "pbstruct list \<Rightarrow> pbstruct" where
  "merge_contexts maps = (case maps of [] \<Rightarrow> [] | m # ms \<Rightarrow> foldl maps_Copy m ms)"

definition eval_compiled :: "('env, 'ast, 'prg, 'act) cel_library \<Rightarrow> condition_def \<Rightarrow> 'env \<Rightarrow> 'prg
    \<Rightarrow> (string \<times> any_value) list \<Rightarrow> eval_cause + evaluation_result" where
  "eval_compiled cel c env prg typedParams =
     (case PartialVars cel env typedParams of
        Inl e \<Rightarrow> Inl (PartialVarsFailed e)
      | Inr activation \<Rightarrow>
          (let missing = filter (\<lambda>key. \<not> ResolveName cel activation key) (map fst (cond_parameters c)) in
           case ContextEval cel prg activation of
             Inl e \<Rightarrow> Inl (EvalFailed e)
           | Inr (out, details) \<Rightarrow>
               (let cost = (case details of None \<Rightarrow> 0 | Some k \<Rightarrow> k) in
                case out of
                  CelUnknown \<Rightarrow> Inr \<lparr>er_cost = cost, er_condition_met = False, er_missing = missing\<rparr>
                | CelBool b \<Rightarrow> Inr \<lparr>er_cost = cost, er_condition_met = b, er_missing = missing\<rparr>
                | CelOther \<Rightarrow> Inl OutputNotBool)))"

definition Evaluate :: "value_library \<Rightarrow> ('env, 'ast, 'prg, 'act) cel_library \<Rightarrow> ('env, 'prg) evaluable_condition
    \<Rightarrow> pbstruct list \<Rightarrow> (evaluation_error + evaluation_result) \<times> ('env, 'prg) evaluable_condition" where
  "Evaluate lib cel e contextMaps =
     (let name = cond_name (ec_condition e) in
      case Compile cel e of
        (Some err, e) \<Rightarrow> (Inl (EvaluationError name (CompileFailed err)), e)
      | (None, e) \<Rightarrow>
          ((case CastContextToTypedParameters lib (ec_condition e) (merge_contexts contextMaps) of
              Inl err \<Rightarrow> Inl (EvaluationError name (CastFailed err))
            | Inr typedParams \<Rightarrow>
                (case ec_compiled e of
                   None \<Rightarrow> Inl (EvaluationError name NilProgramPanic)
                 | Some (env, prg) \<Rightarrow>
                     (case eval_compiled cel (ec_condition e) env prg typedParams of
                        Inl err \<Rightarrow> Inl (EvaluationError name err)
                      | Inr res \<Rightarrow> Inr res))), e))"

definition EvaluateTupleCondition :: "value_library \<Rightarrow> ('env, 'ast, 'prg, 'act) cel_library \<Rightarrow> tuple_key
    \<Rightarrow> ('env, 'prg) evaluable_condition option \<Rightarrow> pbstruct option
    \<Rightarrow> (evaluation_error + bool) \<times> ('env, 'prg) evaluable_condition option" where
  "EvaluateTupleCondition lib cel tupleKey evaluableCondition context' =
     (let name = get_condition_name (tk_condition tupleKey) in
      if name = '''' then (Inr True, evaluableCondition)
      else (case evaluableCondition of
              None \<Rightarrow> (Inl (EvaluationError name ConditionNotFound), None)
            | Some e \<Rightarrow>
                if name \<noteq> cond_name (ec_condition e) then (Inl (EvaluationError name ConditionNotFound), Some e)
                else
                  (let contextFields = (case context' of None \<Rightarrow> [[]] | Some c \<Rightarrow> [c]);
                       contextFields = (case get_condition_context (tk_condition tupleKey) of
                          None \<Rightarrow> contextFields | Some tc \<Rightarrow> contextFields @ [tc]) in
                   case Evaluate lib cel e contextFields of
                     (Inl err, e) \<Rightarrow> (Inl err, Some e)
                   | (Inr res, e) \<Rightarrow>
                       (if er_missing res \<noteq> [] then
                          (Inl (EvaluationError name (MissingContextParameters tupleKey (er_missing res))), Some e)
                        else (Inr (er_condition_met res), Some e)))))"

section \<open>Networks\<close>

lemma xor_eq_0_iff: "v XOR w = 0 \<longleftrightarrow> v = (w :: 'a::len word)"
proof
  assume "v XOR w = 0"
  then have "(v XOR w) XOR w = w" by simp
  then show "v = w" by (simp add: xor.assoc)
qed simp

text \<open>
  A network given by an IPv4 block and the same block in its IPv4-mapped form contain the same
  addresses: those that agree with the network in the leading bits.
\<close>

lemma in_cidr_mapped:
  assumes "ParsePrefix lib c4 = Some \<lparr>pfx_addr = Addr4 n, pfx_bits = b\<rparr>" and "0 \<le> b" "b \<le> 32"
    and "ParsePrefix lib c6 = Some \<lparr>pfx_addr = Addr6 m z, pfx_bits = b + 96\<rparr>" and "Unmap (Addr6 m z) = Addr4 n"
  shows "ipaddressCELBinaryBinding lib (AIPAddress (Addr4 w)) (AString c4)
      = Inr (drop_bit (nat (32 - b)) w = drop_bit (nat (32 - b)) n)"
    and "ipaddressCELBinaryBinding lib (AIPAddress a) (AString c6) = ipaddressCELBinaryBinding lib (AIPAddress a) (AString c4)"
proof -
  have four: "Unmap (Addr4 n) = Addr4 n" "Is4 (Addr4 n)" by (simp_all add: Unmap_def Is4_def)
  from four assms(1-3) show "ipaddressCELBinaryBinding lib (AIPAddress (Addr4 w)) (AString c4)
      = Inr (drop_bit (nat (32 - b)) w = drop_bit (nat (32 - b)) n)"
    by (simp add: ipaddressCELBinaryBinding_def Contains_def xor_eq_0_iff)
  from four assms show "ipaddressCELBinaryBinding lib (AIPAddress a) (AString c6) = ipaddressCELBinaryBinding lib (AIPAddress a) (AString c4)"
    by (simp add: ipaddressCELBinaryBinding_def PrefixFrom_def)
qed

section \<open>Types of converted values\<close>

fun has_type :: "parameter_type \<Rightarrow> any_value \<Rightarrow> bool" where
  "has_type (ParameterType TYPE_NAME_MAP (g # gs)) v = (\<exists>kvs. v = AMap kvs \<and> (\<forall>x \<in> snd ` set kvs. has_type g x))"
| "has_type (ParameterType TYPE_NAME_LIST (g # gs)) v = (\<exists>xs. v = AList xs \<and> (\<forall>x \<in> set xs. has_type g x))"
| "has_type (ParameterType n gs) v =
     (case n of
        TYPE_NAME_ANY \<Rightarrow> True
      | TYPE_NAME_BOOL \<Rightarrow> (\<exists>b. v = ABool b)
      | TYPE_NAME_STRING \<Rightarrow> (\<exists>s. v = AString s)
      | TYPE_NAME_INT \<Rightarrow> (\<exists>w. v = AInt64 w)
      | TYPE_NAME_UINT \<Rightarrow> (\<exists>w. v = AUint64 w)
      | TYPE_NAME_DOUBLE \<Rightarrow> (\<exists>w. v = AFloat64 w)
      | TYPE_NAME_DURATION \<Rightarrow> (\<exists>d. v = ADuration d)
      | TYPE_NAME_TIMESTAMP \<Rightarrow> (\<exists>d. v = ATime d)
      | TYPE_NAME_IPADDRESS \<Rightarrow> (\<exists>a. v = AIPAddress a)
      | _ \<Rightarrow> False)"

lemma convert_fields_Inr:
  "convert_fields conv kvs = Inr cs \<Longrightarrow> list_all2 (\<lambda>(k, x) (k', y). k' = k \<and> conv x = Inr y) kvs cs"
  by (induction conv kvs arbitrary: cs rule: convert_fields.induct) (auto split: sum.splits)

lemma convert_items_Inr: "convert_items conv i xs = Inr cs \<Longrightarrow> list_all2 (\<lambda>x y. conv x = Inr y) xs cs"
  by (induction conv i xs arbitrary: cs rule: convert_items.induct) (auto split: sum.splits)

lemma list_all2_right: "list_all2 P xs ys \<Longrightarrow> y \<in> set ys \<Longrightarrow> \<exists>x \<in> set xs. P x y"
  by (induction xs ys rule: list_all2_induct) auto

lemma numericTypeConverterFunc_typed:
  "numericTypeConverterFunc lib Numeric_int64 v = Inr r \<Longrightarrow> \<exists>w. r = AInt64 w"
  "numericTypeConverterFunc lib Numeric_uint64 v = Inr r \<Longrightarrow> \<exists>w. r = AUint64 w"
  "numericTypeConverterFunc lib Numeric_float64 v = Inr r \<Longrightarrow> \<exists>w. r = AFloat64 w"
  by (cases v; auto simp: numericTypeConverterFunc_def split: sum.splits if_splits option.splits)+

lemmas scalar_converters =
  boolTypeConverterFunc_def stringTypeConverterFunc_def anyTypeConverterFunc_def durationTypeConverterFunc_def
  timestampTypeConverterFunc_def ipaddressTypeConverterFunc_def

lemma ConvertValue_scalar_typed:
  assumes "n \<notin> {TYPE_NAME_MAP, TYPE_NAME_LIST} \<or> gs = []" and "ConvertValue lib (ParameterType n gs) v = Inr r"
  shows "has_type (ParameterType n gs) r"
  using assms
  by (cases n; cases gs)
    (auto simp: scalar_converters split: any_value.splits option.splits dest: numericTypeConverterFunc_typed)

lemma ConvertValue_typed: "ConvertValue lib t v = Inr r \<Longrightarrow> has_type t r"
proof (induction t arbitrary: v r)
  case (ParameterType n gs)
  consider g gs' where "gs = g # gs'" "n = TYPE_NAME_MAP" | g gs' where "gs = g # gs'" "n = TYPE_NAME_LIST"
    | "n \<notin> {TYPE_NAME_MAP, TYPE_NAME_LIST} \<or> gs = []" by (cases gs) auto
  then show ?case
  proof cases
    case 1
    with ParameterType.prems obtain kvs cs where "r = AMap cs" and "convert_fields (ConvertValue lib g) kvs = Inr cs"
      by (auto simp: mapTypeConverterFunc_def split: any_value.splits sum.splits)
    moreover have "has_type g x" if "(k, x) \<in> set cs" for k x
      using list_all2_right [OF convert_fields_Inr [OF calculation(2)] that] ParameterType.IH [of g] 1 by auto
    ultimately show ?thesis using 1 by auto
  next
    case 2
    with ParameterType.prems obtain xs cs where "r = AList cs" and "convert_items (ConvertValue lib g) 0 xs = Inr cs"
      by (auto simp: listTypeConverterFunc_def split: any_value.splits sum.splits)
    moreover have "has_type g x" if "x \<in> set cs" for x
      using list_all2_right [OF convert_items_Inr [OF calculation(2)] that] ParameterType.IH [of g] 2 by auto
    ultimately show ?thesis using 2 by auto
  next
    case 3
    with ParameterType.prems show ?thesis using ConvertValue_scalar_typed by blast
  qed
qed

text \<open>What a converted parameter is: the value of the context, converted to the declared type.\<close>

definition converts_to :: "value_library \<Rightarrow> pbstruct \<Rightarrow> string \<times> param_type_ref \<Rightarrow> any_value \<Rightarrow> bool" where
  "converts_to lib ctx p r \<longleftrightarrow> (\<exists>v t. map_of ctx (fst p) = Some v \<and> DecodeParameterType (snd p) = Inr t
     \<and> ConvertValue lib t (AsInterface lib v) = Inr r \<and> has_type t r)"

lemma cast_loop_other: "cast_loop lib ctx ps acc = Inr out \<Longrightarrow> k \<notin> fst ` set ps \<Longrightarrow> map_of out k = map_of acc k"
  by (induction lib ctx ps acc rule: cast_loop.induct)
    (auto simp: update_conv split: option.splits sum.splits)

lemma cast_loop_Inr:
  assumes "cast_loop lib ctx ps acc = Inr out" and "distinct (map fst ps)" and "(k, ref) \<in> set ps" and "map_of acc k = None"
  shows "rel_option (\<lambda>v r. converts_to lib ctx (k, ref) r) (map_of ctx k) (map_of out k)"
  using assms
proof (induction lib ctx ps acc rule: cast_loop.induct)
  case (2 lib ctx key ref' rest acc)
  show ?case
  proof (cases "map_of ctx key")
    case None
    then have run: "cast_loop lib ctx rest acc = Inr out" using "2.prems" by simp
    show ?thesis
    proof (cases "k = key")
      case True
      then have "k \<notin> fst ` set rest" using "2.prems"(2) by simp
      from cast_loop_other [OF run this] True None "2.prems"(4) show ?thesis by simp
    next
      case False
      with "2.prems" have "(k, ref) \<in> set rest" "distinct (map fst rest)" by auto
      with "2.IH"(1) [OF None run] "2.prems"(4) show ?thesis by simp
    qed
  next
    case (Some v)
    then obtain t r where t: "DecodeParameterType ref' = Inr t" "ConvertValue lib t (AsInterface lib v) = Inr r"
      and run: "cast_loop lib ctx rest (AList.update key r acc) = Inr out"
      using "2.prems"(1) by (auto split: sum.splits)
    show ?thesis
    proof (cases "k = key")
      case True
      with "2.prems" have [simp]: "ref' = ref" and "k \<notin> fst ` set rest" by (auto intro: rev_image_eqI)
      from cast_loop_other [OF run this(2)] True have "map_of out k = Some r" by (simp add: update_conv)
      with Some True t ConvertValue_typed [OF t(2)] show ?thesis by (auto simp: converts_to_def)
    next
      case False
      with "2.prems" have "(k, ref) \<in> set rest" "distinct (map fst rest)" by auto
      with "2.IH"(2) [OF Some t run] "2.prems"(4) False show ?thesis by (simp add: update_conv)
    qed
  qed
qed simp

text \<open>The typed parameters of a context: the declared parameters with a value in the context, converted.\<close>

lemma CastContextToTypedParameters_Inr:
  assumes "CastContextToTypedParameters lib c ctx = Inr ps" and "distinct (map fst (cond_parameters c))"
  shows "k \<notin> fst ` set (cond_parameters c) \<Longrightarrow> map_of ps k = None"
    and "(k, ref) \<in> set (cond_parameters c) \<Longrightarrow> rel_option (\<lambda>v r. converts_to lib ctx (k, ref) r) (map_of ctx k) (map_of ps k)"
proof -
  consider "ctx = []" "ps = []" | "ctx \<noteq> []" "cast_loop lib ctx (cond_parameters c) [] = Inr ps"
    using assms(1) by (auto simp: CastContextToTypedParameters_def split: if_splits sum.splits)
  then show "k \<notin> fst ` set (cond_parameters c) \<Longrightarrow> map_of ps k = None"
    and "(k, ref) \<in> set (cond_parameters c) \<Longrightarrow> rel_option (\<lambda>v r. converts_to lib ctx (k, ref) r) (map_of ctx k) (map_of ps k)"
    by (cases; use cast_loop_other cast_loop_Inr assms(2) in fastforce)+
qed

section \<open>Evaluation\<close>

lemma map_of_maps_Copy: "distinct (map fst src) \<Longrightarrow> map_of (maps_Copy dst src) = map_of dst ++ map_of src"
proof (induction src arbitrary: dst)
  case (Cons p src)
  obtain k v where [simp]: "p = (k, v)" by (cases p)
  have "maps_Copy dst (p # src) = maps_Copy (AList.update k v dst) src" by (simp add: maps_Copy_def)
  with Cons have "map_of (maps_Copy dst (p # src)) = map_of (AList.update k v dst) ++ map_of src" by simp
  also have "\<dots> = map_of dst ++ map_of (p # src)"
  proof
    fix x
    have "k \<notin> dom (map_of src)" using Cons.prems by (simp add: dom_map_of_conv_image_fst)
    then show "(map_of (AList.update k v dst) ++ map_of src) x = (map_of dst ++ map_of (p # src)) x"
      by (auto simp: map_add_def update_conv domIff split: option.splits)
  qed
  finally show ?case .
qed (simp add: maps_Copy_def)

text \<open>A compiled condition holds the result of its compilation; every operation keeps this.\<close>

definition ec_ok :: "('env, 'ast, 'prg, 'act) cel_library \<Rightarrow> ('env, 'prg) evaluable_condition \<Rightarrow> bool" where
  "ec_ok cel e \<longleftrightarrow> ec_compiled e =
     (if ec_compile_once e then case compile cel (ec_condition e) of Inl _ \<Rightarrow> None | Inr ep \<Rightarrow> Some ep else None)"

lemma ec_ok_NewUncompiled [simp]: "ec_ok cel (NewUncompiled c)"
  by (simp add: ec_ok_def NewUncompiled_def)

lemma Compile_cases:
  assumes "ec_ok cel e" and "compile cel (ec_condition e) = Inr (env, prg)"
  shows "Compile cel e = (None, e\<lparr>ec_compile_once := True, ec_compiled := Some (env, prg)\<rparr>)"
  using assms by (cases e) (auto simp: Compile_def ec_ok_def)

lemma Compile_state:
  "Compile cel e = (r, e') \<Longrightarrow> ec_ok cel e \<Longrightarrow> ec_ok cel e' \<and> ec_condition e' = ec_condition e \<and> ec_compile_once e'"
  by (auto simp: Compile_def ec_ok_def split: if_splits sum.splits)

lemma Evaluate_state:
  "ec_ok cel e \<Longrightarrow> ec_ok cel (snd (Evaluate lib cel e maps)) \<and> ec_condition (snd (Evaluate lib cel e maps)) = ec_condition e"
  by (auto simp: Evaluate_def Let_def split: option.splits prod.splits dest: Compile_state)

text \<open>A condition that fails to compile reports so once; the next evaluation panics on the missing program.\<close>

lemma Evaluate_after_failed_compile:
  assumes "compile cel c = Inl cause"
  obtains e where "Evaluate lib cel (NewUncompiled c) maps
      = (Inl (EvaluationError (cond_name c) (CompileFailed (CompilationError (cond_name c) cause))), e)"
    and "fst (Evaluate lib cel e [[]]) = Inl (EvaluationError (cond_name c) NilProgramPanic)"
  using that [of "\<lparr>ec_condition = c, ec_compile_once = True, ec_compiled = None\<rparr>"] assms
  by (simp add: Evaluate_def Compile_def NewUncompiled_def merge_contexts_def CastContextToTypedParameters_def)

lemma Evaluate_Inr_iff:
  assumes "ec_ok cel e"
  shows "fst (Evaluate lib cel e maps) = Inr res \<longleftrightarrow>
    (\<exists>env prg ps. compile cel (ec_condition e) = Inr (env, prg)
       \<and> CastContextToTypedParameters lib (ec_condition e) (merge_contexts maps) = Inr ps
       \<and> eval_compiled cel (ec_condition e) env prg ps = Inr res)"
proof (cases "compile cel (ec_condition e)")
  case (Inl cause)
  with assms show ?thesis by (auto simp: Evaluate_def Compile_def ec_ok_def Let_def split: sum.splits)
next
  case (Inr ep)
  then obtain env prg where "compile cel (ec_condition e) = Inr (env, prg)" by (cases ep) auto
  with assms show ?thesis by (auto simp: Evaluate_def Compile_cases Let_def split: sum.splits)
qed

lemma eval_compiled_met:
  assumes "\<And>env vars act k. PartialVars cel env vars = Inr act \<Longrightarrow> ResolveName cel act k \<longleftrightarrow> k \<in> fst ` set vars"
  shows "(\<exists>res. eval_compiled cel c env prg ps = Inr res \<and> er_missing res = [] \<and> er_condition_met res) \<longleftrightarrow>
    (\<exists>act cost. PartialVars cel env ps = Inr act \<and> ContextEval cel prg act = Inr (CelBool True, cost)
       \<and> fst ` set (cond_parameters c) \<subseteq> fst ` set ps)"
  by (auto simp: eval_compiled_def Let_def filter_empty_conv assms split: sum.splits prod.splits cel_value.splits)

lemma Cast_covers_iff:
  assumes "CastContextToTypedParameters lib c ctx = Inr ps" and "distinct (map fst (cond_parameters c))"
  shows "fst ` set (cond_parameters c) \<subseteq> fst ` set ps \<longleftrightarrow> fst ` set (cond_parameters c) \<subseteq> dom (map_of ctx)"
proof -
  have "fst p \<in> dom (map_of ps) \<longleftrightarrow> fst p \<in> dom (map_of ctx)" if "p \<in> set (cond_parameters c)" for p
    using CastContextToTypedParameters_Inr(2) [OF assms, of "fst p" "snd p"] that
    by (cases "map_of ctx (fst p)"; cases "map_of ps (fst p)") auto
  then show ?thesis by (simp add: image_subset_iff dom_map_of_conv_image_fst)
qed

text \<open>The context a tuple is evaluated in: the request's fields, overridden by the tuple's.\<close>

definition tuple_context :: "tuple_key \<Rightarrow> pbstruct option \<Rightarrow> pbstruct list" where
  "tuple_context tk ctx = (case ctx of None \<Rightarrow> [[]] | Some c \<Rightarrow> [c])
     @ (case get_condition_context (tk_condition tk) of None \<Rightarrow> [] | Some tc \<Rightarrow> [tc])"

lemma map_of_tuple_context:
  assumes "\<forall>tc. get_condition_context (tk_condition tk) = Some tc \<longrightarrow> distinct (map fst tc)"
  shows "map_of (merge_contexts (tuple_context tk ctx)) = map_of (case ctx of None \<Rightarrow> [] | Some c \<Rightarrow> c)
    ++ map_of (case get_condition_context (tk_condition tk) of None \<Rightarrow> [] | Some tc \<Rightarrow> tc)"
  using assms by (cases ctx) (auto simp: tuple_context_def merge_contexts_def map_of_maps_Copy split: option.splits)

lemma EvaluateTupleCondition_Inr_iff:
  "fst (EvaluateTupleCondition lib cel tk (Some e) ctx) = Inr True \<longleftrightarrow> get_condition_name (tk_condition tk) = '''' \<or>
    (get_condition_name (tk_condition tk) = cond_name (ec_condition e)
     \<and> (\<exists>res. fst (Evaluate lib cel e (tuple_context tk ctx)) = Inr res \<and> er_missing res = [] \<and> er_condition_met res))"
proof -
  have ctx: "(case get_condition_context (tk_condition tk) of None \<Rightarrow> case ctx of None \<Rightarrow> [[]] | Some c \<Rightarrow> [c]
      | Some tc \<Rightarrow> (case ctx of None \<Rightarrow> [[]] | Some c \<Rightarrow> [c]) @ [tc]) = tuple_context tk ctx"
    by (simp add: tuple_context_def split: option.split)
  show ?thesis
    by (cases "Evaluate lib cel e (tuple_context tk ctx)")
      (auto simp: EvaluateTupleCondition_def Let_def ctx split: sum.splits)
qed

section \<open>Properties\<close>

text \<open>
  C14: the typed parameters of a context are exactly the declared parameters to which the context gives
  a value; each is the context's value converted to the declared type, and has that type.  Fields of
  the context that are not declared are dropped.
\<close>

theorem CastContextToTypedParameters_typed:
  assumes "CastContextToTypedParameters lib c ctx = Inr ps" and "distinct (map fst (cond_parameters c))"
  shows "dom (map_of ps) = dom (map_of ctx) \<inter> fst ` set (cond_parameters c)
    \<and> (\<forall>k r. map_of ps k = Some r \<longrightarrow> (\<exists>ref v t. (k, ref) \<in> set (cond_parameters c) \<and> map_of ctx k = Some v
         \<and> DecodeParameterType ref = Inr t \<and> ConvertValue lib t (AsInterface lib v) = Inr r \<and> has_type t r))"
proof -
  have decl: "\<exists>ref. (k, ref) \<in> set (cond_parameters c)" if "map_of ps k \<noteq> None" for k
    using CastContextToTypedParameters_Inr(1) [OF assms, of k] that by force
  have conv: "\<exists>v. map_of ctx k = Some v \<and> converts_to lib ctx (k, ref) r"
    if "map_of ps k = Some r" "(k, ref) \<in> set (cond_parameters c)" for k r ref
    using CastContextToTypedParameters_Inr(2) [OF assms that(2)] that(1) by (auto simp: option_rel_Some2)
  have "k \<in> dom (map_of ps)" if "map_of ctx k = Some v" "(k, ref) \<in> set (cond_parameters c)" for k v ref
    using CastContextToTypedParameters_Inr(2) [OF assms that(2)] that(1) by (auto simp: option_rel_Some1)
  then have "dom (map_of ctx) \<inter> fst ` set (cond_parameters c) \<subseteq> dom (map_of ps)" by force
  moreover have "k \<in> dom (map_of ctx) \<inter> fst ` set (cond_parameters c)" if "map_of ps k = Some r" for k r
  proof -
    obtain ref where ref: "(k, ref) \<in> set (cond_parameters c)" using decl [of k] \<open>map_of ps k = Some r\<close> by auto
    with conv [OF that ref] show ?thesis by (force intro: rev_image_eqI)
  qed
  moreover have "\<exists>ref v t. (k, ref) \<in> set (cond_parameters c) \<and> map_of ctx k = Some v
      \<and> DecodeParameterType ref = Inr t \<and> ConvertValue lib t (AsInterface lib v) = Inr r \<and> has_type t r"
    if "map_of ps k = Some r" for k r
  proof -
    obtain ref where ref: "(k, ref) \<in> set (cond_parameters c)" using decl [of k] \<open>map_of ps k = Some r\<close> by auto
    with conv [OF that ref] show ?thesis by (auto simp: converts_to_def)
  qed
  ultimately show ?thesis by blast
qed

text \<open>A library that knows strings and one number, and a condition with two parameters.\<close>

definition sample_values :: value_library where
  "sample_values = \<lparr>AsInterface = (\<lambda>v. case v of VString s \<Rightarrow> AString s | VBool b \<Rightarrow> ABool b | _ \<Rightarrow> ANil),
     ParseFloat = (\<lambda>s. if s = ''18446744073709551615'' then Some (BigFin False 18446744073709551615 0) else None),
     ParseDuration = (\<lambda>_. None), ParseTime = (\<lambda>_. None), ParseAddr = (\<lambda>_. None), ParsePrefix = (\<lambda>_. None)\<rparr>"

definition sample_condition :: condition_def where
  "sample_condition = \<lparr>cond_name = ''c'', cond_expression = ''x || y'',
     cond_parameters = [(''x'', ParamTypeRef TYPE_NAME_BOOL []), (''y'', ParamTypeRef TYPE_NAME_BOOL [])]\<rparr>"

theorem CastContextToTypedParameters_typed_witness:
  "dom (map_of [(''x'', ABool True)]) = dom (map_of [(''x'', VBool True), (''z'', VBool True)]) \<inter> {''x'', ''y''}"
proof -
  have "CastContextToTypedParameters sample_values sample_condition [(''x'', VBool True), (''z'', VBool True)]
      = Inr [(''x'', ABool True)]"
    "distinct (map fst (cond_parameters sample_condition))" by code_simp+
  from CastContextToTypedParameters_typed [OF this] show ?thesis by (simp add: sample_condition_def)
qed

lemma sint_Int64: "sint (Int64 f) = clamp_int64 (truncated f)"
proof -
  have "- (2 ^ 63) \<le> clamp_int64 (truncated f)" "clamp_int64 (truncated f) < 2 ^ 63"
    by (simp_all add: clamp_int64_def min_int64_def max_int64_def)
  then show ?thesis by (simp add: Int64_def signed_of_int signed_take_bit_int_eq_self)
qed

lemma uint_of_nonneg_sint: "0 \<le> sint (w :: 64 word) \<Longrightarrow> uint w = sint w"
  using sint_lt [of w] by (simp add: uint_sint take_bit_int_eq_self)

text \<open>
  A number given as text is converted to an integer parameter without a range check: an integer
  outside the range of a signed 64-bit number is replaced by the nearest one inside, also for an
  unsigned parameter, whose values from \<open>2 ^ 63\<close> on are lost.
\<close>

lemma numericTypeConverterFunc_clamps:
  assumes "ParseFloat lib s = Some f" and "IsInt f"
  shows "(\<exists>w. numericTypeConverterFunc lib Numeric_int64 (AString s) = Inr (AInt64 w)
             \<and> sint w = max (- (2 ^ 63)) (min (2 ^ 63 - 1) (truncated f)))
    \<and> (if truncated f < 0 then numericTypeConverterFunc lib Numeric_uint64 (AString s) = Inl NegativeUint
       else \<exists>w. numericTypeConverterFunc lib Numeric_uint64 (AString s) = Inr (AUint64 w)
             \<and> uint w = min (2 ^ 63 - 1) (truncated f))"
proof -
  have "sint (Int64 f) = max (- (2 ^ 63)) (min (2 ^ 63 - 1) (truncated f))"
    by (simp add: sint_Int64 clamp_int64_def min_int64_def max_int64_def)
  with uint_of_nonneg_sint [of "Int64 f"] assms show ?thesis
    by (auto simp: numericTypeConverterFunc_def numeric_big_float_def word_sless_alt min_def max_def split: if_splits)
qed

text \<open>
  C13: the condition of a tuple is met exactly if the tuple has none, or it names the given condition,
  the condition compiles, every declared parameter has a value in the request's context or in the
  tuple's, the tuple's taking precedence, the values convert to their types and the program yields
  true on them.
\<close>

theorem EvaluateTupleCondition_met:
  assumes resolve: "\<And>env vars act k. PartialVars cel env vars = Inr act \<Longrightarrow> ResolveName cel act k \<longleftrightarrow> k \<in> fst ` set vars"
    and "ec_ok cel e" and "distinct (map fst (cond_parameters (ec_condition e)))"
    and "\<forall>tc. get_condition_context (tk_condition tk) = Some tc \<longrightarrow> distinct (map fst tc)"
  shows "map_of (merge_contexts (tuple_context tk ctx)) = map_of (case ctx of None \<Rightarrow> [] | Some c \<Rightarrow> c)
      ++ map_of (case get_condition_context (tk_condition tk) of None \<Rightarrow> [] | Some tc \<Rightarrow> tc)
    \<and> (fst (EvaluateTupleCondition lib cel tk (Some e) ctx) = Inr True \<longleftrightarrow> get_condition_name (tk_condition tk) = '''' \<or>
      (get_condition_name (tk_condition tk) = cond_name (ec_condition e) \<and>
       (\<exists>env prg ps act cost. compile cel (ec_condition e) = Inr (env, prg)
          \<and> CastContextToTypedParameters lib (ec_condition e) (merge_contexts (tuple_context tk ctx)) = Inr ps
          \<and> fst ` set (cond_parameters (ec_condition e)) \<subseteq> dom (map_of (merge_contexts (tuple_context tk ctx)))
          \<and> PartialVars cel env ps = Inr act \<and> ContextEval cel prg act = Inr (CelBool True, cost))))"
proof -
  let ?merged = "merge_contexts (tuple_context tk ctx)" and ?c = "ec_condition e"
  have "(\<exists>res. fst (Evaluate lib cel e (tuple_context tk ctx)) = Inr res \<and> er_missing res = [] \<and> er_condition_met res)
      \<longleftrightarrow> (\<exists>env prg ps. compile cel ?c = Inr (env, prg) \<and> CastContextToTypedParameters lib ?c ?merged = Inr ps
            \<and> (\<exists>res. eval_compiled cel ?c env prg ps = Inr res \<and> er_missing res = [] \<and> er_condition_met res))"
    unfolding Evaluate_Inr_iff [OF assms(2)] by blast
  also have "\<dots> \<longleftrightarrow> (\<exists>env prg ps. compile cel ?c = Inr (env, prg) \<and> CastContextToTypedParameters lib ?c ?merged = Inr ps
        \<and> (\<exists>act cost. PartialVars cel env ps = Inr act \<and> ContextEval cel prg act = Inr (CelBool True, cost)
             \<and> fst ` set (cond_parameters ?c) \<subseteq> dom (map_of ?merged)))"
    by (intro ex_cong1 conj_cong refl) (simp only: eval_compiled_met [OF resolve] Cast_covers_iff [OF _ assms(3)])
  finally have evals: "(\<exists>res. fst (Evaluate lib cel e (tuple_context tk ctx)) = Inr res \<and> er_missing res = [] \<and> er_condition_met res)
    \<longleftrightarrow> (\<exists>env prg ps act cost. compile cel ?c = Inr (env, prg) \<and> CastContextToTypedParameters lib ?c ?merged = Inr ps
        \<and> fst ` set (cond_parameters ?c) \<subseteq> dom (map_of ?merged)
        \<and> PartialVars cel env ps = Inr act \<and> ContextEval cel prg act = Inr (CelBool True, cost))" by blast
  show ?thesis
    unfolding EvaluateTupleCondition_Inr_iff evals using map_of_tuple_context [OF assms(4)] by simp
qed

text \<open>An expression language with one program: the conjunction of its variables.\<close>

definition sample_cel :: "(unit, unit, unit, (string \<times> any_value) list) cel_library" where
  "sample_cel = \<lparr>Extend = (\<lambda>_. Inr ()), CompileSource = (\<lambda>_ _ _. Inr ()), Program = (\<lambda>_ _. Inr ()),
     OutputType = (\<lambda>_. CelBoolType), PartialVars = (\<lambda>_ vars. Inr vars),
     ResolveName = (\<lambda>act k. k \<in> fst ` set act),
     ContextEval = (\<lambda>_ act. Inr (if list_all (\<lambda>(_, v). v = ABool True) act then CelBool True else CelBool False, None))\<rparr>"

definition sample_tuple :: tuple_key where
  "sample_tuple = \<lparr>tk_object = ''doc:1'', tk_relation = ''viewer'', tk_user = ''user:anne'',
     tk_condition = Some \<lparr>rc_name = ''c'', rc_context = Some [(''y'', VBool True)]\<rparr>\<rparr>"

theorem EvaluateTupleCondition_met_witness:
  "fst (EvaluateTupleCondition sample_values sample_cel sample_tuple (Some (NewUncompiled sample_condition))
     (Some [(''x'', VBool True), (''y'', VBool False)])) = Inr True"
proof -
  let ?ctx = "Some [(''x'', VBool True), (''y'', VBool False)]"
  have c: "ec_condition (NewUncompiled sample_condition) = sample_condition" by (simp add: NewUncompiled_def)
  have m: "merge_contexts (tuple_context sample_tuple ?ctx) = [(''x'', VBool True), (''y'', VBool True)]" by code_simp
  have facts: "CastContextToTypedParameters sample_values sample_condition [(''x'', VBool True), (''y'', VBool True)]
       = Inr [(''x'', ABool True), (''y'', ABool True)]"
    "compile sample_cel sample_condition = Inr ((), ())"
    "ContextEval sample_cel () [(''x'', ABool True), (''y'', ABool True)] = Inr (CelBool True, None)"
    "PartialVars sample_cel () [(''x'', ABool True), (''y'', ABool True)] = Inr [(''x'', ABool True), (''y'', ABool True)]"
    "get_condition_name (tk_condition sample_tuple) = cond_name sample_condition"
    "map fst (cond_parameters sample_condition) = [''x'', ''y'']"
    "get_condition_context (tk_condition sample_tuple) = Some [(''y'', VBool True)]"
    by code_simp+
  have "fst ` set (cond_parameters sample_condition) \<subseteq> dom (map_of [(''x'', VBool True), (''y'', VBool True)])"
    unfolding set_map [symmetric] facts by simp
  moreover have "PartialVars sample_cel env vars = Inr act \<Longrightarrow> ResolveName sample_cel act k \<longleftrightarrow> k \<in> fst ` set vars"
    for env vars act k by (simp add: sample_cel_def)
  ultimately show ?thesis
    using EvaluateTupleCondition_met [of sample_cel "NewUncompiled sample_condition" sample_tuple ?ctx sample_values]
    unfolding c m facts(6,7) by (simp add: facts)
qed

end
