(* ===== verification/Validation.thy ===== *)
theory Validation
  imports TypeSystemProps Conditions
begin

text \<open>
  Validation of relationship tuples against a model: \<open>src/internal/validation/validation.go\<close>,
  \<open>src/internal/validation/validate.go\<close> and \<open>src/internal/utils/sanitize.go\<close>, with the errors of
  \<open>src/pkg/tuple/tuple_errors.go\<close>.
\<close>

section \<open>Errors\<close>

datatype tuple_cause =
    UserMalformed
  | UserNotObjectOrUserset
  | TypeNotFoundError string
  | RelationNotFoundError string string
  | InvalidObjectFormat
  | ObjectIsTypedWildcard
  | RelationMalformed
  | TypesystemCause ts_error
  | UnexpectedTuplesetRewrite string string
  | UnexpectedTuplesetWildcard string string
  | UnexpectedTuplesetUser string string string
  | TypeDoesNotExist string
  | UsersetNotAllowed string string string string
  | TypedWildcardNotAllowed string string string
  | TypeNotAllowed string string string
  | ImplicitTuple
  | ContextSizeExceeded int int

datatype condition_cause =
    ConditionMissing
  | ConditionNameForbidden
  | UndefinedCondition
  | InvalidConditionForRestriction
  | ContextForbidden string
  | ContextCastError parameter_type_error
  | InvalidContextParameter string

datatype tuple_error =
    InvalidTupleError tuple_cause tuple_key
  | InvalidConditionalTupleError condition_cause tuple_key
  | TypesystemError ts_error

section \<open>Forbidden characters\<close>

definition ContainsForbiddenChars :: "string \<Rightarrow> bool" where
  "ContainsForbiddenChars s = has_control s"

fun validateValueForbiddenChars :: "pbvalue \<Rightarrow> condition_cause option" where
  "validateValueForbiddenChars (VString s) = (if ContainsForbiddenChars s then Some (ContextForbidden s) else None)"
| "validateValueForbiddenChars (VList items) = first_err validateValueForbiddenChars items"
| "validateValueForbiddenChars (VStruct kvs) = first_err (\<lambda>kv.
     if ContainsForbiddenChars (fst kv) then Some (ContextForbidden (fst kv))
     else validateValueForbiddenChars (snd kv)) kvs"
| "validateValueForbiddenChars _ = None"

definition ValidateStruct :: "pbstruct option \<Rightarrow> condition_cause option" where
  "ValidateStruct s =
     (case s of
        None \<Rightarrow> None
      | Some kvs \<Rightarrow> first_err (\<lambda>kv.
          if ContainsForbiddenChars (fst kv) then Some (ContextForbidden (fst kv))
          else validateValueForbiddenChars (snd kv)) kvs)"

section \<open>User, object and relation\<close>

definition ValidateUser :: "type_system \<Rightarrow> string \<Rightarrow> tuple_cause option" where
  "ValidateUser typesys user =
     (if \<not> IsValidUser user then Some UserMalformed
      else
        (let isValidObject = IsValidObject user;
             isValidUserset = IsObjectRelation user;
             (userObject, userRelation) = SplitObjectRelation user;
             userObjectType = GetType userObject;
             supported = IsSchemaVersionSupported (ts_schema_version typesys) in
         if supported \<and> \<not> isValidObject \<and> \<not> isValidUserset then Some UserNotObjectOrUserset
         else if supported \<and> GetTypeDefinition typesys userObjectType = None then Some (TypeNotFoundError userObjectType)
         else if isValidUserset then
           (case TypeSystem.GetRelation typesys userObjectType userRelation of
              Inl (ObjectTypeUndefinedError _) \<Rightarrow> Some (TypeNotFoundError userObjectType)
            | Inl (RelationUndefinedError _ _) \<Rightarrow> Some (RelationNotFoundError userRelation userObjectType)
            | _ \<Rightarrow> None)
         else None))"

definition ValidateObject :: "type_system \<Rightarrow> tuple_key \<Rightarrow> tuple_cause option" where
  "ValidateObject typesys tk =
     (let object = tk_object tk in
      if \<not> IsValidObject object then Some InvalidObjectFormat
      else
        (let (objectType, identifier) = SplitObject object in
         if identifier = Wildcard then Some ObjectIsTypedWildcard
         else if GetTypeDefinition typesys objectType = None then Some (TypeNotFoundError objectType)
         else None))"

definition ValidateRelation :: "type_system \<Rightarrow> tuple_key \<Rightarrow> tuple_cause option" where
  "ValidateRelation typesys tk =
     (let relation = tk_relation tk; objectType = GetType (tk_object tk) in
      if \<not> IsValidRelation relation then Some RelationMalformed
      else (case TypeSystem.GetRelation typesys objectType relation of
              Inl (ObjectTypeUndefinedError _) \<Rightarrow> Some (TypeNotFoundError objectType)
            | Inl (RelationUndefinedError _ _) \<Rightarrow> Some (RelationNotFoundError relation objectType)
            | Inl e \<Rightarrow> Some (TypesystemCause e)
            | Inr _ \<Rightarrow> None))"

definition ValidateUserObjectRelation :: "type_system \<Rightarrow> tuple_key \<Rightarrow> tuple_cause option" where
  "ValidateUserObjectRelation typesys tk =
     (case ValidateUser typesys (tk_user tk) of
        Some e \<Rightarrow> Some e
      | None \<Rightarrow> (case ValidateObject typesys tk of Some e \<Rightarrow> Some e | None \<Rightarrow> ValidateRelation typesys tk))"

section \<open>Restrictions of the model\<close>

definition validateTuplesetRestrictions :: "type_system \<Rightarrow> tuple_key \<Rightarrow> tuple_cause option" where
  "validateTuplesetRestrictions typesys tk =
     (let objectType = GetType (tk_object tk); relation = tk_relation tk; user = tk_user tk in
      case IsTuplesetRelation typesys objectType relation of
        Inl e \<Rightarrow> Some (TypesystemCause e)
      | Inr isTupleset \<Rightarrow>
          if \<not> isTupleset then None
          else (case TypeSystem.GetRelation typesys objectType relation of
                  Inl e \<Rightarrow> Some (TypesystemCause e)
                | Inr rel \<Rightarrow>
                    if rel_rewrite rel \<noteq> Userset_Nil \<and> rel_rewrite rel \<noteq> This then
                      Some (UnexpectedTuplesetRewrite objectType relation)
                    else if IsWildcard user then Some (UnexpectedTuplesetWildcard objectType relation)
                    else if \<not> IsValidObject user then Some (UnexpectedTuplesetUser user objectType relation)
                    else None))"

definition relation_information :: "type_definition \<Rightarrow> string \<Rightarrow> relation_reference list" where
  "relation_information td relation = (case td_metadata td relation of None \<Rightarrow> [] | Some refs \<Rightarrow> refs)"

definition validateTypeRestrictions :: "type_system \<Rightarrow> tuple_key \<Rightarrow> tuple_cause option" where
  "validateTypeRestrictions typesys tk =
     (let objectType = GetType (tk_object tk);
          (userObject, userRel) = SplitObjectRelation (tk_user tk);
          (userType, _) = SplitObject userObject;
          user = tk_user tk in
      case GetTypeDefinition typesys objectType of
        None \<Rightarrow> Some (TypeDoesNotExist objectType)
      | Some typeDefinitionForObject \<Rightarrow>
          (let related = relation_information typeDefinitionForObject (tk_relation tk) in
           if IsObjectRelation user then
             (if \<exists>rr \<in> set related. rr_type rr = userType \<and> rr_relation rr = userRel then None
              else Some (UsersetNotAllowed userType userRel objectType (tk_relation tk)))
           else if IsTypedWildcard user then
             (if \<exists>rr \<in> set related. rr_type rr = userType \<and> rr_is_wildcard rr then None
              else Some (TypedWildcardNotAllowed user objectType (tk_relation tk)))
           else if \<exists>rr \<in> set related. rr_type rr = userType \<and> \<not> rr_is_wildcard rr \<and> rr_relation rr = '''' then None
           else Some (TypeNotAllowed userType objectType (tk_relation tk))))"

text \<open>The restrictions that let a tuple without a condition pass.\<close>

definition unconditional_restriction :: "tuple_key \<Rightarrow> relation_reference \<Rightarrow> bool" where
  "unconditional_restriction tk rr \<longleftrightarrow>
     rr_condition rr = '''' \<and> rr_type rr = GetType (tk_user tk) \<and>
     (if rr_relation_or_wildcard rr \<noteq> None then
        \<not> (rr_relation rr \<noteq> '''' \<and> rr_relation rr \<noteq> Tuple.GetRelation (tk_user tk))
        \<and> \<not> (rr_is_wildcard rr \<and> \<not> IsTypedWildcard (tk_user tk))
      else \<not> IsTypedWildcard (tk_user tk))"

definition validateCondition :: "value_library \<Rightarrow> type_system \<Rightarrow> tuple_key \<Rightarrow> tuple_error option" where
  "validateCondition lib typesys tk =
     (case GetDirectlyRelatedUserTypes typesys (GetType (tk_object tk)) (tk_relation tk) of
        Inl e \<Rightarrow> Some (TypesystemError e)
      | Inr typeRestrictions \<Rightarrow>
          (case tk_condition tk of
             None \<Rightarrow>
               if \<exists>rr \<in> set typeRestrictions. unconditional_restriction tk rr then None
               else Some (InvalidConditionalTupleError ConditionMissing tk)
           | Some c \<Rightarrow>
               if ContainsForbiddenChars (rc_name c) then Some (InvalidConditionalTupleError ConditionNameForbidden tk)
               else
                 (case GetCondition typesys (rc_name c) of
                    None \<Rightarrow> Some (InvalidConditionalTupleError UndefinedCondition tk)
                  | Some cond \<Rightarrow>
                      if \<not> (\<exists>rr \<in> set typeRestrictions. rr_type rr = GetType (tk_user tk) \<and> rr_condition rr = rc_name c) then
                        Some (InvalidConditionalTupleError InvalidConditionForRestriction tk)
                      else
                        (case ValidateStruct (rc_context c) of
                           Some e \<Rightarrow> Some (InvalidConditionalTupleError e tk)
                         | None \<Rightarrow>
                             (let contextFieldMap = (case rc_context c of None \<Rightarrow> [] | Some m \<Rightarrow> m) in
                              case CastContextToTypedParameters lib cond contextFieldMap of
                                Inl e \<Rightarrow> Some (InvalidConditionalTupleError (ContextCastError e) tk)
                              | Inr typedParams \<Rightarrow> first_err (\<lambda>(key, _).
                                  if key \<notin> fst ` set typedParams then
                                    Some (InvalidConditionalTupleError (InvalidContextParameter key) tk)
                                  else None) contextFieldMap)))))"

definition ValidateTupleForRead :: "value_library \<Rightarrow> type_system \<Rightarrow> tuple_key \<Rightarrow> tuple_error option" where
  "ValidateTupleForRead lib typesys tk =
     (case validateTuplesetRestrictions typesys tk of
        Some e \<Rightarrow> Some (InvalidTupleError e tk)
      | None \<Rightarrow>
          (case HasTypeInfo typesys (GetType (tk_object tk)) (tk_relation tk) of
             Inl e \<Rightarrow> Some (TypesystemError e)
           | Inr hasTypeInfo \<Rightarrow>
               if hasTypeInfo then
                 (case validateTypeRestrictions typesys tk of
                    Some e \<Rightarrow> Some (InvalidTupleError e tk)
                  | None \<Rightarrow> validateCondition lib typesys tk)
               else None))"

definition ValidateTupleForWrite :: "value_library \<Rightarrow> type_system \<Rightarrow> tuple_key \<Rightarrow> tuple_error option" where
  "ValidateTupleForWrite lib typesys tk =
     (case ValidateUserObjectRelation typesys tk of
        Some e \<Rightarrow> Some (InvalidTupleError e tk)
      | None \<Rightarrow> ValidateTupleForRead lib typesys tk)"

definition FilterInvalidTuples :: "value_library \<Rightarrow> type_system \<Rightarrow> tuple_key \<Rightarrow> bool" where
  "FilterInvalidTuples lib typesys tupleKey = (ValidateTupleForRead lib typesys tupleKey = None)"

section \<open>Combined validators\<close>

text \<open>A validator returns a verdict and an error; \<open>None\<close> in the list is a \<open>nil\<close> entry.\<close>

type_synonym ('t, 'e) validator = "'t \<Rightarrow> bool \<times> 'e option"

definition MakeFallible :: "('t \<Rightarrow> bool) \<Rightarrow> ('t, 'e) validator" where
  "MakeFallible fn = (\<lambda>t. (fn t, None))"

fun CombineValidators :: "('t, 'e) validator option list \<Rightarrow> ('t, 'e) validator" where
  "CombineValidators [] v = (True, None)"
| "CombineValidators (None # vs) v = CombineValidators vs v"
| "CombineValidators (Some f # vs) v =
     (let (ok, err) = f v in if err \<noteq> None \<or> \<not> ok then (ok, err) else CombineValidators vs v)"

lemma CombineValidators_accepts_iff:
  "CombineValidators vs v = (True, None) \<longleftrightarrow> (\<forall>f. Some f \<in> set vs \<longrightarrow> f v = (True, None))"
proof (induction vs)
  case (Cons a vs)
  show ?case
  proof (cases a)
    case (Some f)
    obtain ok err where "f v = (ok, err)" by (cases "f v")
    with Some Cons show ?thesis by (cases "ok \<and> err = None") auto
  qed (simp add: Cons)
qed simp

section \<open>Who a tuple is about\<close>

text \<open>The user field of a tuple is an object, a typed wildcard or a userset.\<close>

datatype subject = Concrete string string | Public string | Members string string string

definition subject_of :: "string \<Rightarrow> subject option" where
  "subject_of user =
     (if IsValidUserset user then case ToUserParts user of (t, i, r) \<Rightarrow> Some (Members t i r)
      else if IsValidObject user then
        (case SplitObject user of (t, i) \<Rightarrow> Some (if i = Wildcard then Public t else Concrete t i))
      else None)"

fun subject_type :: "subject \<Rightarrow> string" where
  "subject_type (Concrete t i) = t"
| "subject_type (Public t) = t"
| "subject_type (Members t i r) = t"

text \<open>The type, and the relation of a userset, are defined.\<close>

definition subject_defined :: "type_system \<Rightarrow> subject \<Rightarrow> bool" where
  "subject_defined t s \<longleftrightarrow> GetTypeDefinition t (subject_type s) \<noteq> None
     \<and> (case s of Members ot _ r \<Rightarrow> \<exists>rel. TypeSystem.GetRelation t ot r = Inr rel | _ \<Rightarrow> True)"

text \<open>The restriction allows the subject: \<open>user\<close>, \<open>user:*\<close> and \<open>group#member\<close>.\<close>

fun admits :: "relation_reference \<Rightarrow> subject \<Rightarrow> bool" where
  "admits rr (Concrete t i) = (rr_type rr = t \<and> \<not> rr_is_wildcard rr \<and> rr_relation rr = '''')"
| "admits rr (Public t) = (rr_type rr = t \<and> rr_is_wildcard rr)"
| "admits rr (Members t i r) = (rr_type rr = t \<and> rr_relation rr = r)"

text \<open>
  What the check of the condition asks of a restriction: less than that it allows the subject, since a
  restriction to a plain type also counts for a userset of the type.
\<close>

definition condition_free :: "subject \<Rightarrow> relation_reference \<Rightarrow> bool" where
  "condition_free s rr \<longleftrightarrow> rr_condition rr = '''' \<and> rr_type rr = subject_type s \<and>
     (case rr_relation_or_wildcard rr of
        None \<Rightarrow> (case s of Public _ \<Rightarrow> False | _ \<Rightarrow> True)
      | Some RWildcard \<Rightarrow> (case s of Public _ \<Rightarrow> True | _ \<Rightarrow> False)
      | Some (RRelation q) \<Rightarrow> q = '''' \<or> (case s of Members _ _ r \<Rightarrow> q = r | _ \<Rightarrow> False))"

definition condition_admitted :: "value_library \<Rightarrow> type_system \<Rightarrow> relation_reference list \<Rightarrow> subject \<Rightarrow> rel_condition option \<Rightarrow> bool" where
  "condition_admitted lib t related s co \<longleftrightarrow>
     (case co of
        None \<Rightarrow> \<exists>rr \<in> set related. condition_free s rr
      | Some c \<Rightarrow> \<not> ContainsForbiddenChars (rc_name c) \<and> ValidateStruct (rc_context c) = None
          \<and> (\<exists>rr \<in> set related. rr_type rr = subject_type s \<and> rr_condition rr = rc_name c)
          \<and> (\<exists>cond ps. GetCondition t (rc_name c) = Some cond
               \<and> CastContextToTypedParameters lib cond (case rc_context c of None \<Rightarrow> [] | Some m \<Rightarrow> m) = Inr ps
               \<and> fst ` set (case rc_context c of None \<Rightarrow> [] | Some m \<Rightarrow> m) \<subseteq> fst ` set ps))"

section \<open>The checks on the parts of a tuple\<close>

lemma plain_part_Wildcard [simp]: "plain_part Wildcard"
  unfolding plain_part_runes Wildcard_def by code_simp

lemma userset_part_facts [simp]:
  assumes "userset_part s"
  shows "plain_part s" "s \<noteq> Wildcard"
  using assms by (auto simp: userset_part_def Wildcard_def)

lemma subject_of_None_iff: "subject_of u = None \<longleftrightarrow> \<not> IsValidUserset u \<and> \<not> IsValidObject u"
  by (auto simp: subject_of_def split: prod.splits)

lemma subject_cases:
  assumes "subject_of u = Some s"
  obtains (Concrete) t i where "s = Concrete t i" "u = t @ CHR '':'' # i" "plain_part t" "plain_part i" "i \<noteq> Wildcard"
  | (Public) t where "s = Public t" "u = t @ CHR '':'' # Wildcard" "plain_part t"
  | (Members) t i r where "s = Members t i r" "u = t @ CHR '':'' # i @ CHR ''#'' # r" "plain_part t" "userset_part i" "userset_part r"
proof (cases "IsValidUserset u")
  case True
  then obtain t i r where u: "u = t @ CHR '':'' # i @ CHR ''#'' # r" "plain_part t" "userset_part i" "userset_part r"
    by (auto simp: IsValidUserset_iff)
  then have "ToUserParts u = (t, i, r)"
    using SplitObjectRelation_append [of r "t @ CHR '':'' # i"] by (simp add: ToUserParts_def)
  with assms True u show ?thesis by (intro Members [of t i r]) (simp_all add: subject_of_def)
next
  case False
  with assms have "IsValidObject u" by (auto simp: subject_of_def split: if_splits)
  then obtain t i where "u = t @ CHR '':'' # i" "plain_part t" "plain_part i" by (auto simp: IsValidObject_iff)
  with assms False Concrete Public show ?thesis by (cases "i = Wildcard") (auto simp: subject_of_def split: if_splits)
qed

text \<open>How the code sees a subject.\<close>

definition subject_relation :: "subject \<Rightarrow> string" where
  "subject_relation s = (case s of Members _ _ r \<Rightarrow> r | _ \<Rightarrow> '''')"

lemma subject_user:
  assumes "subject_of u = Some s"
  shows "IsValidUser u" and "IsObjectRelation u \<longleftrightarrow> (\<exists>t i r. s = Members t i r)"
    and "IsValidObject u \<longleftrightarrow> \<not> (\<exists>t i r. s = Members t i r)" and "IsTypedWildcard u \<longleftrightarrow> (\<exists>t. s = Public t)"
    and "GetType u = subject_type s" and "Tuple.GetRelation u = subject_relation s"
    and "\<exists>obj. SplitObjectRelation u = (obj, subject_relation s) \<and> GetType obj = subject_type s"
proof -
  show "IsValidUser u" using assms by (auto simp: IsValidUser_def subject_of_def split: if_splits)
  show "GetType u = subject_type s"
    using assms by (cases rule: subject_cases) (simp_all add: GetType_def)
  show "IsTypedWildcard u \<longleftrightarrow> (\<exists>t. s = Public t)"
    using assms by (cases rule: subject_cases) (auto simp: IsTypedWildcard_def Wildcard_def append_eq_Cons_conv)
  show rel: "\<exists>obj. SplitObjectRelation u = (obj, subject_relation s) \<and> GetType obj = subject_type s"
    using assms
  proof (cases rule: subject_cases)
    case (Members t i r)
    then show ?thesis using SplitObjectRelation_append [of r "t @ CHR '':'' # i"]
      by (simp add: subject_relation_def GetType_def)
  qed (simp_all add: subject_relation_def GetType_def Wildcard_def)
  then show "Tuple.GetRelation u = subject_relation s" by (auto simp: Tuple.GetRelation_def)
  show "IsObjectRelation u \<longleftrightarrow> (\<exists>t i r. s = Members t i r)"
    using assms by (auto simp: IsObjectRelation_def subject_of_def split: if_splits prod.splits)
  show "IsValidObject u \<longleftrightarrow> \<not> (\<exists>t i r. s = Members t i r)"
    using assms
  proof (cases rule: subject_cases)
    case (Members t i r)
    then show ?thesis using IsValidObject_no_hash [of u] by auto
  next
    case (Public t)
    then have "IsValidObject u" unfolding IsValidObject_iff using plain_part_Wildcard by blast
    with Public show ?thesis by simp
  qed (auto simp: IsValidObject_iff)
qed

lemma GetRelation_Inl:
  "TypeSystem.GetRelation t ot r = Inl e \<Longrightarrow> e = ObjectTypeUndefinedError ot \<or> e = RelationUndefinedError ot r"
  by (auto simp: TypeSystem.GetRelation_def GetRelations_def split: option.splits)

lemma ValidateUser_None_iff:
  assumes "IsSchemaVersionSupported (ts_schema_version t)"
  shows "ValidateUser t u = None \<longleftrightarrow> (\<exists>s. subject_of u = Some s \<and> subject_defined t s)"
proof (cases "subject_of u")
  case None
  then have "\<not> IsValidUserset u" "\<not> IsValidObject u" by (simp_all add: subject_of_None_iff)
  with None assms show ?thesis by (simp add: ValidateUser_def IsObjectRelation_def Let_def split: prod.split)
next
  case (Some s)
  obtain obj where obj: "SplitObjectRelation u = (obj, subject_relation s)" "GetType obj = subject_type s"
    using subject_user(7) [OF Some] by blast
  show ?thesis
    using assms subject_user(1-3) [OF Some] Some obj GetRelation_Inl [of t "subject_type s" "subject_relation s"]
    by (cases s)
      (auto simp: ValidateUser_def subject_defined_def subject_relation_def split: sum.splits ts_error.splits)
qed

lemma ValidateObject_None_iff:
  "ValidateObject t tk = None \<longleftrightarrow> (\<exists>ot i. tk_object tk = BuildObject ot i \<and> plain_part ot \<and> plain_part i
     \<and> i \<noteq> Wildcard \<and> GetTypeDefinition t ot \<noteq> None)"
proof (cases "IsValidObject (tk_object tk)")
  case True
  then obtain ot i where "tk_object tk = ot @ CHR '':'' # i" "plain_part ot" "plain_part i"
    by (auto simp: IsValidObject_iff)
  moreover have "ot = ot' \<and> i = i'" if "ot @ CHR '':'' # i = ot' @ CHR '':'' # i'" "plain_part ot'" for ot' i'
    by (rule split_at_unique [OF that(1) plain_part_not_in(3) plain_part_not_in(3)]) fact+
  ultimately show ?thesis using True by (auto simp: ValidateObject_def BuildObject_def)
next
  case False
  then show ?thesis by (auto simp: ValidateObject_def IsValidObject_iff BuildObject_def)
qed

lemma ValidateRelation_None_iff:
  "ValidateRelation t tk = None \<longleftrightarrow>
     IsValidRelation (tk_relation tk) \<and> (\<exists>rel. TypeSystem.GetRelation t (GetType (tk_object tk)) (tk_relation tk) = Inr rel)"
  by (auto simp: ValidateRelation_def Let_def split: sum.splits ts_error.splits)

lemma validateTuplesetRestrictions_None_iff:
  assumes "TypeSystem.GetRelation t (GetType (tk_object tk)) (tk_relation tk) = Inr rel" and "subject_of (tk_user tk) = Some s"
  shows "validateTuplesetRestrictions t tk = None \<longleftrightarrow>
    (IsTuplesetRelation t (GetType (tk_object tk)) (tk_relation tk) = Inr True
       \<longrightarrow> rel_rewrite rel \<in> {Userset_Nil, This} \<and> (\<exists>ut i. s = Concrete ut i))"
proof -
  obtain b where "IsTuplesetRelation t (GetType (tk_object tk)) (tk_relation tk) = Inr b"
    using assms(1) by (simp add: IsTuplesetRelation_def)
  moreover have "tk_user tk \<noteq> Wildcard"
    using assms(2) by (cases rule: subject_cases) (auto simp: Wildcard_def append_eq_Cons_conv)
  then have "IsWildcard (tk_user tk) \<longleftrightarrow> (\<exists>ut. s = Public ut)"
    using subject_user(4) [OF assms(2)] by (simp add: IsWildcard_def)
  ultimately show ?thesis
    using assms(1) subject_user(3) [OF assms(2)]
    by (cases s) (auto simp: validateTuplesetRestrictions_def Let_def)
qed

lemma validateTypeRestrictions_None_iff:
  assumes "ts_consistent t" and "TypeSystem.GetRelation t (GetType (tk_object tk)) (tk_relation tk) = Inr rel"
    and "subject_of (tk_user tk) = Some s"
  shows "Validation.validateTypeRestrictions t tk = None \<longleftrightarrow> (\<exists>rr \<in> set (rel_related rel). admits rr s)"
proof -
  obtain td where td: "GetTypeDefinition t (GetType (tk_object tk)) = Some td"
    "relation_information td (tk_relation tk) = rel_related rel"
    using assms(2) by (auto simp: GetRelation_consistent [OF assms(1)] GetTypeDefinition_def relation_information_def)
  obtain obj where obj: "SplitObjectRelation (tk_user tk) = (obj, subject_relation s)" "fst (SplitObject obj) = subject_type s"
    using subject_user(7) [OF assms(3)] by (auto simp: GetType_def case_prod_unfold)
  have res: "Validation.validateTypeRestrictions t tk = None \<longleftrightarrow>
      (if IsObjectRelation (tk_user tk) then \<exists>rr \<in> set (rel_related rel). rr_type rr = subject_type s \<and> rr_relation rr = subject_relation s
       else if IsTypedWildcard (tk_user tk) then \<exists>rr \<in> set (rel_related rel). rr_type rr = subject_type s \<and> rr_is_wildcard rr
       else \<exists>rr \<in> set (rel_related rel). rr_type rr = subject_type s \<and> \<not> rr_is_wildcard rr \<and> rr_relation rr = '''')"
    using obj by (cases "SplitObject obj") (simp add: Validation.validateTypeRestrictions_def td)
  show ?thesis
    unfolding res using subject_user(2,4) [OF assms(3)] by (cases s) (auto simp: subject_relation_def)
qed

lemma unconditional_restriction_iff:
  assumes "subject_of (tk_user tk) = Some s"
  shows "unconditional_restriction tk rr \<longleftrightarrow> condition_free s rr"
  using subject_user(4-6) [OF assms]
  by (cases s)
    (auto simp: unconditional_restriction_def condition_free_def subject_relation_def rr_relation_def rr_is_wildcard_def
      split: option.splits relation_or_wildcard.splits)

lemma validateCondition_None_iff:
  assumes "TypeSystem.GetRelation t (GetType (tk_object tk)) (tk_relation tk) = Inr rel" and "subject_of (tk_user tk) = Some s"
  shows "validateCondition lib t tk = None \<longleftrightarrow> condition_admitted lib t (rel_related rel) s (tk_condition tk)"
proof (cases "tk_condition tk")
  case None
  with assms(1) show ?thesis
    by (simp add: validateCondition_def condition_admitted_def GetDirectlyRelatedUserTypes_def
        unconditional_restriction_iff [OF assms(2)])
next
  case (Some c)
  have "first_err (\<lambda>(key, _). if key \<notin> fst ` set ps then Some (E key) else None) kvs = None \<longleftrightarrow> fst ` set kvs \<subseteq> fst ` set ps"
    for ps :: "(string \<times> any_value) list" and kvs :: pbstruct and E :: "string \<Rightarrow> tuple_error"
    by (simp add: first_err_None_iff image_subset_iff split_def)
  with Some assms(1) subject_user(5) [OF assms(2)] show ?thesis
    by (simp add: validateCondition_def condition_admitted_def GetDirectlyRelatedUserTypes_def Let_def
        split: option.splits sum.splits)
qed

lemma ValidateTupleForRead_None_iff:
  assumes "ts_consistent t" and "IsSchemaVersionSupported (ts_schema_version t)"
    and "TypeSystem.GetRelation t (GetType (tk_object tk)) (tk_relation tk) = Inr rel" and "subject_of (tk_user tk) = Some s"
  shows "ValidateTupleForRead lib t tk = None \<longleftrightarrow>
      (IsTuplesetRelation t (GetType (tk_object tk)) (tk_relation tk) = Inr True
         \<longrightarrow> rel_rewrite rel \<in> {Userset_Nil, This} \<and> (\<exists>ut i. s = Concrete ut i))
    \<and> (\<exists>rr \<in> set (rel_related rel). admits rr s) \<and> condition_admitted lib t (rel_related rel) s (tk_condition tk)"
proof -
  have "HasTypeInfo t (GetType (tk_object tk)) (tk_relation tk) = Inr True"
    using assms(2,3) by (simp add: HasTypeInfo_def)
  then have "ValidateTupleForRead lib t tk = None \<longleftrightarrow> validateTuplesetRestrictions t tk = None
      \<and> Validation.validateTypeRestrictions t tk = None \<and> validateCondition lib t tk = None"
    by (auto simp: ValidateTupleForRead_def split: option.splits)
  then show ?thesis
    unfolding validateTuplesetRestrictions_None_iff [OF assms(3,4)] validateTypeRestrictions_None_iff [OF assms(1,3,4)]
      validateCondition_None_iff [OF assms(3,4)] .
qed

lemma ValidateTupleForWrite_None_iff:
  assumes "ts_consistent t" and "IsSchemaVersionSupported (ts_schema_version t)"
  shows "ValidateTupleForWrite lib t tk = None \<longleftrightarrow>
    (\<exists>ot i rel s. tk_object tk = BuildObject ot i \<and> plain_part ot \<and> plain_part i \<and> i \<noteq> Wildcard
       \<and> IsValidRelation (tk_relation tk) \<and> TypeSystem.GetRelation t ot (tk_relation tk) = Inr rel
       \<and> subject_of (tk_user tk) = Some s \<and> subject_defined t s
       \<and> (IsTuplesetRelation t ot (tk_relation tk) = Inr True
            \<longrightarrow> rel_rewrite rel \<in> {Userset_Nil, This} \<and> (\<exists>ut ui. s = Concrete ut ui))
       \<and> (\<exists>rr \<in> set (rel_related rel). admits rr s)
       \<and> condition_admitted lib t (rel_related rel) s (tk_condition tk))" (is "?L \<longleftrightarrow> ?R")
proof -
  have typed: "GetType (BuildObject ot i) = ot" if "plain_part ot" for ot i
    using that by (simp add: BuildObject_def GetType_def)
  have split: "?L \<longleftrightarrow> ValidateUser t (tk_user tk) = None \<and> ValidateObject t tk = None \<and> ValidateRelation t tk = None
      \<and> ValidateTupleForRead lib t tk = None"
    by (auto simp: ValidateTupleForWrite_def ValidateUserObjectRelation_def split: option.splits)
  show ?thesis
  proof
    assume ?L
    then obtain s ot i rel where parts: "subject_of (tk_user tk) = Some s" "subject_defined t s"
        "tk_object tk = BuildObject ot i" "plain_part ot" "plain_part i" "i \<noteq> Wildcard"
        "IsValidRelation (tk_relation tk)" "TypeSystem.GetRelation t ot (tk_relation tk) = Inr rel"
      unfolding split ValidateUser_None_iff [OF assms(2)] ValidateObject_None_iff ValidateRelation_None_iff
      by (auto simp: typed)
    moreover from this have obj: "GetType (tk_object tk) = ot" by (simp add: typed)
    moreover from \<open>?L\<close> have "ValidateTupleForRead lib t tk = None" by (simp add: split)
    ultimately show ?R
      using ValidateTupleForRead_None_iff [OF assms, of tk rel s lib] unfolding obj by blast
  next
    assume ?R
    then obtain s ot i rel where parts: "subject_of (tk_user tk) = Some s" "subject_defined t s"
        "tk_object tk = BuildObject ot i" "plain_part ot" "plain_part i" "i \<noteq> Wildcard"
        "IsValidRelation (tk_relation tk)" "TypeSystem.GetRelation t ot (tk_relation tk) = Inr rel"
      and restr: "(IsTuplesetRelation t ot (tk_relation tk) = Inr True
            \<longrightarrow> rel_rewrite rel \<in> {Userset_Nil, This} \<and> (\<exists>ut ui. s = Concrete ut ui))
       \<and> (\<exists>rr \<in> set (rel_related rel). admits rr s)
       \<and> condition_admitted lib t (rel_related rel) s (tk_condition tk)" by blast
    then have obj: "GetType (tk_object tk) = ot" by (simp add: typed)
    have "GetTypeDefinition t ot \<noteq> None"
      using parts(8) by (auto simp: TypeSystem.GetRelation_def GetRelations_def split: option.splits)
    with parts obj have "ValidateUser t (tk_user tk) = None \<and> ValidateObject t tk = None \<and> ValidateRelation t tk = None"
      unfolding ValidateUser_None_iff [OF assms(2)] ValidateObject_None_iff ValidateRelation_None_iff by blast
    moreover have "ValidateTupleForRead lib t tk = None"
      using ValidateTupleForRead_None_iff [OF assms, of tk rel s lib] parts restr unfolding obj by blast
    ultimately show ?L unfolding split by blast
  qed
qed

section \<open>Properties\<close>

text \<open>
  C12: a tuple may be written exactly if its object is a concrete object of a type that defines its
  relation, its user is an object, a typed wildcard or a userset of defined type and relation that one
  of the relation's restrictions allows, a tupleset relation has a concrete object as user, and its
  condition is one the restrictions ask for, with a context that converts to the condition's
  parameters.
\<close>

theorem ValidateTupleForWrite_exact:
  assumes "New graph_error model = Inr t" and "IsSchemaVersionSupported (am_schema_version model)"
  shows "ValidateTupleForWrite lib t tk = None \<longleftrightarrow>
    (\<exists>ot i rel s. tk_object tk = BuildObject ot i \<and> plain_part ot \<and> plain_part i \<and> i \<noteq> Wildcard
       \<and> IsValidRelation (tk_relation tk) \<and> TypeSystem.GetRelation t ot (tk_relation tk) = Inr rel
       \<and> subject_of (tk_user tk) = Some s \<and> subject_defined t s
       \<and> (IsTuplesetRelation t ot (tk_relation tk) = Inr True
            \<longrightarrow> rel_rewrite rel \<in> {Userset_Nil, This} \<and> (\<exists>ut ui. s = Concrete ut ui))
       \<and> (\<exists>rr \<in> set (rel_related rel). admits rr s)
       \<and> condition_admitted lib t (rel_related rel) s (tk_condition tk))"
proof (rule ValidateTupleForWrite_None_iff)
  show "ts_consistent t" by (rule New_consistent [OF assms(1)])
  show "IsSchemaVersionSupported (ts_schema_version t)"
    using assms by (auto simp: New_def New_loop_fields split: option.splits)
qed

text \<open>Documents viewed by groups, and by the members of groups under a condition.\<close>

definition gate_model :: authorization_model where
  "gate_model =
     \<lparr>am_id = ''m'', am_schema_version = ''1.1'',
      am_type_definitions =
        [\<lparr>td_type = ''user'', td_relations = [], td_metadata = Map.empty\<rparr>,
         \<lparr>td_type = ''group'', td_relations = [(''member'', This)],
          td_metadata = [''member'' \<mapsto> [DirectRelationReference ''user'' '''']]\<rparr>,
         \<lparr>td_type = ''doc'', td_relations = [(''viewer'', This)],
          td_metadata = [''viewer'' \<mapsto> [DirectRelationReference ''group'' '''',
            ConditionedRelationReference (DirectRelationReference ''group'' ''member'') ''c'']]\<rparr>],
      am_conditions = [(''c'', sample_condition)]\<rparr>"

definition gate_ts :: type_system where
  "gate_ts = (case New (\<lambda>_. None) gate_model of Inr t \<Rightarrow> t)"

lemma gate_New: "New (\<lambda>_. None) gate_model = Inr gate_ts"
  by (simp add: gate_ts_def New_def)

lemma gate_valid: "NewAndValidate (\<lambda>_. None) (\<lambda>_. None) gate_model = Inr gate_ts"
proof -
  have "IsSchemaVersionSupported (ts_schema_version gate_ts)" "\<not> containsDuplicateType gate_model"
    "validateNames gate_ts = None" "validateRelations gate_ts = None" "validateConditions (\<lambda>_. None) gate_ts = None"
    by code_simp+
  then show ?thesis by (simp add: NewAndValidate_def gate_New)
qed

lemma gate_viewer:
  "TypeSystem.GetRelation gate_ts ''doc'' ''viewer'' = Inr \<lparr>rel_name = ''viewer'', rel_rewrite = This,
     rel_related = [DirectRelationReference ''group'' '''',
       ConditionedRelationReference (DirectRelationReference ''group'' ''member'') ''c'']\<rparr>"
  by (simp add: gate_ts_def New_def New_loop_def gate_model_def TypeSystem.GetRelation_def GetRelations_def
      GetTypeDefinition_def new_relation_def)

theorem ValidateTupleForWrite_exact_witness:
  "\<exists>ot i. ''doc:1'' = BuildObject ot i \<and> plain_part ot \<and> plain_part i \<and> i \<noteq> Wildcard"
proof -
  let ?tk = "\<lparr>tk_object = ''doc:1'', tk_relation = ''viewer'', tk_user = ''group:eng'', tk_condition = None\<rparr>"
  have "IsSchemaVersionSupported (am_schema_version gate_model)"
    "ValidateTupleForWrite sample_values gate_ts ?tk = None" by code_simp+
  with ValidateTupleForWrite_exact [OF gate_New, of sample_values ?tk] show ?thesis by auto
qed

text \<open>
  C35: conditions are matched with the wrong restrictions.  Take a relation of a valid model with a
  restriction to a type without a condition, and any userset of the type that may be written with some
  condition.  The userset may then be written without a condition as well, even if every restriction
  that allows the userset asks for one; and an object of the type that may be written without a
  condition may be written with the one of the userset.
\<close>

theorem validateCondition_confuses_restrictions:
  assumes "NewAndValidate graph_error compiles model = Inr t" and "ValidateTupleForWrite lib t tk = None"
    and "subject_of (tk_user tk) = Some (Members ut i m)"
    and "TypeSystem.GetRelation t (GetType (tk_object tk)) (tk_relation tk) = Inr rel"
    and "rr \<in> set (rel_related rel)" and "admits rr (Concrete ut i)" and "rr_condition rr = ''''"
    and "\<forall>rr \<in> set (rel_related rel). admits rr (Members ut i m) \<longrightarrow> rr_condition rr \<noteq> ''''"
  shows "ValidateTupleForWrite lib t (tk\<lparr>tk_condition := None\<rparr>) = None
    \<and> (\<forall>u j. subject_of u = Some (Concrete ut j) \<longrightarrow>
         ValidateTupleForWrite lib t (tk\<lparr>tk_user := u, tk_condition := None\<rparr>) = None \<longrightarrow>
         ValidateTupleForWrite lib t (tk\<lparr>tk_user := u\<rparr>) = None)"
proof -
  note iff = ValidateTupleForWrite_None_iff [OF NewAndValidate_facts(1,2) [OF assms(1)], of lib]
  have typed: "GetType (BuildObject ot j) = ot" if "plain_part ot" for ot j
    using that by (simp add: BuildObject_def GetType_def)
  have free: "condition_free (Members ut i m) rr"
    using assms(6,7) by (auto simp: condition_free_def rr_relation_def rr_is_wildcard_def split: option.splits relation_or_wildcard.splits)
  from assms(2) obtain ot oi rel' where tk: "tk_object tk = BuildObject ot oi" "plain_part ot" "plain_part oi" "oi \<noteq> Wildcard"
    "IsValidRelation (tk_relation tk)" "TypeSystem.GetRelation t ot (tk_relation tk) = Inr rel'"
    and su: "subject_defined t (Members ut i m)" "IsTuplesetRelation t ot (tk_relation tk) \<noteq> Inr True"
    "\<exists>rr \<in> set (rel_related rel'). admits rr (Members ut i m)"
    and cond: "condition_admitted lib t (rel_related rel') (Members ut i m) (tk_condition tk)"
    unfolding iff assms(3) by auto
  have rel: "rel' = rel" using assms(4) tk by (simp add: typed)
  have "condition_admitted lib t (rel_related rel) (Members ut i m) None"
    using free assms(5) by (auto simp: condition_admitted_def)
  then have "ValidateTupleForWrite lib t (tk\<lparr>tk_condition := None\<rparr>) = None"
    unfolding iff using tk su assms(3) unfolding rel by auto
  moreover have "ValidateTupleForWrite lib t (tk\<lparr>tk_user := u\<rparr>) = None"
    if u: "subject_of u = Some (Concrete ut j)" "ValidateTupleForWrite lib t (tk\<lparr>tk_user := u, tk_condition := None\<rparr>) = None" for u j
  proof (cases "tk_condition tk")
    case None
    then have "tk\<lparr>tk_user := u, tk_condition := None\<rparr> = tk\<lparr>tk_user := u\<rparr>" by (cases tk) simp
    then show ?thesis using u(2) by simp
  next
    case (Some c)
    then have "condition_admitted lib t (rel_related rel) (Concrete ut j) (tk_condition tk)"
      using cond unfolding rel by (auto simp: condition_admitted_def)
    moreover have "subject_defined t (Concrete ut j)" using su(1) by (simp add: subject_defined_def)
    moreover have "admits rr (Concrete ut j)" using assms(6) by simp
    ultimately show ?thesis unfolding iff using tk su(2) u(1) assms(5) unfolding rel by auto
  qed
  ultimately show ?thesis by blast
qed

theorem validateCondition_confuses_restrictions_witness:
  "ValidateTupleForWrite sample_values gate_ts (NewTupleKey ''doc:1'' ''viewer'' ''group:eng#member'') = None
   \<and> ValidateTupleForWrite sample_values gate_ts (NewTupleKeyWithCondition ''doc:1'' ''viewer'' ''group:eng'' ''c'' None) = None"
proof -
  let ?tk = "NewTupleKeyWithCondition ''doc:1'' ''viewer'' ''group:eng#member'' ''c'' None"
  let ?rr = "DirectRelationReference ''group'' ''''"
  have "ValidateTupleForWrite sample_values gate_ts ?tk = None" "subject_of (tk_user ?tk) = Some (Members ''group'' ''eng'' ''member'')"
    "GetType (tk_object ?tk) = ''doc''" "tk_relation ?tk = ''viewer''" "admits ?rr (Concrete ''group'' ''eng'')" "rr_condition ?rr = ''''"
    "subject_of ''group:eng'' = Some (Concrete ''group'' ''eng'')"
    "ValidateTupleForWrite sample_values gate_ts (?tk\<lparr>tk_user := ''group:eng'', tk_condition := None\<rparr>) = None"
    by code_simp+
  moreover have "?tk\<lparr>tk_condition := None\<rparr> = NewTupleKey ''doc:1'' ''viewer'' ''group:eng#member''"
    "?tk\<lparr>tk_user := ''group:eng''\<rparr> = NewTupleKeyWithCondition ''doc:1'' ''viewer'' ''group:eng'' ''c'' None"
    by code_simp+
  ultimately show ?thesis
    using validateCondition_confuses_restrictions [OF gate_valid, of sample_values ?tk "''group''" "''eng''" "''member''" _ ?rr] gate_viewer
    by (auto simp: DirectRelationReference_def ConditionedRelationReference_def rr_relation_def)
qed

end
