(* ===== verification/Memory.thy ===== *)
theory Memory
  imports StorageTypes "HOL-Library.AList"
begin

text \<open>
  The in-memory datastore (\<open>src/pkg/storage/memory/memory.go\<close>): tuples with their changelog,
  authorization models, stores and assertions.  The state is the record \<open>memory_backend\<close>; each method
  is a function of the state, and the methods that change it return the new state.  The mutexes make
  every method atomic.  The clock and the ULIDs a call draws are arguments (\<open>now\<close>, and \<open>fresh i\<close> for
  the \<open>i\<close>-th ULID of the call), as are the parser and printer of ULIDs and the text form of a
  protobuf struct, which are third-party code.
\<close>

section \<open>State\<close>

record tuple_change_rec =
  tcr_change :: tuple_change
  tcr_ulid :: nat

record model_entry =
  me_model :: authorization_model
  me_latest :: bool

record store =
  st_id :: string
  st_name :: string
  st_created_at :: int
  st_updated_at :: int

record assertion =
  as_tuple_key :: plain_key
  as_expectation :: bool
  as_contextual_tuples :: "tuple_key list"
  as_context :: "pbstruct option"

text \<open>
  The maps of tuples and changes are read with the default \<open>nil\<close>, so they are total; the map of
  models tests presence; the maps that are iterated are association lists.
\<close>

record memory_backend =
  mb_max_tuples_per_write :: int
  mb_max_types_per_model :: int
  mb_tuples :: "string \<Rightarrow> tuple_record list"
  mb_changes :: "string \<Rightarrow> tuple_change_rec list"
  mb_models :: "string \<Rightarrow> (string \<times> model_entry) list option"
  mb_stores :: "(string \<times> store) list"
  mb_assertions :: "string \<Rightarrow> assertion list option"

datatype storage_option = WithMaxTuplesPerWrite int | WithMaxTypesPerAuthorizationModel int

fun apply_storage_option :: "storage_option \<Rightarrow> memory_backend \<Rightarrow> memory_backend" where
  "apply_storage_option (WithMaxTuplesPerWrite n) ds = ds\<lparr>mb_max_tuples_per_write := n\<rparr>"
| "apply_storage_option (WithMaxTypesPerAuthorizationModel n) ds = ds\<lparr>mb_max_types_per_model := n\<rparr>"

definition New :: "storage_option list \<Rightarrow> memory_backend" where
  "New opts =
     fold apply_storage_option opts
       \<lparr>mb_max_tuples_per_write = 100, mb_max_types_per_model = 100, mb_tuples = (\<lambda>_. []),
        mb_changes = (\<lambda>_. []), mb_models = (\<lambda>_. None), mb_stores = [], mb_assertions = (\<lambda>_. None)\<rparr>"

section \<open>Matching\<close>

definition match_object :: "tuple_record \<Rightarrow> string \<Rightarrow> bool" where
  "match_object t object =
     (if object \<noteq> '''' then
        (let (td, objectid) = SplitObject object in
         if objectid = '''' then td = tr_object_type t
         else td = tr_object_type t \<and> objectid = tr_object_id t)
      else True)"

definition match_user :: "tuple_record \<Rightarrow> string \<Rightarrow> bool" where
  "match_user t user =
     (if user \<noteq> '''' then
        (let (userType, userID, _) = ToUserParts user in
         if userID \<noteq> '''' \<and> tr_user t \<noteq> user then False
         else if userID = '''' \<and> \<not> HasPrefix (tr_user t) (userType @ '':'') then False
         else True)
      else True)"

definition match :: "tuple_record \<Rightarrow> 'a plain_key_scheme \<Rightarrow> bool" where
  "match t target =
     (if \<not> match_object t (tk_object target) then False
      else if tk_relation target \<noteq> '''' \<and> tr_relation t \<noteq> tk_relation target then False
      else match_user t (tk_user target))"

definition mem_find :: "tuple_record list \<Rightarrow> 'a plain_key_scheme \<Rightarrow> tuple_record option" where
  "mem_find records tupleKey = find_first (\<lambda>tr. match tr tupleKey) records"

section \<open>Reading tuples\<close>

definition conditions_allow :: "string list \<Rightarrow> tuple_record \<Rightarrow> bool" where
  "conditions_allow conditions t \<longleftrightarrow> conditions = [] \<or> tr_condition_name t \<in> set conditions"

definition read_matches :: "memory_backend \<Rightarrow> string \<Rightarrow> read_filter \<Rightarrow> tuple_record list" where
  "read_matches s st f =
     (if rf_object f = '''' \<and> rf_relation f = '''' \<and> rf_user f = '''' then mb_tuples s st
      else filter (\<lambda>t. match t (NewTupleKey (rf_object f) (rf_relation f) (rf_user f))
                       \<and> conditions_allow (rf_conditions f) t) (mb_tuples s st))"

text \<open>The iterator of the backend: the records left and the continuation token.\<close>

record static_iterator =
  si_records :: "tuple_record list"
  si_continuation_token :: string

definition mem_read ::
    "memory_backend \<Rightarrow> string \<Rightarrow> read_filter \<Rightarrow> pagination_options option \<Rightarrow> storage_error + static_iterator" where
  "mem_read s st f options =
     (let matches = read_matches s st f in
      case (case options of
              None \<Rightarrow> Some 0
            | Some p \<Rightarrow> if po_from p \<noteq> '''' then Atoi (po_from p) else Some 0) of
        None \<Rightarrow> Inl AtoiError
      | Some from \<Rightarrow>
          if from \<le> int (length matches) \<and> from < 0 then Inl SlicePanic
          else
            let matches = (if from \<le> int (length matches) then drop (nat from) matches else matches);
                to = (case options of None \<Rightarrow> 0 | Some p \<Rightarrow> po_page_size p) in
            if to \<noteq> 0 \<and> to < int (length matches) then
              (if to < 0 then Inl SlicePanic
               else Inr \<lparr>si_records = take (nat to) matches, si_continuation_token = Itoa (wrap64 (from + to))\<rparr>)
            else Inr \<lparr>si_records = matches, si_continuation_token = ''''\<rparr>)"

definition Read :: "memory_backend \<Rightarrow> string \<Rightarrow> read_filter \<Rightarrow> storage_error + static_iterator" where
  "Read s st f = mem_read s st f None"

text \<open>\<open>ToArray\<close> under a live context calls \<open>Next\<close> once per record.\<close>

definition ReadPage ::
    "memory_backend \<Rightarrow> string \<Rightarrow> read_filter \<Rightarrow> pagination_options \<Rightarrow> storage_error + tuple list \<times> string" where
  "ReadPage s st f options =
     (case mem_read s st f (Some options) of
        Inl e \<Rightarrow> Inl e
      | Inr it \<Rightarrow> Inr (map AsTuple (si_records it), si_continuation_token it))"

definition ReadUserTuple :: "memory_backend \<Rightarrow> string \<Rightarrow> read_filter \<Rightarrow> storage_error + tuple" where
  "ReadUserTuple s st f =
     (case find_first (\<lambda>t. match t (NewTupleKey (rf_object f) (rf_relation f) (rf_user f))
                           \<and> conditions_allow (rf_conditions f) t) (mb_tuples s st) of
        Some t \<Rightarrow> Inr (AsTuple t)
      | None \<Rightarrow> Inl ErrNotFound)"

text \<open>
  The loop of \<open>ReadUsersetTuples\<close>.  A tuple is appended once per type restriction it satisfies: the
  inner \<open>continue\<close> continues the inner loop, and the test of the conditions after it has no effect.
\<close>

definition userset_matches :: "relation_reference list \<Rightarrow> tuple_record \<Rightarrow> tuple_record list" where
  "userset_matches allowed t =
     (if allowed = [] then [t]
      else
        let userType = GetType (tr_user t);
            userRelation = snd (SplitObjectRelation (tr_user t)) in
        map (\<lambda>_. t) (filter (\<lambda>a. rr_type a = userType \<and> rr_relation a = userRelation) allowed))"

definition ReadUsersetTuples :: "memory_backend \<Rightarrow> string \<Rightarrow> read_userset_tuples_filter \<Rightarrow> static_iterator" where
  "ReadUsersetTuples s st f =
     \<lparr>si_records =
        concat (map (\<lambda>t.
          if match t (NewTupleKey (ruf_object f) (ruf_relation f) '''') \<and> GetUserTypeFromUser (tr_user t) = UserSet
          then userset_matches (ruf_allowed f) t
          else []) (mb_tuples s st)),
      si_continuation_token = ''''\<rparr>"

definition user_filter_target :: "object_relation \<Rightarrow> string" where
  "user_filter_target u = (if or_relation u \<noteq> '''' then GetObjectRelationAsString u else or_object u)"

definition starting_with_user_matches :: "read_starting_with_user_filter \<Rightarrow> tuple_record \<Rightarrow> tuple_record list" where
  "starting_with_user_matches f t =
     (if tr_object_type t \<noteq> rsw_object_type f then []
      else if tr_relation t \<noteq> rsw_relation f then []
      else if (case rsw_object_ids f of None \<Rightarrow> False | Some ids \<Rightarrow> tr_object_id t \<notin> set ids) then []
      else if \<not> conditions_allow (rsw_conditions f) t then []
      else map (\<lambda>_. t) (filter (\<lambda>u. user_filter_target u = tr_user t) (rsw_user_filter f)))"

text \<open>\<open>sort.Slice\<close> by object identifier; tuples with equal identifiers keep their order here.\<close>

definition ReadStartingWithUser ::
    "memory_backend \<Rightarrow> string \<Rightarrow> read_starting_with_user_filter \<Rightarrow> static_iterator" where
  "ReadStartingWithUser s st f =
     \<lparr>si_records = sort_key tr_object_id (concat (map (starting_with_user_matches f) (mb_tuples s st))),
      si_continuation_token = ''''\<rparr>"

section \<open>Writing tuples\<close>

fun sanitize_deletes ::
    "tuple_record list \<Rightarrow> tuple_write_options \<Rightarrow> nat \<Rightarrow> plain_key list \<Rightarrow> storage_error + nat list" where
  "sanitize_deletes records opts i [] = Inr []"
| "sanitize_deletes records opts i (tk # tks) =
     (if mem_find records (TupleKeyWithoutConditionToTupleKey tk) = None then
        (if two_on_missing_delete opts = OnMissingDeleteIgnore then
           (case sanitize_deletes records opts (i + 1) tks of Inl e \<Rightarrow> Inl e | Inr is \<Rightarrow> Inr (i # is))
         else Inl (InvalidWriteInputError (tk_object tk) (tk_relation tk) (tk_user tk) TUPLE_OPERATION_DELETE))
      else sanitize_deletes records opts (i + 1) tks)"

text \<open>\<open>struct_string\<close> is the text form of a (possibly \<open>nil\<close>) protobuf struct.\<close>

fun sanitize_writes ::
    "(pbstruct option \<Rightarrow> string) \<Rightarrow> tuple_record list \<Rightarrow> tuple_write_options \<Rightarrow> nat \<Rightarrow> tuple_key list
     \<Rightarrow> storage_error + nat list" where
  "sanitize_writes struct_string records opts i [] = Inr []"
| "sanitize_writes struct_string records opts i (tk # tks) =
     (case mem_find records tk of
        Some record \<Rightarrow>
          (if two_on_duplicate_insert opts = OnDuplicateInsertIgnore then
             (if tr_condition_name record = get_condition_name (tk_condition tk)
                 \<and> struct_string (tr_condition_context record)
                    = struct_string (get_condition_context (tk_condition tk))
              then (case sanitize_writes struct_string records opts (i + 1) tks of
                      Inl e \<Rightarrow> Inl e | Inr is \<Rightarrow> Inr (i # is))
              else Inl (TupleConditionConflictError (tk_object tk) (tk_relation tk) (tk_user tk)))
           else Inl (InvalidWriteInputError (tk_object tk) (tk_relation tk) (tk_user tk) TUPLE_OPERATION_WRITE))
      | None \<Rightarrow> sanitize_writes struct_string records opts (i + 1) tks)"

definition sanitizeTuplesWriteDelete ::
    "(pbstruct option \<Rightarrow> string) \<Rightarrow> tuple_record list \<Rightarrow> plain_key list \<Rightarrow> tuple_key list \<Rightarrow> tuple_write_options
     \<Rightarrow> storage_error + nat list \<times> nat list" where
  "sanitizeTuplesWriteDelete struct_string records deletes writes opts =
     (case sanitize_deletes records opts 0 deletes of
        Inl e \<Rightarrow> Inl e
      | Inr duplicateDeletes \<Rightarrow>
          (case sanitize_writes struct_string records opts 0 writes of
             Inl e \<Rightarrow> Inl e
           | Inr duplicateWrites \<Rightarrow> Inr (duplicateDeletes, duplicateWrites)))"

text \<open>Whether the inner loop over the deletes reaches \<open>continue Delete\<close> for a record.\<close>

fun deleted_by :: "nat list \<Rightarrow> nat \<Rightarrow> plain_key list \<Rightarrow> tuple_record \<Rightarrow> bool" where
  "deleted_by dups i [] tr = False"
| "deleted_by dups i (k # ks) tr =
     (if match tr (TupleKeyWithoutConditionToTupleKey k) then
        (if i \<in> set dups then deleted_by dups (i + 1) ks tr else True)
      else deleted_by dups (i + 1) ks tr)"

definition delete_change :: "int \<Rightarrow> nat \<Rightarrow> tuple_record \<Rightarrow> tuple_change_rec" where
  "delete_change now ulid tr =
     (let tk = tup_key (AsTuple tr) in
      \<lparr>tcr_change = \<lparr>tc_key = NewTupleKey (tk_object tk) (tk_relation tk) (tk_user tk),
                     tc_operation = TUPLE_OPERATION_DELETE, tc_timestamp = now\<rparr>,
       tcr_ulid = ulid\<rparr>)"

text \<open>The loops return the records kept or added, the changes to append and the ULIDs drawn so far.\<close>

fun delete_loop ::
    "(nat \<Rightarrow> nat) \<Rightarrow> int \<Rightarrow> nat list \<Rightarrow> plain_key list \<Rightarrow> tuple_record list \<Rightarrow> nat
     \<Rightarrow> tuple_record list \<times> tuple_change_rec list \<times> nat" where
  "delete_loop fresh now dups deletes [] n = ([], [], n)"
| "delete_loop fresh now dups deletes (tr # trs) n =
     (if deleted_by dups 0 deletes tr then
        (case delete_loop fresh now dups deletes trs (n + 1) of
           (records, changes, m) \<Rightarrow> (records, delete_change now (fresh n) tr # changes, m))
      else
        (case delete_loop fresh now dups deletes trs n of
           (records, changes, m) \<Rightarrow> (tr # records, changes, m)))"

definition new_record :: "string \<Rightarrow> int \<Rightarrow> nat \<Rightarrow> tuple_key \<Rightarrow> tuple_record" where
  "new_record st now ulid t =
     (let (objectType, objectID) = SplitObject (tk_object t) in
      \<lparr>tr_store = st, tr_object_type = objectType, tr_object_id = objectID, tr_relation = tk_relation t,
       tr_user = tk_user t, tr_user_object_type = '''', tr_user_object_id = '''', tr_user_relation = '''',
       tr_condition_name = get_condition_name (tk_condition t),
       tr_condition_context = get_condition_context (tk_condition t),
       tr_ulid = ulid, tr_inserted_at = now\<rparr>)"

definition write_change :: "int \<Rightarrow> nat \<Rightarrow> tuple_key \<Rightarrow> tuple_change_rec" where
  "write_change now ulid t =
     (let (objectType, objectID) = SplitObject (tk_object t) in
      \<lparr>tcr_change =
         \<lparr>tc_key = NewTupleKeyWithCondition (BuildObject objectType objectID) (tk_relation t) (tk_user t)
            (get_condition_name (tk_condition t)) (get_condition_context (tk_condition t)),
          tc_operation = TUPLE_OPERATION_WRITE, tc_timestamp = now\<rparr>,
       tcr_ulid = ulid\<rparr>)"

fun write_loop ::
    "(nat \<Rightarrow> nat) \<Rightarrow> string \<Rightarrow> int \<Rightarrow> tuple_key list \<Rightarrow> tuple_record list \<Rightarrow> tuple_change_rec list \<Rightarrow> nat
     \<Rightarrow> tuple_record list \<times> tuple_change_rec list" where
  "write_loop fresh st now [] records changes n = (records, changes)"
| "write_loop fresh st now (t # ts) records changes n =
     (if list_ex (\<lambda>et. match et t) records then write_loop fresh st now ts records changes n
      else write_loop fresh st now ts (records @ [new_record st now (fresh n) t])
             (changes @ [write_change now (fresh (n + 1)) t]) (n + 2))"

definition Write ::
    "(pbstruct option \<Rightarrow> string) \<Rightarrow> (nat \<Rightarrow> nat) \<Rightarrow> int \<Rightarrow> memory_backend \<Rightarrow> string \<Rightarrow> plain_key list
     \<Rightarrow> tuple_key list \<Rightarrow> tuple_write_option list \<Rightarrow> storage_error option \<times> memory_backend" where
  "Write struct_string fresh now s st deletes writes opts =
     (case sanitizeTuplesWriteDelete struct_string (mb_tuples s st) deletes writes (NewTupleWriteOptions opts) of
        Inl e \<Rightarrow> (Some e, s)
      | Inr (duplicateDeletes, _) \<Rightarrow>
          (case delete_loop fresh now duplicateDeletes deletes (mb_tuples s st) 0 of
             (kept, deleted, n) \<Rightarrow>
               (case write_loop fresh st now writes kept (mb_changes s st @ deleted) n of
                  (records, changes) \<Rightarrow>
                    (None, s\<lparr>mb_changes := (mb_changes s)(st := changes),
                             mb_tuples := (mb_tuples s)(st := records)\<rparr>))))"

section \<open>The changelog\<close>

record read_changes_filter =
  rcf_object_type :: string
  rcf_horizon_offset :: int

record read_changes_options =
  rco_pagination :: pagination_options
  rco_sort_desc :: bool

fun changes_loop ::
    "string \<Rightarrow> int \<Rightarrow> nat option \<Rightarrow> bool \<Rightarrow> tuple_change_rec list \<Rightarrow> tuple_change_rec list" where
  "changes_loop objectType horizon from desc [] = []"
| "changes_loop objectType horizon from desc (c # cs) =
     (if objectType = '''' \<or> HasPrefix (tk_object (tc_key (tcr_change c))) (objectType @ '':'') then
        (if tc_timestamp (tcr_change c) > horizon then []
         else if (case from of
                    None \<Rightarrow> False
                  | Some u \<Rightarrow> (\<not> desc \<and> tcr_ulid c \<le> u) \<or> (desc \<and> tcr_ulid c \<ge> u))
         then changes_loop objectType horizon from desc cs
         else c # changes_loop objectType horizon from desc cs)
      else changes_loop objectType horizon from desc cs)"

text \<open>
  \<open>ulid_parse\<close> and \<open>ulid_string\<close> convert between ULIDs and their text form.  The \<open>last\<close> of the
  loop is the ULID of the last change returned.
\<close>

definition ReadChanges ::
    "(string \<Rightarrow> nat option) \<Rightarrow> (nat \<Rightarrow> string) \<Rightarrow> int \<Rightarrow> memory_backend \<Rightarrow> string \<Rightarrow> read_changes_filter
     \<Rightarrow> read_changes_options \<Rightarrow> storage_error + tuple_change list \<times> string" where
  "ReadChanges ulid_parse ulid_string now s st f options =
     (let p = rco_pagination options in
      case (if po_from p \<noteq> '''' then map_option Some (ulid_parse (po_from p)) else Some None) of
        None \<Rightarrow> Inl ErrInvalidContinuationToken
      | Some from \<Rightarrow>
          let allChanges = changes_loop (rcf_object_type f) (now - rcf_horizon_offset f) from
                             (rco_sort_desc options) (mb_changes s st) in
          if allChanges = [] then Inl ErrNotFound
          else
            let pageSize = (if po_page_size p > 0 then po_page_size p else DefaultPageSize);
                allChanges = (if rco_sort_desc options then rev allChanges else allChanges);
                to = (if int (length allChanges) < pageSize then int (length allChanges) else pageSize) in
            if to = 0 then Inl ErrNotFound
            else
              let page = take (nat to) allChanges in
              Inr (map tcr_change page, ulid_string (tcr_ulid (last page))))"

section \<open>Authorization models\<close>

definition findAuthorizationModelByID ::
    "string \<Rightarrow> (string \<times> model_entry) list \<Rightarrow> authorization_model option" where
  "findAuthorizationModelByID ident configurations =
     (if ident \<noteq> '''' then
        (case map_of configurations ident of Some e \<Rightarrow> Some (me_model e) | None \<Rightarrow> None)
      else map_option (\<lambda>p. me_model (snd p)) (find_first (\<lambda>p. me_latest (snd p)) configurations))"

definition ReadAuthorizationModel ::
    "memory_backend \<Rightarrow> string \<Rightarrow> string \<Rightarrow> storage_error + authorization_model" where
  "ReadAuthorizationModel s st ident =
     (case mb_models s st of
        None \<Rightarrow> Inl ErrNotFound
      | Some tm \<Rightarrow>
          (case findAuthorizationModelByID ident tm of
             Some m \<Rightarrow> if am_type_definitions m = [] then Inl ErrNotFound else Inr m
           | None \<Rightarrow> Inl ErrNotFound))"

definition FindLatestAuthorizationModel ::
    "memory_backend \<Rightarrow> string \<Rightarrow> storage_error + authorization_model" where
  "FindLatestAuthorizationModel s st =
     (case mb_models s st of
        None \<Rightarrow> Inl ErrNotFound
      | Some tm \<Rightarrow>
          (case findAuthorizationModelByID '''' tm of Some m \<Rightarrow> Inr m | None \<Rightarrow> Inl ErrNotFound))"

definition WriteAuthorizationModel ::
    "memory_backend \<Rightarrow> string \<Rightarrow> authorization_model \<Rightarrow> memory_backend" where
  "WriteAuthorizationModel s st m =
     (let tm = (case mb_models s st of None \<Rightarrow> [] | Some tm \<Rightarrow> tm);
          tm = map (\<lambda>(k, e). (k, e\<lparr>me_latest := False\<rparr>)) tm;
          tm = AList.update (am_id m) \<lparr>me_model = m, me_latest = True\<rparr> tm in
      s\<lparr>mb_models := (mb_models s)(st := Some tm)\<rparr>)"

text \<open>
  \<open>ReadAuthorizationModels\<close> and \<open>ListStores\<close> cut a page out of a sorted list; \<open>from\<close> is clamped to
  the list, and \<open>from + pageSize\<close> is an \<open>int\<close> addition.
\<close>

definition clamp_page :: "int \<Rightarrow> int \<Rightarrow> 'a list \<Rightarrow> storage_error + 'a list \<times> int" where
  "clamp_page from pageSize xs =
     (let from = max 0 (min from (int (length xs)));
          to = min (int (length xs)) (wrap64 (from + pageSize)) in
      if to < from then Inl SlicePanic
      else Inr (take (nat (to - from)) (drop (nat from) xs), to))"

definition page_params :: "pagination_options \<Rightarrow> (int \<times> int) option" where
  "page_params p =
     (case (if po_from p \<noteq> '''' then Atoi (po_from p) else Some 0) of
        None \<Rightarrow> None
      | Some from \<Rightarrow> Some (from, if po_page_size p > 0 then po_page_size p else DefaultPageSize))"

definition ReadAuthorizationModels ::
    "memory_backend \<Rightarrow> string \<Rightarrow> pagination_options \<Rightarrow> storage_error + authorization_model list \<times> string" where
  "ReadAuthorizationModels s st p =
     (let entries = (case mb_models s st of None \<Rightarrow> [] | Some tm \<Rightarrow> tm);
          models = rev (sort_key am_id (map (\<lambda>(k, e). me_model e) entries)) in
      case page_params p of
        None \<Rightarrow> Inl AtoiError
      | Some (from, pageSize) \<Rightarrow>
          (case clamp_page from pageSize models of
             Inl e \<Rightarrow> Inl e
           | Inr (res, to) \<Rightarrow> Inr (res, if to \<noteq> int (length models) then Itoa to else '''')))"

section \<open>Stores and assertions\<close>

definition CreateStore :: "int \<Rightarrow> memory_backend \<Rightarrow> string \<Rightarrow> string \<Rightarrow> (storage_error + store) \<times> memory_backend" where
  "CreateStore now s ident name =
     (if map_of (mb_stores s) ident \<noteq> None then (Inl ErrCollision, s)
      else
        let st = \<lparr>st_id = ident, st_name = name, st_created_at = now, st_updated_at = now\<rparr> in
        (Inr st, s\<lparr>mb_stores := AList.update ident st (mb_stores s)\<rparr>))"

definition DeleteStore :: "memory_backend \<Rightarrow> string \<Rightarrow> memory_backend" where
  "DeleteStore s ident = s\<lparr>mb_stores := AList.delete ident (mb_stores s)\<rparr>"

definition GetStore :: "memory_backend \<Rightarrow> string \<Rightarrow> storage_error + store" where
  "GetStore s ident = (case map_of (mb_stores s) ident of None \<Rightarrow> Inl ErrNotFound | Some st \<Rightarrow> Inr st)"

definition ListStores ::
    "memory_backend \<Rightarrow> string list \<Rightarrow> string \<Rightarrow> pagination_options \<Rightarrow> storage_error + store list \<times> string" where
  "ListStores s ids name p =
     (let stores = map snd (mb_stores s);
          stores = (if ids \<noteq> [] then concat (map (\<lambda>i. filter (\<lambda>st. st_id st = i) stores) ids) else stores);
          stores = (if name \<noteq> '''' then filter (\<lambda>st. st_name st = name) stores else stores);
          stores = sort_key st_id stores in
      case page_params p of
        None \<Rightarrow> Inl AtoiError
      | Some (from, pageSize) \<Rightarrow>
          (case clamp_page from pageSize stores of
             Inl e \<Rightarrow> Inl e
           | Inr (res, to) \<Rightarrow>
               if res = [] then Inr ([], '''')
               else Inr (res, if to \<noteq> int (length stores) then Itoa to else '''')))"

definition assertions_id :: "string \<Rightarrow> string \<Rightarrow> string" where
  "assertions_id st modelID = st @ ''|'' @ modelID"

definition WriteAssertions :: "memory_backend \<Rightarrow> string \<Rightarrow> string \<Rightarrow> assertion list \<Rightarrow> memory_backend" where
  "WriteAssertions s st modelID as =
     s\<lparr>mb_assertions := (mb_assertions s)(assertions_id st modelID := Some as)\<rparr>"

definition ReadAssertions :: "memory_backend \<Rightarrow> string \<Rightarrow> string \<Rightarrow> assertion list" where
  "ReadAssertions s st modelID =
     (case mb_assertions s (assertions_id st modelID) of None \<Rightarrow> [] | Some as \<Rightarrow> as)"

end
