(* ===== verification/MemoryProps.thy ===== *)
theory MemoryProps
  imports Memory
begin

text \<open>
  Correctness of the in-memory datastore.  The tuples of a store are abstracted to a finite map from
  keys (object, relation, user) to conditions.  On valid keys \<open>Write\<close> implements the abstract
  transaction on this map, keeps at most one record per key, and appends to the changelog exactly
  the changes whose replay gives the new map; these facts hold in every state the operations can
  reach.  Reads return the records the filter describes, and a page of \<open>ReadPage\<close> or
  \<open>ReadChanges\<close> is the part of them that starts where its token says.
\<close>

section \<open>Abstraction\<close>

type_synonym tkey = "string \<times> string \<times> string"

definition tkey_of :: "'a plain_key_scheme \<Rightarrow> tkey" where
  "tkey_of tk = (tk_object tk, tk_relation tk, tk_user tk)"

definition rec_key :: "tuple_record \<Rightarrow> tkey" where
  "rec_key tr = (BuildObject (tr_object_type tr) (tr_object_id tr), tr_relation tr, tr_user tr)"

definition rec_condition :: "tuple_record \<Rightarrow> rel_condition option" where
  "rec_condition tr = NewRelationshipCondition (tr_condition_name tr) (tr_condition_context tr)"

definition abs_records :: "tuple_record list \<Rightarrow> (tkey \<rightharpoonup> rel_condition option)" where
  "abs_records trs = map_of (map (\<lambda>tr. (rec_key tr, rec_condition tr)) trs)"

definition valid_key :: "'a plain_key_scheme \<Rightarrow> bool" where
  "valid_key tk \<longleftrightarrow> IsValidObject (tk_object tk) \<and> IsValidRelation (tk_relation tk) \<and> IsValidUser (tk_user tk)"

definition wf_record :: "string \<Rightarrow> tuple_record \<Rightarrow> bool" where
  "wf_record st tr \<longleftrightarrow> tr_store tr = st \<and> CHR '':'' \<notin> set (tr_object_type tr) \<and> tr_user tr \<noteq> ''''"

definition wf_records :: "string \<Rightarrow> tuple_record list \<Rightarrow> bool" where
  "wf_records st trs \<longleftrightarrow> list_all (wf_record st) trs \<and> distinct (map rec_key trs)"

fun replay :: "tuple_change_rec list \<Rightarrow> (tkey \<rightharpoonup> rel_condition option) \<Rightarrow> (tkey \<rightharpoonup> rel_condition option)" where
  "replay [] m = m"
| "replay (c # cs) m =
     replay cs
       (case tc_operation (tcr_change c) of
          TUPLE_OPERATION_WRITE \<Rightarrow> m(tkey_of (tc_key (tcr_change c)) \<mapsto> tk_condition (tc_key (tcr_change c)))
        | TUPLE_OPERATION_DELETE \<Rightarrow> m(tkey_of (tc_key (tcr_change c)) := None))"

definition mem_inv :: "memory_backend \<Rightarrow> string \<Rightarrow> bool" where
  "mem_inv s st \<longleftrightarrow> wf_records st (mb_tuples s st)
     \<and> replay (mb_changes s st) Map.empty = abs_records (mb_tuples s st)"

text \<open>The abstract transaction: remove the deleted keys, then add the written keys not yet present.\<close>

definition spec_condition :: "tuple_key \<Rightarrow> rel_condition option" where
  "spec_condition t =
     NewRelationshipCondition (get_condition_name (tk_condition t)) (get_condition_context (tk_condition t))"

definition spec_insert :: "tuple_key \<Rightarrow> (tkey \<rightharpoonup> rel_condition option) \<Rightarrow> (tkey \<rightharpoonup> rel_condition option)" where
  "spec_insert t m = (if tkey_of t \<in> dom m then m else m(tkey_of t \<mapsto> spec_condition t))"

definition spec_Write ::
    "plain_key list \<Rightarrow> tuple_key list \<Rightarrow> (tkey \<rightharpoonup> rel_condition option) \<Rightarrow> (tkey \<rightharpoonup> rel_condition option)" where
  "spec_Write deletes writes m = fold spec_insert writes (m |` (- set (map tkey_of deletes)))"

section \<open>Matching is equality of keys\<close>

lemma IsValidObject_split:
  assumes "IsValidObject ob"
  obtains t i where "ob = BuildObject t i" "SplitObject ob = (t, i)" "i \<noteq> ''''" "CHR '':'' \<notin> set t"
  using assms unfolding IsValidObject_iff by (auto simp: BuildObject_def)

lemma BuildObject_eq_iff:
  "CHR '':'' \<notin> set t \<Longrightarrow> CHR '':'' \<notin> set t' \<Longrightarrow> BuildObject t i = BuildObject t' i' \<longleftrightarrow> t = t' \<and> i = i'"
  unfolding BuildObject_def using split_at_unique [of t "CHR '':''" i t' i'] by auto

lemma IsValidUser_user_id:
  assumes "IsValidUser u"
  obtains t i r where "ToUserParts u = (t, i, r)" "i \<noteq> ''''"
  using assms
proof (cases rule: IsValidUser_cases)
  case (userset t i r)
  then have "ToUserParts u = (t, i, r)"
    using SplitObjectRelation_append [of r "t @ CHR '':'' # i"] by (simp add: ToUserParts_def)
  with that userset show ?thesis by simp
qed (use that in \<open>simp_all add: ToUserParts_def\<close>)

lemma IsValidUser_not_Nil: "IsValidUser u \<Longrightarrow> u \<noteq> ''''"
  by (erule IsValidUser_cases) auto

lemma match_iff:
  assumes "wf_record st tr" and "valid_key tk"
  shows "match tr tk \<longleftrightarrow> rec_key tr = tkey_of tk"
proof -
  obtain t i where o: "tk_object tk = BuildObject t i" "SplitObject (tk_object tk) = (t, i)" "i \<noteq> ''''"
    "CHR '':'' \<notin> set t"
    using assms(2) by (auto simp: valid_key_def elim: IsValidObject_split)
  obtain a b c where u: "ToUserParts (tk_user tk) = (a, b, c)" "b \<noteq> ''''"
    using assms(2) by (auto simp: valid_key_def elim: IsValidUser_user_id)
  have "tk_object tk \<noteq> ''''" using o by (simp add: BuildObject_def)
  moreover have "tk_relation tk \<noteq> ''''"
    using assms(2) by (auto simp: valid_key_def IsValidRelation_iff)
  moreover have "tk_user tk \<noteq> ''''"
    using assms(2) IsValidUser_not_Nil by (auto simp: valid_key_def)
  ultimately show ?thesis
    using o u assms(1) BuildObject_eq_iff [of "tr_object_type tr" t "tr_object_id tr" i]
    by (auto simp: match_def match_object_def match_user_def rec_key_def tkey_of_def wf_record_def)
qed

lemma valid_key_convert [simp]:
  "valid_key (TupleKeyWithoutConditionToTupleKey k) = valid_key k"
  "tkey_of (TupleKeyWithoutConditionToTupleKey k) = tkey_of k"
  by (simp_all add: valid_key_def tkey_of_def TupleKeyWithoutConditionToTupleKey_def)

section \<open>The delete loop\<close>

lemma sanitize_deletes_dups:
  "sanitize_deletes records opts i tks = Inr dups \<Longrightarrow> j \<in> set dups \<Longrightarrow>
   i \<le> j \<and> j - i < length tks \<and> mem_find records (TupleKeyWithoutConditionToTupleKey (tks ! (j - i))) = None"
proof (induction tks arbitrary: i dups)
  case (Cons tk tks)
  show ?case
  proof (cases "mem_find records (TupleKeyWithoutConditionToTupleKey tk) = None")
    case True
    with Cons.prems obtain js where js: "sanitize_deletes records opts (i + 1) tks = Inr js" "dups = i # js"
      by (auto split: if_splits sum.splits)
    show ?thesis
    proof (cases "j = i")
      case False
      with Cons.prems js have "j \<in> set js" by simp
      from Cons.IH [OF js(1) this] show ?thesis by (auto simp: nth_Cons' Suc_diff_le)
    qed (use True in simp)
  next
    case False
    with Cons.prems have "sanitize_deletes records opts (i + 1) tks = Inr dups" by simp
    from Cons.IH [OF this Cons.prems(2)] show ?thesis by (auto simp: nth_Cons' Suc_diff_le)
  qed
qed simp

lemma deleted_by_iff:
  assumes "\<And>j. j \<in> set dups \<Longrightarrow> i \<le> j \<Longrightarrow> j - i < length ks \<Longrightarrow>
      \<not> match tr (TupleKeyWithoutConditionToTupleKey (ks ! (j - i)))"
  shows "deleted_by dups i ks tr \<longleftrightarrow> (\<exists>k \<in> set ks. match tr (TupleKeyWithoutConditionToTupleKey k))"
  using assms
proof (induction ks arbitrary: i)
  case (Cons k ks)
  have "deleted_by dups (i + 1) ks tr \<longleftrightarrow> (\<exists>k \<in> set ks. match tr (TupleKeyWithoutConditionToTupleKey k))"
  proof (rule Cons.IH)
    fix j assume "j \<in> set dups" "i + 1 \<le> j" "j - (i + 1) < length ks"
    with Cons.prems [of j] show "\<not> match tr (TupleKeyWithoutConditionToTupleKey (ks ! (j - (i + 1))))"
      by (auto simp: nth_Cons' Suc_diff_le)
  qed
  with Cons.prems [of i] show ?case by auto
qed simp

lemma delete_loop_records:
  "fst (delete_loop fresh now dups ds trs n) = filter (\<lambda>tr. \<not> deleted_by dups 0 ds tr) trs"
  by (induction trs arbitrary: n) (auto simp: case_prod_unfold)

lemma replay_append [simp]: "replay (a @ b) m = replay b (replay a m)"
  by (induction a m rule: replay.induct) simp_all

lemma dom_abs_records [simp]: "dom (abs_records trs) = rec_key ` set trs"
  by (simp add: abs_records_def dom_map_of_conv_image_fst image_image)

lemma abs_records_filter:
  "abs_records (filter (\<lambda>tr. rec_key tr \<notin> K) trs) = abs_records trs |` (- K)"
  by (induction trs) (auto simp: abs_records_def restrict_map_def fun_eq_iff)

lemma AsTuple_key:
  "tr_user tr \<noteq> '''' \<Longrightarrow> tkey_of (tup_key (AsTuple tr)) = rec_key tr \<and> tk_condition (tup_key (AsTuple tr)) = rec_condition tr"
  by (simp add: AsTuple_def Let_def tkey_of_def rec_key_def rec_condition_def NewTupleKeyWithCondition_def)

lemma replay_delete_change:
  "tr_user tr \<noteq> '''' \<Longrightarrow> replay (delete_change now u tr # cs) m = replay cs (m(rec_key tr := None))"
  using AsTuple_key [of tr] by (simp add: delete_change_def Let_def NewTupleKey_def tkey_of_def)

lemma replay_delete_loop:
  "list_all (wf_record st) trs \<Longrightarrow>
   replay (fst (snd (delete_loop fresh now dups ds trs n))) m
     = m |` (- rec_key ` {tr \<in> set trs. deleted_by dups 0 ds tr})"
proof (induction trs arbitrary: n m)
  case (Cons tr trs)
  then have u: "tr_user tr \<noteq> ''''" by (simp add: wf_record_def)
  show ?case
  proof (cases "deleted_by dups 0 ds tr")
    case True
    then have "replay (fst (snd (delete_loop fresh now dups ds (tr # trs) n))) m
        = (m(rec_key tr := None)) |` (- rec_key ` {tr \<in> set trs. deleted_by dups 0 ds tr})"
      using Cons by (simp add: case_prod_unfold replay_delete_change [OF u] del: replay.simps(2))
    also have "\<dots> = m |` (- rec_key ` {x \<in> set (tr # trs). deleted_by dups 0 ds x})"
      using True by (auto simp: restrict_map_def fun_eq_iff)
    finally show ?thesis .
  next
    case False
    then have "{x \<in> set (tr # trs). deleted_by dups 0 ds x} = {x \<in> set trs. deleted_by dups 0 ds x}" by auto
    with False Cons show ?thesis by (simp add: case_prod_unfold)
  qed
qed (simp add: restrict_map_def)

text \<open>After a successful check of the input, a record is deleted exactly when one of the deletes matches it.\<close>

lemma deleted_by_match:
  assumes "sanitize_deletes trs opts 0 ds = Inr dups" and "tr \<in> set trs"
  shows "deleted_by dups 0 ds tr \<longleftrightarrow> (\<exists>k \<in> set ds. match tr (TupleKeyWithoutConditionToTupleKey k))"
proof (rule deleted_by_iff)
  fix j assume "j \<in> set dups"
  from sanitize_deletes_dups [OF assms(1) this]
  have "mem_find trs (TupleKeyWithoutConditionToTupleKey (ds ! (j - 0))) = None" by simp
  with assms(2) show "\<not> match tr (TupleKeyWithoutConditionToTupleKey (ds ! (j - 0)))"
    by (simp add: mem_find_def find_first_None_iff)
qed

section \<open>The write loop\<close>

definition loop_inv :: "string \<Rightarrow> tuple_record list \<Rightarrow> tuple_change_rec list \<Rightarrow> bool" where
  "loop_inv st records changes \<longleftrightarrow>
     wf_records st records \<and> replay changes Map.empty = abs_records records"

lemma new_record_key:
  assumes "valid_key t"
  shows "rec_key (new_record st now u t) = tkey_of t" "wf_record st (new_record st now u t)"
    "rec_condition (new_record st now u t) = spec_condition t"
proof -
  obtain ty i where o: "tk_object t = BuildObject ty i" "SplitObject (tk_object t) = (ty, i)" "CHR '':'' \<notin> set ty"
    using assms by (auto simp: valid_key_def elim: IsValidObject_split)
  have "tk_user t \<noteq> ''''" using assms IsValidUser_not_Nil by (auto simp: valid_key_def)
  with o show "rec_key (new_record st now u t) = tkey_of t" "wf_record st (new_record st now u t)"
    "rec_condition (new_record st now u t) = spec_condition t"
    by (simp_all add: new_record_def rec_key_def tkey_of_def wf_record_def rec_condition_def spec_condition_def)
qed

lemma replay_write_change:
  assumes "valid_key t"
  shows "replay [write_change now u t] m = m(tkey_of t \<mapsto> spec_condition t)"
proof -
  obtain ty i where "tk_object t = BuildObject ty i" "SplitObject (tk_object t) = (ty, i)"
    using assms by (auto simp: valid_key_def elim: IsValidObject_split)
  then show ?thesis
    by (simp add: write_change_def tkey_of_def NewTupleKeyWithCondition_def spec_condition_def)
qed

lemma abs_records_append:
  "rec_key tr \<notin> rec_key ` set trs \<Longrightarrow> abs_records (trs @ [tr]) = (abs_records trs)(rec_key tr \<mapsto> rec_condition tr)"
proof -
  assume new: "rec_key tr \<notin> rec_key ` set trs"
  have "abs_records (trs @ [tr]) = [rec_key tr \<mapsto> rec_condition tr] ++ abs_records trs"
    by (simp add: abs_records_def)
  moreover have "abs_records trs (rec_key tr) = None"
    using new dom_abs_records [of trs] by (metis domIff)
  ultimately show ?thesis by (simp add: map_add_def fun_eq_iff split: option.split)
qed

lemma write_loop_inv:
  "loop_inv st records changes \<Longrightarrow> list_all valid_key ts \<Longrightarrow>
   write_loop fresh st now ts records changes n = (records', changes') \<Longrightarrow>
   loop_inv st records' changes' \<and> abs_records records' = fold spec_insert ts (abs_records records)"
proof (induction ts arbitrary: records changes n)
  case (Cons t ts)
  then have valid: "valid_key t" "list_all valid_key ts" by simp_all
  have wf: "list_all (wf_record st) records" using Cons.prems(1) by (simp add: loop_inv_def wf_records_def)
  have ex: "list_ex (\<lambda>et. match et t) records \<longleftrightarrow> tkey_of t \<in> dom (abs_records records)"
    using wf valid(1) by (auto simp: list_ex_iff list_all_iff match_iff image_iff) (metis match_iff)+
  show ?case
  proof (cases "list_ex (\<lambda>et. match et t) records")
    case True
    with ex have "spec_insert t (abs_records records) = abs_records records" by (simp add: spec_insert_def)
    with True Cons.IH [OF Cons.prems(1) valid(2)] Cons.prems(3) show ?thesis by simp
  next
    case False
    let ?r = "new_record st now (fresh n) t" and ?c = "write_change now (fresh (n + 1)) t"
    note key = new_record_key [OF valid(1), of st now "fresh n"]
    have new: "rec_key ?r \<notin> rec_key ` set records" using False ex key(1) by simp
    have abs: "abs_records (records @ [?r]) = spec_insert t (abs_records records)"
      using abs_records_append [OF new] False ex key by (simp add: spec_insert_def)
    have "loop_inv st (records @ [?r]) (changes @ [?c])"
      using Cons.prems(1) new key abs_records_append [OF new] replay_write_change [OF valid(1)]
      by (auto simp: loop_inv_def wf_records_def simp del: replay.simps)
    from Cons.IH [OF this valid(2)] Cons.prems(3) False abs show ?thesis by simp
  qed
qed simp

section \<open>The transaction\<close>

lemma Write_SomeD:
  assumes "Write struct_string fresh now s st deletes writes opts = (None, s')"
  obtains dups kept deleted n records changes dw where
    "sanitize_deletes (mb_tuples s st) (NewTupleWriteOptions opts) 0 deletes = Inr dups"
    "sanitize_writes struct_string (mb_tuples s st) (NewTupleWriteOptions opts) 0 writes = Inr dw"
    "delete_loop fresh now dups deletes (mb_tuples s st) 0 = (kept, deleted, n)"
    "write_loop fresh st now writes kept (mb_changes s st @ deleted) n = (records, changes)"
    "s' = s\<lparr>mb_changes := (mb_changes s)(st := changes), mb_tuples := (mb_tuples s)(st := records)\<rparr>"
  using assms by (auto simp: Write_def sanitizeTuplesWriteDelete_def split: sum.splits prod.splits)

text \<open>
  A write of valid tuples: the records matched by the deletes are removed, whatever the deletes are, and
  the new tuples added.
\<close>

definition matched_keys :: "plain_key list \<Rightarrow> tuple_record list \<Rightarrow> tkey set" where
  "matched_keys deletes trs = rec_key ` {tr \<in> set trs. \<exists>k \<in> set deletes. match tr (TupleKeyWithoutConditionToTupleKey k)}"

lemma Write_removes_matches:
  assumes inv: "mem_inv s st" and valid: "list_all valid_key writes"
    and Write: "Write struct_string fresh now s st deletes writes opts = (None, s')"
  shows "mem_inv s' st
    \<and> abs_records (mb_tuples s' st)
        = fold spec_insert writes (abs_records (mb_tuples s st) |` (- matched_keys deletes (mb_tuples s st)))
    \<and> (\<forall>st'. st' \<noteq> st \<longrightarrow> mb_tuples s' st' = mb_tuples s st' \<and> mb_changes s' st' = mb_changes s st')"
  using Write
proof (rule Write_SomeD)
  fix dups kept deleted n records changes dw
  let ?trs = "mb_tuples s st" and ?K = "matched_keys deletes (mb_tuples s st)"
  assume san: "sanitize_deletes ?trs (NewTupleWriteOptions opts) 0 deletes = Inr dups"
    and del: "delete_loop fresh now dups deletes ?trs 0 = (kept, deleted, n)"
    and wr: "write_loop fresh st now writes kept (mb_changes s st @ deleted) n = (records, changes)"
    and s': "s' = s\<lparr>mb_changes := (mb_changes s)(st := changes), mb_tuples := (mb_tuples s)(st := records)\<rparr>"
  from inv have wf: "list_all (wf_record st) ?trs" and dist: "distinct (map rec_key ?trs)"
    and rep: "replay (mb_changes s st) Map.empty = abs_records ?trs"
    by (simp_all add: mem_inv_def wf_records_def)
  have gone: "deleted_by dups 0 deletes tr \<longleftrightarrow> rec_key tr \<in> ?K" if "tr \<in> set ?trs" for tr
    using deleted_by_match [OF san] that dist by (auto simp: matched_keys_def distinct_map inj_on_def)
  have kept: "kept = filter (\<lambda>tr. rec_key tr \<notin> ?K) ?trs"
    using delete_loop_records [of fresh now dups deletes ?trs 0] del gone by (simp cong: filter_cong)
  have absk: "abs_records kept = abs_records ?trs |` (- ?K)"
    unfolding kept by (rule abs_records_filter)
  have "rec_key ` {tr \<in> set ?trs. deleted_by dups 0 deletes tr} = ?K"
    using deleted_by_match [OF san] by (auto simp: matched_keys_def)
  then have "replay (mb_changes s st @ deleted) Map.empty = abs_records ?trs |` (- ?K)"
    using replay_delete_loop [OF wf, of fresh now dups deletes 0] del rep by simp
  then have "loop_inv st kept (mb_changes s st @ deleted)"
    using wf dist absk kept
    by (auto simp: loop_inv_def wf_records_def list_all_iff distinct_map inj_on_def)
  from write_loop_inv [OF this valid wr] absk
  have "loop_inv st records changes"
    and "abs_records records = fold spec_insert writes (abs_records ?trs |` (- ?K))" by simp_all
  then show ?thesis by (simp add: s' mem_inv_def loop_inv_def)
qed

lemma matched_keys_valid:
  assumes "mem_inv s st" and "list_all valid_key deletes"
  shows "matched_keys deletes (mb_tuples s st) = set (map tkey_of deletes) \<inter> dom (abs_records (mb_tuples s st))"
proof -
  let ?trs = "mb_tuples s st"
  have "match tr (TupleKeyWithoutConditionToTupleKey k) \<longleftrightarrow> rec_key tr = tkey_of k" if "tr \<in> set ?trs" "k \<in> set deletes" for tr k
    using assms that by (auto simp: mem_inv_def wf_records_def list_all_iff match_iff)
  then have "{tr \<in> set ?trs. \<exists>k \<in> set deletes. match tr (TupleKeyWithoutConditionToTupleKey k)}
      = {tr \<in> set ?trs. rec_key tr \<in> set (map tkey_of deletes)}" by auto
  then show ?thesis unfolding matched_keys_def by auto
qed

lemma restrict_dom_Compl: "K = L \<inter> dom m \<Longrightarrow> m |` (- K) = m |` (- L)"
  by (auto simp: restrict_map_def fun_eq_iff domIff)

lemma Write_correct:
  assumes inv: "mem_inv s st" and valid: "list_all valid_key deletes" "list_all valid_key writes"
    and Write: "Write struct_string fresh now s st deletes writes opts = (None, s')"
  shows "mem_inv s' st
    \<and> abs_records (mb_tuples s' st) = spec_Write deletes writes (abs_records (mb_tuples s st))
    \<and> (\<forall>st'. st' \<noteq> st \<longrightarrow> mb_tuples s' st' = mb_tuples s st' \<and> mb_changes s' st' = mb_changes s st')"
  using Write_removes_matches [OF inv valid(2) Write] restrict_dom_Compl [OF matched_keys_valid [OF inv valid(1)]]
  by (simp add: spec_Write_def)

text \<open>
  C3: a write of valid tuples that succeeds applies the abstract transaction: the keys listed in the
  deletes are removed, then every written key that is not present is added with its condition;
  other stores are untouched, every key keeps at most one record, and replaying the changelog
  still gives the tuples.
\<close>

theorem Write_implements_transaction:
  assumes "mem_inv s st" and "list_all valid_key deletes" and "list_all valid_key writes"
    and "Write struct_string fresh now s st deletes writes opts = (None, s')"
  shows "mem_inv s' st
    \<and> abs_records (mb_tuples s' st) = spec_Write deletes writes (abs_records (mb_tuples s st))
    \<and> (\<forall>st'. st' \<noteq> st \<longrightarrow> mb_tuples s' st' = mb_tuples s st' \<and> mb_changes s' st' = mb_changes s st')"
  using Write_correct [OF assms] .

lemma mem_inv_New: "mem_inv (New []) st"
  by (simp add: mem_inv_def New_def wf_records_def abs_records_def)

lemma valid_key_example:
  "list_all valid_key [NewTupleKey ''doc:1'' ''viewer'' ''user:anne'']"
  by code_simp

theorem Write_implements_transaction_witness:
  "abs_records (mb_tuples (snd (Write (\<lambda>_. '''') (\<lambda>i. i) 7 (New []) ''s'' []
      [NewTupleKey ''doc:1'' ''viewer'' ''user:anne''] [])) ''s'') (''doc:1'', ''viewer'', ''user:anne'')
   = Some None"
proof -
  let ?w = "[NewTupleKey ''doc:1'' ''viewer'' ''user:anne'']"
  let ?r = "Write (\<lambda>_. '''') (\<lambda>i. i) 7 (New []) ''s'' [] ?w []"
  have "fst ?r = None" by code_simp
  then have "?r = (None, snd ?r)" by (metis prod.collapse)
  from Write_implements_transaction [OF mem_inv_New _ valid_key_example this]
  have "abs_records (mb_tuples (snd ?r) ''s'') = spec_Write [] ?w (abs_records (mb_tuples (New []) ''s''))"
    by simp
  then show ?thesis
    by (simp add: spec_Write_def spec_insert_def New_def abs_records_def tkey_of_def NewTupleKey_def
        spec_condition_def NewRelationshipCondition_def)
qed

section \<open>Reachable states\<close>

text \<open>
  The states the operations can reach from an empty datastore.  The inserted tuples are valid, as the
  write command makes sure; the deletes are arbitrary.  Reads do not change the state.
\<close>

inductive mem_step :: "memory_backend \<Rightarrow> memory_backend \<Rightarrow> bool" where
  step_Write: "list_all valid_key writes \<Longrightarrow> mem_step s (snd (Write struct_string fresh now s st deletes writes opts))"
| step_WriteAuthorizationModel: "mem_step s (WriteAuthorizationModel s st m)"
| step_CreateStore: "mem_step s (snd (CreateStore now s ident name))"
| step_DeleteStore: "mem_step s (DeleteStore s ident)"
| step_WriteAssertions: "mem_step s (WriteAssertions s st ident as)"

inductive_cases mem_stepE: "mem_step s s'"

definition mem_reachable :: "memory_backend \<Rightarrow> bool" where
  "mem_reachable s \<longleftrightarrow> (\<exists>opts. mem_step\<^sup>*\<^sup>* (New opts) s)"

lemma New_empty: "mb_tuples (New opts) = (\<lambda>_. []) \<and> mb_changes (New opts) = (\<lambda>_. []) \<and> mb_models (New opts) = (\<lambda>_. None)
    \<and> mb_stores (New opts) = []"
proof -
  have "mb_tuples (fold apply_storage_option opts s) = mb_tuples s
      \<and> mb_changes (fold apply_storage_option opts s) = mb_changes s
      \<and> mb_models (fold apply_storage_option opts s) = mb_models s
      \<and> mb_stores (fold apply_storage_option opts s) = mb_stores s" for s
  proof (induction opts arbitrary: s)
    case (Cons opt opts)
    then show ?case by (cases opt) simp_all
  qed simp
  then show ?thesis by (simp add: New_def)
qed

lemma Write_error_unchanged:
  "fst (Write struct_string fresh now s st deletes writes opts) \<noteq> None \<Longrightarrow>
   snd (Write struct_string fresh now s st deletes writes opts) = s"
  by (auto simp: Write_def split: sum.splits prod.splits)

lemma Write_preserves_inv:
  assumes "\<forall>st. mem_inv s st" and "list_all valid_key writes"
  shows "\<forall>st'. mem_inv (snd (Write struct_string fresh now s st deletes writes opts)) st'"
proof (cases "fst (Write struct_string fresh now s st deletes writes opts)")
  case None
  then have "Write struct_string fresh now s st deletes writes opts
      = (None, snd (Write struct_string fresh now s st deletes writes opts))" by (metis prod.collapse)
  note correct = Write_removes_matches [OF assms(1) [rule_format] assms(2) this]
  show ?thesis
  proof
    fix st'
    show "mem_inv (snd (Write struct_string fresh now s st deletes writes opts)) st'"
      using correct assms(1) by (cases "st' = st") (simp_all add: mem_inv_def)
  qed
next
  case (Some e)
  with assms(1) Write_error_unchanged [of struct_string fresh now s st deletes writes opts]
  show ?thesis by simp
qed

lemma mem_step_inv:
  assumes "mem_step s s'" and "\<forall>st. mem_inv s st"
  shows "\<forall>st. mem_inv s' st"
  using assms(1)
proof (cases rule: mem_step.cases)
  case (step_Write writes struct_string fresh now st deletes opts)
  with Write_preserves_inv [OF assms(2)] show ?thesis by blast
qed (use assms(2) in \<open>simp_all add: mem_inv_def WriteAuthorizationModel_def CreateStore_def DeleteStore_def
      WriteAssertions_def Let_def\<close>)

lemma mem_steps_inv: "mem_step\<^sup>*\<^sup>* s s' \<Longrightarrow> \<forall>st. mem_inv s st \<Longrightarrow> \<forall>st. mem_inv s' st"
  by (induction rule: rtranclp_induct) (blast dest: mem_step_inv)+

lemma mem_reachable_inv: "mem_reachable s \<Longrightarrow> mem_inv s st"
  unfolding mem_reachable_def
  using mem_steps_inv New_empty by (auto simp: mem_inv_def wf_records_def abs_records_def)

text \<open>
  C10: in every state that the operations of the datastore reach from the empty one, where inserted
  tuples have a valid object, relation and user and deletes are arbitrary, the changelog of a store,
  replayed from the empty store, gives exactly its tuples, and no two tuples have the same object,
  relation and user.
\<close>

theorem changelog_replays_to_tuples:
  assumes "mem_reachable s"
  shows "replay (mb_changes s st) Map.empty = abs_records (mb_tuples s st)
    \<and> distinct (map rec_key (mb_tuples s st))"
  using mem_reachable_inv [OF assms] by (simp add: mem_inv_def wf_records_def)

lemma list_all_Nil: "list_all P []"
  by simp

lemma mem_reachable_example:
  "mem_reachable (snd (Write (\<lambda>_. '''') (\<lambda>i. i) 7 (New []) ''s'' []
      [NewTupleKey ''doc:1'' ''viewer'' ''user:anne''] []))"
  unfolding mem_reachable_def using step_Write [OF valid_key_example] by (blast intro: r_into_rtranclp)

theorem changelog_replays_to_tuples_witness:
  "replay (mb_changes (snd (Write (\<lambda>_. '''') (\<lambda>i. i) 7 (New []) ''s'' []
      [NewTupleKey ''doc:1'' ''viewer'' ''user:anne''] [])) ''s'') Map.empty
   = abs_records (mb_tuples (snd (Write (\<lambda>_. '''') (\<lambda>i. i) 7 (New []) ''s'' []
      [NewTupleKey ''doc:1'' ''viewer'' ''user:anne''] [])) ''s'')"
  using changelog_replays_to_tuples [OF mem_reachable_example, of "''s''"] by (rule conjunct1)

section \<open>Which writes are refused\<close>

definition stored :: "memory_backend \<Rightarrow> string \<Rightarrow> tkey \<Rightarrow> tuple_record option" where
  "stored s st k = find_first (\<lambda>tr. rec_key tr = k) (mb_tuples s st)"

lemma mem_find_stored:
  assumes "mem_inv s st" and "valid_key tk"
  shows "mem_find (mb_tuples s st) tk = stored s st (tkey_of tk)"
proof -
  have "match tr tk \<longleftrightarrow> rec_key tr = tkey_of tk" if "tr \<in> set (mb_tuples s st)" for tr
    using assms that match_iff by (fastforce simp: mem_inv_def wf_records_def list_all_iff)
  then show ?thesis unfolding mem_find_def stored_def
    by (rule find_first_cong [OF refl])
qed

lemma sanitize_deletes_Inr:
  "(\<exists>js. sanitize_deletes records opts i ds = Inr js) \<longleftrightarrow>
   two_on_missing_delete opts = OnMissingDeleteIgnore
   \<or> (\<forall>d \<in> set ds. mem_find records (TupleKeyWithoutConditionToTupleKey d) \<noteq> None)"
  by (induction ds arbitrary: i) (auto simp: res_simps)

definition insert_ok :: "(pbstruct option \<Rightarrow> string) \<Rightarrow> tuple_write_options \<Rightarrow> tuple_record option \<Rightarrow> tuple_key \<Rightarrow> bool" where
  "insert_ok struct_string opts old t =
     (case old of
        None \<Rightarrow> True
      | Some r \<Rightarrow> two_on_duplicate_insert opts = OnDuplicateInsertIgnore
          \<and> tr_condition_name r = get_condition_name (tk_condition t)
          \<and> struct_string (tr_condition_context r) = struct_string (get_condition_context (tk_condition t)))"

lemma sanitize_writes_Inr:
  "(\<exists>js. sanitize_writes struct_string records opts i ws = Inr js) \<longleftrightarrow>
   (\<forall>w \<in> set ws. insert_ok struct_string opts (mem_find records w) w)"
  by (induction ws arbitrary: i) (auto simp: res_simps insert_ok_def split: option.split)

text \<open>
  C26: in a state with one record per key, a write whose inserts have a valid object, relation and user
  is refused, and then changes nothing, exactly when one of its deletes matches no stored tuple (unless
  missing deletes are ignored) or it inserts a tuple that is stored, unless duplicates are ignored and
  the stored tuple has the same condition and context.  A delete with a valid object, relation and user
  matches exactly the tuple it names.
\<close>

theorem Write_refused_iff:
  assumes "mem_inv s st" and "list_all valid_key writes"
  shows "(fst (Write struct_string fresh now s st deletes writes opts) \<noteq> None \<longleftrightarrow>
      (two_on_missing_delete (NewTupleWriteOptions opts) = OnMissingDeleteError
         \<and> (\<exists>d \<in> set deletes. mem_find (mb_tuples s st) d = None))
      \<or> (\<exists>w \<in> set writes. \<not> insert_ok struct_string (NewTupleWriteOptions opts) (stored s st (tkey_of w)) w))
    \<and> (fst (Write struct_string fresh now s st deletes writes opts) \<noteq> None \<longrightarrow>
      snd (Write struct_string fresh now s st deletes writes opts) = s)
    \<and> (\<forall>d \<in> set deletes. valid_key d \<longrightarrow> mem_find (mb_tuples s st) d = stored s st (tkey_of d))"
proof -
  let ?o = "NewTupleWriteOptions opts"
  have conv: "mem_find trs (TupleKeyWithoutConditionToTupleKey d) = mem_find trs d" for trs d
    by (simp add: mem_find_def match_def TupleKeyWithoutConditionToTupleKey_def)
  have "fst (Write struct_string fresh now s st deletes writes opts) = None \<longleftrightarrow>
      (\<exists>js. sanitize_deletes (mb_tuples s st) ?o 0 deletes = Inr js)
      \<and> (\<exists>js. sanitize_writes struct_string (mb_tuples s st) ?o 0 writes = Inr js)"
    by (auto simp: Write_def sanitizeTuplesWriteDelete_def split: sum.splits prod.splits)
  also have "\<dots> \<longleftrightarrow> (two_on_missing_delete ?o = OnMissingDeleteIgnore \<or> (\<forall>d \<in> set deletes. mem_find (mb_tuples s st) d \<noteq> None))
      \<and> (\<forall>w \<in> set writes. insert_ok struct_string ?o (stored s st (tkey_of w)) w)"
    using assms by (auto simp: sanitize_deletes_Inr sanitize_writes_Inr list_all_iff mem_find_stored conv)
  finally show ?thesis
    using Write_error_unchanged mem_find_stored [OF assms(1)] by (cases "two_on_missing_delete ?o") auto
qed

theorem Write_refused_iff_witness:
  "fst (Write (\<lambda>_. '''') (\<lambda>i. i) 7 (New []) ''s'' [\<lparr>tk_object = ''doc:1'', tk_relation = ''viewer'', tk_user = ''user:anne''\<rparr>]
     [] []) \<noteq> None"
proof -
  let ?d = "\<lparr>tk_object = ''doc:1'', tk_relation = ''viewer'', tk_user = ''user:anne''\<rparr>"
  from Write_refused_iff [OF mem_inv_New list_all_Nil, of "\<lambda>_. ''''" "\<lambda>i. i" 7 "''s''" "[?d]" "[]"]
  show ?thesis by (simp add: mem_find_def New_def NewTupleWriteOptions_def)
qed

section \<open>Reading\<close>

text \<open>
  Looking up a valid key returns the stored tuple with its condition when there is one whose
  condition name passes the filter, and otherwise the error \<open>ErrNotFound\<close>.
\<close>

lemma ReadUserTuple_lookup:
  assumes "mem_inv s st" and "valid_key (NewTupleKey (rf_object f) (rf_relation f) (rf_user f))"
  shows "ReadUserTuple s st f =
    (case stored s st (rf_object f, rf_relation f, rf_user f) of
       None \<Rightarrow> Inl ErrNotFound
     | Some r \<Rightarrow> if conditions_allow (rf_conditions f) r then Inr (AsTuple r) else Inl ErrNotFound)"
proof -
  let ?k = "(rf_object f, rf_relation f, rf_user f)"
  have "find_first (\<lambda>t. match t (NewTupleKey (rf_object f) (rf_relation f) (rf_user f)) \<and> conditions_allow (rf_conditions f) t) trs
      = (case find_first (\<lambda>tr. rec_key tr = ?k) trs of
           None \<Rightarrow> None | Some r \<Rightarrow> if conditions_allow (rf_conditions f) r then Some r else None)"
    if "wf_records st trs" for trs
    using that
  proof (induction trs)
    case (Cons tr trs)
    have m: "match tr (NewTupleKey (rf_object f) (rf_relation f) (rf_user f)) \<longleftrightarrow> rec_key tr = ?k"
      using match_iff [of st tr "NewTupleKey (rf_object f) (rf_relation f) (rf_user f)"] assms(2) Cons.prems
      by (simp add: wf_records_def tkey_of_def NewTupleKey_def)
    have none: "find_first (\<lambda>tr. rec_key tr = ?k) trs = None" if "rec_key tr = ?k"
      using Cons.prems that by (force simp: wf_records_def find_first_None_iff)
    from Cons none show ?case by (auto simp: m wf_records_def)
  qed simp
  with assms(1) show ?thesis
    by (simp add: ReadUserTuple_def stored_def mem_inv_def split: option.split)
qed

lemma ReadPage_at:
  assumes "0 < ps" and "k \<le> length (read_matches s st f)"
    and "int (length (read_matches s st f)) + ps < 2 ^ 63"
    and "token = '''' \<and> k = 0 \<or> token = Itoa (int k)"
  shows "ReadPage s st f (NewPaginationOptions ps token) =
    Inr (map AsTuple (take (nat ps) (drop k (read_matches s st f))),
         if k + nat ps < length (read_matches s st f) then Itoa (int (k + nat ps)) else '''')"
proof -
  let ?ms = "read_matches s st f"
  have r: "int64_range (int k)" "int64_range (int k + ps)"
    using assms(1-3) by (auto simp: int64_range_def)
  have start: "(if po_from (NewPaginationOptions ps token) \<noteq> '''' then Atoi (po_from (NewPaginationOptions ps token))
      else Some 0) = Some (int k)"
    using assms(4) r(1) by (auto simp: NewPaginationOptions_def)
  have size: "po_page_size (NewPaginationOptions ps token) = ps"
    using assms(1) by (simp add: NewPaginationOptions_def)
  have more: "ps < int (length (drop k ?ms)) \<longleftrightarrow> k + nat ps < length ?ms"
    using assms(1,2) by auto
  show ?thesis
    using assms(1,2) r(2) more unfolding ReadPage_def mem_read_def option.case start size Let_def
    by (auto simp: not_less)
qed

text \<open>
  A numeric continuation token outside the result is not refused: a negative one makes
  \<open>ReadPage\<close> panic with a slice out of range, and one past the end starts again with the first
  page instead of returning nothing.
\<close>

lemma ReadPage_token_out_of_range:
  assumes "token \<noteq> ''''" and "Atoi token = Some k" and "0 < ps"
  shows "(k < 0 \<longrightarrow> ReadPage s st f (NewPaginationOptions ps token) = Inl SlicePanic)
    \<and> (int (length (read_matches s st f)) < k \<longrightarrow>
         map_sum id fst (ReadPage s st f (NewPaginationOptions ps token))
           = Inr (map AsTuple (take (nat ps) (read_matches s st f))))"
  using assms by (auto simp: ReadPage_def mem_read_def NewPaginationOptions_def Let_def)

lemma mem_userset_filter:
  "x \<in> set (starting_with_user_matches f t) \<longleftrightarrow>
   x = t \<and> tr_object_type t = rsw_object_type f \<and> tr_relation t = rsw_relation f
   \<and> (case rsw_object_ids f of None \<Rightarrow> True | Some ids \<Rightarrow> tr_object_id t \<in> set ids)
   \<and> conditions_allow (rsw_conditions f) t \<and> tr_user t \<in> user_filter_target ` set (rsw_user_filter f)"
  by (force simp: starting_with_user_matches_def split: option.splits)

text \<open>
  C30: \<open>ReadStartingWithUser\<close> returns, sorted by object identifier, exactly the stored tuples of the
  object type and relation whose user is one of the listed users and that pass the object and
  condition filters; each once when the listed users are different.
\<close>

theorem ReadStartingWithUser_correct:
  assumes "mem_inv s st" and "distinct (map user_filter_target (rsw_user_filter f))"
  shows "sorted (map tr_object_id (si_records (ReadStartingWithUser s st f)))
    \<and> distinct (si_records (ReadStartingWithUser s st f))
    \<and> set (si_records (ReadStartingWithUser s st f)) =
      {t \<in> set (mb_tuples s st). tr_object_type t = rsw_object_type f \<and> tr_relation t = rsw_relation f
         \<and> (case rsw_object_ids f of None \<Rightarrow> True | Some ids \<Rightarrow> tr_object_id t \<in> set ids)
         \<and> conditions_allow (rsw_conditions f) t \<and> tr_user t \<in> user_filter_target ` set (rsw_user_filter f)}"
proof -
  have once: "length (starting_with_user_matches f t) \<le> 1" for t
  proof -
    have "length (filter (\<lambda>u. user_filter_target u = tr_user t) us) \<le> 1" if "distinct (map user_filter_target us)" for us
      using that by (induction us) (auto simp: filter_empty_conv image_iff)
    with assms(2) show ?thesis by (simp add: starting_with_user_matches_def)
  qed
  have "distinct (concat (map (starting_with_user_matches f) trs))" if "distinct trs" for trs
    using that
  proof (induction trs)
    case (Cons t ts)
    have "distinct (starting_with_user_matches f t)"
      using once [of t] by (cases "starting_with_user_matches f t") auto
    with Cons show ?case by (auto simp: mem_userset_filter)
  qed simp
  moreover have "distinct (mb_tuples s st)"
    using assms(1) by (auto simp: mem_inv_def wf_records_def distinct_map)
  moreover have "set (concat (map (starting_with_user_matches f) (mb_tuples s st))) =
      {t \<in> set (mb_tuples s st). tr_object_type t = rsw_object_type f \<and> tr_relation t = rsw_relation f
         \<and> (case rsw_object_ids f of None \<Rightarrow> True | Some ids \<Rightarrow> tr_object_id t \<in> set ids)
         \<and> conditions_allow (rsw_conditions f) t \<and> tr_user t \<in> user_filter_target ` set (rsw_user_filter f)}"
    unfolding set_concat set_map by (intro set_eqI) (simp add: mem_userset_filter)
  ultimately show ?thesis by (simp add: ReadStartingWithUser_def)
qed

theorem ReadStartingWithUser_correct_witness:
  "set (si_records (ReadStartingWithUser (New []) ''s'' \<lparr>rsw_object_type = ''doc'', rsw_relation = ''viewer'',
     rsw_user_filter = [\<lparr>or_object = ''user:a'', or_relation = ''''\<rparr>], rsw_object_ids = None, rsw_conditions = []\<rparr>)) = {}"
  using ReadStartingWithUser_correct [OF mem_inv_New, of "\<lparr>rsw_object_type = ''doc'', rsw_relation = ''viewer'',
     rsw_user_filter = [\<lparr>or_object = ''user:a'', or_relation = ''''\<rparr>], rsw_object_ids = None, rsw_conditions = []\<rparr>" "''s''"]
  by (simp add: New_def)

section \<open>Authorization models\<close>

lemma find_first_update:
  assumes "\<forall>p \<in> set tm. \<not> me_latest (snd p)" and "me_latest e"
  shows "map_option (\<lambda>p. me_model (snd p)) (find_first (\<lambda>p. me_latest (snd p)) (AList.update k e tm)) = Some (me_model e)"
  using assms by (induction tm) auto

text \<open>
  The model written last is the latest one, it can be read back by its identifier, and the
  models of other stores and the older models of the same store stay readable.
\<close>

lemma WriteAuthorizationModel_readback:
  assumes "am_id m \<noteq> ''''" and "am_type_definitions m \<noteq> []"
  shows "FindLatestAuthorizationModel (WriteAuthorizationModel s st m) st = Inr m
    \<and> ReadAuthorizationModel (WriteAuthorizationModel s st m) st (am_id m) = Inr m
    \<and> ReadAuthorizationModel (WriteAuthorizationModel s st m) st '''' = Inr m
    \<and> (\<forall>st' ident. ident \<noteq> '''' \<and> (st' \<noteq> st \<or> ident \<noteq> am_id m) \<longrightarrow>
         ReadAuthorizationModel (WriteAuthorizationModel s st m) st' ident = ReadAuthorizationModel s st' ident)"
proof -
  let ?old = "map (\<lambda>(k, e). (k, e\<lparr>me_latest := False\<rparr>)) (case mb_models s st of None \<Rightarrow> [] | Some tm \<Rightarrow> tm)"
  let ?e = "\<lparr>me_model = m, me_latest = True\<rparr>"
  have models: "mb_models (WriteAuthorizationModel s st m) = (mb_models s)(st := Some (AList.update (am_id m) ?e ?old))"
    by (simp add: WriteAuthorizationModel_def Let_def)
  have latest: "findAuthorizationModelByID '''' (AList.update (am_id m) ?e ?old) = Some m"
    using find_first_update [of ?old ?e "am_id m"] by (auto simp: findAuthorizationModelByID_def)
  have other: "findAuthorizationModelByID ident (AList.update (am_id m) ?e ?old)
      = findAuthorizationModelByID ident (case mb_models s st of None \<Rightarrow> [] | Some tm \<Rightarrow> tm)"
    if "ident \<noteq> ''''" "ident \<noteq> am_id m" for ident
    using that by (simp add: findAuthorizationModelByID_def update_conv' map_of_map split: option.split)
  show ?thesis
    using assms latest other
    by (auto simp: FindLatestAuthorizationModel_def ReadAuthorizationModel_def models findAuthorizationModelByID_def
        update_conv' split: option.splits)
qed

section \<open>Following the changelog\<close>

definition visible :: "string \<Rightarrow> int \<Rightarrow> tuple_change_rec list \<Rightarrow> tuple_change_rec list" where
  "visible objectType horizon cs =
     takeWhile (\<lambda>c. tc_timestamp (tcr_change c) \<le> horizon)
       (filter (\<lambda>c. objectType = '''' \<or> HasPrefix (tk_object (tc_key (tcr_change c))) (objectType @ '':'')) cs)"

lemma changes_loop_visible:
  "changes_loop ot h None d cs = visible ot h cs"
  "changes_loop ot h (Some u) False cs = filter (\<lambda>c. u < tcr_ulid c) (visible ot h cs)"
  "changes_loop ot h (Some u) True cs = filter (\<lambda>c. tcr_ulid c < u) (visible ot h cs)"
  by (induction cs) (auto simp: visible_def not_le not_less)

lemma sorted_after_last:
  assumes "sorted_wrt (<) (map tcr_ulid (xs @ ys))" and "xs \<noteq> []"
  shows "filter (\<lambda>c. tcr_ulid (last xs) < tcr_ulid c) (xs @ ys) = ys"
proof -
  obtain zs z where xs: "xs = zs @ [z]" using assms(2) by (cases xs rule: rev_cases) auto
  from assms(1) have "\<forall>c \<in> set zs. tcr_ulid c < tcr_ulid z" "\<forall>c \<in> set ys. tcr_ulid z < tcr_ulid c"
    by (auto simp: xs sorted_wrt_append)
  then show ?thesis by (simp add: xs filter_empty_conv filter_id_conv less_imp_not_less)
qed

lemma sorted_visible:
  "sorted_wrt (<) (map tcr_ulid cs) \<Longrightarrow> sorted_wrt (<) (map tcr_ulid (visible ot h cs))"
  unfolding visible_def sorted_wrt_map
  by (subst takeWhile_eq_take) (intro sorted_wrt_take sorted_wrt_filter)

lemma ReadChanges_page:
  assumes "\<And>u. ulid_parse (ulid_string u) = Some u \<and> ulid_string u \<noteq> ''''"
    and "visible (rcf_object_type f) (now - rcf_horizon_offset f) (mb_changes s st) = pre @ rest"
    and "sorted_wrt (<) (map tcr_ulid (mb_changes s st))" and "0 < ps"
    and "token = '''' \<and> pre = [] \<or> pre \<noteq> [] \<and> token = ulid_string (tcr_ulid (last pre))"
  shows "ReadChanges ulid_parse ulid_string now s st f
      \<lparr>rco_pagination = NewPaginationOptions ps token, rco_sort_desc = False\<rparr> =
    (if rest = [] then Inl ErrNotFound
     else Inr (map tcr_change (take (nat ps) rest), ulid_string (tcr_ulid (last (take (nat ps) rest)))))"
proof -
  define start where "start = (if token = '''' then None else Some (tcr_ulid (last pre)))"
  have start: "(if po_from (NewPaginationOptions ps token) \<noteq> ''''
      then map_option Some (ulid_parse (po_from (NewPaginationOptions ps token))) else Some None) = Some start"
    using assms(1,5) by (auto simp: start_def NewPaginationOptions_def)
  have "sorted_wrt (<) (map tcr_ulid (pre @ rest))"
    using sorted_visible [OF assms(3)] assms(2) by metis
  then have all: "changes_loop (rcf_object_type f) (now - rcf_horizon_offset f) start False (mb_changes s st) = rest"
    using assms(1,2,5) sorted_after_last [of pre rest] by (auto simp: start_def changes_loop_visible)
  have to: "nat (if int (length rest) < ps then int (length rest) else ps) = min (length rest) (nat ps)"
    using assms(4) by auto
  have "po_page_size (NewPaginationOptions ps token) = ps"
    using assms(4) by (simp add: NewPaginationOptions_def)
  then show ?thesis
    unfolding ReadChanges_def Let_def read_changes_options.simps start option.case all
    using assms(4) to by (auto simp: min_def)
qed

definition example_backend :: memory_backend where
  "example_backend =
     snd (Write (\<lambda>_. '''') (\<lambda>i. i) 7 (New []) ''s'' []
       [NewTupleKey ''doc:1'' ''viewer'' ''user:anne'', NewTupleKey ''doc:2'' ''viewer'' ''user:anne''] [])"

end
