(* ===== verification/WriteCommand.thy ===== *)
theory WriteCommand
  imports Validation MemoryProps
begin

text \<open>
  The write command, \<open>src/pkg/server/commands/write.go\<close>: validation of a request against the model of
  the store, then one transaction on the datastore.  The command uses the datastore through its
  interface, a record of operations; what it relies on is the locale \<open>transactional_store\<close>, which the
  in-memory datastore satisfies.
\<close>

section \<open>The datastore interface\<close>

record 'ds datastore =
  ds_ReadAuthorizationModel :: "'ds \<Rightarrow> string \<Rightarrow> string \<Rightarrow> storage_error + authorization_model"
  ds_Write :: "'ds \<Rightarrow> string \<Rightarrow> plain_key list \<Rightarrow> tuple_key list \<Rightarrow> tuple_write_option list \<Rightarrow> storage_error option \<times> 'ds"
  ds_MaxTuplesPerWrite :: "'ds \<Rightarrow> int"

section \<open>Requests and errors\<close>

record write_request_writes =
  ww_tuple_keys :: "tuple_key list"
  ww_on_duplicate :: string

record write_request_deletes =
  wd_tuple_keys :: "plain_key list"
  wd_on_missing :: string

record write_request =
  wr_store_id :: string
  wr_authorization_model_id :: string
  wr_writes :: "write_request_writes option"
  wr_deletes :: "write_request_deletes option"

definition write_keys :: "write_request \<Rightarrow> tuple_key list" where
  "write_keys req = (case wr_writes req of None \<Rightarrow> [] | Some w \<Rightarrow> ww_tuple_keys w)"

definition delete_keys :: "write_request \<Rightarrow> plain_key list" where
  "delete_keys req = (case wr_deletes req of None \<Rightarrow> [] | Some d \<Rightarrow> wd_tuple_keys d)"

datatype validation_cause =
    InvalidSchemaVersionCause
  | TupleCause tuple_error
  | InvalidDeleteCause tuple_cause plain_key
  | InvalidOnDuplicate string
  | InvalidOnMissing string

datatype write_error =
    ErrInvalidWriteInput
  | AuthorizationModelNotFound string
  | HandledError storage_error
  | ValidationError validation_cause
  | TypesystemNewError ts_error
  | DuplicateTupleInWrite plain_key
  | ExceededEntityLimit int
  | Aborted storage_error
  | WriteFailedDueToInvalidInput storage_error

section \<open>The command\<close>

record write_command =
  wc_condition_context_byte_limit :: int

definition DefaultWriteContextByteLimit :: int where
  "DefaultWriteContextByteLimit = 32 * 1024"

datatype write_command_option = WithConditionContextByteLimit int

fun apply_write_command_option :: "write_command_option \<Rightarrow> write_command \<Rightarrow> write_command" where
  "apply_write_command_option (WithConditionContextByteLimit limit) wc = wc\<lparr>wc_condition_context_byte_limit := limit\<rparr>"

definition NewWriteCommand :: "write_command_option list \<Rightarrow> write_command" where
  "NewWriteCommand opts =
     fold apply_write_command_option opts \<lparr>wc_condition_context_byte_limit = DefaultWriteContextByteLimit\<rparr>"

definition parseOptionOnDuplicate :: "write_request_writes option \<Rightarrow> write_error + OnDuplicateInsert" where
  "parseOptionOnDuplicate wr =
     (let s = (case wr of None \<Rightarrow> '''' | Some w \<Rightarrow> ww_on_duplicate w) in
      if s = '''' \<or> s = ''error'' then Inr OnDuplicateInsertError
      else if s = ''ignore'' then Inr OnDuplicateInsertIgnore
      else Inl (ValidationError (InvalidOnDuplicate s)))"

definition parseOptionOnMissing :: "write_request_deletes option \<Rightarrow> write_error + OnMissingDelete" where
  "parseOptionOnMissing wr =
     (let s = (case wr of None \<Rightarrow> '''' | Some d \<Rightarrow> wd_on_missing d) in
      if s = '''' \<or> s = ''error'' then Inr OnMissingDeleteError
      else if s = ''ignore'' then Inr OnMissingDeleteIgnore
      else Inl (ValidationError (InvalidOnMissing s)))"

definition validateNotImplicit :: "tuple_key \<Rightarrow> write_error option" where
  "validateNotImplicit tk =
     (let (userObject, userRelation) = SplitObjectRelation (tk_user tk) in
      if tk_relation tk = userRelation \<and> tk_object tk = userObject then
        Some (ValidationError (TupleCause (InvalidTupleError ImplicitTuple tk)))
      else None)"

text \<open>The set of the keys seen so far, and the first key that is in it again.\<close>

fun duplicates_loop :: "'a plain_key_scheme list \<Rightarrow> string set \<Rightarrow> write_error + string set" where
  "duplicates_loop [] tuples = Inr tuples"
| "duplicates_loop (tk # tks) tuples =
     (let key = TupleKeyToString tk in
      if key \<in> tuples then
        Inl (DuplicateTupleInWrite \<lparr>tk_object = tk_object tk, tk_relation = tk_relation tk, tk_user = tk_user tk\<rparr>)
      else duplicates_loop tks (insert key tuples))"

definition validateNoDuplicatesAndCorrectSize :: "int \<Rightarrow> plain_key list \<Rightarrow> tuple_key list \<Rightarrow> write_error option" where
  "validateNoDuplicatesAndCorrectSize max_tuples deletes writes =
     (case duplicates_loop deletes {} of
        Inl e \<Rightarrow> Some e
      | Inr tuples \<Rightarrow>
          (case duplicates_loop writes tuples of
             Inl e \<Rightarrow> Some e
           | Inr tuples \<Rightarrow> if int (card tuples) > max_tuples then Some (ExceededEntityLimit max_tuples) else None))"

text \<open>The libraries the command calls: values of conditions, model graphs, and the size of a message.\<close>

record write_library =
  wl_values :: value_library
  wl_graph_error :: "authorization_model \<Rightarrow> string option"
  wl_proto_size :: "pbstruct option \<Rightarrow> int"

definition validate_write :: "write_library \<Rightarrow> write_command \<Rightarrow> type_system \<Rightarrow> tuple_key \<Rightarrow> write_error option" where
  "validate_write lib c typesys tk =
     (case ValidateTupleForWrite (wl_values lib) typesys tk of
        Some e \<Rightarrow> Some (ValidationError (TupleCause e))
      | None \<Rightarrow>
          (case validateNotImplicit tk of
             Some e \<Rightarrow> Some e
           | None \<Rightarrow>
               (let contextSize = wl_proto_size lib (get_condition_context (tk_condition tk)) in
                if contextSize > wc_condition_context_byte_limit c then
                  Some (ValidationError (TupleCause (InvalidTupleError
                    (ContextSizeExceeded contextSize (wc_condition_context_byte_limit c)) tk)))
                else None)))"

definition validate_writes :: "write_library \<Rightarrow> 'ds datastore \<Rightarrow> write_command \<Rightarrow> 'ds \<Rightarrow> write_request \<Rightarrow> write_error option" where
  "validate_writes lib ops c s req =
     (case ds_ReadAuthorizationModel ops s (wr_store_id req) (wr_authorization_model_id req) of
        Inl ErrNotFound \<Rightarrow> Some (AuthorizationModelNotFound (wr_authorization_model_id req))
      | Inl e \<Rightarrow> Some (HandledError e)
      | Inr authModel \<Rightarrow>
          if \<not> IsSchemaVersionSupported (am_schema_version authModel) then
            Some (ValidationError InvalidSchemaVersionCause)
          else (case TypeSystem.New (wl_graph_error lib) authModel of
                  Inl e \<Rightarrow> Some (TypesystemNewError e)
                | Inr typesys \<Rightarrow> first_err (validate_write lib c typesys) (write_keys req)))"

definition validateWriteRequest :: "write_library \<Rightarrow> 'ds datastore \<Rightarrow> write_command \<Rightarrow> 'ds \<Rightarrow> write_request \<Rightarrow> write_error option" where
  "validateWriteRequest lib ops c s req =
     (if delete_keys req = [] \<and> write_keys req = [] then Some ErrInvalidWriteInput
      else (case (if write_keys req \<noteq> [] then validate_writes lib ops c s req else None) of
              Some e \<Rightarrow> Some e
            | None \<Rightarrow>
                (case first_err (\<lambda>tk. if IsValidUser (tk_user tk) then None
                        else Some (ValidationError (InvalidDeleteCause UserMalformed tk))) (delete_keys req) of
                   Some e \<Rightarrow> Some e
                 | None \<Rightarrow> validateNoDuplicatesAndCorrectSize (ds_MaxTuplesPerWrite ops s) (delete_keys req) (write_keys req))))"

definition write_failure :: "storage_error \<Rightarrow> write_error" where
  "write_failure e =
     (case e of
        TupleConditionConflictError _ _ _ \<Rightarrow> Aborted e
      | InvalidWriteInputError _ _ _ _ \<Rightarrow> WriteFailedDueToInvalidInput e
      | _ \<Rightarrow> HandledError e)"

definition Execute :: "write_library \<Rightarrow> 'ds datastore \<Rightarrow> write_command \<Rightarrow> 'ds \<Rightarrow> write_request \<Rightarrow> write_error option \<times> 'ds" where
  "Execute lib ops c s req =
     (case validateWriteRequest lib ops c s req of
        Some e \<Rightarrow> (Some e, s)
      | None \<Rightarrow>
          (case parseOptionOnDuplicate (wr_writes req) of
             Inl e \<Rightarrow> (Some e, s)
           | Inr onDuplicateInsert \<Rightarrow>
               (case parseOptionOnMissing (wr_deletes req) of
                  Inl e \<Rightarrow> (Some e, s)
                | Inr onEmptyDelete \<Rightarrow>
                    (case ds_Write ops s (wr_store_id req) (delete_keys req) (write_keys req)
                            [WithOnMissingDelete onEmptyDelete, WithOnDuplicateInsert onDuplicateInsert] of
                       (Some err, s) \<Rightarrow> (Some (write_failure err), s)
                     | (None, s) \<Rightarrow> (None, s)))))"

section \<open>What validation of a request establishes\<close>

lemma duplicates_loop_Inr:
  "duplicates_loop tks seen = Inr out \<longleftrightarrow>
     distinct (map TupleKeyToString tks) \<and> TupleKeyToString ` set tks \<inter> seen = {} \<and> out = seen \<union> TupleKeyToString ` set tks"
  by (induction tks seen rule: duplicates_loop.induct) (auto simp: Let_def)

lemma validateNoDuplicatesAndCorrectSize_None_iff:
  "validateNoDuplicatesAndCorrectSize n deletes writes = None \<longleftrightarrow>
     distinct (map TupleKeyToString deletes @ map TupleKeyToString writes) \<and> int (length deletes + length writes) \<le> n"
proof -
  have "card (TupleKeyToString ` set deletes \<union> TupleKeyToString ` set writes) = length deletes + length writes"
    if "distinct (map TupleKeyToString deletes @ map TupleKeyToString writes)"
    using distinct_card [OF that] by simp
  moreover have "validateNoDuplicatesAndCorrectSize n deletes writes = None \<longleftrightarrow>
      (\<exists>a b. duplicates_loop deletes {} = Inr a \<and> duplicates_loop writes a = Inr b \<and> int (card b) \<le> n)"
    by (auto simp: validateNoDuplicatesAndCorrectSize_def split: sum.splits)
  ultimately show ?thesis unfolding duplicates_loop_Inr by (auto simp: Int_commute)
qed

lemma validate_write_None:
  assumes "validate_write lib c t tk = None"
  shows "ValidateTupleForWrite (wl_values lib) t tk = None"
    and "SplitObjectRelation (tk_user tk) \<noteq> (tk_object tk, tk_relation tk)"
    and "wl_proto_size lib (get_condition_context (tk_condition tk)) \<le> wc_condition_context_byte_limit c"
  using assms by (auto simp: validate_write_def validateNotImplicit_def Let_def split: option.splits if_splits)

text \<open>The model of the store accepts every written tuple.\<close>

definition writes_accepted :: "write_library \<Rightarrow> 'ds datastore \<Rightarrow> write_command \<Rightarrow> 'ds \<Rightarrow> write_request \<Rightarrow> bool" where
  "writes_accepted lib ops c s req \<longleftrightarrow>
     (\<exists>m t. ds_ReadAuthorizationModel ops s (wr_store_id req) (wr_authorization_model_id req) = Inr m
        \<and> IsSchemaVersionSupported (am_schema_version m) \<and> TypeSystem.New (wl_graph_error lib) m = Inr t
        \<and> (\<forall>tk \<in> set (write_keys req). ValidateTupleForWrite (wl_values lib) t tk = None
             \<and> SplitObjectRelation (tk_user tk) \<noteq> (tk_object tk, tk_relation tk)
             \<and> wl_proto_size lib (get_condition_context (tk_condition tk)) \<le> wc_condition_context_byte_limit c))"

lemma validate_writes_None: "validate_writes lib ops c s req = None \<Longrightarrow> writes_accepted lib ops c s req"
  unfolding validate_writes_def writes_accepted_def
  by (auto simp: first_err_None_iff dest: validate_write_None split: sum.splits storage_error.splits if_splits)

lemma validateWriteRequest_None:
  assumes "validateWriteRequest lib ops c s req = None"
  shows "write_keys req \<noteq> [] \<Longrightarrow> writes_accepted lib ops c s req"
    and "tk \<in> set (delete_keys req) \<Longrightarrow> IsValidUser (tk_user tk)"
    and "distinct (map TupleKeyToString (delete_keys req) @ map TupleKeyToString (write_keys req))"
    and "int (length (delete_keys req) + length (write_keys req)) \<le> ds_MaxTuplesPerWrite ops s"
    and "delete_keys req \<noteq> [] \<or> write_keys req \<noteq> []"
  using assms
  by (auto simp: validateWriteRequest_def first_err_None_iff validateNoDuplicatesAndCorrectSize_None_iff
      intro: validate_writes_None split: option.splits if_splits)

lemma ValidateTupleForWrite_valid_key:
  assumes "TypeSystem.New g m = Inr t" and "IsSchemaVersionSupported (am_schema_version m)"
    and "ValidateTupleForWrite lib t tk = None"
  shows "valid_key tk"
proof -
  have cons: "ts_consistent t" "IsSchemaVersionSupported (ts_schema_version t)"
    using New_consistent [OF assms(1)] assms(1,2)
    by (auto simp: TypeSystem.New_def New_loop_fields split: option.splits)
  obtain ot i s where "tk_object tk = BuildObject ot i" "plain_part ot" "plain_part i" "IsValidRelation (tk_relation tk)"
    "subject_of (tk_user tk) = Some s"
    using assms(3) unfolding ValidateTupleForWrite_None_iff [OF cons] by blast
  then show ?thesis
    using subject_user(1) [of "tk_user tk" s] by (auto simp: valid_key_def IsValidObject_iff BuildObject_def)
qed

section \<open>The contract of the datastore\<close>

text \<open>
  What the command relies on: the tuples of a store are a finite map from keys to conditions, a write
  that succeeds removes what its deletes match from the map of its store and then adds the written
  tuples, a valid delete matches the tuple it names, and a write that fails changes nothing.
\<close>

locale transactional_store =
  fixes ops :: "'ds datastore"
    and invar :: "'ds \<Rightarrow> string \<Rightarrow> bool"
    and contents :: "'ds \<Rightarrow> string \<Rightarrow> tkey \<Rightarrow> rel_condition option option"
    and matched :: "'ds \<Rightarrow> string \<Rightarrow> plain_key list \<Rightarrow> tkey set"
  assumes Write_transaction: "invar s st \<Longrightarrow> list_all valid_key writes \<Longrightarrow>
      ds_Write ops s st deletes writes opts = (None, s') \<Longrightarrow>
      invar s' st \<and> contents s' st = fold spec_insert writes (contents s st |` (- matched s st deletes))
        \<and> (\<forall>st'. st' \<noteq> st \<longrightarrow> contents s' st' = contents s st')"
    and matched_valid: "invar s st \<Longrightarrow> list_all valid_key deletes \<Longrightarrow>
      matched s st deletes = set (map tkey_of deletes) \<inter> dom (contents s st)"
    and Write_atomic: "ds_Write ops s st deletes writes opts = (Some e, s') \<Longrightarrow> s' = s"
begin

lemma Execute_failed: "Execute lib ops c s req = (Some e, s') \<Longrightarrow> s' = s"
  by (auto simp: Execute_def dest: Write_atomic split: option.splits sum.splits prod.splits)

lemma Execute_succeeded:
  assumes "Execute lib ops c s req = (None, s')"
  obtains opts where "validateWriteRequest lib ops c s req = None"
    and "ds_Write ops s (wr_store_id req) (delete_keys req) (write_keys req) opts = (None, s')"
  using assms by (auto simp: Execute_def split: option.splits sum.splits prod.splits)

lemma accepted_keys:
  assumes "validateWriteRequest lib ops c s req = None"
  shows "list_all valid_key (write_keys req)"
    and "\<forall>k \<in> set (delete_keys req). IsValidObject (tk_object k) \<and> IsValidRelation (tk_relation k) \<Longrightarrow>
      list_all valid_key (delete_keys req)"
proof -
  show "list_all valid_key (write_keys req)"
    using validateWriteRequest_None(1) [OF assms] ValidateTupleForWrite_valid_key
    by (fastforce simp: writes_accepted_def list_all_iff)
  show "\<forall>k \<in> set (delete_keys req). IsValidObject (tk_object k) \<and> IsValidRelation (tk_relation k) \<Longrightarrow>
      list_all valid_key (delete_keys req)"
    using validateWriteRequest_None(2) [OF assms] by (auto simp: list_all_iff valid_key_def)
qed

lemma Execute_transaction:
  assumes "invar s (wr_store_id req)" and "Execute lib ops c s req = (None, s')"
  shows "invar s' (wr_store_id req)
    \<and> contents s' (wr_store_id req) = fold spec_insert (write_keys req)
        (contents s (wr_store_id req) |` (- matched s (wr_store_id req) (delete_keys req)))
    \<and> (\<forall>st. st \<noteq> wr_store_id req \<longrightarrow> contents s' st = contents s st)
    \<and> ((\<forall>k \<in> set (delete_keys req). IsValidObject (tk_object k) \<and> IsValidRelation (tk_relation k)) \<longrightarrow>
        contents s' (wr_store_id req) = spec_Write (delete_keys req) (write_keys req) (contents s (wr_store_id req)))"
  using assms(2)
proof (rule Execute_succeeded)
  fix opts assume ok: "validateWriteRequest lib ops c s req = None"
    and run: "ds_Write ops s (wr_store_id req) (delete_keys req) (write_keys req) opts = (None, s')"
  note keys = accepted_keys [OF ok]
  from Write_transaction [OF assms(1) keys(1) run] restrict_dom_Compl [OF matched_valid [OF assms(1) keys(2)]]
  show ?thesis unfolding spec_Write_def by auto
qed

end

section \<open>The in-memory datastore\<close>

definition memory_datastore :: "(pbstruct option \<Rightarrow> string) \<Rightarrow> (nat \<Rightarrow> nat) \<Rightarrow> int \<Rightarrow> memory_backend datastore" where
  "memory_datastore struct_string fresh now =
     \<lparr>ds_ReadAuthorizationModel = Memory.ReadAuthorizationModel,
      ds_Write = Memory.Write struct_string fresh now,
      ds_MaxTuplesPerWrite = mb_max_tuples_per_write\<rparr>"

lemma memory_datastore_simps [simp]:
  "ds_ReadAuthorizationModel (memory_datastore ss fresh now) = Memory.ReadAuthorizationModel"
  "ds_Write (memory_datastore ss fresh now) = Memory.Write ss fresh now"
  "ds_MaxTuplesPerWrite (memory_datastore ss fresh now) = mb_max_tuples_per_write"
  by (simp_all add: memory_datastore_def)

interpretation memory: transactional_store "memory_datastore struct_string fresh now" mem_inv "\<lambda>s st. abs_records (mb_tuples s st)"
  "\<lambda>s st deletes. matched_keys deletes (mb_tuples s st)"
  for struct_string :: "pbstruct option \<Rightarrow> string" and fresh :: "nat \<Rightarrow> nat" and now :: int
proof
  fix s st deletes writes opts s'
  assume "mem_inv s st" "list_all valid_key writes"
    "ds_Write (memory_datastore struct_string fresh now) s st deletes writes opts = (None, s')"
  from Write_removes_matches [OF this [unfolded memory_datastore_simps]]
  show "mem_inv s' st \<and> abs_records (mb_tuples s' st)
        = fold spec_insert writes (abs_records (mb_tuples s st) |` (- matched_keys deletes (mb_tuples s st)))
      \<and> (\<forall>st'. st' \<noteq> st \<longrightarrow> abs_records (mb_tuples s' st') = abs_records (mb_tuples s st'))" by simp
next
  fix s st and deletes :: "plain_key list"
  assume "mem_inv s st" "list_all valid_key deletes"
  then show "matched_keys deletes (mb_tuples s st) = set (map tkey_of deletes) \<inter> dom (abs_records (mb_tuples s st))"
    by (rule matched_keys_valid)
next
  fix s st deletes writes opts e s'
  assume "ds_Write (memory_datastore struct_string fresh now) s st deletes writes opts = (Some e, s')"
  with Write_error_unchanged [of struct_string fresh now s st deletes writes opts] show "s' = s" by simp
qed

section \<open>Properties\<close>

text \<open>
  C4: the write command is all or nothing on the in-memory datastore.  If it reports an error, nothing
  has changed.  If it succeeds, the tuples of the store that its deletes match are gone and the written
  ones that were not present are added; other stores are untouched, no tuple occurs twice in the
  request, the request is not empty and within the limit, and the model of the store accepts every
  written tuple, none of which is implicit or has a condition context above the limit.  When every
  delete names a full object and a relation, which the command does not check, this is the abstract
  transaction that removes exactly the tuples the deletes name.
\<close>

theorem Execute_implements_transaction:
  assumes "mem_inv s (wr_store_id req)" and "Execute lib (memory_datastore struct_string fresh now) c s req = (r, s')"
  shows "if r \<noteq> None then s' = s
    else mem_inv s' (wr_store_id req)
      \<and> abs_records (mb_tuples s' (wr_store_id req))
          = fold spec_insert (write_keys req) (abs_records (mb_tuples s (wr_store_id req))
              |` (- matched_keys (delete_keys req) (mb_tuples s (wr_store_id req))))
      \<and> ((\<forall>k \<in> set (delete_keys req). IsValidObject (tk_object k) \<and> IsValidRelation (tk_relation k)) \<longrightarrow>
          abs_records (mb_tuples s' (wr_store_id req))
            = spec_Write (delete_keys req) (write_keys req) (abs_records (mb_tuples s (wr_store_id req))))
      \<and> (\<forall>st. st \<noteq> wr_store_id req \<longrightarrow> abs_records (mb_tuples s' st) = abs_records (mb_tuples s st))
      \<and> distinct (map TupleKeyToString (delete_keys req) @ map TupleKeyToString (write_keys req))
      \<and> 0 < length (delete_keys req) + length (write_keys req)
      \<and> int (length (delete_keys req) + length (write_keys req)) \<le> mb_max_tuples_per_write s
      \<and> (write_keys req = [] \<or> writes_accepted lib (memory_datastore struct_string fresh now) c s req)"
proof (cases r)
  case None
  with assms(2) have run: "Execute lib (memory_datastore struct_string fresh now) c s req = (None, s')" by simp
  then have ok: "validateWriteRequest lib (memory_datastore struct_string fresh now) c s req = None"
    by (rule memory.Execute_succeeded)
  from memory.Execute_transaction [OF assms(1) run] validateWriteRequest_None [OF ok] None
  show ?thesis by auto
next
  case (Some e)
  with assms(2) memory.Execute_failed show ?thesis by fastforce
qed

definition sample_library :: write_library where
  "sample_library = \<lparr>wl_values = sample_values, wl_graph_error = (\<lambda>_. None), wl_proto_size = (\<lambda>_. 0)\<rparr>"

abbreviation sample_store :: "memory_backend datastore" where
  "sample_store \<equiv> memory_datastore (\<lambda>_. '''') (\<lambda>i. i) 7"

definition sample_state :: memory_backend where
  "sample_state = WriteAuthorizationModel (Memory.New []) ''s'' gate_model"

definition sample_request :: write_request where
  "sample_request = \<lparr>wr_store_id = ''s'', wr_authorization_model_id = '''',
     wr_writes = Some \<lparr>ww_tuple_keys = [NewTupleKey ''doc:1'' ''viewer'' ''group:eng'', NewTupleKey ''doc:2'' ''viewer'' ''group:eng''],
       ww_on_duplicate = ''''\<rparr>,
     wr_deletes = None\<rparr>"

lemma sample_run:
  "case Execute sample_library sample_store (NewWriteCommand []) sample_state sample_request of (r, s) \<Rightarrow>
     r = None \<and> mb_tuples s ''s'' \<noteq> [] \<and> 1 \<le> mb_max_tuples_per_write s
     \<and> list_all (\<lambda>tr. tr_object_type tr = ''doc'' \<and> tr_relation tr = ''viewer'' \<and> tr_user tr = ''group:eng'') (mb_tuples s ''s'')"
  by code_simp

lemma mem_inv_sample: "mem_inv sample_state st"
  using mem_inv_New [of st] by (simp add: sample_state_def mem_inv_def WriteAuthorizationModel_def)

theorem Execute_implements_transaction_witness:
  "int (length (delete_keys sample_request) + length (write_keys sample_request)) \<le> mb_max_tuples_per_write sample_state"
proof -
  let ?r = "Execute sample_library sample_store (NewWriteCommand []) sample_state sample_request"
  have "?r = (None, snd ?r)" using sample_run by (cases ?r) simp
  from Execute_implements_transaction [OF mem_inv_sample this] show ?thesis
    by simp
qed



end
