(* ===== verification/Iterators.thy ===== *)
theory Iterators
  imports StorageTypes
begin

text \<open>
  The iterators of \<open>src/pkg/storage/tuple_iterators.go\<close> and \<open>tuple_mappers.go\<close>.  An implementation
  of the interface \<open>Iterator\<close> is a record of operations on a state; every operation gets the error
  of the context it is called with (\<open>None\<close> for a live context) and returns the result and the new
  state, or \<open>None\<close> when the call never returns.  The locale \<open>iterator\<close> is the contract: an iterator
  in a good state yields a list of items and then its final error.  The combinators of the code
  turn iterators that satisfy the contract into iterators that satisfy it.
\<close>

section \<open>The interface\<close>

datatype iter_error = ErrIteratorDone | Canceled | DeadlineExceeded | NotAscending nat | OtherErr string

definition IterIsDoneOrCancelled :: "iter_error \<Rightarrow> bool" where
  "IterIsDoneOrCancelled e \<longleftrightarrow> e = ErrIteratorDone \<or> e = Canceled \<or> e = DeadlineExceeded"

type_synonym ('s, 'a) iter_call = "'s \<Rightarrow> iter_error option \<Rightarrow> ((iter_error + 'a) \<times> 's) option"

record ('s, 'a) iter_ops =
  it_next :: "('s, 'a) iter_call"
  it_head :: "('s, 'a) iter_call"
  it_stop :: "'s \<Rightarrow> 's"
  it_ordered :: "'s \<Rightarrow> bool"

text \<open>
  The contract, for calls under a live context and for \<open>Next\<close> under a cancelled one: \<open>items\<close> is what
  is still to come and \<open>fin\<close> the error at the end (\<open>ErrIteratorDone\<close>, or the error of a source).
\<close>

locale live_iterator =
  fixes ops :: "('s, 'a) iter_ops" and inv :: "'s \<Rightarrow> bool" and items :: "'s \<Rightarrow> 'a list" and fin :: "'s \<Rightarrow> iter_error"
  assumes next_item: "inv s \<Longrightarrow> items s = x # xs \<Longrightarrow>
      \<exists>s'. it_next ops s None = Some (Inr x, s') \<and> inv s' \<and> items s' = xs \<and> fin s' = fin s"
    and next_end: "inv s \<Longrightarrow> items s = [] \<Longrightarrow>
      \<exists>s'. it_next ops s None = Some (Inl (fin s), s') \<and> inv s' \<and> items s' = []"
    and head_item: "inv s \<Longrightarrow> items s = x # xs \<Longrightarrow>
      \<exists>s'. it_head ops s None = Some (Inr x, s') \<and> inv s' \<and> items s' = x # xs \<and> fin s' = fin s"
    and head_end: "inv s \<Longrightarrow> items s = [] \<Longrightarrow>
      \<exists>s'. it_head ops s None = Some (Inl (fin s), s') \<and> inv s' \<and> items s' = [] \<and> fin s' = fin s"

locale iterator = live_iterator +
  assumes next_cancelled: "inv s \<Longrightarrow> e \<in> {Canceled, DeadlineExceeded} \<Longrightarrow>
      \<exists>r s'. it_next ops s (Some e) = Some (Inl r, s') \<and> inv s' \<and> items s' = items s
        \<and> (r = ErrIteratorDone \<longrightarrow> items s = [] \<and> fin s = ErrIteratorDone)"

section \<open>Static iterators\<close>

definition static_Next :: "('a list, 'a) iter_call" where
  "static_Next s ctx =
     (case ctx of
        Some e \<Rightarrow> Some (Inl e, s)
      | None \<Rightarrow> (case s of [] \<Rightarrow> Some (Inl ErrIteratorDone, s) | x # xs \<Rightarrow> Some (Inr x, xs)))"

definition static_Head :: "('a list, 'a) iter_call" where
  "static_Head s ctx =
     (case ctx of
        Some e \<Rightarrow> Some (Inl e, s)
      | None \<Rightarrow> (case s of [] \<Rightarrow> Some (Inl ErrIteratorDone, s) | x # xs \<Rightarrow> Some (Inr x, s)))"

definition StaticIterator :: "('a list, 'a) iter_ops" where
  "StaticIterator = \<lparr>it_next = static_Next, it_head = static_Head, it_stop = (\<lambda>_. []), it_ordered = (\<lambda>_. True)\<rparr>"

interpretation static: iterator StaticIterator "\<lambda>_. True" "\<lambda>s. s" "\<lambda>_. ErrIteratorDone"
  by unfold_locales (auto simp: StaticIterator_def static_Next_def static_Head_def)

section \<open>Concatenation\<close>

text \<open>
  The combined iterator runs through its sources one after the other; the state is the list of
  pending sources.
\<close>

fun combined_Next :: "('s, 'a) iter_ops \<Rightarrow> ('s list, 'a) iter_call" where
  "combined_Next ops [] ctx = Some (Inl ErrIteratorDone, [])"
| "combined_Next ops (it # pending) ctx =
     (case it_next ops it ctx of
        None \<Rightarrow> None
      | Some (Inl e, it') \<Rightarrow>
          (if e = ErrIteratorDone then combined_Next ops pending ctx else Some (Inl e, it' # pending))
      | Some (Inr x, it') \<Rightarrow> Some (Inr x, it' # pending))"

fun combined_Head :: "('s, 'a) iter_ops \<Rightarrow> ('s list, 'a) iter_call" where
  "combined_Head ops [] ctx = Some (Inl ErrIteratorDone, [])"
| "combined_Head ops (it # pending) ctx =
     (case it_head ops it ctx of
        None \<Rightarrow> None
      | Some (Inl e, it') \<Rightarrow>
          (if e = ErrIteratorDone then combined_Head ops pending ctx else Some (Inl e, it' # pending))
      | Some (Inr x, it') \<Rightarrow> Some (Inr x, it' # pending))"

definition combinedIterator :: "('s, 'a) iter_ops \<Rightarrow> ('s list, 'a) iter_ops" where
  "combinedIterator ops =
     \<lparr>it_next = combined_Next ops, it_head = combined_Head ops, it_stop = map (it_stop ops), it_ordered = (\<lambda>_. False)\<rparr>"

text \<open>\<open>NewCombinedIterator\<close> drops \<open>nil\<close> sources.\<close>

definition NewCombinedIterator :: "'s option list \<Rightarrow> 's list" where
  "NewCombinedIterator iters = concat (map (\<lambda>i. case i of None \<Rightarrow> [] | Some it \<Rightarrow> [it]) iters)"

section \<open>Mapping and filtering\<close>

definition map_call :: "('a \<Rightarrow> iter_error + 'b) \<Rightarrow> ('s, 'a) iter_call \<Rightarrow> ('s, 'b) iter_call" where
  "map_call f call s ctx =
     (case call s ctx of
        None \<Rightarrow> None
      | Some (Inl e, s') \<Rightarrow> Some (Inl e, s')
      | Some (Inr x, s') \<Rightarrow> Some (f x, s'))"

definition mapped_ops :: "('a \<Rightarrow> iter_error + 'b) \<Rightarrow> ('s, 'a) iter_ops \<Rightarrow> ('s, 'b) iter_ops" where
  "mapped_ops f ops =
     \<lparr>it_next = map_call f (it_next ops), it_head = map_call f (it_head ops), it_stop = it_stop ops,
      it_ordered = it_ordered ops\<rparr>"

definition tupleKeyIterator :: "('s, tuple) iter_ops \<Rightarrow> ('s, tuple_key) iter_ops" where
  "tupleKeyIterator ops = mapped_ops (\<lambda>t. Inr (tup_key t)) ops"

definition MapUserset :: "'a plain_key_scheme \<Rightarrow> iter_error + string" where
  "MapUserset t =
     (let (usersetName, relation) = SplitObjectRelation (tk_user t) in
      if relation = '''' \<and> \<not> IsWildcard usersetName
      then Inl (OtherErr (''unexpected userset '' @ tk_user t @ '' with no relation''))
      else Inr usersetName)"

definition MapTTU :: "'a plain_key_scheme \<Rightarrow> iter_error + string" where
  "MapTTU t = Inr (tk_user t)"

definition MapObjectID :: "'a plain_key_scheme \<Rightarrow> iter_error + string" where
  "MapObjectID t = Inr (tk_object t)"

datatype TupleMapperKind = UsersetKind | TTUKind | ObjectIDKind

definition WrapIterator :: "TupleMapperKind \<Rightarrow> ('s, tuple_key) iter_ops \<Rightarrow> ('s, string) iter_ops" where
  "WrapIterator kind ops =
     (case kind of
        UsersetKind \<Rightarrow> mapped_ops MapUserset ops
      | TTUKind \<Rightarrow> mapped_ops MapTTU ops
      | ObjectIDKind \<Rightarrow> mapped_ops MapObjectID ops)"

text \<open>The loops of the filtered iterator may run forever on a source that never ends.\<close>

partial_function (option) filtered_Next ::
    "('s, 'a) iter_ops \<Rightarrow> ('a \<Rightarrow> bool) \<Rightarrow> 's \<Rightarrow> iter_error option \<Rightarrow> ((iter_error + 'a) \<times> 's) option" where
  "filtered_Next ops f s ctx =
     (case it_next ops s ctx of
        None \<Rightarrow> None
      | Some (Inl e, s') \<Rightarrow> Some (Inl e, s')
      | Some (Inr x, s') \<Rightarrow> if f x then Some (Inr x, s') else filtered_Next ops f s' ctx)"

partial_function (option) filtered_Head ::
    "('s, 'a) iter_ops \<Rightarrow> ('a \<Rightarrow> bool) \<Rightarrow> 's \<Rightarrow> iter_error option \<Rightarrow> ((iter_error + 'a) \<times> 's) option" where
  "filtered_Head ops f s ctx =
     (case it_head ops s ctx of
        None \<Rightarrow> None
      | Some (Inl e, s') \<Rightarrow> Some (Inl e, s')
      | Some (Inr x, s') \<Rightarrow>
          if f x then Some (Inr x, s')
          else (case it_next ops s' ctx of
                  None \<Rightarrow> None
                | Some (Inl e, s'') \<Rightarrow> Some (Inl e, s'')
                | Some (Inr _, s'') \<Rightarrow> filtered_Head ops f s'' ctx))"

definition filteredTupleKeyIterator :: "('s, 'a) iter_ops \<Rightarrow> ('a \<Rightarrow> bool) \<Rightarrow> ('s, 'a) iter_ops" where
  "filteredTupleKeyIterator ops f =
     \<lparr>it_next = filtered_Next ops f, it_head = filtered_Head ops f, it_stop = it_stop ops, it_ordered = it_ordered ops\<rparr>"

text \<open>
  The conditions-filtered iterator remembers the last error of its filter; at the end of the source
  it reports that error (once, by \<open>Next\<close>) if no item ever passed the filter.
\<close>

record 's cond_filter =
  cf_iter :: 's
  cf_last_error :: "iter_error option"
  cf_once_valid :: bool

partial_function (option) cond_filtered_Next ::
    "('s, 'a) iter_ops \<Rightarrow> ('a \<Rightarrow> iter_error + bool) \<Rightarrow> 's cond_filter \<Rightarrow> iter_error option
     \<Rightarrow> ((iter_error + 'a) \<times> 's cond_filter) option" where
  "cond_filtered_Next ops f c ctx =
     (case it_next ops (cf_iter c) ctx of
        None \<Rightarrow> None
      | Some (Inl e, s') \<Rightarrow>
          if e = ErrIteratorDone then
            (if cf_once_valid c then Some (Inl ErrIteratorDone, c\<lparr>cf_iter := s'\<rparr>)
             else (case cf_last_error c of
                     None \<Rightarrow> Some (Inl ErrIteratorDone, c\<lparr>cf_iter := s'\<rparr>)
                   | Some lastError \<Rightarrow> Some (Inl lastError, c\<lparr>cf_iter := s', cf_last_error := None\<rparr>)))
          else Some (Inl e, c\<lparr>cf_iter := s'\<rparr>)
      | Some (Inr x, s') \<Rightarrow>
          (case f x of
             Inl err \<Rightarrow> cond_filtered_Next ops f (c\<lparr>cf_iter := s', cf_last_error := Some err\<rparr>) ctx
           | Inr valid \<Rightarrow>
               if valid then Some (Inr x, c\<lparr>cf_iter := s', cf_once_valid := True\<rparr>)
               else cond_filtered_Next ops f (c\<lparr>cf_iter := s'\<rparr>) ctx))"

partial_function (option) cond_filtered_Head ::
    "('s, 'a) iter_ops \<Rightarrow> ('a \<Rightarrow> iter_error + bool) \<Rightarrow> 's cond_filter \<Rightarrow> iter_error option
     \<Rightarrow> ((iter_error + 'a) \<times> 's cond_filter) option" where
  "cond_filtered_Head ops f c ctx =
     (case it_head ops (cf_iter c) ctx of
        None \<Rightarrow> None
      | Some (Inl e, s') \<Rightarrow>
          if e = ErrIteratorDone then
            (if cf_once_valid c then Some (Inl ErrIteratorDone, c\<lparr>cf_iter := s'\<rparr>)
             else (case cf_last_error c of
                     None \<Rightarrow> Some (Inl ErrIteratorDone, c\<lparr>cf_iter := s'\<rparr>)
                   | Some lastError \<Rightarrow> Some (Inl lastError, c\<lparr>cf_iter := s'\<rparr>)))
          else Some (Inl e, c\<lparr>cf_iter := s'\<rparr>)
      | Some (Inr x, s') \<Rightarrow>
          if f x = Inr True then Some (Inr x, c\<lparr>cf_iter := s', cf_once_valid := True\<rparr>)
          else
            let c = (case f x of Inl err \<Rightarrow> c\<lparr>cf_iter := s', cf_last_error := Some err\<rparr> | Inr _ \<Rightarrow> c\<lparr>cf_iter := s'\<rparr>) in
            (case it_next ops (cf_iter c) ctx of
               None \<Rightarrow> None
             | Some (Inl e, s'') \<Rightarrow> Some (Inl e, c\<lparr>cf_iter := s''\<rparr>)
             | Some (Inr _, s'') \<Rightarrow> cond_filtered_Head ops f (c\<lparr>cf_iter := s''\<rparr>) ctx))"

definition ConditionsFilteredTupleKeyIterator ::
    "('s, 'a) iter_ops \<Rightarrow> ('a \<Rightarrow> iter_error + bool) \<Rightarrow> ('s cond_filter, 'a) iter_ops" where
  "ConditionsFilteredTupleKeyIterator ops f =
     \<lparr>it_next = cond_filtered_Next ops f, it_head = cond_filtered_Head ops f,
      it_stop = (\<lambda>c. c\<lparr>cf_iter := it_stop ops (cf_iter c)\<rparr>), it_ordered = (\<lambda>c. it_ordered ops (cf_iter c))\<rparr>"

definition NewConditionsFilteredTupleKeyIterator :: "'s \<Rightarrow> 's cond_filter" where
  "NewConditionsFilteredTupleKeyIterator iter = \<lparr>cf_iter = iter, cf_last_error = None, cf_once_valid = False\<rparr>"

section \<open>Skipping and draining\<close>

partial_function (option) SkipTo ::
    "('s, string) iter_ops \<Rightarrow> string \<Rightarrow> 's \<Rightarrow> iter_error option \<Rightarrow> (iter_error option \<times> 's) option" where
  "SkipTo ops target s ctx =
     (case it_head ops s ctx of
        None \<Rightarrow> None
      | Some (Inl e, s') \<Rightarrow> Some (if IterIsDoneOrCancelled e then None else Some e, s')
      | Some (Inr t, s') \<Rightarrow>
          if t \<ge> target then Some (None, s')
          else (case it_next ops s' ctx of
                  None \<Rightarrow> None
                | Some (Inl e, s'') \<Rightarrow> Some (if IterIsDoneOrCancelled e then None else Some e, s'')
                | Some (Inr _, s'') \<Rightarrow> SkipTo ops target s'' ctx))"

text \<open>A client that calls \<open>Next\<close> until it fails, and returns the items and the error.\<close>

partial_function (option) drain :: "('s, 'a) iter_ops \<Rightarrow> 's \<Rightarrow> ('a list \<times> iter_error) option" where
  "drain ops s =
     (case it_next ops s None of
        None \<Rightarrow> None
      | Some (Inl e, s') \<Rightarrow> Some ([], e)
      | Some (Inr x, s') \<Rightarrow> Option.bind (drain ops s') (\<lambda>(xs, e). Some (x # xs, e)))"

section \<open>The contract is preserved\<close>

declare filtered_Next.simps [code] filtered_Head.simps [code] cond_filtered_Next.simps [code] cond_filtered_Head.simps [code]
  SkipTo.simps [code] drain.simps [code]

context live_iterator
begin

lemma drain_items: "inv s \<Longrightarrow> drain ops s = Some (items s, fin s)"
proof (induction "items s" arbitrary: s)
  case Nil
  with next_end [of s] show ?case by (auto simp: drain.simps)
next
  case (Cons x xs)
  then obtain s' where "it_next ops s None = Some (Inr x, s')" "inv s'" "items s' = xs" "fin s' = fin s"
    using next_item [of s x xs] by auto
  with Cons show ?case by (auto simp: drain.simps)
qed

end

text \<open>Iterators whose final error stays the same once it is reached.\<close>

locale stable_iterator = iterator +
  assumes end_stable: "inv s \<Longrightarrow> items s = [] \<Longrightarrow> it_next ops s None = Some (r, s') \<Longrightarrow> fin s' = fin s"
    and cancelled_stable: "inv s \<Longrightarrow> e \<in> {Canceled, DeadlineExceeded} \<Longrightarrow>
      it_next ops s (Some e) = Some (r, s') \<Longrightarrow> fin s' = fin s"

interpretation static_stable: stable_iterator StaticIterator "\<lambda>_. True" "\<lambda>s. s" "\<lambda>_. ErrIteratorDone"
  by unfold_locales auto

text \<open>What the concatenation of sources yields: it stops at the first source that ends in an error.\<close>

fun combined_items :: "('s \<Rightarrow> 'a list) \<Rightarrow> ('s \<Rightarrow> iter_error) \<Rightarrow> 's list \<Rightarrow> 'a list" where
  "combined_items items fin [] = []"
| "combined_items items fin (it # its) =
     items it @ (if fin it = ErrIteratorDone then combined_items items fin its else [])"

fun combined_fin :: "('s \<Rightarrow> iter_error) \<Rightarrow> 's list \<Rightarrow> iter_error" where
  "combined_fin fin [] = ErrIteratorDone"
| "combined_fin fin (it # its) = (if fin it = ErrIteratorDone then combined_fin fin its else fin it)"

locale combined_sources = stable_iterator ops inv items fin
  for ops :: "('s, 'a) iter_ops" and inv items fin
begin

lemma combined_Next_item:
  "list_all inv its \<Longrightarrow> combined_items items fin its = x # xs \<Longrightarrow>
   \<exists>its'. combined_Next ops its None = Some (Inr x, its') \<and> list_all inv its'
     \<and> combined_items items fin its' = xs \<and> combined_fin fin its' = combined_fin fin its"
proof (induction its)
  case (Cons it its)
  show ?case
  proof (cases "items it")
    case Nil
    then obtain it' where "it_next ops it None = Some (Inl (fin it), it')" using next_end Cons.prems by force
    with Nil Cons show ?thesis by (auto split: if_splits)
  next
    case (Cons y ys)
    then obtain it' where "it_next ops it None = Some (Inr y, it')" "inv it'" "items it' = ys" "fin it' = fin it"
      using next_item Cons.prems by force
    with Cons Cons.prems show ?thesis by auto
  qed
qed simp

lemma combined_Next_end:
  "list_all inv its \<Longrightarrow> combined_items items fin its = [] \<Longrightarrow>
   \<exists>its'. combined_Next ops its None = Some (Inl (combined_fin fin its), its') \<and> list_all inv its'
     \<and> combined_items items fin its' = [] \<and> combined_fin fin its' = combined_fin fin its"
proof (induction its)
  case (Cons it its)
  then obtain it' where it': "it_next ops it None = Some (Inl (fin it), it')" "inv it'" "items it' = []"
    using next_end [of it] by auto
  with end_stable [of it] Cons.prems have "fin it' = fin it" by auto
  with it' Cons show ?case by auto
qed simp

lemma combined_Head_item:
  "list_all inv its \<Longrightarrow> combined_items items fin its = x # xs \<Longrightarrow>
   \<exists>its'. combined_Head ops its None = Some (Inr x, its') \<and> list_all inv its'
     \<and> combined_items items fin its' = x # xs \<and> combined_fin fin its' = combined_fin fin its"
proof (induction its)
  case (Cons it its)
  show ?case
  proof (cases "items it")
    case Nil
    then obtain it' where "it_head ops it None = Some (Inl (fin it), it')" using head_end Cons.prems by force
    with Nil Cons show ?thesis by (auto split: if_splits)
  next
    case (Cons y ys)
    then obtain it' where "it_head ops it None = Some (Inr y, it')" "inv it'" "items it' = y # ys" "fin it' = fin it"
      using head_item Cons.prems by force
    with Cons Cons.prems show ?thesis by auto
  qed
qed simp

lemma combined_Head_end:
  "list_all inv its \<Longrightarrow> combined_items items fin its = [] \<Longrightarrow>
   \<exists>its'. combined_Head ops its None = Some (Inl (combined_fin fin its), its') \<and> list_all inv its'
     \<and> combined_items items fin its' = [] \<and> combined_fin fin its' = combined_fin fin its"
proof (induction its)
  case (Cons it its)
  then obtain it' where "it_head ops it None = Some (Inl (fin it), it')" "inv it'" "items it' = []" "fin it' = fin it"
    using head_end [of it] by auto
  with Cons show ?case by auto
qed simp

lemma combined_Next_cancelled:
  "list_all inv its \<Longrightarrow> e \<in> {Canceled, DeadlineExceeded} \<Longrightarrow>
   \<exists>r its'. combined_Next ops its (Some e) = Some (Inl r, its') \<and> list_all inv its'
     \<and> combined_items items fin its' = combined_items items fin its \<and> combined_fin fin its' = combined_fin fin its
     \<and> (r = ErrIteratorDone \<longrightarrow> combined_items items fin its = [] \<and> combined_fin fin its = ErrIteratorDone)"
proof (induction its)
  case (Cons it its)
  then obtain r it' where it': "it_next ops it (Some e) = Some (Inl r, it')" "inv it'" "items it' = items it"
    "r = ErrIteratorDone \<longrightarrow> items it = [] \<and> fin it = ErrIteratorDone"
    using next_cancelled [of it e] by auto
  with cancelled_stable [of it e] Cons.prems have "fin it' = fin it" by auto
  show ?case
  proof (cases "r = ErrIteratorDone")
    case True
    with it' Cons show ?thesis by auto
  next
    case False
    with it' Cons \<open>fin it' = fin it\<close> show ?thesis by auto
  qed
qed simp

end

sublocale combined_sources \<subseteq> combined: stable_iterator "combinedIterator ops" "list_all inv"
  "combined_items items fin" "combined_fin fin"
proof unfold_locales
  fix its :: "'s list" and x xs
  assume "list_all inv its" "combined_items items fin its = x # xs"
  then show "\<exists>its'. it_next (combinedIterator ops) its None = Some (Inr x, its') \<and> list_all inv its'
      \<and> combined_items items fin its' = xs \<and> combined_fin fin its' = combined_fin fin its"
    and "\<exists>its'. it_head (combinedIterator ops) its None = Some (Inr x, its') \<and> list_all inv its'
      \<and> combined_items items fin its' = x # xs \<and> combined_fin fin its' = combined_fin fin its"
    using combined_Next_item combined_Head_item by (simp_all add: combinedIterator_def)
next
  fix its :: "'s list"
  assume ended: "list_all inv its" "combined_items items fin its = []"
  show "\<exists>its'. it_next (combinedIterator ops) its None = Some (Inl (combined_fin fin its), its') \<and> list_all inv its'
      \<and> combined_items items fin its' = []"
    using combined_Next_end [OF ended] by (auto simp: combinedIterator_def)
  show "\<exists>its'. it_head (combinedIterator ops) its None = Some (Inl (combined_fin fin its), its') \<and> list_all inv its'
      \<and> combined_items items fin its' = [] \<and> combined_fin fin its' = combined_fin fin its"
    using combined_Head_end [OF ended] by (simp add: combinedIterator_def)
  fix r its' assume "it_next (combinedIterator ops) its None = Some (r, its')"
  with combined_Next_end [OF ended] show "combined_fin fin its' = combined_fin fin its"
    by (auto simp: combinedIterator_def)
next
  fix its :: "'s list" and e
  assume c: "list_all inv its" "e \<in> {Canceled, DeadlineExceeded}"
  show "\<exists>r its'. it_next (combinedIterator ops) its (Some e) = Some (Inl r, its') \<and> list_all inv its'
      \<and> combined_items items fin its' = combined_items items fin its
      \<and> (r = ErrIteratorDone \<longrightarrow> combined_items items fin its = [] \<and> combined_fin fin its = ErrIteratorDone)"
    using combined_Next_cancelled [OF c] by (auto simp: combinedIterator_def)
  fix r its' assume "it_next (combinedIterator ops) its (Some e) = Some (r, its')"
  with combined_Next_cancelled [OF c] show "combined_fin fin its' = combined_fin fin its"
    by (auto simp: combinedIterator_def)
qed

locale filtered_source = stable_iterator ops inv items fin
  for ops :: "('s, 'a) iter_ops" and inv items fin +
  fixes f :: "'a \<Rightarrow> bool"
begin

lemma filtered_Next_live:
  "inv s \<Longrightarrow>
   (case filter f (items s) of
      [] \<Rightarrow> \<exists>s'. filtered_Next ops f s None = Some (Inl (fin s), s') \<and> inv s' \<and> items s' = [] \<and> fin s' = fin s
    | x # xs \<Rightarrow> \<exists>s'. filtered_Next ops f s None = Some (Inr x, s') \<and> inv s' \<and> filter f (items s') = xs \<and> fin s' = fin s)"
proof (induction "items s" arbitrary: s)
  case Nil
  with next_end [of s] end_stable [of s] show ?case by (auto simp: filtered_Next.simps [of ops f s])
next
  case (Cons y ys)
  then obtain s' where s': "it_next ops s None = Some (Inr y, s')" "inv s'" "items s' = ys" "fin s' = fin s"
    using next_item [of s y ys] by auto
  with Cons.hyps(1) [of s'] show ?case
    by (auto simp: filtered_Next.simps [of ops f s] Cons.hyps(2) [symmetric] split: list.splits)
qed

lemma filtered_Head_live:
  "inv s \<Longrightarrow>
   (case filter f (items s) of
      [] \<Rightarrow> \<exists>s'. filtered_Head ops f s None = Some (Inl (fin s), s') \<and> inv s' \<and> items s' = [] \<and> fin s' = fin s
    | x # xs \<Rightarrow> \<exists>s'. filtered_Head ops f s None = Some (Inr x, s') \<and> inv s' \<and> filter f (items s') = x # xs \<and> fin s' = fin s)"
proof (induction "items s" arbitrary: s)
  case Nil
  with head_end [of s] show ?case by (auto simp: filtered_Head.simps [of ops f s])
next
  case (Cons y ys)
  then obtain s' where s': "it_head ops s None = Some (Inr y, s')" "inv s'" "items s' = y # ys" "fin s' = fin s"
    using head_item [of s y ys] by auto
  then obtain s'' where s'': "it_next ops s' None = Some (Inr y, s'')" "inv s''" "items s'' = ys" "fin s'' = fin s"
    using next_item [of s' y ys] by auto
  with s' Cons.hyps(1) [of s''] show ?case
    by (auto simp: filtered_Head.simps [of ops f s] Cons.hyps(2) [symmetric] split: list.splits)
qed

lemma filtered_Next_cancelled:
  assumes "inv s" and "e \<in> {Canceled, DeadlineExceeded}"
  shows "\<exists>r s'. filtered_Next ops f s (Some e) = Some (Inl r, s') \<and> inv s' \<and> items s' = items s \<and> fin s' = fin s
    \<and> (r = ErrIteratorDone \<longrightarrow> items s = [] \<and> fin s = ErrIteratorDone)"
  using next_cancelled [OF assms] cancelled_stable [OF assms]
  by (force simp: filtered_Next.simps [of ops f s])

end

sublocale filtered_source \<subseteq> filtered: stable_iterator "filteredTupleKeyIterator ops f" inv "\<lambda>s. filter f (items s)" fin
proof unfold_locales
  fix s x xs
  assume "inv s" "filter f (items s) = x # xs"
  then show "\<exists>s'. it_next (filteredTupleKeyIterator ops f) s None = Some (Inr x, s') \<and> inv s'
      \<and> filter f (items s') = xs \<and> fin s' = fin s"
    and "\<exists>s'. it_head (filteredTupleKeyIterator ops f) s None = Some (Inr x, s') \<and> inv s'
      \<and> filter f (items s') = x # xs \<and> fin s' = fin s"
    using filtered_Next_live [of s] filtered_Head_live [of s] by (simp_all add: filteredTupleKeyIterator_def)
next
  fix s
  assume ended: "inv s" "filter f (items s) = []"
  then show "\<exists>s'. it_next (filteredTupleKeyIterator ops f) s None = Some (Inl (fin s), s') \<and> inv s'
      \<and> filter f (items s') = []"
    and "\<exists>s'. it_head (filteredTupleKeyIterator ops f) s None = Some (Inl (fin s), s') \<and> inv s'
      \<and> filter f (items s') = [] \<and> fin s' = fin s"
    using filtered_Next_live [of s] filtered_Head_live [of s] by (auto simp: filteredTupleKeyIterator_def)
  fix r s' assume "it_next (filteredTupleKeyIterator ops f) s None = Some (r, s')"
  then show "fin s' = fin s"
    using filtered_Next_live [of s] ended by (auto simp: filteredTupleKeyIterator_def)
next
  fix s e
  assume c: "inv s" "e \<in> {Canceled, DeadlineExceeded}"
  show "\<exists>r s'. it_next (filteredTupleKeyIterator ops f) s (Some e) = Some (Inl r, s') \<and> inv s'
      \<and> filter f (items s') = filter f (items s)
      \<and> (r = ErrIteratorDone \<longrightarrow> filter f (items s) = [] \<and> fin s = ErrIteratorDone)"
    using filtered_Next_cancelled [OF c] by (force simp: filteredTupleKeyIterator_def)
  fix r s' assume "it_next (filteredTupleKeyIterator ops f) s (Some e) = Some (r, s')"
  then show "fin s' = fin s"
    using filtered_Next_cancelled [OF c] by (auto simp: filteredTupleKeyIterator_def)
qed

locale mapped_source = stable_iterator ops inv items fin
  for ops :: "('s, 'a) iter_ops" and inv items fin +
  fixes f :: "'a \<Rightarrow> iter_error + 'b" and g :: "'a \<Rightarrow> 'b"
  assumes total: "f x = Inr (g x)"

sublocale mapped_source \<subseteq> mapped: stable_iterator "mapped_ops f ops" inv "\<lambda>s. map g (items s)" fin
proof unfold_locales
  fix s x xs
  assume s: "inv s" "map g (items s) = x # xs"
  then obtain y ys where y: "items s = y # ys" "x = g y" "xs = map g ys" by (cases "items s") auto
  show "\<exists>s'. it_next (mapped_ops f ops) s None = Some (Inr x, s') \<and> inv s' \<and> map g (items s') = xs \<and> fin s' = fin s"
    using next_item [OF s(1) y(1)] y by (auto simp: mapped_ops_def map_call_def total)
  show "\<exists>s'. it_head (mapped_ops f ops) s None = Some (Inr x, s') \<and> inv s' \<and> map g (items s') = x # xs \<and> fin s' = fin s"
    using head_item [OF s(1) y(1)] y by (auto simp: mapped_ops_def map_call_def total)
next
  fix s
  assume "inv s" "map g (items s) = []"
  then have s: "inv s" "items s = []" by simp_all
  show "\<exists>s'. it_next (mapped_ops f ops) s None = Some (Inl (fin s), s') \<and> inv s' \<and> map g (items s') = []"
    using next_end [OF s] by (auto simp: mapped_ops_def map_call_def)
  show "\<exists>s'. it_head (mapped_ops f ops) s None = Some (Inl (fin s), s') \<and> inv s' \<and> map g (items s') = [] \<and> fin s' = fin s"
    using head_end [OF s] by (auto simp: mapped_ops_def map_call_def)
  fix r s' assume "it_next (mapped_ops f ops) s None = Some (r, s')"
  with next_end [OF s] end_stable [OF s] show "fin s' = fin s" by (auto simp: mapped_ops_def map_call_def)
next
  fix s e
  assume c: "inv s" "e \<in> {Canceled, DeadlineExceeded}"
  show "\<exists>r s'. it_next (mapped_ops f ops) s (Some e) = Some (Inl r, s') \<and> inv s' \<and> map g (items s') = map g (items s)
      \<and> (r = ErrIteratorDone \<longrightarrow> map g (items s) = [] \<and> fin s = ErrIteratorDone)"
    using next_cancelled [OF c] by (auto simp: mapped_ops_def map_call_def)
  fix r s' assume "it_next (mapped_ops f ops) s (Some e) = Some (r, s')"
  with next_cancelled [OF c] cancelled_stable [OF c] show "fin s' = fin s"
    by (auto simp: mapped_ops_def map_call_def)
qed

text \<open>
  The conditions filter: what passes, the last filter error, and the final error, which is that of
  the source if it failed, else the last filter error if nothing ever passed.
\<close>

abbreviation passes :: "('a \<Rightarrow> iter_error + bool) \<Rightarrow> 'a list \<Rightarrow> 'a list" where
  "passes f xs \<equiv> filter (\<lambda>x. f x = Inr True) xs"

fun last_error :: "('a \<Rightarrow> iter_error + bool) \<Rightarrow> iter_error option \<Rightarrow> 'a list \<Rightarrow> iter_error option" where
  "last_error f le [] = le"
| "last_error f le (x # xs) = last_error f (case f x of Inl e \<Rightarrow> Some e | Inr _ \<Rightarrow> le) xs"

definition cond_fin ::
    "('s \<Rightarrow> 'a list) \<Rightarrow> ('s \<Rightarrow> iter_error) \<Rightarrow> ('a \<Rightarrow> iter_error + bool) \<Rightarrow> 's cond_filter \<Rightarrow> iter_error" where
  "cond_fin items fin f c =
     (if fin (cf_iter c) \<noteq> ErrIteratorDone then fin (cf_iter c)
      else if cf_once_valid c \<or> passes f (items (cf_iter c)) \<noteq> [] then ErrIteratorDone
      else (case last_error f (cf_last_error c) (items (cf_iter c)) of None \<Rightarrow> ErrIteratorDone | Some e \<Rightarrow> e))"

locale cond_filtered_source = stable_iterator ops inv items fin
  for ops :: "('s, 'a) iter_ops" and inv items fin +
  fixes f :: "'a \<Rightarrow> iter_error + bool"
begin

lemma cond_filtered_Next_live:
  "inv (cf_iter c) \<Longrightarrow>
   (case passes f (items (cf_iter c)) of
      [] \<Rightarrow> \<exists>c'. cond_filtered_Next ops f c None = Some (Inl (cond_fin items fin f c), c') \<and> inv (cf_iter c')
              \<and> items (cf_iter c') = []
    | x # xs \<Rightarrow> \<exists>c'. cond_filtered_Next ops f c None = Some (Inr x, c') \<and> inv (cf_iter c')
              \<and> passes f (items (cf_iter c')) = xs \<and> cond_fin items fin f c' = cond_fin items fin f c)"
proof (induction "items (cf_iter c)" arbitrary: c)
  case Nil
  with next_end [of "cf_iter c"] obtain s' where
    "it_next ops (cf_iter c) None = Some (Inl (fin (cf_iter c)), s')" "inv s'" "items s' = []" by auto
  with Nil show ?case
    by (auto simp: cond_filtered_Next.simps [of ops f c] cond_fin_def split: option.splits)
next
  case (Cons y ys)
  then obtain s' where s': "it_next ops (cf_iter c) None = Some (Inr y, s')" "inv s'" "items s' = ys"
    "fin s' = fin (cf_iter c)"
    using next_item [of "cf_iter c" y ys] by auto
  show ?case
  proof (cases "f y")
    case (Inl err)
    let ?c = "c\<lparr>cf_iter := s', cf_last_error := Some err\<rparr>"
    have "cond_fin items fin f ?c = cond_fin items fin f c"
      using s' Inl by (simp add: cond_fin_def Cons.hyps(2) [symmetric])
    with Cons.hyps(1) [of ?c] s' Inl show ?thesis
      by (simp add: cond_filtered_Next.simps [of ops f c] Cons.hyps(2) [symmetric] cong: list.case_cong)
  next
    case (Inr v)
    show ?thesis
    proof (cases v)
      case True
      with s' Inr show ?thesis
        by (simp add: cond_filtered_Next.simps [of ops f c] Cons.hyps(2) [symmetric] cond_fin_def)
    next
      case False
      let ?c = "c\<lparr>cf_iter := s'\<rparr>"
      have "cond_fin items fin f ?c = cond_fin items fin f c"
        using s' Inr False by (simp add: cond_fin_def Cons.hyps(2) [symmetric])
      with Cons.hyps(1) [of ?c] s' Inr False show ?thesis
        by (simp add: cond_filtered_Next.simps [of ops f c] Cons.hyps(2) [symmetric] cong: list.case_cong)
    qed
  qed
qed

lemma cond_filtered_Head_live:
  "inv (cf_iter c) \<Longrightarrow>
   (case passes f (items (cf_iter c)) of
      [] \<Rightarrow> \<exists>c'. cond_filtered_Head ops f c None = Some (Inl (cond_fin items fin f c), c') \<and> inv (cf_iter c')
              \<and> items (cf_iter c') = [] \<and> cond_fin items fin f c' = cond_fin items fin f c
    | x # xs \<Rightarrow> \<exists>c'. cond_filtered_Head ops f c None = Some (Inr x, c') \<and> inv (cf_iter c')
              \<and> passes f (items (cf_iter c')) = x # xs \<and> cond_fin items fin f c' = cond_fin items fin f c)"
proof (induction "items (cf_iter c)" arbitrary: c)
  case Nil
  with head_end [of "cf_iter c"] obtain s' where
    "it_head ops (cf_iter c) None = Some (Inl (fin (cf_iter c)), s')" "inv s'" "items s' = []" "fin s' = fin (cf_iter c)" by auto
  note s' = this
  from s' Nil have "cond_fin items fin f (c\<lparr>cf_iter := s'\<rparr>) = cond_fin items fin f c"
    by (simp add: cond_fin_def)
  moreover from s' Nil have "cond_filtered_Head ops f c None = Some (Inl (cond_fin items fin f c), c\<lparr>cf_iter := s'\<rparr>)"
    by (simp add: cond_filtered_Head.simps [of ops f c] cond_fin_def split: option.split)
  ultimately show ?case using Nil s' by simp
next
  case (Cons y ys)
  then obtain s' where s': "it_head ops (cf_iter c) None = Some (Inr y, s')" "inv s'" "items s' = y # ys"
    "fin s' = fin (cf_iter c)"
    using head_item [of "cf_iter c" y ys] by auto
  then obtain s'' where s'': "it_next ops s' None = Some (Inr y, s'')" "inv s''" "items s'' = ys" "fin s'' = fin (cf_iter c)"
    using next_item [of s' y ys] by auto
  show ?case
  proof (cases "f y = Inr True")
    case True
    with s' show ?thesis
      by (simp add: cond_filtered_Head.simps [of ops f c] Cons.hyps(2) [symmetric] cond_fin_def)
  next
    case False
    let ?c = "(case f y of Inl err \<Rightarrow> c\<lparr>cf_iter := s', cf_last_error := Some err\<rparr> | Inr _ \<Rightarrow> c\<lparr>cf_iter := s'\<rparr>)\<lparr>cf_iter := s''\<rparr>"
    have iter: "cf_iter (case f y of Inl err \<Rightarrow> c\<lparr>cf_iter := s', cf_last_error := Some err\<rparr> | Inr _ \<Rightarrow> c\<lparr>cf_iter := s'\<rparr>) = s'"
      by (simp split: sum.split)
    have fin: "cond_fin items fin f ?c = cond_fin items fin f c"
      using s'' False by (cases "f y") (simp_all add: cond_fin_def Cons.hyps(2) [symmetric])
    have step: "cond_filtered_Head ops f c None = cond_filtered_Head ops f ?c None"
      using s' s'' False iter by (simp add: cond_filtered_Head.simps [of ops f c] Let_def)
    have "passes f (items (cf_iter c)) = passes f ys" using False by (simp add: Cons.hyps(2) [symmetric])
    with Cons.hyps(1) [of ?c] s'' fin step show ?thesis by (simp cong: list.case_cong)
  qed
qed

lemma cond_filtered_Next_cancelled:
  assumes "inv (cf_iter c)" and "e \<in> {Canceled, DeadlineExceeded}"
  shows "\<exists>r c'. cond_filtered_Next ops f c (Some e) = Some (Inl r, c') \<and> inv (cf_iter c')
    \<and> items (cf_iter c') = items (cf_iter c)
    \<and> (r = ErrIteratorDone \<longrightarrow> passes f (items (cf_iter c)) = [] \<and> cond_fin items fin f c = ErrIteratorDone)"
  using next_cancelled [OF assms]
  by (force simp: cond_filtered_Next.simps [of ops f c] cond_fin_def split: option.splits)

end

sublocale cond_filtered_source \<subseteq> cond_filtered: iterator "ConditionsFilteredTupleKeyIterator ops f"
  "\<lambda>c. inv (cf_iter c)" "\<lambda>c. passes f (items (cf_iter c))" "cond_fin items fin f"
proof unfold_locales
  fix c :: "'s cond_filter" and x xs
  assume "inv (cf_iter c)" "passes f (items (cf_iter c)) = x # xs"
  then show "\<exists>c'. it_next (ConditionsFilteredTupleKeyIterator ops f) c None = Some (Inr x, c') \<and> inv (cf_iter c')
      \<and> passes f (items (cf_iter c')) = xs \<and> cond_fin items fin f c' = cond_fin items fin f c"
    and "\<exists>c'. it_head (ConditionsFilteredTupleKeyIterator ops f) c None = Some (Inr x, c') \<and> inv (cf_iter c')
      \<and> passes f (items (cf_iter c')) = x # xs \<and> cond_fin items fin f c' = cond_fin items fin f c"
    using cond_filtered_Next_live [of c] cond_filtered_Head_live [of c]
    by (simp_all add: ConditionsFilteredTupleKeyIterator_def)
next
  fix c :: "'s cond_filter"
  assume "inv (cf_iter c)" "passes f (items (cf_iter c)) = []"
  then show "\<exists>c'. it_next (ConditionsFilteredTupleKeyIterator ops f) c None = Some (Inl (cond_fin items fin f c), c')
      \<and> inv (cf_iter c') \<and> passes f (items (cf_iter c')) = []"
    and "\<exists>c'. it_head (ConditionsFilteredTupleKeyIterator ops f) c None = Some (Inl (cond_fin items fin f c), c')
      \<and> inv (cf_iter c') \<and> passes f (items (cf_iter c')) = [] \<and> cond_fin items fin f c' = cond_fin items fin f c"
    using cond_filtered_Next_live [of c] cond_filtered_Head_live [of c]
    by (auto simp: ConditionsFilteredTupleKeyIterator_def)
next
  fix c :: "'s cond_filter" and e
  assume "inv (cf_iter c)" "e \<in> {Canceled, DeadlineExceeded}"
  then show "\<exists>r c'. it_next (ConditionsFilteredTupleKeyIterator ops f) c (Some e) = Some (Inl r, c') \<and> inv (cf_iter c')
      \<and> passes f (items (cf_iter c')) = passes f (items (cf_iter c))
      \<and> (r = ErrIteratorDone \<longrightarrow> passes f (items (cf_iter c)) = [] \<and> cond_fin items fin f c = ErrIteratorDone)"
    using cond_filtered_Next_cancelled [of c e] by (force simp: ConditionsFilteredTupleKeyIterator_def)
qed

section \<open>The iterators of the code\<close>

interpretation combined_static: combined_sources StaticIterator "\<lambda>_. True" "\<lambda>s. s" "\<lambda>_. ErrIteratorDone" ..

interpretation keys_static: mapped_source "combinedIterator StaticIterator" "list_all (\<lambda>_. True)"
  "combined_items (\<lambda>s. s) (\<lambda>_. ErrIteratorDone)" "combined_fin (\<lambda>_. ErrIteratorDone)" "\<lambda>t. Inr (tup_key t)" tup_key
  by unfold_locales simp

interpretation valid_keys: filtered_source "mapped_ops (\<lambda>t. Inr (tup_key t)) (combinedIterator StaticIterator)"
  "list_all (\<lambda>_. True)" "\<lambda>s. map tup_key (combined_items (\<lambda>s. s) (\<lambda>_. ErrIteratorDone) s)"
  "combined_fin (\<lambda>_. ErrIteratorDone)" valid for valid :: "tuple_key \<Rightarrow> bool" ..

interpretation conditional_keys: cond_filtered_source
  "filteredTupleKeyIterator (mapped_ops (\<lambda>t. Inr (tup_key t)) (combinedIterator StaticIterator)) valid"
  "list_all (\<lambda>_. True)" "\<lambda>s. filter valid (map tup_key (combined_items (\<lambda>s. s) (\<lambda>_. ErrIteratorDone) s))"
  "combined_fin (\<lambda>_. ErrIteratorDone)" cond for valid :: "tuple_key \<Rightarrow> bool" and cond ..

lemma combined_items_static: "combined_items (\<lambda>s. s) (\<lambda>_. ErrIteratorDone) ls = concat ls"
  by (induction ls) simp_all

lemma combined_fin_static: "combined_fin (\<lambda>_. ErrIteratorDone) ls = ErrIteratorDone"
  by (induction ls) simp_all

lemma NewCombinedIterator_Some: "NewCombinedIterator (map Some ls) = ls"
  by (induction ls) (simp_all add: NewCombinedIterator_def)

text \<open>
  C27: the stack of iterators the server reads tuples with (sources combined one after the other,
  reduced to their keys, filtered by validity, filtered by condition) ends on every input and
  yields exactly the keys that are valid and whose condition holds, in order.  The error at the end
  is the last condition error if no key passed, and the end-of-iteration marker otherwise.
\<close>

theorem tuple_pipeline_drains:
  "drain (ConditionsFilteredTupleKeyIterator
      (filteredTupleKeyIterator (tupleKeyIterator (combinedIterator StaticIterator)) valid) cond)
     (NewConditionsFilteredTupleKeyIterator (NewCombinedIterator (map Some sources))) =
   (let keys = filter valid (map tup_key (concat sources)) in
    Some (filter (\<lambda>k. cond k = Inr True) keys,
          if filter (\<lambda>k. cond k = Inr True) keys \<noteq> [] then ErrIteratorDone
          else case last_error cond None keys of None \<Rightarrow> ErrIteratorDone | Some e \<Rightarrow> e))"
  using conditional_keys.cond_filtered.drain_items
    [of "NewConditionsFilteredTupleKeyIterator (NewCombinedIterator (map Some sources))" valid cond]
  by (simp add: tupleKeyIterator_def NewConditionsFilteredTupleKeyIterator_def NewCombinedIterator_Some
      combined_items_static combined_fin_static cond_fin_def Let_def list_all_iff)

section \<open>Skipping\<close>

locale string_iterator = iterator ops inv items fin
  for ops :: "('s, string) iter_ops" and inv items fin
begin

lemma SkipTo_live:
  "inv s \<Longrightarrow> \<exists>s'. SkipTo ops target s None =
      Some (if (\<exists>x \<in> set (items s). target \<le> x) \<or> IterIsDoneOrCancelled (fin s) then None else Some (fin s), s')
    \<and> inv s' \<and> items s' = dropWhile (\<lambda>x. x < target) (items s)"
proof (induction "items s" arbitrary: s)
  case Nil
  then show ?case using head_end [of s] by (auto simp: SkipTo.simps [of ops target s])
next
  case (Cons y ys)
  then obtain s1 where s1: "it_head ops s None = Some (Inr y, s1)" "inv s1" "items s1 = y # ys" "fin s1 = fin s"
    using head_item [of s y ys] by auto
  then obtain s2 where s2: "it_next ops s1 None = Some (Inr y, s2)" "inv s2" "items s2 = ys" "fin s2 = fin s"
    using next_item [of s1 y ys] by auto
  show ?case
  proof (cases "target \<le> y")
    case True
    with s1 show ?thesis by (auto simp: SkipTo.simps [of ops target s] Cons.hyps(2) [symmetric])
  next
    case False
    with s1 s2 Cons.hyps(1) [of s2] show ?thesis
      by (auto simp: SkipTo.simps [of ops target s] Cons.hyps(2) [symmetric])
  qed
qed

end

interpretation static_strings: string_iterator StaticIterator "\<lambda>_. True" "\<lambda>s. s" "\<lambda>_. ErrIteratorDone" ..

end
