(* ===== verification/OrderedIterators.thy ===== *)
theory OrderedIterators
  imports Iterators
begin

text \<open>
  The ordered combined iterator of \<open>src/pkg/storage/tuple_iterators.go\<close>: it merges sources that are
  sorted by a mapper and yields one item per value of the mapper.  The lemmas show that it satisfies
  the iterator contract with the merge of its sources as items, and that this merge is strictly
  ascending and has exactly the keys of the sources.
\<close>

section \<open>Model\<close>

text \<open>A pending source that was exhausted is \<open>nil\<close> until the next call removes it.\<close>

record ('s, 'a) ordered_combined =
  oc_pending :: "'s option list"
  oc_last_head :: "'a option"
  oc_last_yielded :: "'a option"
  oc_ordered :: bool

definition clearPendingThatAreNil :: "'s option list \<Rightarrow> 's list" where
  "clearPendingThatAreNil pending = map the (filter (\<lambda>p. p \<noteq> None) pending)"

definition NewOrderedCombinedIterator :: "('s, 'a) iter_ops \<Rightarrow> 's option list \<Rightarrow> ('s, 'a) ordered_combined" where
  "NewOrderedCombinedIterator ops sortedIters =
     (let pending = clearPendingThatAreNil sortedIters in
      \<lparr>oc_pending = map Some pending, oc_last_head = None, oc_last_yielded = None,
       oc_ordered = list_all (it_ordered ops) pending\<rparr>)"

text \<open>The inner loop discards the items that map to the value yielded last.\<close>

partial_function (option) discard_duplicates ::
    "('s, 'a) iter_ops \<Rightarrow> ('a \<Rightarrow> string) \<Rightarrow> string \<Rightarrow> iter_error option \<Rightarrow> 'a \<Rightarrow> 's \<Rightarrow> ((iter_error + 'a) \<times> 's) option" where
  "discard_duplicates ops mapper key ctx head it =
     (if mapper head = key then
        (case it_next ops it ctx of
           None \<Rightarrow> None
         | Some (Inl e, it') \<Rightarrow> Some (Inl e, it')
         | Some (Inr _, it') \<Rightarrow>
             (case it_head ops it' ctx of
                None \<Rightarrow> None
              | Some (Inl e, it'') \<Rightarrow> Some (Inl e, it'')
              | Some (Inr head', it'') \<Rightarrow> discard_duplicates ops mapper key ctx head' it''))
      else Some (Inr head, it))"

declare discard_duplicates.simps [code]

definition first_fresh ::
    "('s, 'a) iter_ops \<Rightarrow> ('a \<Rightarrow> string) \<Rightarrow> 'a option \<Rightarrow> iter_error option \<Rightarrow> nat \<Rightarrow> 's \<Rightarrow> ((iter_error + 'a) \<times> 's) option" where
  "first_fresh ops mapper lastYielded ctx pendingIdx it =
     (case it_head ops it ctx of
        None \<Rightarrow> None
      | Some (Inl e, it') \<Rightarrow> Some (Inl e, it')
      | Some (Inr head, it') \<Rightarrow>
          (case lastYielded of
             None \<Rightarrow> Some (Inr head, it')
           | Some y \<Rightarrow>
               if mapper head < mapper y then Some (Inl (NotAscending pendingIdx), it')
               else discard_duplicates ops mapper (mapper y) ctx head it'))"

fun head_loop ::
    "('s, 'a) iter_ops \<Rightarrow> ('a \<Rightarrow> string) \<Rightarrow> 'a option \<Rightarrow> iter_error option \<Rightarrow> nat \<Rightarrow> (nat \<times> 'a) option \<Rightarrow> 's list
     \<Rightarrow> ((iter_error + (nat \<times> 'a) option) \<times> 's option list) option" where
  "head_loop ops mapper ly ctx idx headMin [] = Some (Inr headMin, [])"
| "head_loop ops mapper ly ctx idx headMin (it # its) =
     (case first_fresh ops mapper ly ctx idx it of
        None \<Rightarrow> None
      | Some (Inl e, it') \<Rightarrow>
          if e = ErrIteratorDone then
            map_option (map_prod id ((#) None)) (head_loop ops mapper ly ctx (idx + 1) headMin its)
          else Some (Inl e, Some it' # map Some its)
      | Some (Inr head, it') \<Rightarrow>
          let headMin = (case headMin of
                           None \<Rightarrow> Some (idx, head)
                         | Some (j, m) \<Rightarrow> if mapper m > mapper head then Some (idx, head) else Some (j, m)) in
          map_option (map_prod id ((#) (Some it'))) (head_loop ops mapper ly ctx (idx + 1) headMin its))"

definition oc_head ::
    "('s, 'a) iter_ops \<Rightarrow> ('a \<Rightarrow> string) \<Rightarrow> ('s, 'a) ordered_combined \<Rightarrow> iter_error option
     \<Rightarrow> ((iter_error + nat) \<times> ('s, 'a) ordered_combined) option" where
  "oc_head ops mapper c ctx =
     (case head_loop ops mapper (oc_last_yielded c) ctx 0 None (clearPendingThatAreNil (oc_pending c)) of
        None \<Rightarrow> None
      | Some (r, pending) \<Rightarrow>
          Some (case r of Inl e \<Rightarrow> Inl e | Inr None \<Rightarrow> Inl ErrIteratorDone | Inr (Some (i, _)) \<Rightarrow> Inr i,
                c\<lparr>oc_pending := pending\<rparr>))"

text \<open>\<open>Next\<close> and \<open>Head\<close> call the source at the index \<open>head\<close> returned, which is not \<open>nil\<close>.\<close>

definition call_pending ::
    "('s, 'a) iter_call \<Rightarrow> nat \<Rightarrow> ('s, 'a) ordered_combined \<Rightarrow> iter_error option
     \<Rightarrow> ((iter_error + 'a) \<times> ('s, 'a) ordered_combined) option" where
  "call_pending call i c ctx =
     (case oc_pending c ! i of
        None \<Rightarrow> None
      | Some it \<Rightarrow>
          (case call it ctx of
             None \<Rightarrow> None
           | Some (r, it') \<Rightarrow> Some (r, c\<lparr>oc_pending := (oc_pending c)[i := Some it']\<rparr>)))"

definition oc_Next :: "('s, 'a) iter_ops \<Rightarrow> ('a \<Rightarrow> string) \<Rightarrow> (('s, 'a) ordered_combined, 'a) iter_call" where
  "oc_Next ops mapper c ctx =
     (case oc_head ops mapper c ctx of
        None \<Rightarrow> None
      | Some (Inl e, c') \<Rightarrow> Some (Inl e, c')
      | Some (Inr i, c') \<Rightarrow>
          (case call_pending (it_next ops) i (c'\<lparr>oc_last_head := None\<rparr>) ctx of
             None \<Rightarrow> None
           | Some (Inl e, c'') \<Rightarrow> Some (Inl e, c'')
           | Some (Inr t, c'') \<Rightarrow> Some (Inr t, c''\<lparr>oc_last_yielded := Some t\<rparr>)))"

definition oc_Head :: "('s, 'a) iter_ops \<Rightarrow> ('a \<Rightarrow> string) \<Rightarrow> (('s, 'a) ordered_combined, 'a) iter_call" where
  "oc_Head ops mapper c ctx =
     (case oc_last_head c of
        Some h \<Rightarrow> Some (Inr h, c)
      | None \<Rightarrow>
          (case oc_head ops mapper c ctx of
             None \<Rightarrow> None
           | Some (Inl e, c') \<Rightarrow> Some (Inl e, c')
           | Some (Inr i, c') \<Rightarrow>
               (case call_pending (it_head ops) i c' ctx of
                  None \<Rightarrow> None
                | Some (Inl e, c'') \<Rightarrow> Some (Inl e, c''\<lparr>oc_last_head := None\<rparr>)
                | Some (Inr h, c'') \<Rightarrow> Some (Inr h, c''\<lparr>oc_last_head := Some h\<rparr>))))"

definition OrderedCombinedIterator ::
    "('s, 'a) iter_ops \<Rightarrow> ('a \<Rightarrow> string) \<Rightarrow> (('s, 'a) ordered_combined, 'a) iter_ops" where
  "OrderedCombinedIterator ops mapper =
     \<lparr>it_next = oc_Next ops mapper, it_head = oc_Head ops mapper,
      it_stop = (\<lambda>c. c\<lparr>oc_pending := map Some (map (it_stop ops) (clearPendingThatAreNil (oc_pending c)))\<rparr>),
      it_ordered = oc_ordered\<rparr>"

definition UserMapper :: "tuple \<Rightarrow> string" where
  "UserMapper t = tk_user (tup_key t)"

definition ObjectMapper :: "tuple \<Rightarrow> string" where
  "ObjectMapper t = tk_object (tup_key t)"

section \<open>The merge of sorted lists\<close>

fun argmin :: "('a \<Rightarrow> string) \<Rightarrow> nat \<Rightarrow> (nat \<times> 'a) option \<Rightarrow> 'a list list \<Rightarrow> (nat \<times> 'a) option" where
  "argmin mapper idx hm [] = hm"
| "argmin mapper idx hm (l # ls) =
     argmin mapper (idx + 1)
       (case l of
          [] \<Rightarrow> hm
        | h # _ \<Rightarrow> (case hm of None \<Rightarrow> Some (idx, h)
                    | Some (j, m) \<Rightarrow> if mapper m > mapper h then Some (idx, h) else Some (j, m))) ls"

lemma argmin_None_iff: "argmin mapper idx hm ls = None \<longleftrightarrow> hm = None \<and> (\<forall>l \<in> set ls. l = [])"
  by (induction mapper idx hm ls rule: argmin.induct) (auto split: list.splits option.splits)

lemma argmin_Some:
  "argmin mapper idx hm ls = Some (i, h) \<Longrightarrow>
   (hm = Some (i, h) \<or> (idx \<le> i \<and> i < idx + length ls \<and> (\<exists>t. ls ! (i - idx) = h # t)))
   \<and> (\<forall>j m. hm = Some (j, m) \<longrightarrow> mapper h \<le> mapper m)
   \<and> (\<forall>l \<in> set ls. \<forall>x t. l = x # t \<longrightarrow> mapper h \<le> mapper x)"
proof (induction mapper idx hm ls arbitrary: rule: argmin.induct)
  case (2 mapper idx hm l ls)
  let ?hm = "case l of [] \<Rightarrow> hm | x # _ \<Rightarrow> (case hm of None \<Rightarrow> Some (idx, x)
      | Some (j, m) \<Rightarrow> if mapper m > mapper x then Some (idx, x) else Some (j, m))"
  from 2 have IH: "?hm = Some (i, h) \<or> (idx + 1 \<le> i \<and> i < idx + 1 + length ls \<and> (\<exists>t. ls ! (i - (idx + 1)) = h # t))"
    "\<forall>j m. ?hm = Some (j, m) \<longrightarrow> mapper h \<le> mapper m"
    "\<forall>l \<in> set ls. \<forall>x t. l = x # t \<longrightarrow> mapper h \<le> mapper x" by simp_all
  from IH(2) have le: "(\<forall>j m. hm = Some (j, m) \<longrightarrow> mapper h \<le> mapper m) \<and> (\<forall>x t. l = x # t \<longrightarrow> mapper h \<le> mapper x)"
    by (force split: list.splits option.splits if_splits)
  have pos: "hm = Some (i, h) \<or> (idx \<le> i \<and> i < idx + length (l # ls) \<and> (\<exists>t. (l # ls) ! (i - idx) = h # t))"
    using IH(1) by (auto simp: nth_Cons' Suc_diff_le split: list.splits option.splits if_splits)
  from le pos IH(3) show ?case by auto
qed simp

lemma argmin_value:
  "map_option snd hm = map_option snd hm' \<Longrightarrow>
   map_option snd (argmin mapper idx hm (filter (\<lambda>l. l \<noteq> []) ls)) = map_option snd (argmin mapper idx' hm' ls)"
proof (induction ls arbitrary: idx idx' hm hm')
  case (Cons l ls)
  show ?case
  proof (cases l)
    case Nil
    with Cons show ?thesis by simp
  next
    case (Cons h t)
    with Cons.prems show ?thesis
      by (auto intro!: Cons.IH split: option.splits prod.splits)
  qed
qed simp

lemma sum_dropWhile_less:
  assumes "i < length ls" and "ls ! i = h # t" and "P h"
  shows "sum_list (map length (map (dropWhile P) ls)) < sum_list (map length ls)"
proof -
  from assms(1) have split: "ls = take i ls @ ls ! i # drop (Suc i) ls" by (simp add: id_take_nth_drop)
  have le: "sum_list (map length (map (dropWhile P) xs)) \<le> sum_list (map length xs)" for xs
    by (induction xs) (auto intro: add_mono length_dropWhile_le)
  have "length (dropWhile P (ls ! i)) < length (ls ! i)" using assms(2,3) by (simp add: le_imp_less_Suc length_dropWhile_le)
  with le [of "take i ls"] le [of "drop (Suc i) ls"]
  have "sum_list (map length (map (dropWhile P) (take i ls @ ls ! i # drop (Suc i) ls)))
      < sum_list (map length (take i ls @ ls ! i # drop (Suc i) ls))" by simp
  with split show ?thesis by simp
qed

function oc_merge :: "('a \<Rightarrow> string) \<Rightarrow> 'a list list \<Rightarrow> 'a list" where
  "oc_merge mapper ls =
     (case argmin mapper 0 None ls of
        None \<Rightarrow> []
      | Some (i, h) \<Rightarrow> h # oc_merge mapper (map (dropWhile (\<lambda>x. mapper x = mapper h)) ls))"
  by pat_completeness auto

termination
proof (relation "measure (\<lambda>(_, ls). sum_list (map length ls))")
  fix mapper :: "'a \<Rightarrow> string" and ls p i h
  assume "argmin mapper 0 None ls = Some p" and "(i, h) = p"
  then have "i < length ls" "\<exists>t. ls ! i = h # t" using argmin_Some [of mapper 0 None ls i h] by auto
  then show "((mapper, map (dropWhile (\<lambda>x. mapper x = mapper h)) ls), mapper, ls) \<in> measure (\<lambda>(_, ls). sum_list (map length ls))"
    using sum_dropWhile_less [of i ls h _ "\<lambda>x. mapper x = mapper h"] by auto
qed simp

declare oc_merge.simps [simp del]

lemma oc_merge_Nil_iff: "oc_merge mapper ls = [] \<longleftrightarrow> (\<forall>l \<in> set ls. l = [])"
  using argmin_None_iff [of mapper 0 None ls]
  by (subst oc_merge.simps) (auto split: option.splits)

lemma oc_merge_Cons:
  assumes "oc_merge mapper ls = h # t"
  obtains i where "argmin mapper 0 None ls = Some (i, h)"
    and "t = oc_merge mapper (map (dropWhile (\<lambda>x. mapper x = mapper h)) ls)"
  using assms by (subst (asm) oc_merge.simps) (auto split: option.splits)

lemma filter_dropWhile_cong:
  "filter (\<lambda>l. l \<noteq> []) ls = filter (\<lambda>l. l \<noteq> []) ls' \<Longrightarrow>
   filter (\<lambda>l. l \<noteq> []) (map (dropWhile P) ls) = filter (\<lambda>l. l \<noteq> []) (map (dropWhile P) ls')"
proof -
  have "filter (\<lambda>l. l \<noteq> []) (map (dropWhile P) ls) =
      filter (\<lambda>l. l \<noteq> []) (map (dropWhile P) (filter (\<lambda>l. l \<noteq> []) ls))" for ls :: "'a list list"
    by (induction ls) auto
  then show "filter (\<lambda>l. l \<noteq> []) ls = filter (\<lambda>l. l \<noteq> []) ls' \<Longrightarrow> ?thesis" by metis
qed

text \<open>Exhausted lists do not change the merge.\<close>

lemma oc_merge_cong:
  "filter (\<lambda>l. l \<noteq> []) ls = filter (\<lambda>l. l \<noteq> []) ls' \<Longrightarrow> oc_merge mapper ls = oc_merge mapper ls'"
proof (induction mapper ls arbitrary: ls' rule: oc_merge.induct)
  case (1 mapper ls)
  from 1(2) have v: "map_option snd (argmin mapper 0 None ls) = map_option snd (argmin mapper 0 None ls')"
    using argmin_value [of None None mapper 0 ls 0] argmin_value [of None None mapper 0 ls' 0] by simp
  show ?case
  proof (cases "argmin mapper 0 None ls")
    case None
    with v have "argmin mapper 0 None ls' = None" by simp
    with None show ?thesis by (simp add: oc_merge.simps [of mapper ls] oc_merge.simps [of mapper ls'])
  next
    case (Some p)
    obtain i h where p: "p = (i, h)" by (cases p)
    with Some v obtain i' where i': "argmin mapper 0 None ls' = Some (i', h)"
      by (cases "argmin mapper 0 None ls'") auto
    have "oc_merge mapper (map (dropWhile (\<lambda>x. mapper x = mapper h)) ls) =
        oc_merge mapper (map (dropWhile (\<lambda>x. mapper x = mapper h)) ls')"
      by (rule 1(1) [OF Some p [symmetric]], rule filter_dropWhile_cong [OF 1(2)])
    with Some p i' show ?thesis by (simp add: oc_merge.simps [of mapper ls] oc_merge.simps [of mapper ls'])
  qed
qed

lemma sorted_head_min:
  assumes "argmin mapper 0 None ls = Some (i, h)" and "\<forall>l \<in> set ls. sorted (map mapper l)" and "l \<in> set ls" "x \<in> set l"
  shows "mapper h \<le> mapper x"
proof -
  from assms(4) obtain y t where l: "l = y # t" by (cases l) auto
  with argmin_Some [OF assms(1)] assms(3) have "mapper h \<le> mapper y" by auto
  moreover have "mapper y \<le> mapper x" using assms(2-4) l by auto
  ultimately show ?thesis by (rule order_trans)
qed

lemma sorted_dropWhile_eq:
  assumes "sorted (map mapper l)" and "\<forall>x \<in> set l. k \<le> mapper x"
  shows "set (dropWhile (\<lambda>x. mapper x = k) l) = {x \<in> set l. k < mapper x}"
  using assms
proof (induction l)
  case (Cons a l)
  show ?case
  proof (cases "mapper a = k")
    case False
    with Cons.prems have "k < mapper a" by auto
    with Cons.prems False show ?thesis by (auto intro: less_le_trans)
  qed (use Cons in auto)
qed simp

lemma oc_merge_keys:
  assumes "\<forall>l \<in> set ls. sorted (map mapper l)"
  shows "sorted_wrt (<) (map mapper (oc_merge mapper ls))
    \<and> mapper ` set (oc_merge mapper ls) = mapper ` (\<Union>l \<in> set ls. set l)
    \<and> set (oc_merge mapper ls) \<subseteq> (\<Union>l \<in> set ls. set l)"
  using assms
proof (induction mapper ls rule: oc_merge.induct)
  case (1 mapper ls)
  show ?case
  proof (cases "argmin mapper 0 None ls")
    case None
    then have "\<forall>l \<in> set ls. l = []" by (simp add: argmin_None_iff)
    moreover from this have "oc_merge mapper ls = []" by (simp add: oc_merge_Nil_iff)
    ultimately show ?thesis by simp
  next
    case (Some p)
    obtain i h where p: "p = (i, h)" by (cases p)
    let ?ls = "map (dropWhile (\<lambda>x. mapper x = mapper h)) ls"
    from Some p have am: "argmin mapper 0 None ls = Some (i, h)" by simp
    have min: "l \<in> set ls \<Longrightarrow> x \<in> set l \<Longrightarrow> mapper h \<le> mapper x" for l x
      by (rule sorted_head_min [OF am 1(2)])
    have "\<forall>l \<in> set ?ls. sorted (map mapper l)"
      using 1(2) sorted_dropWhile [of "map mapper _" "\<lambda>k. k = mapper h"] by (simp add: dropWhile_map comp_def)
    from 1(1) [OF Some p [symmetric] this] have IH: "sorted_wrt (<) (map mapper (oc_merge mapper ?ls))"
      "mapper ` set (oc_merge mapper ?ls) = mapper ` (\<Union>l \<in> set ?ls. set l)"
      "set (oc_merge mapper ?ls) \<subseteq> (\<Union>l \<in> set ?ls. set l)" by auto
    have rest: "(\<Union>l \<in> set ?ls. set l) = {x \<in> (\<Union>l \<in> set ls. set l). mapper h < mapper x}"
      using 1(2) min by (auto simp: sorted_dropWhile_eq)
    from argmin_Some [OF am] obtain t where "i < length ls" and nth: "ls ! i = h # t" by auto
    then have "h # t \<in> set ls" using nth_mem [of i ls] by simp
    then have h: "h \<in> (\<Union>l \<in> set ls. set l)" by (rule UN_I) simp
    have keys: "mapper ` X = insert (mapper h) (mapper ` {x \<in> X. mapper h < mapper x})"
      if "h \<in> X" and "\<And>x. x \<in> X \<Longrightarrow> mapper h \<le> mapper x" for X
    proof (intro equalityI subsetI)
      fix k assume "k \<in> mapper ` X"
      then show "k \<in> insert (mapper h) (mapper ` {x \<in> X. mapper h < mapper x})"
        using that(2) by (force simp: le_less)
    qed (use that(1) in auto)
    have "mapper ` (\<Union>l \<in> set ls. set l) = insert (mapper h) (mapper ` (\<Union>l \<in> set ?ls. set l))"
      unfolding rest by (rule keys [OF h]) (use min in blast)
    moreover have "oc_merge mapper ls = h # oc_merge mapper ?ls" using am by (simp add: oc_merge.simps [of mapper ls])
    moreover have "mapper h < mapper x" if "x \<in> set (oc_merge mapper ?ls)" for x
      using IH(3) rest that by blast
    moreover have "set (oc_merge mapper ?ls) \<subseteq> (\<Union>l \<in> set ls. set l)" using IH(3) rest by blast
    moreover have "\<forall>x \<in> (\<Union>l \<in> set ?ls. set l). mapper h < mapper x" using rest by blast
    ultimately show ?thesis using IH(1,2) h by simp
  qed
qed

section \<open>The contract of the ordered combined iterator\<close>

definition fresh :: "('a \<Rightarrow> string) \<Rightarrow> 'a option \<Rightarrow> 'a list \<Rightarrow> 'a list" where
  "fresh mapper ly xs = (case ly of None \<Rightarrow> xs | Some y \<Rightarrow> dropWhile (\<lambda>x. mapper x = mapper y) xs)"

lemma fresh_None [simp]: "fresh mapper None xs = xs"
  by (simp add: fresh_def)

lemma fresh_Nil [simp]: "fresh mapper ly [] = []"
  by (simp add: fresh_def split: option.split)

lemma fresh_idem [simp]: "fresh mapper ly (fresh mapper ly xs) = fresh mapper ly xs"
  by (simp add: fresh_def split: option.split)

lemma set_fresh: "x \<in> set (fresh mapper ly xs) \<Longrightarrow> x \<in> set xs"
  by (auto simp: fresh_def dest: set_dropWhileD split: option.splits)

lemma sorted_fresh: "sorted (map mapper xs) \<Longrightarrow> sorted (map mapper (fresh mapper ly xs))"
  using sorted_dropWhile [of "map mapper xs"] by (auto simp: fresh_def dropWhile_map comp_def split: option.split)

lemma clearPendingThatAreNil_simps [simp]:
  "clearPendingThatAreNil [] = []"
  "clearPendingThatAreNil (None # ps) = clearPendingThatAreNil ps"
  "clearPendingThatAreNil (Some it # ps) = it # clearPendingThatAreNil ps"
  by (simp_all add: clearPendingThatAreNil_def)

lemma clearPendingThatAreNil_map_Some [simp]: "clearPendingThatAreNil (map Some its) = its"
  by (induction its) auto

lemma clear_update:
  "i < length ps \<Longrightarrow> ps ! i = Some it \<Longrightarrow> g it' = g it \<Longrightarrow>
   map g (clearPendingThatAreNil (ps[i := Some it'])) = map g (clearPendingThatAreNil ps)"
proof (induction ps arbitrary: i)
  case (Cons p ps)
  then show ?case by (cases i; cases p) auto
qed simp

lemma set_clear_update:
  "x \<in> set (clearPendingThatAreNil (ps[i := Some it'])) \<Longrightarrow> x = it' \<or> x \<in> set (clearPendingThatAreNil ps)"
  by (force simp: clearPendingThatAreNil_def dest: set_update_subset_insert [THEN subsetD])

lemma nth_clear: "i < length ps \<Longrightarrow> ps ! i = Some it \<Longrightarrow> it \<in> set (clearPendingThatAreNil ps)"
proof (induction ps arbitrary: i)
  case (Cons p ps)
  then show ?case by (cases i; cases p) auto
qed simp

text \<open>A source that is sorted by the mapper, ends normally, and is not behind the item yielded last.\<close>

definition sorted_source ::
    "('s \<Rightarrow> bool) \<Rightarrow> ('s \<Rightarrow> 'a list) \<Rightarrow> ('s \<Rightarrow> iter_error) \<Rightarrow> ('a \<Rightarrow> string) \<Rightarrow> 'a option \<Rightarrow> 's \<Rightarrow> bool" where
  "sorted_source invar items fin mapper ly it \<longleftrightarrow>
     invar it \<and> fin it = ErrIteratorDone \<and> sorted (map mapper (items it))
     \<and> (case ly of None \<Rightarrow> True | Some y \<Rightarrow> \<forall>x \<in> set (items it). mapper y \<le> mapper x)"

text \<open>What the iterator will yield, and its invariant: a cached head is the next item.\<close>

definition oc_items :: "('s \<Rightarrow> 'a list) \<Rightarrow> ('a \<Rightarrow> string) \<Rightarrow> ('s, 'a) ordered_combined \<Rightarrow> 'a list" where
  "oc_items items mapper c =
     oc_merge mapper (map (\<lambda>it. fresh mapper (oc_last_yielded c) (items it)) (clearPendingThatAreNil (oc_pending c)))"

definition oc_inv ::
    "('s \<Rightarrow> bool) \<Rightarrow> ('s \<Rightarrow> 'a list) \<Rightarrow> ('s \<Rightarrow> iter_error) \<Rightarrow> ('a \<Rightarrow> string) \<Rightarrow> ('s, 'a) ordered_combined \<Rightarrow> bool" where
  "oc_inv invar items fin mapper c \<longleftrightarrow>
     list_all (sorted_source invar items fin mapper (oc_last_yielded c)) (clearPendingThatAreNil (oc_pending c))
     \<and> (case oc_last_head c of None \<Rightarrow> True | Some h \<Rightarrow> \<exists>t. oc_items items mapper c = h # t)"

locale ordered_sources = live_iterator ops inv items fin
  for ops :: "('s, 'a) iter_ops" and inv items fin +
  fixes mapper :: "'a \<Rightarrow> string"
begin

abbreviation src_ok :: "'a option \<Rightarrow> 's \<Rightarrow> bool" where
  "src_ok \<equiv> sorted_source inv items fin mapper"

lemma discard_duplicates_drops:
  "inv it \<Longrightarrow> items it = h # xs \<Longrightarrow> fin it = ErrIteratorDone \<Longrightarrow>
   \<exists>it'. discard_duplicates ops mapper k None h it =
       Some (case dropWhile (\<lambda>x. mapper x = k) (items it) of [] \<Rightarrow> Inl ErrIteratorDone | h # _ \<Rightarrow> Inr h, it')
     \<and> (dropWhile (\<lambda>x. mapper x = k) (items it) \<noteq> [] \<longrightarrow>
         inv it' \<and> fin it' = ErrIteratorDone \<and> items it' = dropWhile (\<lambda>x. mapper x = k) (items it))"
proof (induction xs arbitrary: h it)
  case Nil
  obtain it1 where n: "it_next ops it None = Some (Inr h, it1)" "inv it1" "items it1 = []" "fin it1 = fin it"
    using next_item [OF Nil(1,2)] by auto
  obtain it2 where "it_head ops it1 None = Some (Inl (fin it1), it2)" using head_end [OF n(2,3)] by auto
  with n Nil show ?case by (simp add: discard_duplicates.simps)
next
  case (Cons y ys)
  obtain it1 where n: "it_next ops it None = Some (Inr h, it1)" "inv it1" "items it1 = y # ys" "fin it1 = fin it"
    using next_item [OF Cons.prems(1,2)] by auto
  obtain it2 where h: "it_head ops it1 None = Some (Inr y, it2)" "inv it2" "items it2 = y # ys" "fin it2 = fin it1"
    using head_item [OF n(2,3)] by auto
  show ?case
  proof (cases "mapper h = k")
    case True
    have "fin it2 = ErrIteratorDone" using h n Cons.prems by simp
    from Cons.IH [OF h(2,3) this] True n h Cons.prems show ?thesis
      by (simp add: discard_duplicates.simps [of _ _ _ _ h])
  next
    case False
    with Cons.prems show ?thesis by (simp add: discard_duplicates.simps)
  qed
qed

lemma first_fresh_finds:
  assumes "src_ok ly it"
  shows "\<exists>it'. first_fresh ops mapper ly None idx it =
      Some (case fresh mapper ly (items it) of [] \<Rightarrow> Inl ErrIteratorDone | h # _ \<Rightarrow> Inr h, it')
    \<and> (fresh mapper ly (items it) \<noteq> [] \<longrightarrow> src_ok ly it' \<and> items it' = fresh mapper ly (items it))"
proof (cases "items it")
  case Nil
  with head_end [of it] assms show ?thesis
    by (auto simp: first_fresh_def sorted_source_def fresh_def split: option.split)
next
  case (Cons h xs)
  obtain it1 where h: "it_head ops it None = Some (Inr h, it1)" "inv it1" "items it1 = h # xs" "fin it1 = ErrIteratorDone"
    using head_item [OF _ Cons] assms by (auto simp: sorted_source_def)
  show ?thesis
  proof (cases ly)
    case None
    with h Cons assms show ?thesis by (auto simp: first_fresh_def sorted_source_def)
  next
    case (Some y)
    with assms Cons have "\<not> mapper h < mapper y" by (auto simp: sorted_source_def)
    moreover have "sorted (map mapper (fresh mapper ly (items it)))" using assms by (simp add: sorted_source_def sorted_fresh)
    moreover have "\<forall>x \<in> set (fresh mapper ly (items it)). mapper y \<le> mapper x"
      using assms Some by (auto simp: sorted_source_def dest: set_fresh)
    ultimately show ?thesis
      using discard_duplicates_drops [OF h(2,3,4), of "mapper y"] h Cons Some
      by (auto simp: first_fresh_def sorted_source_def fresh_def)
  qed
qed

lemma head_loop_finds:
  "list_all (src_ok ly) its \<Longrightarrow>
   \<exists>ps. head_loop ops mapper ly None idx hm its =
       Some (Inr (argmin mapper idx hm (map (\<lambda>it. fresh mapper ly (items it)) its)), ps)
     \<and> list_all2 (\<lambda>it p. case p of
           None \<Rightarrow> fresh mapper ly (items it) = []
         | Some it' \<Rightarrow> src_ok ly it' \<and> items it' = fresh mapper ly (items it)) its ps"
proof (induction its arbitrary: idx hm)
  case (Cons it its)
  then obtain it' where f: "first_fresh ops mapper ly None idx it =
      Some (case fresh mapper ly (items it) of [] \<Rightarrow> Inl ErrIteratorDone | h # _ \<Rightarrow> Inr h, it')"
    "fresh mapper ly (items it) \<noteq> [] \<longrightarrow> src_ok ly it' \<and> items it' = fresh mapper ly (items it)"
    using first_fresh_finds [of ly it idx] by auto
  show ?case
  proof (cases "fresh mapper ly (items it)")
    case Nil
    with f Cons.IH [of "idx + 1" hm] Cons.prems show ?thesis by auto
  next
    case (Cons h t)
    let ?hm = "case hm of None \<Rightarrow> Some (idx, h) | Some (j, m) \<Rightarrow> if mapper m > mapper h then Some (idx, h) else Some (j, m)"
    from Cons f Cons.IH [of "idx + 1" ?hm] Cons.prems show ?thesis by auto
  qed
qed simp

abbreviation found :: "'a option \<Rightarrow> 's \<Rightarrow> 's option \<Rightarrow> bool" where
  "found ly it p \<equiv> (case p of
      None \<Rightarrow> fresh mapper ly (items it) = []
    | Some it' \<Rightarrow> src_ok ly it' \<and> items it' = fresh mapper ly (items it))"

lemma found_pending:
  "list_all2 (found ly) its ps \<Longrightarrow>
   list_all (src_ok ly) (clearPendingThatAreNil ps)
   \<and> filter (\<lambda>l. l \<noteq> []) (map (\<lambda>it. fresh mapper ly (items it)) (clearPendingThatAreNil ps))
       = filter (\<lambda>l. l \<noteq> []) (map (\<lambda>it. fresh mapper ly (items it)) its)
   \<and> map items (clearPendingThatAreNil ps) = map (\<lambda>it. fresh mapper ly (items it)) (clearPendingThatAreNil ps)"
  by (induction rule: list_all2_induct) (auto split: option.splits)

lemma found_index:
  assumes "list_all2 (found ly) its ps" and "i < length its" and "fresh mapper ly (items (its ! i)) = h # t"
  obtains it where "i < length ps" "ps ! i = Some it" "items it = h # t"
  using assms by (auto simp: list_all2_conv_all_nth split: option.splits)

lemma oc_head_end:
  assumes "oc_inv inv items fin mapper c" and "oc_items items mapper c = []"
  shows "\<exists>c'. oc_head ops mapper c None = Some (Inl ErrIteratorDone, c') \<and> oc_inv inv items fin mapper c'
    \<and> oc_items items mapper c' = []"
proof -
  let ?its = "clearPendingThatAreNil (oc_pending c)" and ?ly = "oc_last_yielded c"
  from assms(1) have "list_all (src_ok ?ly) ?its" by (simp add: oc_inv_def)
  from head_loop_finds [OF this, of 0 None] obtain ps where
    hl: "head_loop ops mapper ?ly None 0 None ?its = Some (Inr (argmin mapper 0 None (map (\<lambda>it. fresh mapper ?ly (items it)) ?its)), ps)"
    and ps: "list_all2 (found ?ly) ?its ps" by blast
  from assms(2) have "argmin mapper 0 None (map (\<lambda>it. fresh mapper ?ly (items it)) ?its) = None"
    by (simp add: oc_items_def oc_merge_Nil_iff argmin_None_iff)
  moreover have "oc_items items mapper (c\<lparr>oc_pending := ps\<rparr>) = oc_items items mapper c"
    using found_pending [OF ps] by (auto simp: oc_items_def intro: oc_merge_cong)
  moreover from assms have "oc_last_head c = None" by (simp add: oc_inv_def split: option.splits)
  ultimately show ?thesis using hl found_pending [OF ps] assms(2) by (simp add: oc_head_def oc_inv_def)
qed

lemma oc_head_item:
  assumes "oc_inv inv items fin mapper c" and "oc_items items mapper c = h # t"
  shows "\<exists>i c' it xs. oc_head ops mapper c None = Some (Inr i, c') \<and> oc_inv inv items fin mapper c'
    \<and> oc_items items mapper c' = h # t \<and> i < length (oc_pending c') \<and> oc_pending c' ! i = Some it \<and> items it = h # xs
    \<and> oc_last_head c' = oc_last_head c
    \<and> (\<forall>it \<in> set (clearPendingThatAreNil (oc_pending c')). \<forall>x \<in> set (items it). mapper h \<le> mapper x)
    \<and> t = oc_merge mapper (map (\<lambda>it. fresh mapper (Some h) (items it)) (clearPendingThatAreNil (oc_pending c')))"
proof -
  let ?its = "clearPendingThatAreNil (oc_pending c)" and ?ly = "oc_last_yielded c"
  let ?g = "\<lambda>it. fresh mapper ?ly (items it)"
  from assms(1) have "list_all (src_ok ?ly) ?its" by (simp add: oc_inv_def)
  from head_loop_finds [OF this, of 0 None] obtain ps where
    hl: "head_loop ops mapper ?ly None 0 None ?its = Some (Inr (argmin mapper 0 None (map ?g ?its)), ps)"
    and ps: "list_all2 (found ?ly) ?its ps" by blast
  from found_pending [OF ps] have fp: "list_all (src_ok ?ly) (clearPendingThatAreNil ps)"
    "filter (\<lambda>l. l \<noteq> []) (map ?g (clearPendingThatAreNil ps)) = filter (\<lambda>l. l \<noteq> []) (map ?g ?its)"
    "map items (clearPendingThatAreNil ps) = map ?g (clearPendingThatAreNil ps)" by auto
  have same: "oc_merge mapper (map ?g (clearPendingThatAreNil ps)) = h # t"
    using oc_merge_cong [OF fp(2)] assms(2) by (simp add: oc_items_def)
  from assms(2) obtain i where i: "argmin mapper 0 None (map ?g ?its) = Some (i, h)"
    by (auto simp: oc_items_def elim: oc_merge_Cons)
  then obtain xs where xs: "i < length ?its" "?g (?its ! i) = h # xs" using argmin_Some [OF i] by auto
  obtain it where it: "i < length ps" "ps ! i = Some it" "items it = h # xs" by (rule found_index [OF ps xs])
  obtain i' where i': "argmin mapper 0 None (map items (clearPendingThatAreNil ps)) = Some (i', h)"
    and t: "t = oc_merge mapper (map (dropWhile (\<lambda>x. mapper x = mapper h)) (map items (clearPendingThatAreNil ps)))"
    using same fp(3) by (metis oc_merge_Cons)
  have "mapper h \<le> mapper x" if "it \<in> set (clearPendingThatAreNil ps)" "x \<in> set (items it)" for it x
    by (rule sorted_head_min [OF i', of "items it"]) (use fp(1) that in \<open>auto simp: list_all_iff sorted_source_def\<close>)
  moreover have "oc_items items mapper (c\<lparr>oc_pending := ps\<rparr>) = h # t" using same by (simp add: oc_items_def)
  moreover from this have "oc_inv inv items fin mapper (c\<lparr>oc_pending := ps\<rparr>)"
    using assms fp(1) by (auto simp: oc_inv_def split: option.splits)
  ultimately show ?thesis using hl i it t by (auto simp: oc_head_def fresh_def comp_def)
qed

lemma oc_Next_item:
  assumes "oc_inv inv items fin mapper c" and "oc_items items mapper c = h # t"
  shows "\<exists>c'. oc_Next ops mapper c None = Some (Inr h, c') \<and> oc_inv inv items fin mapper c' \<and> oc_items items mapper c' = t"
proof -
  obtain i c1 it xs where c1: "oc_head ops mapper c None = Some (Inr i, c1)" "oc_inv inv items fin mapper c1"
    and i: "i < length (oc_pending c1)" "oc_pending c1 ! i = Some it" "items it = h # xs"
    and min: "\<forall>it \<in> set (clearPendingThatAreNil (oc_pending c1)). \<forall>x \<in> set (items it). mapper h \<le> mapper x"
    and t: "t = oc_merge mapper (map (\<lambda>it. fresh mapper (Some h) (items it)) (clearPendingThatAreNil (oc_pending c1)))"
    using oc_head_item [OF assms] by blast
  have it: "it \<in> set (clearPendingThatAreNil (oc_pending c1))" using i by (simp add: nth_clear)
  with c1(2) have ok: "src_ok (oc_last_yielded c1) it" by (simp add: oc_inv_def list_all_iff)
  then obtain it' where n: "it_next ops it None = Some (Inr h, it')" "inv it'" "items it' = xs" "fin it' = fin it"
    using next_item [OF _ i(3)] by (auto simp: sorted_source_def)
  let ?ps = "(oc_pending c1)[i := Some it']"
  let ?c = "c1\<lparr>oc_last_head := None, oc_pending := ?ps, oc_last_yielded := Some h\<rparr>"
  have "map (\<lambda>it. fresh mapper (Some h) (items it)) (clearPendingThatAreNil ?ps) =
      map (\<lambda>it. fresh mapper (Some h) (items it)) (clearPendingThatAreNil (oc_pending c1))"
    by (rule clear_update [OF i(1,2)]) (simp add: i(3) n(3) fresh_def)
  with t have items: "oc_items items mapper ?c = t" by (simp add: oc_items_def)
  have "src_ok (Some h) it'" using ok n i(3) min it by (auto simp: sorted_source_def)
  moreover have "src_ok (Some h) x" if "x \<in> set (clearPendingThatAreNil (oc_pending c1))" for x
    using c1(2) min that by (auto simp: oc_inv_def sorted_source_def list_all_iff)
  ultimately have "oc_inv inv items fin mapper ?c"
    by (auto simp: oc_inv_def list_all_iff dest: set_clear_update)
  with c1(1) i n items show ?thesis by (auto simp: oc_Next_def call_pending_def)
qed

lemma oc_Head_item:
  assumes "oc_inv inv items fin mapper c" and "oc_items items mapper c = h # t"
  shows "\<exists>c'. oc_Head ops mapper c None = Some (Inr h, c') \<and> oc_inv inv items fin mapper c' \<and> oc_items items mapper c' = h # t"
proof (cases "oc_last_head c")
  case (Some h')
  with assms show ?thesis by (auto simp: oc_Head_def oc_inv_def)
next
  case None
  obtain i c1 it xs where c1: "oc_head ops mapper c None = Some (Inr i, c1)" "oc_inv inv items fin mapper c1"
    "oc_items items mapper c1 = h # t" and i: "i < length (oc_pending c1)" "oc_pending c1 ! i = Some it" "items it = h # xs"
    using oc_head_item [OF assms] by blast
  have "it \<in> set (clearPendingThatAreNil (oc_pending c1))" using i by (simp add: nth_clear)
  with c1(2) have ok: "src_ok (oc_last_yielded c1) it" by (simp add: oc_inv_def list_all_iff)
  then obtain it' where n: "it_head ops it None = Some (Inr h, it')" "inv it'" "items it' = h # xs" "fin it' = fin it"
    using head_item [OF _ i(3)] by (auto simp: sorted_source_def)
  let ?ps = "(oc_pending c1)[i := Some it']"
  let ?c = "c1\<lparr>oc_pending := ?ps, oc_last_head := Some h\<rparr>"
  have "map (\<lambda>it. fresh mapper (oc_last_yielded c1) (items it)) (clearPendingThatAreNil ?ps) =
      map (\<lambda>it. fresh mapper (oc_last_yielded c1) (items it)) (clearPendingThatAreNil (oc_pending c1))"
    by (rule clear_update [OF i(1,2)]) (simp add: i(3) n(3))
  with c1(3) have items: "oc_items items mapper ?c = h # t" by (simp add: oc_items_def)
  have "src_ok (oc_last_yielded c1) it'" using ok n i(3) by (auto simp: sorted_source_def split: option.splits)
  with c1(2) items have "oc_inv inv items fin mapper ?c"
    by (auto simp: oc_inv_def list_all_iff dest: set_clear_update)
  with None c1(1) i n items show ?thesis by (auto simp: oc_Head_def call_pending_def)
qed

end

sublocale ordered_sources \<subseteq> ordered: live_iterator "OrderedCombinedIterator ops mapper" "oc_inv inv items fin mapper"
  "oc_items items mapper" "\<lambda>_. ErrIteratorDone"
proof unfold_locales
  fix c :: "('s, 'a) ordered_combined" and h t
  assume c: "oc_inv inv items fin mapper c" "oc_items items mapper c = h # t"
  show "\<exists>c'. it_next (OrderedCombinedIterator ops mapper) c None = Some (Inr h, c') \<and> oc_inv inv items fin mapper c'
      \<and> oc_items items mapper c' = t \<and> ErrIteratorDone = ErrIteratorDone"
    using oc_Next_item [OF c] by (simp add: OrderedCombinedIterator_def)
  show "\<exists>c'. it_head (OrderedCombinedIterator ops mapper) c None = Some (Inr h, c') \<and> oc_inv inv items fin mapper c'
      \<and> oc_items items mapper c' = h # t \<and> ErrIteratorDone = ErrIteratorDone"
    using oc_Head_item [OF c] by (simp add: OrderedCombinedIterator_def)
next
  fix c :: "('s, 'a) ordered_combined"
  assume c: "oc_inv inv items fin mapper c" "oc_items items mapper c = []"
  then have "oc_last_head c = None" by (simp add: oc_inv_def split: option.splits)
  with oc_head_end [OF c]
  show "\<exists>c'. it_next (OrderedCombinedIterator ops mapper) c None = Some (Inl ErrIteratorDone, c')
      \<and> oc_inv inv items fin mapper c' \<and> oc_items items mapper c' = []"
    and "\<exists>c'. it_head (OrderedCombinedIterator ops mapper) c None = Some (Inl ErrIteratorDone, c')
      \<and> oc_inv inv items fin mapper c' \<and> oc_items items mapper c' = [] \<and> ErrIteratorDone = ErrIteratorDone"
    by (auto simp: OrderedCombinedIterator_def oc_Next_def oc_Head_def)
qed

interpretation ordered_static: ordered_sources StaticIterator "\<lambda>_. True" "\<lambda>s. s" "\<lambda>_. ErrIteratorDone" mapper
  for mapper
  by unfold_locales

lemma NewOrderedCombinedIterator_good:
  assumes "\<forall>s \<in> set (clearPendingThatAreNil iters). sorted (map mapper s)"
  shows "oc_inv (\<lambda>_. True) (\<lambda>s. s) (\<lambda>_. ErrIteratorDone) mapper (NewOrderedCombinedIterator StaticIterator iters)
    \<and> oc_items (\<lambda>s. s) mapper (NewOrderedCombinedIterator StaticIterator iters)
      = oc_merge mapper (clearPendingThatAreNil iters)"
  using assms by (simp add: oc_inv_def oc_items_def NewOrderedCombinedIterator_def Let_def sorted_source_def list_all_iff)

section \<open>Properties\<close>

text \<open>
  C25: Draining the ordered combination of static sources that are sorted by the mapper ends with
  \<open>ErrIteratorDone\<close>, after yielding, in strictly ascending order of the mapper, items of the sources
  with exactly one item for every value of the mapper that occurs in a source.
\<close>

theorem OrderedCombinedIterator_merges:
  assumes "\<forall>s \<in> set (clearPendingThatAreNil iters). sorted (map mapper s)"
  shows "\<exists>ys. drain (OrderedCombinedIterator StaticIterator mapper) (NewOrderedCombinedIterator StaticIterator iters)
        = Some (ys, ErrIteratorDone)
    \<and> sorted_wrt (<) (map mapper ys)
    \<and> mapper ` set ys = mapper ` (\<Union>s \<in> set (clearPendingThatAreNil iters). set s)
    \<and> set ys \<subseteq> (\<Union>s \<in> set (clearPendingThatAreNil iters). set s)"
proof -
  let ?c = "NewOrderedCombinedIterator StaticIterator iters"
  note good = NewOrderedCombinedIterator_good [OF assms]
  have "drain (OrderedCombinedIterator StaticIterator mapper) ?c = Some (oc_items (\<lambda>s. s) mapper ?c, ErrIteratorDone)"
    by (rule ordered_static.ordered.drain_items) (use good in blast)
  with good oc_merge_keys [OF assms] show ?thesis by auto
qed

theorem OrderedCombinedIterator_merges_witness:
  "\<exists>ys. drain (OrderedCombinedIterator StaticIterator id)
          (NewOrderedCombinedIterator StaticIterator [Some [''a'', ''c''], None, Some [''a'', ''a'', ''b'']])
        = Some (ys, ErrIteratorDone) \<and> set ys = {''a'', ''b'', ''c''} \<and> sorted_wrt (<) ys"
proof -
  have "\<forall>s \<in> set (clearPendingThatAreNil [Some [''a'', ''c''], None, Some [''a'', ''a'', ''b'']]). sorted (map id s)"
    by simp
  from OrderedCombinedIterator_merges [OF this] show ?thesis by (auto simp: insert_commute)
qed

end
