(* ===== verification/TupleReaders.thy ===== *)
theory TupleReaders
  imports Validation MemoryProps OrderedIterators
begin

text \<open>
  The tuples a query reads: the interface \<open>RelationshipTupleReader\<close> of \<open>src/pkg/storage/storage.go\<close>
  as a record of operations, and \<open>src/pkg/storage/storagewrappers/combinedtuplereader.go\<close>, which adds
  the contextual tuples of a request to a datastore.  A read that succeeds is represented by the tuples
  its iterator yields.  The locale \<open>relationship_store\<close> is what queries rely on; the in-memory datastore
  satisfies it, and the combined reader satisfies it whenever the datastore does.
\<close>

section \<open>Readers\<close>

record tuple_reader =
  rd_Read :: "string \<Rightarrow> read_filter \<Rightarrow> storage_error + tuple list"
  rd_ReadUserTuple :: "string \<Rightarrow> read_filter \<Rightarrow> storage_error + tuple"
  rd_ReadUsersetTuples :: "string \<Rightarrow> read_userset_tuples_filter \<Rightarrow> storage_error + tuple list"
  rd_ReadStartingWithUser :: "string \<Rightarrow> read_starting_with_user_filter \<Rightarrow> bool \<Rightarrow> storage_error + tuple list \<times> iter_error"
  rd_ReadPage :: "string \<Rightarrow> read_filter \<Rightarrow> pagination_options \<Rightarrow> storage_error + tuple list \<times> string"

definition memory_reader :: "memory_backend \<Rightarrow> tuple_reader" where
  "memory_reader s =
     \<lparr>rd_Read = (\<lambda>st f. case Read s st f of Inl e \<Rightarrow> Inl e | Inr it \<Rightarrow> Inr (map AsTuple (si_records it))),
      rd_ReadUserTuple = ReadUserTuple s,
      rd_ReadUsersetTuples = (\<lambda>st f. Inr (map AsTuple (si_records (ReadUsersetTuples s st f)))),
      rd_ReadStartingWithUser = (\<lambda>st f _. Inr (map AsTuple (si_records (ReadStartingWithUser s st f)), ErrIteratorDone)),
      rd_ReadPage = ReadPage s\<rparr>"

section \<open>Contextual tuples\<close>

text \<open>\<open>slices.SortFunc\<close> by object; tuples of one object keep their order here.\<close>

definition contextual_tuples :: "tuple_key list \<Rightarrow> tuple_key list" where
  "contextual_tuples contextualTuples =
     sort_key tk_object (map (\<lambda>t. NewTupleKeyWithCondition (tk_object t) (tk_relation t) (tk_user t)
       (get_condition_name (tk_condition t)) (get_condition_context (tk_condition t))) contextualTuples)"

definition contextual_tuple :: "tuple_key \<Rightarrow> tuple" where
  "contextual_tuple tk = \<lparr>tup_key = tk, tup_timestamp = None\<rparr>"

definition filterTuples :: "tuple_key list \<Rightarrow> string \<Rightarrow> string \<Rightarrow> string list \<Rightarrow> tuple list" where
  "filterTuples tuples targetObject targetRelation targetUsers =
     map contextual_tuple (filter (\<lambda>tk.
       (targetObject = '''' \<or> tk_object tk = targetObject)
       \<and> (targetRelation = '''' \<or> tk_relation tk = targetRelation)
       \<and> (targetUsers = [] \<or> tk_user tk \<in> set targetUsers)) tuples)"

definition tupleMatchesAllowedUserTypeRestrictions :: "tuple \<Rightarrow> relation_reference list \<Rightarrow> bool" where
  "tupleMatchesAllowedUserTypeRestrictions t allowed =
     (let tupleUser = tk_user (tup_key t) in
      if GetUserTypeFromUser tupleUser \<noteq> UserSet then False
      else \<exists>a \<in> set allowed.
        (case rr_relation_or_wildcard a of
           Some RWildcard \<Rightarrow> IsTypedWildcard tupleUser \<and> GetType tupleUser = rr_type a
         | Some (RRelation _) \<Rightarrow> IsObjectRelation tupleUser \<and> GetType tupleUser = rr_type a
             \<and> Tuple.GetRelation tupleUser = rr_relation a
         | None \<Rightarrow> False))"

definition combined_Read :: "tuple_reader \<Rightarrow> tuple_key list \<Rightarrow> string \<Rightarrow> read_filter \<Rightarrow> storage_error + tuple list" where
  "combined_Read ds ctx storeID f =
     (let iter1 = filterTuples ctx (rf_object f) (rf_relation f) [] in
      case rd_Read ds storeID f of
        Inl e \<Rightarrow> Inl e
      | Inr iter2 \<Rightarrow> Inr (concat (NewCombinedIterator [Some iter1, Some iter2])))"

definition combined_ReadUserTuple :: "tuple_reader \<Rightarrow> tuple_key list \<Rightarrow> string \<Rightarrow> read_filter \<Rightarrow> storage_error + tuple" where
  "combined_ReadUserTuple ds ctx store f =
     (case find_first (\<lambda>t. tk_user (tup_key t) = rf_user f) (filterTuples ctx (rf_object f) (rf_relation f) [rf_user f]) of
        Some t \<Rightarrow> Inr t
      | None \<Rightarrow> rd_ReadUserTuple ds store f)"

definition combined_ReadUsersetTuples ::
    "tuple_reader \<Rightarrow> tuple_key list \<Rightarrow> string \<Rightarrow> read_userset_tuples_filter \<Rightarrow> storage_error + tuple list" where
  "combined_ReadUsersetTuples ds ctx store f =
     (let usersetTuples = filter (\<lambda>t. tupleMatchesAllowedUserTypeRestrictions t (ruf_allowed f))
            (filterTuples ctx (ruf_object f) (ruf_relation f) []) in
      case rd_ReadUsersetTuples ds store f of
        Inl e \<Rightarrow> Inl e
      | Inr iter2 \<Rightarrow> Inr (concat (NewCombinedIterator [Some usersetTuples, Some iter2])))"

text \<open>
  The two iterators of \<open>ReadStartingWithUser\<close> are merged when sorted results are asked for; otherwise
  they are read one after the other.  The datastore's iterator, which yields given tuples and then a
  given error, is \<open>read_iterator\<close>.
\<close>

definition read_Next :: "(tuple list \<times> iter_error, tuple) iter_call" where
  "read_Next s ctx =
     (case ctx of
        Some e \<Rightarrow> Some (Inl e, s)
      | None \<Rightarrow> (case s of ([], err) \<Rightarrow> Some (Inl err, s) | (t # ts, err) \<Rightarrow> Some (Inr t, (ts, err))))"

definition read_Head :: "(tuple list \<times> iter_error, tuple) iter_call" where
  "read_Head s ctx =
     (case ctx of
        Some e \<Rightarrow> Some (Inl e, s)
      | None \<Rightarrow> (case s of ([], err) \<Rightarrow> Some (Inl err, s) | (t # _, _) \<Rightarrow> Some (Inr t, s)))"

definition read_iterator :: "(tuple list \<times> iter_error, tuple) iter_ops" where
  "read_iterator = \<lparr>it_next = read_Next, it_head = read_Head, it_stop = (\<lambda>_. ([], ErrIteratorDone)), it_ordered = (\<lambda>_. True)\<rparr>"

definition combined_ReadStartingWithUser ::
    "tuple_reader \<Rightarrow> tuple_key list \<Rightarrow> string \<Rightarrow> read_starting_with_user_filter \<Rightarrow> bool
     \<Rightarrow> storage_error + tuple list \<times> iter_error" where
  "combined_ReadStartingWithUser ds ctx store f sorted_ascending =
     (let userFilters = map (\<lambda>u. if or_relation u \<noteq> '''' then ToObjectRelationString (or_object u) (or_relation u)
                                 else or_object u) (rsw_user_filter f);
          iter1 = filter (\<lambda>t. GetType (tk_object (tup_key t)) = rsw_object_type f)
            (filterTuples ctx '''' (rsw_relation f) userFilters) in
      case rd_ReadStartingWithUser ds store f sorted_ascending of
        Inl e \<Rightarrow> Inl e
      | Inr iter2 \<Rightarrow>
          let iters = [Some (iter1, ErrIteratorDone), Some iter2] in
          (case (if sorted_ascending
                 then drain (OrderedCombinedIterator read_iterator ObjectMapper) (NewOrderedCombinedIterator read_iterator iters)
                 else drain (combinedIterator read_iterator) (NewCombinedIterator iters)) of
             Some r \<Rightarrow> Inr r
           | None \<Rightarrow> Inr ([], Canceled)))"

definition NewCombinedTupleReader :: "tuple_reader \<Rightarrow> tuple_key list \<Rightarrow> tuple_reader" where
  "NewCombinedTupleReader ds contextualTuples =
     (let ctx = contextual_tuples contextualTuples in
      \<lparr>rd_Read = combined_Read ds ctx, rd_ReadUserTuple = combined_ReadUserTuple ds ctx,
       rd_ReadUsersetTuples = combined_ReadUsersetTuples ds ctx,
       rd_ReadStartingWithUser = combined_ReadStartingWithUser ds ctx, rd_ReadPage = rd_ReadPage ds\<rparr>)"

section \<open>What queries rely on\<close>

text \<open>
  \<open>contents\<close> are the tuples of a store.  A read may fail; when it succeeds it returns the tuples that the
  filter describes.  There is one tuple per key, and the user of a tuple is an object, a typed wildcard
  or a userset.
\<close>

definition restricts :: "relation_reference list \<Rightarrow> bool" where
  "restricts allowed \<longleftrightarrow> allowed \<noteq> [] \<and> list_all (\<lambda>a. rr_is_wildcard a \<or> rr_relation a \<noteq> '''') allowed"

definition allowed_user :: "relation_reference list \<Rightarrow> string \<Rightarrow> bool" where
  "allowed_user allowed u \<longleftrightarrow> (\<exists>s. subject_of u = Some s \<and> (\<exists>a \<in> set allowed. admits a s))"

locale relationship_store =
  fixes reader :: "'s \<Rightarrow> tuple_reader" and invar :: "'s \<Rightarrow> string \<Rightarrow> bool" and contents :: "'s \<Rightarrow> string \<Rightarrow> tuple_key set"
  assumes one_tuple: "invar s st \<Longrightarrow> k \<in> contents s st \<Longrightarrow> k' \<in> contents s st \<Longrightarrow> tkey_of k = tkey_of k' \<Longrightarrow> k = k'"
    and subjects: "invar s st \<Longrightarrow> k \<in> contents s st \<Longrightarrow> subject_of (tk_user k) \<noteq> None"
    and found: "invar s st \<Longrightarrow> valid_key (NewTupleKey ob r u) \<Longrightarrow>
      rd_ReadUserTuple (reader s) st \<lparr>rf_object = ob, rf_relation = r, rf_user = u, rf_conditions = []\<rparr> = Inr t \<Longrightarrow>
      tup_key t \<in> contents s st \<and> tkey_of (tup_key t) = (ob, r, u)"
    and not_found: "invar s st \<Longrightarrow> valid_key (NewTupleKey ob r u) \<Longrightarrow>
      rd_ReadUserTuple (reader s) st \<lparr>rf_object = ob, rf_relation = r, rf_user = u, rf_conditions = []\<rparr> = Inl ErrNotFound \<Longrightarrow>
      k \<in> contents s st \<Longrightarrow> tkey_of k \<noteq> (ob, r, u)"
    and read_object: "invar s st \<Longrightarrow> IsValidObject ob \<Longrightarrow> r \<noteq> '''' \<Longrightarrow>
      rd_Read (reader s) st \<lparr>rf_object = ob, rf_relation = r, rf_user = '''', rf_conditions = []\<rparr> = Inr ts \<Longrightarrow>
      tup_key ` set ts = {k \<in> contents s st. tk_object k = ob \<and> tk_relation k = r}"
    and read_usersets: "invar s st \<Longrightarrow> IsValidObject ob \<Longrightarrow> r \<noteq> '''' \<Longrightarrow> restricts allowed \<Longrightarrow>
      rd_ReadUsersetTuples (reader s) st \<lparr>ruf_object = ob, ruf_relation = r, ruf_allowed = allowed, ruf_conditions = []\<rparr> = Inr ts \<Longrightarrow>
      tup_key ` set ts = {k \<in> contents s st. tk_object k = ob \<and> tk_relation k = r \<and> allowed_user allowed (tk_user k)}"

section \<open>The in-memory datastore\<close>

definition memory_contents :: "memory_backend \<Rightarrow> string \<Rightarrow> tuple_key set" where
  "memory_contents s st = (tup_key \<circ> AsTuple) ` set (mb_tuples s st)"

definition memory_invar :: "memory_backend \<Rightarrow> string \<Rightarrow> bool" where
  "memory_invar s st \<longleftrightarrow> mem_inv s st \<and> list_all (\<lambda>tr. subject_of (tr_user tr) \<noteq> None) (mb_tuples s st)"

lemma record_key:
  assumes "memory_invar s st" and "tr \<in> set (mb_tuples s st)"
  shows "tkey_of (tup_key (AsTuple tr)) = rec_key tr" and "tk_object (tup_key (AsTuple tr)) = BuildObject (tr_object_type tr) (tr_object_id tr)"
    and "tk_relation (tup_key (AsTuple tr)) = tr_relation tr" and "tk_user (tup_key (AsTuple tr)) = tr_user tr"
proof -
  have "tr_user tr \<noteq> ''''" using assms by (auto simp: memory_invar_def mem_inv_def wf_records_def wf_record_def list_all_iff)
  from AsTuple_key [OF this] show "tkey_of (tup_key (AsTuple tr)) = rec_key tr"
    "tk_object (tup_key (AsTuple tr)) = BuildObject (tr_object_type tr) (tr_object_id tr)"
    "tk_relation (tup_key (AsTuple tr)) = tr_relation tr" "tk_user (tup_key (AsTuple tr)) = tr_user tr"
    by (simp_all add: tkey_of_def rec_key_def)
qed

lemma match_object_relation:
  assumes "wf_record st tr" and "IsValidObject ob" and "r \<noteq> ''''"
  shows "match tr (NewTupleKey ob r '''') \<longleftrightarrow> BuildObject (tr_object_type tr) (tr_object_id tr) = ob \<and> tr_relation tr = r"
proof -
  obtain t i where o: "ob = BuildObject t i" "SplitObject ob = (t, i)" "i \<noteq> ''''" "CHR '':'' \<notin> set t"
    using assms(2) by (rule IsValidObject_split)
  then have "ob \<noteq> ''''" by (simp add: BuildObject_def)
  with o assms(1,3) BuildObject_eq_iff [of "tr_object_type tr" t "tr_object_id tr" i] show ?thesis
    by (auto simp: match_def match_object_def match_user_def NewTupleKey_def wf_record_def)
qed


lemma memory_user_tuple:
  assumes "memory_invar s st" and "valid_key (NewTupleKey ob r u)"
  shows "ReadUserTuple s st \<lparr>rf_object = ob, rf_relation = r, rf_user = u, rf_conditions = []\<rparr>
    = (case find_first (\<lambda>tr. rec_key tr = (ob, r, u)) (mb_tuples s st) of Some tr \<Rightarrow> Inr (AsTuple tr) | None \<Rightarrow> Inl ErrNotFound)"
proof -
  have "match tr (NewTupleKey ob r u) \<longleftrightarrow> rec_key tr = (ob, r, u)" if "tr \<in> set (mb_tuples s st)" for tr
    using assms that match_iff [of st tr "NewTupleKey ob r u"]
    by (auto simp: memory_invar_def mem_inv_def wf_records_def list_all_iff tkey_of_def NewTupleKey_def)
  then have "find_first (\<lambda>tr. match tr (NewTupleKey ob r u) \<and> conditions_allow [] tr) (mb_tuples s st)
      = find_first (\<lambda>tr. rec_key tr = (ob, r, u)) (mb_tuples s st)"
    by (intro find_first_cong) (simp_all add: conditions_allow_def)
  then show ?thesis by (simp add: ReadUserTuple_def)
qed

lemma memory_matches:
  assumes "memory_invar s st" and "IsValidObject ob" and "r \<noteq> ''''" and "tr \<in> set (mb_tuples s st)"
  shows "match tr (NewTupleKey ob r '''') \<longleftrightarrow> tk_object (tup_key (AsTuple tr)) = ob \<and> tk_relation (tup_key (AsTuple tr)) = r"
proof -
  have "wf_record st tr" using assms(1,4) by (simp add: memory_invar_def mem_inv_def wf_records_def list_all_iff)
  from match_object_relation [OF this assms(2,3)] record_key [OF assms(1,4)] show ?thesis by simp
qed

lemma userset_restriction:
  assumes "subject_of u = Some s" and "restricts allowed"
  shows "GetUserTypeFromUser u = UserSet \<and> (\<exists>a \<in> set allowed. rr_type a = GetType u \<and> rr_relation a = snd (SplitObjectRelation u))
    \<longleftrightarrow> (\<exists>a \<in> set allowed. admits a s)"
proof -
  have "snd (SplitObjectRelation u) = subject_relation s" using subject_user(7) [OF assms(1)] by auto
  moreover have "rr_is_wildcard a \<or> rr_relation a \<noteq> ''''" if "a \<in> set allowed" for a
    using assms(2) that by (auto simp: restricts_def list_all_iff)
  moreover have "IsWildcard u \<longleftrightarrow> (\<exists>t. s = Public t)"
  proof -
    have "u \<noteq> Wildcard" using assms(1) by (cases rule: subject_cases) (auto simp: Wildcard_def append_eq_Cons_conv)
    with subject_user(4) [OF assms(1)] show ?thesis by (simp add: IsWildcard_def)
  qed
  moreover have "\<not> (rr_is_wildcard a \<and> rr_relation a \<noteq> '''')" for a by (simp add: rr_is_wildcard_def rr_relation_def)
  moreover have "subject_relation s = '''' \<longleftrightarrow> \<not> (\<exists>t i r. s = Members t i r)"
    using assms(1) by (cases rule: subject_cases) (auto simp: subject_relation_def userset_part_def)
  ultimately show ?thesis
    using subject_user(2,5) [OF assms(1)]
    by (cases s) (auto simp: GetUserTypeFromUser_def subject_relation_def)
qed


lemma memory_usersets:
  assumes "memory_invar s st" and "restricts allowed" and "tr \<in> set (mb_tuples s st)"
  shows "GetUserTypeFromUser (tr_user tr) = UserSet \<and> x \<in> set (userset_matches allowed tr)
    \<longleftrightarrow> x = tr \<and> allowed_user allowed (tk_user (tup_key (AsTuple tr)))"
proof -
  obtain sb where sb: "subject_of (tr_user tr) = Some sb" using assms(1,3) by (auto simp: memory_invar_def list_all_iff)
  have "allowed \<noteq> []" using assms(2) by (simp add: restricts_def)
  with userset_restriction [OF sb assms(2)] record_key(4) [OF assms(1,3)] sb show ?thesis
    by (auto simp: userset_matches_def allowed_user_def)
qed

lemma memory_law_usersets:
  assumes "memory_invar s st" and "IsValidObject ob" and "r \<noteq> ''''" and "restricts allowed"
  shows "tup_key ` set (map AsTuple (si_records (ReadUsersetTuples s st
      \<lparr>ruf_object = ob, ruf_relation = r, ruf_allowed = allowed, ruf_conditions = []\<rparr>)))
    = {k \<in> memory_contents s st. tk_object k = ob \<and> tk_relation k = r \<and> allowed_user allowed (tk_user k)}"
proof -
  have "set (si_records (ReadUsersetTuples s st \<lparr>ruf_object = ob, ruf_relation = r, ruf_allowed = allowed, ruf_conditions = []\<rparr>))
      = {tr \<in> set (mb_tuples s st). tk_object (tup_key (AsTuple tr)) = ob \<and> tk_relation (tup_key (AsTuple tr)) = r
          \<and> allowed_user allowed (tk_user (tup_key (AsTuple tr)))}"
    using memory_matches [OF assms(1-3)] memory_usersets [OF assms(1,4)]
    by (fastforce simp: ReadUsersetTuples_def split: if_splits)
  then show ?thesis by (auto simp: memory_contents_def image_iff)
qed

lemma memory_law_read:
  assumes "memory_invar s st" and "IsValidObject ob" and "r \<noteq> ''''"
  shows "\<exists>it. Read s st \<lparr>rf_object = ob, rf_relation = r, rf_user = '''', rf_conditions = []\<rparr> = Inr it
    \<and> tup_key ` set (map AsTuple (si_records it)) = {k \<in> memory_contents s st. tk_object k = ob \<and> tk_relation k = r}"
proof -
  let ?f = "\<lparr>rf_object = ob, rf_relation = r, rf_user = '''', rf_conditions = []\<rparr>"
  have "set (read_matches s st ?f) = {tr \<in> set (mb_tuples s st). tk_object (tup_key (AsTuple tr)) = ob \<and> tk_relation (tup_key (AsTuple tr)) = r}"
    using assms(3) memory_matches [OF assms] by (auto simp: read_matches_def conditions_allow_def)
  then have "tup_key ` set (map AsTuple (read_matches s st ?f)) = {k \<in> memory_contents s st. tk_object k = ob \<and> tk_relation k = r}"
    by (auto simp: memory_contents_def image_iff)
  then show ?thesis by (simp add: Read_def mem_read_def Let_def)
qed

lemma memory_store: "relationship_store memory_reader memory_invar memory_contents"
proof
  fix s st k k'
  assume inv: "memory_invar s st" and k: "k \<in> memory_contents s st" "k' \<in> memory_contents s st" "tkey_of k = tkey_of k'"
  from inv have "inj_on rec_key (set (mb_tuples s st))"
    by (simp add: memory_invar_def mem_inv_def wf_records_def distinct_map)
  with k record_key(1) [OF inv] show "k = k'" by (fastforce simp: memory_contents_def dest: inj_onD)
next
  fix s st k
  assume inv: "memory_invar s st" and "k \<in> memory_contents s st"
  then show "subject_of (tk_user k) \<noteq> None"
    using record_key(4) [OF inv] by (auto simp: memory_contents_def memory_invar_def list_all_iff)
next
  fix s st ob r u t
  assume inv: "memory_invar s st" and "valid_key (NewTupleKey ob r u)"
    and "rd_ReadUserTuple (memory_reader s) st \<lparr>rf_object = ob, rf_relation = r, rf_user = u, rf_conditions = []\<rparr> = Inr t"
  then show "tup_key t \<in> memory_contents s st \<and> tkey_of (tup_key t) = (ob, r, u)"
    using record_key(1) [OF inv]
    by (auto simp: memory_reader_def memory_user_tuple memory_contents_def split: option.splits dest!: find_first_SomeD)
next
  fix s st ob r u k
  assume inv: "memory_invar s st" and "valid_key (NewTupleKey ob r u)" and "k \<in> memory_contents s st"
    and "rd_ReadUserTuple (memory_reader s) st \<lparr>rf_object = ob, rf_relation = r, rf_user = u, rf_conditions = []\<rparr> = Inl ErrNotFound"
  then show "tkey_of k \<noteq> (ob, r, u)"
    using record_key(1) [OF inv]
    by (auto simp: memory_reader_def memory_user_tuple memory_contents_def find_first_None_iff split: option.splits)
next
  fix s st ob r ts
  assume "memory_invar s st" "IsValidObject ob" "r \<noteq> ''''"
    "rd_Read (memory_reader s) st \<lparr>rf_object = ob, rf_relation = r, rf_user = '''', rf_conditions = []\<rparr> = Inr ts"
  with memory_law_read [of s st ob r] show "tup_key ` set ts = {k \<in> memory_contents s st. tk_object k = ob \<and> tk_relation k = r}"
    by (fastforce simp only: memory_reader_def tuple_reader.simps sum.simps)
next
  fix s st ob r allowed ts
  assume "memory_invar s st" "IsValidObject ob" "r \<noteq> ''''" "restricts allowed"
    "rd_ReadUsersetTuples (memory_reader s) st \<lparr>ruf_object = ob, ruf_relation = r, ruf_allowed = allowed, ruf_conditions = []\<rparr> = Inr ts"
  with memory_law_usersets [of s st ob r allowed]
  show "tup_key ` set ts = {k \<in> memory_contents s st. tk_object k = ob \<and> tk_relation k = r \<and> allowed_user allowed (tk_user k)}"
    by (auto simp only: memory_reader_def tuple_reader.simps sum.inject)
qed


section \<open>The combined reader\<close>

definition combined_invar :: "('s \<Rightarrow> string \<Rightarrow> bool) \<Rightarrow> ('s \<Rightarrow> string \<Rightarrow> tuple_key set) \<Rightarrow> 's \<times> tuple_key list \<Rightarrow> string \<Rightarrow> bool" where
  "combined_invar invar contents sc st \<longleftrightarrow> invar (fst sc) st
     \<and> list_all (\<lambda>k. subject_of (tk_user k) \<noteq> None) (snd sc) \<and> distinct (map tkey_of (snd sc))
     \<and> tkey_of ` set (snd sc) \<inter> tkey_of ` contents (fst sc) st = {}"

definition combined_contents :: "('s \<Rightarrow> string \<Rightarrow> tuple_key set) \<Rightarrow> 's \<times> tuple_key list \<Rightarrow> string \<Rightarrow> tuple_key set" where
  "combined_contents contents sc st = set (contextual_tuples (snd sc)) \<union> contents (fst sc) st"

definition combined_reader :: "('s \<Rightarrow> tuple_reader) \<Rightarrow> 's \<times> tuple_key list \<Rightarrow> tuple_reader" where
  "combined_reader reader sc = NewCombinedTupleReader (reader (fst sc)) (snd sc)"

lemma contextual_key:
  "k \<in> set (contextual_tuples ctx) \<longleftrightarrow> (\<exists>c \<in> set ctx. k = NewTupleKeyWithCondition (tk_object c) (tk_relation c) (tk_user c)
     (get_condition_name (tk_condition c)) (get_condition_context (tk_condition c)))"
  by (auto simp: contextual_tuples_def)

lemma tkey_of_contextual: "tkey_of (NewTupleKeyWithCondition (tk_object c) (tk_relation c) (tk_user c) n x) = tkey_of c"
  by (simp add: tkey_of_def NewTupleKeyWithCondition_def)

lemma contextual_user:
  "k \<in> set (contextual_tuples ctx) \<Longrightarrow> \<exists>c \<in> set ctx. tkey_of k = tkey_of c \<and> tk_user k = tk_user c"
  unfolding contextual_key by (auto simp: tkey_of_def NewTupleKeyWithCondition_def)

lemma contextual_one:
  assumes "distinct (map tkey_of ctx)" and "k \<in> set (contextual_tuples ctx)" and "k' \<in> set (contextual_tuples ctx)" and "tkey_of k = tkey_of k'"
  shows "k = k'"
  using assms by (auto simp: contextual_key tkey_of_contextual distinct_map dest: inj_onD)

lemma contextual_tuple_key [simp]: "tup_key (contextual_tuple k) = k"
  by (simp add: contextual_tuple_def)

lemma set_filterTuples:
  "tup_key ` set (filterTuples ctx ob r us) =
     {k \<in> set ctx. (ob = '''' \<or> tk_object k = ob) \<and> (r = '''' \<or> tk_relation k = r) \<and> (us = [] \<or> tk_user k \<in> set us)}"
  by (auto simp: filterTuples_def image_iff)

lemma combined_concat: "concat (NewCombinedIterator [Some xs, Some ys]) = xs @ ys"
  using NewCombinedIterator_Some [of "[xs, ys]"] by simp

lemma tuple_restriction:
  assumes "subject_of (tk_user (tup_key t)) = Some s"
  shows "tupleMatchesAllowedUserTypeRestrictions t allowed \<longleftrightarrow> (\<exists>a \<in> set allowed. (rr_is_wildcard a \<or> rr_relation a \<noteq> '''') \<and> admits a s)"
proof -
  note u = subject_user [OF assms]
  have "GetUserTypeFromUser (tk_user (tup_key t)) \<noteq> UserSet \<longrightarrow> (\<exists>ty i. s = Concrete ty i)"
    using u(2,4) by (cases s) (auto simp: GetUserTypeFromUser_def IsWildcard_def)
  moreover have "GetUserTypeFromUser (tk_user (tup_key t)) = UserSet" if "\<not> (\<exists>ty i. s = Concrete ty i)"
    using u(2,4) that by (cases s) (auto simp: GetUserTypeFromUser_def IsWildcard_def)
  moreover have "subject_relation s = '''' \<longleftrightarrow> \<not> (\<exists>t i r. s = Members t i r)"
    using assms by (cases rule: subject_cases) (auto simp: subject_relation_def userset_part_def)
  then have "(case rr_relation_or_wildcard a of
           Some RWildcard \<Rightarrow> IsTypedWildcard (tk_user (tup_key t)) \<and> GetType (tk_user (tup_key t)) = rr_type a
         | Some (RRelation _) \<Rightarrow> IsObjectRelation (tk_user (tup_key t)) \<and> GetType (tk_user (tup_key t)) = rr_type a
             \<and> Tuple.GetRelation (tk_user (tup_key t)) = rr_relation a
         | None \<Rightarrow> False) \<longleftrightarrow> (rr_is_wildcard a \<or> rr_relation a \<noteq> '''') \<and> admits a s" for a
    using u(2,4-6)
    by (cases s; cases "rr_relation_or_wildcard a"; cases "the (rr_relation_or_wildcard a)")
      (auto simp: rr_is_wildcard_def rr_relation_def subject_relation_def)
  moreover have "\<not> ((rr_is_wildcard a \<or> rr_relation a \<noteq> '''') \<and> admits a (Concrete ty i))" for a ty i by auto
  ultimately show ?thesis by (auto simp: tupleMatchesAllowedUserTypeRestrictions_def Let_def)
qed


locale combined_store = relationship_store reader invar contents
  for reader :: "'s \<Rightarrow> tuple_reader" and invar contents
begin

lemma combined_user_tuple:
  assumes "valid_key (NewTupleKey ob r u)"
  shows "(\<exists>k \<in> set (contextual_tuples (snd sc)). tkey_of k = (ob, r, u)
      \<and> rd_ReadUserTuple (combined_reader reader sc) st \<lparr>rf_object = ob, rf_relation = r, rf_user = u, rf_conditions = []\<rparr>
        = Inr (contextual_tuple k))
    \<or> (\<forall>k \<in> set (contextual_tuples (snd sc)). tkey_of k \<noteq> (ob, r, u))
      \<and> rd_ReadUserTuple (combined_reader reader sc) st \<lparr>rf_object = ob, rf_relation = r, rf_user = u, rf_conditions = []\<rparr>
        = rd_ReadUserTuple (reader (fst sc)) st \<lparr>rf_object = ob, rf_relation = r, rf_user = u, rf_conditions = []\<rparr>"
proof -
  have "ob \<noteq> ''''" "r \<noteq> ''''" using assms by (auto simp: valid_key_def NewTupleKey_def IsValidObject_iff IsValidRelation_iff)
  then show ?thesis
    by (auto simp: combined_reader_def NewCombinedTupleReader_def combined_ReadUserTuple_def filterTuples_def Let_def
        tkey_of_def find_first_None_iff split: option.splits dest!: find_first_SomeD)
qed

lemma combined_usersets:
  assumes inv: "combined_invar invar contents sc st" and "IsValidObject ob" and "r \<noteq> ''''" and "restricts allowed"
    and read: "rd_ReadUsersetTuples (combined_reader reader sc) st
      \<lparr>ruf_object = ob, ruf_relation = r, ruf_allowed = allowed, ruf_conditions = []\<rparr> = Inr ts"
  shows "tup_key ` set ts = {k \<in> combined_contents contents sc st. tk_object k = ob \<and> tk_relation k = r \<and> allowed_user allowed (tk_user k)}"
proof -
  let ?ctx = "contextual_tuples (snd sc)"
  have "tupleMatchesAllowedUserTypeRestrictions t allowed \<longleftrightarrow> allowed_user allowed (tk_user (tup_key t))"
    if t: "tup_key t \<in> set ?ctx" for t
  proof -
    obtain sb where sb: "subject_of (tk_user (tup_key t)) = Some sb"
      using inv contextual_user [OF t] by (auto simp: combined_invar_def list_all_iff)
    have "rr_is_wildcard a \<or> rr_relation a \<noteq> ''''" if "a \<in> set allowed" for a
      using assms(4) that by (auto simp: restricts_def list_all_iff)
    with tuple_restriction [OF sb, of allowed] sb show ?thesis by (auto simp: allowed_user_def)
  qed
  moreover have "ob \<noteq> ''''" using assms(2) by (auto simp: IsValidObject_iff)
  ultimately have "tup_key ` set (filter (\<lambda>t. tupleMatchesAllowedUserTypeRestrictions t allowed) (filterTuples ?ctx ob r []))
      = {k \<in> set ?ctx. tk_object k = ob \<and> tk_relation k = r \<and> allowed_user allowed (tk_user k)}"
    using assms(3) by (auto simp: filterTuples_def filter_map image_image comp_def)
  with read read_usersets [OF _ assms(2-4), of "fst sc" st] inv show ?thesis
    by (fastforce simp: combined_reader_def NewCombinedTupleReader_def combined_ReadUsersetTuples_def combined_concat
        combined_invar_def combined_contents_def Let_def image_Un split: sum.splits)
qed

end

sublocale combined_store \<subseteq> combined: relationship_store "combined_reader reader" "combined_invar invar contents"
  "combined_contents contents"
proof
  fix sc st k k'
  assume *: "combined_invar invar contents sc st" "k \<in> combined_contents contents sc st" "k' \<in> combined_contents contents sc st"
    "tkey_of k = tkey_of k'"
  have "tkey_of k \<in> tkey_of ` set (snd sc)" if "k \<in> set (contextual_tuples (snd sc))" for k
    using contextual_user [OF that] by auto
  with * show "k = k'"
    using one_tuple [of "fst sc" st k k'] contextual_one [of "snd sc" k k']
    unfolding combined_invar_def combined_contents_def by fastforce
next
  fix sc st k
  assume "combined_invar invar contents sc st" "k \<in> combined_contents contents sc st"
  then show "subject_of (tk_user k) \<noteq> None"
    using subjects [of "fst sc" st k] contextual_user [of k "snd sc"]
    by (auto simp: combined_invar_def combined_contents_def list_all_iff)
next
  fix sc st ob r u t
  assume "combined_invar invar contents sc st" "valid_key (NewTupleKey ob r u)"
    "rd_ReadUserTuple (combined_reader reader sc) st \<lparr>rf_object = ob, rf_relation = r, rf_user = u, rf_conditions = []\<rparr> = Inr t"
  then show "tup_key t \<in> combined_contents contents sc st \<and> tkey_of (tup_key t) = (ob, r, u)"
    using found [of "fst sc" st ob r u t] combined_user_tuple [of ob r u sc st]
    by (auto simp: combined_invar_def combined_contents_def)
next
  fix sc st ob r u k
  assume "combined_invar invar contents sc st" "valid_key (NewTupleKey ob r u)"
    "rd_ReadUserTuple (combined_reader reader sc) st \<lparr>rf_object = ob, rf_relation = r, rf_user = u, rf_conditions = []\<rparr> = Inl ErrNotFound"
    "k \<in> combined_contents contents sc st"
  then show "tkey_of k \<noteq> (ob, r, u)"
    using not_found [of "fst sc" st ob r u k] combined_user_tuple [of ob r u sc st]
    by (auto simp: combined_invar_def combined_contents_def)
next
  fix sc st ob r ts
  assume read: "combined_invar invar contents sc st" "IsValidObject ob" "r \<noteq> ''''"
    "rd_Read (combined_reader reader sc) st \<lparr>rf_object = ob, rf_relation = r, rf_user = '''', rf_conditions = []\<rparr> = Inr ts"
  then have "ob \<noteq> ''''" by (auto simp: IsValidObject_iff)
  with read show "tup_key ` set ts = {k \<in> combined_contents contents sc st. tk_object k = ob \<and> tk_relation k = r}"
    using read_object [of "fst sc" st ob r] set_filterTuples [of "contextual_tuples (snd sc)" ob r "[]"]
    by (fastforce simp: combined_reader_def NewCombinedTupleReader_def combined_Read_def combined_concat
        combined_invar_def combined_contents_def Let_def image_Un split: sum.splits)
qed (rule combined_usersets)

interpretation memory_queries: combined_store memory_reader memory_invar memory_contents
  unfolding combined_store_def by (rule memory_store)

end
