(* ===== verification/CheckResolver.thy ===== *)
theory CheckResolver
  imports TupleReaders
begin

text \<open>
  The local check resolver: \<open>src/internal/graph/check.go\<close>, the default strategies of
  \<open>default_resolver.go\<close>, the requests of \<open>resolve_check_request.go\<close>, and the reads of
  \<open>src/internal/checkutil/checkutil.go\<close> it uses.  Handlers that the code runs concurrently are
  evaluated to their outcomes; the order in which the outcomes arrive is a parameter, an arbitrary
  function from the outcomes to the order in which they are received.  The context is live.  The
  strategies chosen with the weighted graph are parameters, absent when the model has no such graph.
\<close>

section \<open>Requests and responses\<close>

record check_request =
  rq_store_id :: string
  rq_authorization_model_id :: string
  rq_tuple_key :: tuple_key
  rq_contextual_tuples :: "tuple_key list"
  rq_context :: "pbstruct option"
  rq_depth :: "32 word"
  rq_visited_paths :: "string set"
  rq_selected_strategy :: string

record check_request_params =
  cp_store_id :: string
  cp_tuple_key :: tuple_key
  cp_contextual_tuples :: "tuple_key list"
  cp_context :: "pbstruct option"
  cp_authorization_model_id :: string

datatype check_request_error = MissingAuthorizationModelID | MissingStoreID

definition NewResolveCheckRequest :: "check_request_params \<Rightarrow> check_request_error + check_request" where
  "NewResolveCheckRequest params =
     (if cp_authorization_model_id params = '''' then Inl MissingAuthorizationModelID
      else if cp_store_id params = '''' then Inl MissingStoreID
      else Inr \<lparr>rq_store_id = cp_store_id params, rq_authorization_model_id = cp_authorization_model_id params,
        rq_tuple_key = cp_tuple_key params, rq_contextual_tuples = cp_contextual_tuples params,
        rq_context = cp_context params, rq_depth = 0, rq_visited_paths = {}, rq_selected_strategy = ''''\<rparr>)"

text \<open>A response: the verdict and whether a cycle was met.\<close>

record check_response =
  cr_allowed :: bool
  cr_cycle_detected :: bool

datatype check_error =
    ErrResolutionDepthExceeded
  | RelationUndefinedForType string string
  | PathError string
  | DatastoreError storage_error
  | IteratorError iter_error
  | ConditionError evaluation_error
  | ErrUnknownSetOperator
  | TooFewOperands nat

type_synonym check_outcome = "check_error + check_response"

section \<open>Reducers\<close>

text \<open>
  The loops of the reducers over the outcomes in the order of their arrival: the last error, or the
  first one, is kept until a decisive outcome arrives.
\<close>

fun union_loop :: "check_outcome list \<Rightarrow> check_error option \<Rightarrow> bool \<Rightarrow> check_outcome" where
  "union_loop [] finalErr cycle =
     (case finalErr of Some e \<Rightarrow> Inl e | None \<Rightarrow> Inr \<lparr>cr_allowed = False, cr_cycle_detected = cycle\<rparr>)"
| "union_loop (Inl e # outcomes) finalErr cycle = union_loop outcomes (Some e) cycle"
| "union_loop (Inr resp # outcomes) finalErr cycle =
     (if cr_allowed resp then Inr resp
      else union_loop outcomes finalErr (cycle \<or> cr_cycle_detected resp))"

definition union :: "check_outcome list \<Rightarrow> check_outcome" where
  "union outcomes = union_loop outcomes None False"

fun intersection_loop :: "check_outcome list \<Rightarrow> check_error option \<Rightarrow> check_outcome" where
  "intersection_loop [] finalErr =
     (case finalErr of Some e \<Rightarrow> Inl e | None \<Rightarrow> Inr \<lparr>cr_allowed = True, cr_cycle_detected = False\<rparr>)"
| "intersection_loop (Inl e # outcomes) finalErr =
     intersection_loop outcomes (case finalErr of None \<Rightarrow> Some e | Some e' \<Rightarrow> Some e')"
| "intersection_loop (Inr resp # outcomes) finalErr =
     (if cr_cycle_detected resp \<or> \<not> cr_allowed resp
      then Inr \<lparr>cr_allowed = False, cr_cycle_detected = cr_cycle_detected resp\<rparr>
      else intersection_loop outcomes finalErr)"

definition intersection :: "check_outcome list \<Rightarrow> check_outcome" where
  "intersection outcomes =
     (if length outcomes < 2 then Inl (TooFewOperands (length outcomes)) else intersection_loop outcomes None)"

text \<open>The two operands of an exclusion, \<open>True\<close> marks the base, in the order of their arrival.\<close>

fun exclusion_loop :: "(bool \<times> check_outcome) list \<Rightarrow> check_error option \<Rightarrow> check_error option \<Rightarrow> check_outcome" where
  "exclusion_loop [] baseErr subErr =
     (case baseErr of
        Some e \<Rightarrow> Inl e
      | None \<Rightarrow> (case subErr of Some e \<Rightarrow> Inl e | None \<Rightarrow> Inr \<lparr>cr_allowed = True, cr_cycle_detected = False\<rparr>))"
| "exclusion_loop ((base, Inl e) # outcomes) baseErr subErr =
     (if base then exclusion_loop outcomes (Some e) subErr else exclusion_loop outcomes baseErr (Some e))"
| "exclusion_loop ((base, Inr resp) # outcomes) baseErr subErr =
     (if cr_cycle_detected resp \<or> cr_allowed resp \<noteq> base
      then Inr \<lparr>cr_allowed = False, cr_cycle_detected = cr_cycle_detected resp\<rparr>
      else exclusion_loop outcomes baseErr subErr)"

definition exclusion :: "bool \<Rightarrow> check_outcome \<Rightarrow> check_outcome \<Rightarrow> check_outcome" where
  "exclusion base_first base sub =
     exclusion_loop (if base_first then [(True, base), (False, sub)] else [(False, sub), (True, base)]) None None"

section \<open>The environment\<close>


text \<open>The places where outcomes are received.\<close>

datatype check_site = AtRewrite userset | AtDirect | AtUsersets | AtDispatches "tuple_key list"

text \<open>
  What the weighted graph decides, the planner's selection among strategies, and the handlers of the
  strategies other than the default ones.  The tuples an iterator yields and its last error are given
  to a handler.
\<close>

type_synonym read_keys = "tuple_key list \<times> iter_error"

record weighted_paths =
  wp_UsersetUseRecursiveResolver :: "string \<Rightarrow> string \<Rightarrow> string \<Rightarrow> bool"
  wp_UsersetUseWeight2Resolver :: "string \<Rightarrow> string \<Rightarrow> string \<Rightarrow> relation_reference \<Rightarrow> bool"
  wp_TTUUseWeight2Resolver :: "string \<Rightarrow> string \<Rightarrow> string \<Rightarrow> string \<Rightarrow> string \<Rightarrow> bool"
  wp_TTUUseRecursiveResolver :: "string \<Rightarrow> string \<Rightarrow> string \<Rightarrow> string \<Rightarrow> string \<Rightarrow> bool"
  wp_Select :: "string list \<Rightarrow> string list \<Rightarrow> string"
  wp_weight2Userset :: "check_request \<Rightarrow> relation_reference list \<Rightarrow> read_keys \<Rightarrow> string \<Rightarrow> check_outcome"
  wp_recursiveUserset :: "check_request \<Rightarrow> relation_reference list \<Rightarrow> read_keys \<Rightarrow> string \<Rightarrow> check_outcome"
  wp_weight2TTU :: "check_request \<Rightarrow> string \<Rightarrow> string \<Rightarrow> read_keys \<Rightarrow> string \<Rightarrow> check_outcome"
  wp_recursiveTTU :: "check_request \<Rightarrow> string \<Rightarrow> string \<Rightarrow> read_keys \<Rightarrow> string \<Rightarrow> check_outcome"

record ('env, 'ast, 'prg, 'act) check_env =
  ce_typesys :: type_system
  ce_reader :: tuple_reader
  ce_values :: value_library
  ce_cel :: "('env, 'ast, 'prg, 'act) cel_library"
  ce_graph_path :: "string \<Rightarrow> string \<Rightarrow> string + bool"
  ce_weighted :: "weighted_paths option"
  ce_max_resolution_depth :: "32 word"
  ce_arrival :: "check_request \<Rightarrow> check_site \<Rightarrow> check_outcome list \<Rightarrow> check_outcome list"
  ce_base_first :: "check_request \<Rightarrow> userset \<Rightarrow> bool"

section \<open>Reading tuples\<close>

text \<open>
  Every evaluation of a condition starts from the uncompiled condition: compiling it once and keeping
  the program does not change the result.
\<close>

definition BuildTupleKeyConditionFilter ::
    "('env, 'ast, 'prg, 'act) check_env \<Rightarrow> pbstruct option \<Rightarrow> tuple_key \<Rightarrow> evaluation_error + bool" where
  "BuildTupleKeyConditionFilter env reqCtx t =
     fst (EvaluateTupleCondition (ce_values env) (ce_cel env) t
       (map_option NewUncompiled (GetCondition (ce_typesys env) (get_condition_name (tk_condition t)))) reqCtx)"

definition condition_filter ::
    "('env, 'ast, 'prg, 'act) check_env \<Rightarrow> pbstruct option \<Rightarrow> tuple_key \<Rightarrow> iter_error + bool" where
  "condition_filter env reqCtx t =
     (case BuildTupleKeyConditionFilter env reqCtx t of
        Inl (EvaluationError name _) \<Rightarrow> Inl (OtherErr name)
      | Inr b \<Rightarrow> Inr b)"

abbreviation filtered_iterator :: "('env, 'ast, 'prg, 'act) check_env \<Rightarrow> pbstruct option \<Rightarrow> (tuple list cond_filter, tuple_key) iter_ops" where
  "filtered_iterator env reqCtx \<equiv>
     ConditionsFilteredTupleKeyIterator
       (filteredTupleKeyIterator (tupleKeyIterator StaticIterator) (FilterInvalidTuples (ce_values env) (ce_typesys env)))
       (condition_filter env reqCtx)"

text \<open>What a loop over the filtered iterator sees; the iterator ends, since its source is a list.\<close>

definition filtered_keys :: "('env, 'ast, 'prg, 'act) check_env \<Rightarrow> pbstruct option \<Rightarrow> tuple list \<Rightarrow> read_keys" where
  "filtered_keys env reqCtx ts =
     (case drain (filtered_iterator env reqCtx) (NewConditionsFilteredTupleKeyIterator ts) of
        Some r \<Rightarrow> r
      | None \<Rightarrow> ([], Canceled))"

definition IteratorReadUsersetTuples ::
    "('env, 'ast, 'prg, 'act) check_env \<Rightarrow> check_request \<Rightarrow> relation_reference list \<Rightarrow> check_error + read_keys" where
  "IteratorReadUsersetTuples env req allowed =
     (case rd_ReadUsersetTuples (ce_reader env) (rq_store_id req)
             \<lparr>ruf_object = tk_object (rq_tuple_key req), ruf_relation = tk_relation (rq_tuple_key req),
              ruf_allowed = allowed, ruf_conditions = []\<rparr> of
        Inl e \<Rightarrow> Inl (DatastoreError e)
      | Inr iter \<Rightarrow> Inr (filtered_keys env (rq_context req) iter))"

section \<open>Dispatches\<close>

datatype dispatch_msg = DispatchErr iter_error | ShortCircuit | Dispatch tuple_key string

text \<open>\<open>clone\<close> copies the visited paths; requests are values here, so that a child starts as its parent.\<close>

definition prepareChildRequest :: "check_request \<Rightarrow> tuple_key \<Rightarrow> string \<Rightarrow> check_request" where
  "prepareChildRequest parentReq tk strategy = parentReq\<lparr>rq_tuple_key := tk, rq_selected_strategy := strategy\<rparr>"

definition dispatch :: "(check_request \<Rightarrow> check_outcome) \<Rightarrow> check_request \<Rightarrow> check_outcome" where
  "dispatch rec req = rec (req\<lparr>rq_depth := rq_depth req + 1\<rparr>)"

fun produceUsersetDispatches :: "type_system \<Rightarrow> check_request \<Rightarrow> string \<Rightarrow> tuple_key list \<Rightarrow> iter_error \<Rightarrow> dispatch_msg list" where
  "produceUsersetDispatches typesys req strategy [] err = (if IterIsDoneOrCancelled err then [] else [DispatchErr err])"
| "produceUsersetDispatches typesys req strategy (t # ts) err =
     (let (usersetObject, usersetRelation) = SplitObjectRelation (tk_user t);
          user = tk_user (rq_tuple_key req) in
      if IsTypedWildcard usersetObject \<and> IsSchemaVersionSupported (ts_schema_version typesys)
         \<and> GetType user = GetType usersetObject
      then [ShortCircuit]
      else (if usersetRelation \<noteq> '''' then [Dispatch (NewTupleKey usersetObject usersetRelation user) strategy] else [])
        @ produceUsersetDispatches typesys req strategy ts err)"

fun produceTTUDispatches :: "type_system \<Rightarrow> string \<Rightarrow> check_request \<Rightarrow> string \<Rightarrow> tuple_key list \<Rightarrow> iter_error \<Rightarrow> dispatch_msg list" where
  "produceTTUDispatches typesys computedRelation req strategy [] err = (if IterIsDoneOrCancelled err then [] else [DispatchErr err])"
| "produceTTUDispatches typesys computedRelation req strategy (t # ts) err =
     (let (userObj, _) = SplitObjectRelation (tk_user t) in
      (case TypeSystem.GetRelation typesys (GetType userObj) computedRelation of
         Inl (RelationUndefinedError _ _) \<Rightarrow> []
       | _ \<Rightarrow> [Dispatch (NewTupleKey userObj computedRelation (tk_user (rq_tuple_key req))) strategy])
      @ produceTTUDispatches typesys computedRelation req strategy ts err)"

text \<open>The outcomes sent for the dispatches: after a short circuit the remaining messages are not read.\<close>

fun processDispatches :: "(check_request \<Rightarrow> check_outcome) \<Rightarrow> check_request \<Rightarrow> dispatch_msg list \<Rightarrow> check_outcome list" where
  "processDispatches rec req [] = []"
| "processDispatches rec req (DispatchErr e # msgs) = Inl (IteratorError e) # processDispatches rec req msgs"
| "processDispatches rec req (ShortCircuit # msgs) = [Inr \<lparr>cr_allowed = True, cr_cycle_detected = False\<rparr>]"
| "processDispatches rec req (Dispatch tk strategy # msgs) =
     dispatch rec (prepareChildRequest req tk strategy) # processDispatches rec req msgs"

fun consume_loop :: "check_outcome list \<Rightarrow> check_error option \<Rightarrow> bool \<Rightarrow> check_outcome" where
  "consume_loop [] finalErr cycle =
     (case finalErr of Some e \<Rightarrow> Inl e | None \<Rightarrow> Inr \<lparr>cr_allowed = False, cr_cycle_detected = cycle\<rparr>)"
| "consume_loop (Inl e # outcomes) finalErr cycle = consume_loop outcomes (Some e) cycle"
| "consume_loop (Inr resp # outcomes) finalErr cycle =
     (if cr_allowed resp then Inr resp
      else consume_loop outcomes finalErr (cycle \<or> cr_cycle_detected resp))"

definition consumeDispatches :: "(check_request \<Rightarrow> check_outcome) \<Rightarrow> ('env, 'ast, 'prg, 'act) check_env
    \<Rightarrow> check_request \<Rightarrow> tuple_key list \<Rightarrow> dispatch_msg list \<Rightarrow> check_outcome" where
  "consumeDispatches rec env req ks msgs =
     consume_loop (ce_arrival env req (AtDispatches ks) (processDispatches rec req msgs)) None False"

definition defaultUserset :: "(check_request \<Rightarrow> check_outcome) \<Rightarrow> ('env, 'ast, 'prg, 'act) check_env
    \<Rightarrow> check_request \<Rightarrow> read_keys \<Rightarrow> string \<Rightarrow> check_outcome" where
  "defaultUserset rec env req iter strategy =
     consumeDispatches rec env req (fst iter)
       (produceUsersetDispatches (ce_typesys env) req strategy (fst iter) (snd iter))"

definition defaultTTU :: "(check_request \<Rightarrow> check_outcome) \<Rightarrow> ('env, 'ast, 'prg, 'act) check_env
    \<Rightarrow> check_request \<Rightarrow> string \<Rightarrow> read_keys \<Rightarrow> string \<Rightarrow> check_outcome" where
  "defaultTTU rec env req computedRelation iter strategy =
     consumeDispatches rec env req (fst iter)
       (produceTTUDispatches (ce_typesys env) computedRelation req strategy (fst iter) (snd iter))"

section \<open>Direct relationships\<close>

definition checkPublicAssignable :: "('env, 'ast, 'prg, 'act) check_env \<Rightarrow> check_request \<Rightarrow> check_outcome" where
  "checkPublicAssignable env req =
     (let reqTupleKey = rq_tuple_key req;
          wildcardRelationReference = WildcardRelationReference (GetType (tk_user reqTupleKey)) in
      case rd_ReadUsersetTuples (ce_reader env) (rq_store_id req)
             \<lparr>ruf_object = tk_object reqTupleKey, ruf_relation = tk_relation reqTupleKey,
              ruf_allowed = [wildcardRelationReference], ruf_conditions = []\<rparr> of
        Inl e \<Rightarrow> Inl (DatastoreError e)
      | Inr iter \<Rightarrow>
          (case it_next (filtered_iterator env (rq_context req)) (NewConditionsFilteredTupleKeyIterator iter) None of
             Some (Inl e, _) \<Rightarrow>
               if e = ErrIteratorDone then Inr \<lparr>cr_allowed = False, cr_cycle_detected = False\<rparr> else Inl (IteratorError e)
           | Some (Inr _, _) \<Rightarrow> Inr \<lparr>cr_allowed = True, cr_cycle_detected = False\<rparr>
           | None \<Rightarrow> Inl (IteratorError Canceled)))"

definition checkDirectUserTuple :: "('env, 'ast, 'prg, 'act) check_env \<Rightarrow> check_request \<Rightarrow> check_outcome" where
  "checkDirectUserTuple env req =
     (let reqTupleKey = rq_tuple_key req in
      case rd_ReadUserTuple (ce_reader env) (rq_store_id req)
             \<lparr>rf_object = tk_object reqTupleKey, rf_relation = tk_relation reqTupleKey, rf_user = tk_user reqTupleKey,
              rf_conditions = []\<rparr> of
        Inl ErrNotFound \<Rightarrow> Inr \<lparr>cr_allowed = False, cr_cycle_detected = False\<rparr>
      | Inl e \<Rightarrow> Inl (DatastoreError e)
      | Inr t \<Rightarrow>
          if ValidateTupleForRead (ce_values env) (ce_typesys env) (tup_key t) \<noteq> None
          then Inr \<lparr>cr_allowed = False, cr_cycle_detected = False\<rparr>
          else (case BuildTupleKeyConditionFilter env (rq_context req) (tup_key t) of
                  Inl e \<Rightarrow> Inl (ConditionError e)
                | Inr conditionMet \<Rightarrow> Inr \<lparr>cr_allowed = conditionMet, cr_cycle_detected = False\<rparr>))"

text \<open>The errors of the two queries are dropped; a boolean result is then false.\<close>

definition shouldCheckDirectTuple :: "type_system \<Rightarrow> tuple_key \<Rightarrow> bool" where
  "shouldCheckDirectTuple typesys reqTupleKey =
     (case IsDirectlyRelated typesys
             (DirectRelationReference (GetType (tk_object reqTupleKey)) (tk_relation reqTupleKey))
             (DirectRelationReference (GetType (tk_user reqTupleKey)) (Tuple.GetRelation (tk_user reqTupleKey))) of
        Inl _ \<Rightarrow> False
      | Inr b \<Rightarrow> b)"

definition shouldCheckPublicAssignable :: "type_system \<Rightarrow> tuple_key \<Rightarrow> bool" where
  "shouldCheckPublicAssignable typesys reqTupleKey =
     (if IsObjectRelation (tk_user reqTupleKey) then False
      else (case IsPubliclyAssignable typesys
                   (DirectRelationReference (GetType (tk_object reqTupleKey)) (tk_relation reqTupleKey))
                   (GetType (tk_user reqTupleKey)) of
              Inl _ \<Rightarrow> False
            | Inr b \<Rightarrow> b))"

definition defaultResolver :: string where "defaultResolver = ''default''"

definition recursiveResolver :: string where "recursiveResolver = ''recursive''"

definition weightTwoResolver :: string where "weightTwoResolver = ''weight2''"

text \<open>
  The loop over the userset types that the weight-two strategy can resolve; the other types are
  returned for the default strategy.  The outcomes are those of the handlers the loop collects.
\<close>

fun userset_resolvers :: "weighted_paths \<Rightarrow> (check_request \<Rightarrow> check_outcome) \<Rightarrow> ('env, 'ast, 'prg, 'act) check_env
    \<Rightarrow> check_request \<Rightarrow> relation_reference list \<Rightarrow> check_error + check_outcome list \<times> relation_reference list" where
  "userset_resolvers w rec env req [] = Inr ([], [])"
| "userset_resolvers w rec env req (us # usersets) =
     (let tk = rq_tuple_key req;
          objectType = GetType (tk_object tk); relation = tk_relation tk; userType = GetType (tk_user tk);
          possibleStrategies = [defaultResolver, weightTwoResolver] in
      if \<not> wp_UsersetUseWeight2Resolver w objectType relation userType us then
        (case userset_resolvers w rec env req usersets of
           Inl e \<Rightarrow> Inl e
         | Inr (resolvers, remaining) \<Rightarrow> Inr (resolvers, us # remaining))
      else
        (case IteratorReadUsersetTuples env req [us] of
           Inl e \<Rightarrow> Inl e
         | Inr iter \<Rightarrow>
             (let selected = rq_selected_strategy req;
                  strategy = (if selected \<noteq> '''' \<and> selected \<in> set possibleStrategies then selected
                    else wp_Select w [''USERSET'', rq_store_id req, rq_authorization_model_id req, objectType, relation,
                           userType, ''USERSET'', rr_type us, rr_relation us] possibleStrategies);
                  resolver = (if strategy = weightTwoResolver then wp_weight2Userset w req [us] iter strategy
                              else defaultUserset rec env req iter strategy) in
              case userset_resolvers w rec env req usersets of
                Inl e \<Rightarrow> Inl e
              | Inr (resolvers, remaining) \<Rightarrow> Inr (resolver # resolvers, remaining))))"

text \<open>Without a weighted graph no type is resolved by another strategy than the default one.\<close>

definition weighted_resolvers :: "(check_request \<Rightarrow> check_outcome) \<Rightarrow> ('env, 'ast, 'prg, 'act) check_env
    \<Rightarrow> check_request \<Rightarrow> relation_reference list \<Rightarrow> check_error + check_outcome list \<times> relation_reference list" where
  "weighted_resolvers rec env req usersets =
     (case ce_weighted env of None \<Rightarrow> Inr ([], usersets) | Some w \<Rightarrow> userset_resolvers w rec env req usersets)"

definition recursive_userset :: "weighted_paths \<Rightarrow> (check_request \<Rightarrow> check_outcome) \<Rightarrow> ('env, 'ast, 'prg, 'act) check_env
    \<Rightarrow> check_request \<Rightarrow> relation_reference list \<Rightarrow> check_outcome" where
  "recursive_userset w rec env req usersets =
     (case IteratorReadUsersetTuples env req usersets of
        Inl e \<Rightarrow> Inl e
      | Inr iter \<Rightarrow>
          (let tk = rq_tuple_key req; selected = rq_selected_strategy req;
               strategy = (if selected = defaultResolver \<or> selected = recursiveResolver then selected
                 else wp_Select w [''USERSET'', rq_store_id req, rq_authorization_model_id req, GetType (tk_object tk),
                        tk_relation tk, GetType (tk_user tk), ''INFINITE''] [defaultResolver, recursiveResolver]) in
           if strategy = recursiveResolver then wp_recursiveUserset w req usersets iter strategy
           else defaultUserset rec env req iter strategy))"

text \<open>\<open>typesys.UsersetUseRecursiveResolver\<close>, which is false without a weighted graph.\<close>

definition recursive_paths :: "('env, 'ast, 'prg, 'act) check_env \<Rightarrow> string \<Rightarrow> string \<Rightarrow> string \<Rightarrow> weighted_paths option" where
  "recursive_paths env objectType relation userType =
     (case ce_weighted env of
        None \<Rightarrow> None
      | Some w \<Rightarrow> if wp_UsersetUseRecursiveResolver w objectType relation userType then Some w else None)"

definition checkDirectUsersetTuples :: "(check_request \<Rightarrow> check_outcome) \<Rightarrow> ('env, 'ast, 'prg, 'act) check_env
    \<Rightarrow> check_request \<Rightarrow> check_outcome" where
  "checkDirectUsersetTuples rec env req =
     (let tk = rq_tuple_key req;
          objectType = GetType (tk_object tk); relation = tk_relation tk; userType = GetType (tk_user tk);
          usersets = (case DirectlyRelatedUsersets (ce_typesys env) objectType relation of Inl _ \<Rightarrow> [] | Inr us \<Rightarrow> us) in
      if IsObjectRelation (tk_user tk) then
        (case IteratorReadUsersetTuples env req usersets of
           Inl e \<Rightarrow> Inl e
         | Inr iter \<Rightarrow> defaultUserset rec env req iter '''')
      else
        (case recursive_paths env objectType relation userType of
           Some w \<Rightarrow> recursive_userset w rec env req usersets
         | None \<Rightarrow>
             (case weighted_resolvers rec env req usersets of
                Inl e \<Rightarrow> Inl e
              | Inr (resolvers, remaining) \<Rightarrow>
                  if remaining = [] then union (ce_arrival env req AtUsersets resolvers)
                  else (case IteratorReadUsersetTuples env req remaining of
                          Inl e \<Rightarrow> Inl e
                        | Inr iter \<Rightarrow> union (ce_arrival env req AtUsersets (resolvers @ [defaultUserset rec env req iter '''']))))))"

definition checkDirect :: "(check_request \<Rightarrow> check_outcome) \<Rightarrow> ('env, 'ast, 'prg, 'act) check_env
    \<Rightarrow> check_request \<Rightarrow> check_outcome" where
  "checkDirect rec env req =
     (let tk = rq_tuple_key req;
          usersets = (case DirectlyRelatedUsersets (ce_typesys env) (GetType (tk_object tk)) (tk_relation tk) of
                        Inl _ \<Rightarrow> [] | Inr us \<Rightarrow> us);
          checkFuncs = (if shouldCheckDirectTuple (ce_typesys env) tk then [checkDirectUserTuple env req] else [])
            @ (if shouldCheckPublicAssignable (ce_typesys env) tk then [checkPublicAssignable env req] else [])
            @ (if usersets \<noteq> [] then [checkDirectUsersetTuples rec env req] else []) in
      union (ce_arrival env req AtDirect checkFuncs))"

section \<open>Rewrites\<close>

definition checkComputedUserset :: "(check_request \<Rightarrow> check_outcome) \<Rightarrow> check_request \<Rightarrow> string \<Rightarrow> check_outcome" where
  "checkComputedUserset rec req relation =
     rec (req\<lparr>rq_tuple_key := NewTupleKey (tk_object (rq_tuple_key req)) relation (tk_user (rq_tuple_key req))\<rparr>)"

definition ttu_resolver :: "weighted_paths \<Rightarrow> (check_request \<Rightarrow> check_outcome) \<Rightarrow> ('env, 'ast, 'prg, 'act) check_env
    \<Rightarrow> check_request \<Rightarrow> string \<Rightarrow> string \<Rightarrow> read_keys \<Rightarrow> string \<Rightarrow> check_outcome" where
  "ttu_resolver w rec env req tuplesetRelation computedRelation iter strategy =
     (if strategy = weightTwoResolver then wp_weight2TTU w req tuplesetRelation computedRelation iter strategy
      else if strategy = recursiveResolver then wp_recursiveTTU w req tuplesetRelation computedRelation iter strategy
      else defaultTTU rec env req computedRelation iter strategy)"

definition checkTTU :: "(check_request \<Rightarrow> check_outcome) \<Rightarrow> ('env, 'ast, 'prg, 'act) check_env
    \<Rightarrow> check_request \<Rightarrow> string \<Rightarrow> string \<Rightarrow> check_outcome" where
  "checkTTU rec env req tuplesetRelation computedRelation =
     (let tk = rq_tuple_key req;
          objectType = GetType (tk_object tk); relation = tk_relation tk; userType = GetType (tk_user tk) in
      case rd_Read (ce_reader env) (rq_store_id req)
             \<lparr>rf_object = tk_object tk, rf_relation = tuplesetRelation, rf_user = '''', rf_conditions = []\<rparr> of
        Inl e \<Rightarrow> Inl (DatastoreError e)
      | Inr ts \<Rightarrow>
          (let iter = filtered_keys env (rq_context req) ts in
           case ce_weighted env of
             None \<Rightarrow> defaultTTU rec env req computedRelation iter ''''
           | Some w \<Rightarrow>
               (let possibleStrategies =
                      (if IsObjectRelation (tk_user tk) then [defaultResolver]
                       else if wp_TTUUseWeight2Resolver w objectType relation userType tuplesetRelation computedRelation
                         then [defaultResolver, weightTwoResolver]
                       else if wp_TTUUseRecursiveResolver w objectType relation userType tuplesetRelation computedRelation
                         then [defaultResolver, recursiveResolver]
                       else [defaultResolver]) in
                if length possibleStrategies = 1 then defaultTTU rec env req computedRelation iter ''''
                else
                  (let selected = rq_selected_strategy req;
                       strategy = (if selected \<noteq> '''' \<and> selected \<in> set possibleStrategies then selected
                         else wp_Select w [''TTU'', rq_store_id req, rq_authorization_model_id req, objectType, relation,
                                userType, tuplesetRelation, computedRelation] possibleStrategies) in
                   ttu_resolver w rec env req tuplesetRelation computedRelation iter strategy))))"

fun CheckRewrite :: "(check_request \<Rightarrow> check_outcome) \<Rightarrow> ('env, 'ast, 'prg, 'act) check_env
    \<Rightarrow> check_request \<Rightarrow> userset \<Rightarrow> check_outcome" where
  "CheckRewrite rec env req This = checkDirect rec env req"
| "CheckRewrite rec env req (ComputedUserset relation) = checkComputedUserset rec req relation"
| "CheckRewrite rec env req (TupleToUserset tupleset computed) = checkTTU rec env req tupleset computed"
| "CheckRewrite rec env req (Union children) =
     union (ce_arrival env req (AtRewrite (Union children)) (map (CheckRewrite rec env req) children))"
| "CheckRewrite rec env req (Intersection children) =
     intersection (ce_arrival env req (AtRewrite (Intersection children)) (map (CheckRewrite rec env req) children))"
| "CheckRewrite rec env req (Difference base sub) =
     exclusion (ce_base_first env req (Difference base sub)) (CheckRewrite rec env req base) (CheckRewrite rec env req sub)"
| "CheckRewrite rec env req Userset_Nil = Inl ErrUnknownSetOperator"

section \<open>Resolving a request\<close>

text \<open>\<open>hasCycle\<close>: whether the tuple is on the path already; otherwise it is added to it.\<close>

definition hasCycle :: "check_request \<Rightarrow> bool \<times> check_request" where
  "hasCycle req =
     (let key = TupleKeyToString (rq_tuple_key req) in
      if key \<in> rq_visited_paths req then (True, req)
      else (False, req\<lparr>rq_visited_paths := insert key (rq_visited_paths req)\<rparr>))"

definition resolve_body :: "(check_request \<Rightarrow> check_outcome) \<Rightarrow> ('env, 'ast, 'prg, 'act) check_env
    \<Rightarrow> check_request \<Rightarrow> check_outcome" where
  "resolve_body rec env req =
     (if rq_depth req = ce_max_resolution_depth env then Inl ErrResolutionDepthExceeded
      else
        (case hasCycle req of
           (True, _) \<Rightarrow> Inr \<lparr>cr_allowed = False, cr_cycle_detected = True\<rparr>
         | (False, req) \<Rightarrow>
             (let tupleKey = rq_tuple_key req; objectType = fst (SplitObject (tk_object tupleKey)) in
              if IsSelfDefining tupleKey then Inr \<lparr>cr_allowed = True, cr_cycle_detected = False\<rparr>
              else (case TypeSystem.GetRelation (ce_typesys env) objectType (tk_relation tupleKey) of
                      Inl _ \<Rightarrow> Inl (RelationUndefinedForType (tk_relation tupleKey) objectType)
                    | Inr rel \<Rightarrow>
                        (case PathExists (ce_graph_path env) (tk_user tupleKey) (tk_relation tupleKey) objectType of
                           Inl e \<Rightarrow> Inl (PathError e)
                         | Inr hasPath \<Rightarrow>
                             if \<not> hasPath then Inr \<lparr>cr_allowed = False, cr_cycle_detected = False\<rparr>
                             else CheckRewrite rec env req (rel_rewrite rel))))))"

text \<open>
  The recursion ends: a dispatch goes one level deeper, towards the limit on a 32-bit counter, and a
  computed relation stays at its level but leaves one relation fewer of the object unvisited.
\<close>

definition unvisited :: "('env, 'ast, 'prg, 'act) check_env \<Rightarrow> check_request \<Rightarrow> string set" where
  "unvisited env req =
     {r \<in> (case GetRelations (ce_typesys env) (GetType (tk_object (rq_tuple_key req))) of Inl _ \<Rightarrow> {} | Inr rs \<Rightarrow> fst ` set rs).
        TupleKeyToString (NewTupleKey (tk_object (rq_tuple_key req)) r (tk_user (rq_tuple_key req))) \<notin> rq_visited_paths req}"

definition check_measure :: "('env, 'ast, 'prg, 'act) check_env \<Rightarrow> check_request \<Rightarrow> nat \<times> nat" where
  "check_measure env req = (unat (ce_max_resolution_depth env - rq_depth req), card (unvisited env req))"

definition check_smaller :: "('env, 'ast, 'prg, 'act) check_env \<Rightarrow> check_request \<Rightarrow> check_request \<Rightarrow> bool" where
  "check_smaller env r' r \<longleftrightarrow> (check_measure env r', check_measure env r) \<in> less_than <*lex*> less_than"

text \<open>The requests a rewrite can ask for.\<close>

definition subrequest :: "check_request \<Rightarrow> check_request \<Rightarrow> bool" where
  "subrequest req r' \<longleftrightarrow> (\<exists>tk s. r' = req\<lparr>rq_tuple_key := tk, rq_selected_strategy := s, rq_depth := rq_depth req + 1\<rparr>)
     \<or> (\<exists>rel. r' = req\<lparr>rq_tuple_key := NewTupleKey (tk_object (rq_tuple_key req)) rel (tk_user (rq_tuple_key req))\<rparr>)"

lemma processDispatches_cong:
  assumes "\<And>r'. subrequest req r' \<Longrightarrow> f r' = g r'"
  shows "processDispatches f req msgs = processDispatches g req msgs"
  using assms
  by (induction f req msgs rule: processDispatches.induct)
    (auto simp: dispatch_def prepareChildRequest_def subrequest_def)

lemma default_cong:
  assumes "\<And>r'. subrequest req r' \<Longrightarrow> f r' = g r'"
  shows "defaultUserset f env req iter s = defaultUserset g env req iter s"
    and "defaultTTU f env req cr iter s = defaultTTU g env req cr iter s"
  using processDispatches_cong [of req f g] assms by (simp_all add: defaultUserset_def defaultTTU_def consumeDispatches_def)

lemma userset_resolvers_cong:
  assumes "\<And>r'. subrequest req r' \<Longrightarrow> f r' = g r'"
  shows "userset_resolvers w f env req us = userset_resolvers w g env req us"
proof -
  note default = default_cong(1) [of req f g, OF assms]
  show ?thesis by (induction us) (simp_all only: userset_resolvers.simps default)
qed

lemma checkDirect_cong:
  assumes "\<And>r'. subrequest req r' \<Longrightarrow> f r' = g r'"
  shows "checkDirect f env req = checkDirect g env req"
proof -
  note default = default_cong(1) [of req f g, OF assms]
  note resolvers = userset_resolvers_cong [of req f g, OF assms]
  have "checkDirectUsersetTuples f env req = checkDirectUsersetTuples g env req"
    by (simp only: checkDirectUsersetTuples_def weighted_resolvers_def recursive_userset_def default resolvers)
  then show ?thesis by (simp only: checkDirect_def)
qed

lemma CheckRewrite_cong:
  assumes "\<And>r'. subrequest req r' \<Longrightarrow> f r' = g r'"
  shows "CheckRewrite f env req rw = CheckRewrite g env req rw"
proof (induction rw)
  case (ComputedUserset r)
  then show ?case using assms by (auto simp: checkComputedUserset_def subrequest_def)
next
  case (TupleToUserset ts c)
  note default = default_cong(2) [of req f g, OF assms]
  show ?case by (simp only: CheckRewrite.simps checkTTU_def ttu_resolver_def default)
next
  case (Union cs)
  then have children: "map (CheckRewrite f env req) cs = map (CheckRewrite g env req) cs" by simp
  show ?case unfolding CheckRewrite.simps children by (rule refl)
next
  case (Intersection cs)
  then have children: "map (CheckRewrite f env req) cs = map (CheckRewrite g env req) cs" by simp
  show ?case unfolding CheckRewrite.simps children by (rule refl)
qed (simp_all add: checkDirect_cong [OF assms])

lemma TupleKeyToString_relation_inj:
  "TupleKeyToString (NewTupleKey ob r u) = TupleKeyToString (NewTupleKey ob r' u) \<longleftrightarrow> r = r'"
  by (simp add: TupleKeyToString_def NewTupleKey_def)

lemma subrequest_smaller:
  assumes "rq_depth req \<noteq> ce_max_resolution_depth env" and "TupleKeyToString (rq_tuple_key req) \<notin> rq_visited_paths req"
    and "TypeSystem.GetRelation (ce_typesys env) (GetType (tk_object (rq_tuple_key req))) (tk_relation (rq_tuple_key req)) = Inr rel"
    and "subrequest (req\<lparr>rq_visited_paths := insert (TupleKeyToString (rq_tuple_key req)) (rq_visited_paths req)\<rparr>) r'"
  shows "check_smaller env r' req"
proof -
  let ?d = "ce_max_resolution_depth env - rq_depth req" and ?tk = "rq_tuple_key req"
  consider (deeper) "rq_depth r' = rq_depth req + 1" | (computed) r where
    "r' = req\<lparr>rq_visited_paths := insert (TupleKeyToString ?tk) (rq_visited_paths req),
       rq_tuple_key := NewTupleKey (tk_object ?tk) r (tk_user ?tk)\<rparr>"
    using assms(4) by (auto simp: subrequest_def)
  then show ?thesis
  proof cases
    case deeper
    have "?d \<noteq> 0" using assms(1) by simp
    then have "unat (?d - 1) < unat ?d" by (simp add: unat_minus_one unat_gt_0)
    with deeper show ?thesis by (simp add: check_smaller_def check_measure_def diff_diff_eq)
  next
    case (computed r)
    have key: "TupleKeyToString (NewTupleKey (tk_object ?tk) (tk_relation ?tk) (tk_user ?tk)) = TupleKeyToString ?tk"
      by (simp add: TupleKeyToString_def NewTupleKey_def)
    obtain rs where rs: "GetRelations (ce_typesys env) (GetType (tk_object ?tk)) = Inr rs" "tk_relation ?tk \<in> fst ` set rs"
      using assms(3) by (force simp: TypeSystem.GetRelation_def split: sum.splits option.splits dest: map_of_SomeD)
    have sub: "unvisited env r' \<subseteq> unvisited env req - {tk_relation ?tk}"
      using computed key by (auto simp: unvisited_def NewTupleKey_def)
    have "tk_relation ?tk \<in> unvisited env req" using rs assms(2) key by (simp add: unvisited_def)
    moreover have fin: "finite (unvisited env req)" using rs by (simp add: unvisited_def)
    ultimately have "card (unvisited env r') < card (unvisited env req)"
      using card_mono [OF _ sub] card_Diff1_less by (metis finite_Diff le_less_trans)
    with computed show ?thesis by (simp add: check_smaller_def check_measure_def)
  qed
qed

lemma resolve_body_cong [fundef_cong]:
  assumes "env = env'" and "req = req'" and eq: "\<And>r'. check_smaller env' r' req' \<Longrightarrow> f r' = g r'"
  shows "resolve_body f env req = resolve_body g env' req'"
proof -
  let ?req = "req'\<lparr>rq_visited_paths := insert (TupleKeyToString (rq_tuple_key req')) (rq_visited_paths req')\<rparr>"
  have "CheckRewrite f env' ?req rw = CheckRewrite g env' ?req rw"
    if "rq_depth req' \<noteq> ce_max_resolution_depth env'" "TupleKeyToString (rq_tuple_key req') \<notin> rq_visited_paths req'"
      "TypeSystem.GetRelation (ce_typesys env') (GetType (tk_object (rq_tuple_key req'))) (tk_relation (rq_tuple_key req')) = Inr rel"
    for rel rw
    by (rule CheckRewrite_cong) (rule eq, rule subrequest_smaller [OF that])
  then show ?thesis
    unfolding assms(1,2) by (auto simp: resolve_body_def hasCycle_def GetType_def Let_def split_def split: sum.splits)
qed

function ResolveCheck :: "('env, 'ast, 'prg, 'act) check_env \<Rightarrow> check_request \<Rightarrow> check_outcome" where
  "ResolveCheck env req = resolve_body (\<lambda>r. ResolveCheck env r) env req"
  by pat_completeness auto
termination
  by (relation "inv_image (less_than <*lex*> less_than) (\<lambda>(env, req). check_measure env req)")
    (auto simp: check_smaller_def)

declare ResolveCheck.simps [simp del]

end
