(* ===== verification/CheckSoundness.thy ===== *)
theory CheckSoundness
  imports CheckResolver
begin

text \<open>
  What the answers of the check resolver mean.  Relationships are defined by the tuples in force and
  the rewrites of the model, as the least relations closed under the rules for being granted and for
  being denied access.  An allowed answer is granted; a negative answer without a detected cycle is
  denied; and in a model without exclusions a negative answer, with or without a detected cycle, means
  that access is not granted.
\<close>

section \<open>Reducers\<close>

lemma consume_loop_union: "consume_loop = union_loop"
proof (intro ext)
  fix outcomes finalErr cycle
  show "consume_loop outcomes finalErr cycle = union_loop outcomes finalErr cycle"
    by (induction outcomes finalErr cycle rule: union_loop.induct) simp_all
qed

lemma union_loop_allowed: "union_loop xs e c = Inr resp \<Longrightarrow> cr_allowed resp \<Longrightarrow> Inr resp \<in> set xs"
  by (induction xs e c rule: union_loop.induct) (auto split: option.splits if_splits)

lemma union_loop_refused:
  "union_loop xs e c = Inr resp \<Longrightarrow> \<not> cr_allowed resp \<Longrightarrow> e = None \<and> (c \<longrightarrow> cr_cycle_detected resp)
     \<and> (\<forall>x \<in> set xs. \<exists>resp'. x = Inr resp' \<and> \<not> cr_allowed resp' \<and> (cr_cycle_detected resp' \<longrightarrow> cr_cycle_detected resp))"
  by (induction xs e c rule: union_loop.induct) (auto split: option.splits if_splits)

lemma intersection_loop_allowed:
  "intersection_loop xs e = Inr resp \<Longrightarrow> cr_allowed resp \<Longrightarrow> e = None \<and> \<not> cr_cycle_detected resp
     \<and> (\<forall>x \<in> set xs. \<exists>resp'. x = Inr resp' \<and> cr_allowed resp')"
  by (induction xs e rule: intersection_loop.induct) (auto split: option.splits if_splits)

lemma intersection_loop_refused:
  "intersection_loop xs e = Inr resp \<Longrightarrow> \<not> cr_allowed resp \<Longrightarrow>
     \<exists>x \<in> set xs. \<exists>resp'. x = Inr resp' \<and> (cr_cycle_detected resp' \<or> \<not> cr_allowed resp') \<and> cr_cycle_detected resp' = cr_cycle_detected resp"
  by (induction xs e rule: intersection_loop.induct) (auto split: option.splits if_splits)

lemma exclusion_allowed:
  "exclusion bf base sub = Inr resp \<Longrightarrow> cr_allowed resp \<Longrightarrow> \<not> cr_cycle_detected resp
     \<and> (\<exists>b. base = Inr b \<and> cr_allowed b) \<and> (\<exists>s. sub = Inr s \<and> \<not> cr_allowed s \<and> \<not> cr_cycle_detected s)"
  by (cases base; cases sub; cases bf) (auto simp: exclusion_def split: if_splits)

lemma exclusion_refused:
  "exclusion bf base sub = Inr resp \<Longrightarrow> \<not> cr_allowed resp \<Longrightarrow> \<not> cr_cycle_detected resp \<Longrightarrow>
     (\<exists>b. base = Inr b \<and> \<not> cr_allowed b \<and> \<not> cr_cycle_detected b) \<or> (\<exists>s. sub = Inr s \<and> cr_allowed s)"
  by (cases base; cases sub; cases bf) (auto simp: exclusion_def split: if_splits)

section \<open>Tuples in force\<close>

definition in_force :: "('env, 'ast, 'prg, 'act) check_env \<Rightarrow> pbstruct option \<Rightarrow> tuple_key set \<Rightarrow> string \<Rightarrow> string \<Rightarrow> string \<Rightarrow> bool" where
  "in_force env ctx tuples ob r u \<longleftrightarrow>
     (\<exists>k \<in> tuples. tkey_of k = (ob, r, u) \<and> ValidateTupleForRead (ce_values env) (ce_typesys env) k = None
        \<and> BuildTupleKeyConditionFilter env ctx k = Inr True)"

interpretation read_keys: mapped_source StaticIterator "\<lambda>_. True" "\<lambda>s. s" "\<lambda>_. ErrIteratorDone" "\<lambda>t. Inr (tup_key t)" tup_key
  by unfold_locales simp

interpretation read_valid: filtered_source "mapped_ops (\<lambda>t. Inr (tup_key t)) StaticIterator" "\<lambda>_. True" "map tup_key"
  "\<lambda>_. ErrIteratorDone" valid for valid :: "tuple_key \<Rightarrow> bool" ..

interpretation read_conditional: cond_filtered_source
  "filteredTupleKeyIterator (mapped_ops (\<lambda>t. Inr (tup_key t)) StaticIterator) valid" "\<lambda>_. True" "\<lambda>s. filter valid (map tup_key s)"
  "\<lambda>_. ErrIteratorDone" cond for valid :: "tuple_key \<Rightarrow> bool" and cond ..

definition passing_keys :: "('env, 'ast, 'prg, 'act) check_env \<Rightarrow> pbstruct option \<Rightarrow> tuple list \<Rightarrow> tuple_key list" where
  "passing_keys env ctx ts =
     passes (condition_filter env ctx) (filter (FilterInvalidTuples (ce_values env) (ce_typesys env)) (map tup_key ts))"

lemma condition_filter_True: "condition_filter env ctx k = Inr True \<longleftrightarrow> BuildTupleKeyConditionFilter env ctx k = Inr True"
  by (auto simp: condition_filter_def split: sum.splits evaluation_error.splits)

lemma set_passing_keys:
  "set (passing_keys env ctx ts) = {k \<in> tup_key ` set ts. ValidateTupleForRead (ce_values env) (ce_typesys env) k = None
     \<and> BuildTupleKeyConditionFilter env ctx k = Inr True}"
  by (auto simp: passing_keys_def FilterInvalidTuples_def condition_filter_True)

lemma filtered_keys_eq [code]:
  "filtered_keys env ctx ts =
     (let keys = passing_keys env ctx ts in
      (keys, if keys \<noteq> [] then ErrIteratorDone
        else case last_error (condition_filter env ctx) None
               (filter (FilterInvalidTuples (ce_values env) (ce_typesys env)) (map tup_key ts)) of
               None \<Rightarrow> ErrIteratorDone | Some e \<Rightarrow> e))"
  using read_conditional.cond_filtered.drain_items
    [where s = "NewConditionsFilteredTupleKeyIterator ts" and valid = "FilterInvalidTuples (ce_values env) (ce_typesys env)" and cond = "condition_filter env ctx"]
  by (simp add: filtered_keys_def passing_keys_def tupleKeyIterator_def NewConditionsFilteredTupleKeyIterator_def cond_fin_def Let_def)

lemma filtered_keys_passing: "fst (filtered_keys env ctx ts) = passing_keys env ctx ts"
  by (simp add: filtered_keys_eq Let_def)

lemma filtered_next:
  "\<exists>c. it_next (filtered_iterator env ctx) (NewConditionsFilteredTupleKeyIterator ts) None =
     Some (case passing_keys env ctx ts of
             [] \<Rightarrow> Inl (cond_fin (\<lambda>s. filter (FilterInvalidTuples (ce_values env) (ce_typesys env)) (map tup_key s)) (\<lambda>_. ErrIteratorDone)
                    (condition_filter env ctx) (NewConditionsFilteredTupleKeyIterator ts))
           | k # _ \<Rightarrow> Inr k, c)"
  using read_conditional.cond_filtered.next_item
      [where s = "NewConditionsFilteredTupleKeyIterator ts" and valid = "FilterInvalidTuples (ce_values env) (ce_typesys env)" and cond = "condition_filter env ctx"]
    read_conditional.cond_filtered.next_end
      [where s = "NewConditionsFilteredTupleKeyIterator ts" and valid = "FilterInvalidTuples (ce_values env) (ce_typesys env)" and cond = "condition_filter env ctx"]
  by (cases "passing_keys env ctx ts")
    (fastforce simp: passing_keys_def tupleKeyIterator_def NewConditionsFilteredTupleKeyIterator_def)+

section \<open>Answers from the answers to subrequests\<close>

text \<open>
  \<open>child_request\<close>: a request about another object and relation of the same query.  \<open>evaluates\<close>: an
  outcome is the disjunction of a fact and of the answers to the subrequests about the pairs \<open>W\<close>; an
  allowed response is that of a subrequest, and a negative one reports their cycles.
\<close>

definition child_request :: "check_request \<Rightarrow> string \<Rightarrow> string \<Rightarrow> check_request \<Rightarrow> bool" where
  "child_request req ob r q \<longleftrightarrow>
     subrequest req q \<and> rq_tuple_key q = NewTupleKey ob r (tk_user (rq_tuple_key req))
     \<and> rq_selected_strategy q \<in> {'''', defaultResolver, rq_selected_strategy req}"

definition evaluates :: "(check_request \<Rightarrow> check_outcome) \<Rightarrow> check_request \<Rightarrow> bool \<Rightarrow> (string \<times> string) set \<Rightarrow> check_outcome \<Rightarrow> bool" where
  "evaluates f req B W out \<longleftrightarrow> (\<forall>resp. out = Inr resp \<longrightarrow>
     (if cr_allowed resp
      then B \<and> \<not> cr_cycle_detected resp \<or> (\<exists>(ob, r) \<in> W. \<exists>q. child_request req ob r q \<and> f q = Inr resp)
      else \<not> B \<and> (\<forall>(ob, r) \<in> W. \<exists>q resp'. child_request req ob r q \<and> f q = Inr resp' \<and> \<not> cr_allowed resp'
             \<and> (cr_cycle_detected resp' \<longrightarrow> cr_cycle_detected resp))))"

lemma evaluates_Inl [simp]: "evaluates f req B W (Inl e)"
  by (simp add: evaluates_def)

lemma evaluates_settled: "cr_allowed resp = B \<Longrightarrow> \<not> cr_cycle_detected resp \<Longrightarrow> evaluates f req B {} (Inr resp)"
  by (simp add: evaluates_def)

lemma evaluates_child: "child_request req ob r q \<Longrightarrow> evaluates f req False {(ob, r)} (f q)"
  by (auto simp: evaluates_def)

lemma evaluates_union_loop:
  assumes "list_all2 (\<lambda>x b. evaluates f req (fst b) (snd b) x) xs BWs" and "set ys = set xs"
  shows "evaluates f req (\<exists>b \<in> set BWs. fst b) (\<Union>b \<in> set BWs. snd b) (union_loop ys None False)"
  unfolding evaluates_def
proof (intro allI impI)
  fix resp assume u: "union_loop ys None False = Inr resp"
  have some: "\<exists>x \<in> set xs. evaluates f req (fst b) (snd b) x" if "b \<in> set BWs" for b
    using assms(1) that unfolding list_all2_conv_all_nth set_conv_nth by fastforce
  show "if cr_allowed resp
      then (\<exists>b \<in> set BWs. fst b) \<and> \<not> cr_cycle_detected resp
        \<or> (\<exists>(ob, r) \<in> (\<Union>b \<in> set BWs. snd b). \<exists>q. child_request req ob r q \<and> f q = Inr resp)
      else \<not> (\<exists>b \<in> set BWs. fst b) \<and> (\<forall>(ob, r) \<in> (\<Union>b \<in> set BWs. snd b). \<exists>q resp'. child_request req ob r q \<and> f q = Inr resp'
             \<and> \<not> cr_allowed resp' \<and> (cr_cycle_detected resp' \<longrightarrow> cr_cycle_detected resp))"
  proof (cases "cr_allowed resp")
    case True
    with u assms(2) have "Inr resp \<in> set xs" using union_loop_allowed by blast
    then obtain b where "b \<in> set BWs" "evaluates f req (fst b) (snd b) (Inr resp)"
      using assms(1) unfolding list_all2_conv_all_nth set_conv_nth by fastforce
    with True show ?thesis unfolding evaluates_def by fastforce
  next
    case False
    note refused = union_loop_refused [OF u False, THEN conjunct2, THEN conjunct2, unfolded assms(2)]
    have "\<not> fst b \<and> (\<forall>(ob, r) \<in> snd b. \<exists>q resp'. child_request req ob r q \<and> f q = Inr resp' \<and> \<not> cr_allowed resp'
        \<and> (cr_cycle_detected resp' \<longrightarrow> cr_cycle_detected resp))" if b: "b \<in> set BWs" for b
    proof -
      obtain x where "x \<in> set xs" "evaluates f req (fst b) (snd b) x" using some [OF b] by blast
      with refused show ?thesis unfolding evaluates_def by fastforce
    qed
    with False show ?thesis by fastforce
  qed
qed

lemma evaluates_union:
  "list_all2 (\<lambda>x b. evaluates f req (fst b) (snd b) x) xs BWs \<Longrightarrow> set ys = set xs \<Longrightarrow>
   evaluates f req (\<exists>b \<in> set BWs. fst b) (\<Union>b \<in> set BWs. snd b) (union ys)"
  unfolding union_def by (rule evaluates_union_loop)

text \<open>The objects and relations that tuples lead to: through their usersets and through their objects.\<close>

definition userset_targets :: "tuple_key list \<Rightarrow> (string \<times> string) set" where
  "userset_targets ks = (\<lambda>k. SplitObjectRelation (tk_user k)) ` set ks"

definition ttu_targets :: "type_system \<Rightarrow> string \<Rightarrow> tuple_key list \<Rightarrow> (string \<times> string) set" where
  "ttu_targets t cr ks = {(ob, cr) | ob k. k \<in> set ks \<and> ob = fst (SplitObjectRelation (tk_user k))
     \<and> TypeSystem.GetRelation t (GetType ob) cr \<noteq> Inl (RelationUndefinedError (GetType ob) cr)}"

lemma dispatch_child:
  "s \<in> {'''', defaultResolver, rq_selected_strategy req} \<Longrightarrow>
   evaluates f req False {(ob, r)} (dispatch f (prepareChildRequest req (NewTupleKey ob r (tk_user (rq_tuple_key req))) s))"
  unfolding dispatch_def
  by (rule evaluates_child) (auto simp: child_request_def prepareChildRequest_def subrequest_def)


text \<open>\<open>fair_arrival\<close>: the outcomes that arrive are the ones that were sent, in any order.\<close>

definition fair_arrival :: "('env, 'ast, 'prg, 'act) check_env \<Rightarrow> bool" where
  "fair_arrival env \<longleftrightarrow> (\<forall>req site xs. mset (ce_arrival env req site xs) = mset xs)"

lemma fair_arrival_set: "fair_arrival env \<Longrightarrow> set (ce_arrival env req site xs) = set xs"
  unfolding fair_arrival_def by (metis set_mset_mset)

lemma fair_arrival_length: "fair_arrival env \<Longrightarrow> length (ce_arrival env req site xs) = length xs"
  unfolding fair_arrival_def by (metis size_mset)

lemma evaluates_weaken: "evaluates f req B W out \<Longrightarrow> B = B' \<Longrightarrow> W = W' \<Longrightarrow> evaluates f req B' W' out"
  by simp

lemma dispatches_evaluate:
  assumes "list_all2 (\<lambda>x b. evaluates f req (fst b) (snd b) x) (processDispatches f req msgs) BWs" and "fair_arrival env"
  shows "evaluates f req (\<exists>b \<in> set BWs. fst b) (\<Union>b \<in> set BWs. snd b) (consumeDispatches f env req ks msgs)"
  unfolding consumeDispatches_def consume_loop_union
  by (rule evaluates_union_loop [OF assms(1)]) (rule fair_arrival_set [OF assms(2)])

lemma userset_dispatches:
  assumes "s \<in> {'''', defaultResolver, rq_selected_strategy req}"
    and "\<forall>k \<in> set ks. snd (SplitObjectRelation (tk_user k)) \<noteq> '''' \<and> \<not> IsTypedWildcard (fst (SplitObjectRelation (tk_user k)))"
  shows "\<exists>extra. snd ` set extra \<subseteq> {{}} \<and> fst ` set extra \<subseteq> {False} \<and> list_all2 (\<lambda>x b. evaluates f req (fst b) (snd b) x)
    (processDispatches f req (produceUsersetDispatches t req s ks err))
    (map (\<lambda>k. (False, {SplitObjectRelation (tk_user k)})) ks @ extra)"
  using assms(2)
proof (induction ks)
  case Nil
  show ?case
    by (rule exI [of _ "if IterIsDoneOrCancelled err then [] else [(False, {})]"]) simp
next
  case (Cons k ks)
  then obtain extra where extra: "snd ` set extra \<subseteq> {{}}" "fst ` set extra \<subseteq> {False}" "list_all2 (\<lambda>x b. evaluates f req (fst b) (snd b) x)
      (processDispatches f req (produceUsersetDispatches t req s ks err)) (map (\<lambda>k. (False, {SplitObjectRelation (tk_user k)})) ks @ extra)"
    by auto
  obtain ob r where k: "SplitObjectRelation (tk_user k) = (ob, r)" by fastforce
  show ?case
    by (rule exI [of _ extra]) (use Cons.prems extra k dispatch_child [OF assms(1)] in \<open>simp\<close>)
qed

lemma defaultUserset_evaluates:
  assumes "fair_arrival env" and "s \<in> {'''', defaultResolver, rq_selected_strategy req}"
    and "\<forall>k \<in> set (fst iter). snd (SplitObjectRelation (tk_user k)) \<noteq> '''' \<and> \<not> IsTypedWildcard (fst (SplitObjectRelation (tk_user k)))"
  shows "evaluates f req False (userset_targets (fst iter)) (defaultUserset f env req iter s)"
proof -
  obtain extra where extra: "snd ` set extra \<subseteq> {{}}" "fst ` set extra \<subseteq> {False}" "list_all2 (\<lambda>x b. evaluates f req (fst b) (snd b) x)
      (processDispatches f req (produceUsersetDispatches (ce_typesys env) req s (fst iter) (snd iter)))
      (map (\<lambda>k. (False, {SplitObjectRelation (tk_user k)})) (fst iter) @ extra)"
    using userset_dispatches [OF assms(2,3)] by blast
  show ?thesis unfolding defaultUserset_def
    by (rule evaluates_weaken [OF dispatches_evaluate [OF extra(3) assms(1)]]) (use extra(1,2) in \<open>auto simp: userset_targets_def\<close>)
qed

lemma ttu_dispatches:
  assumes "s \<in> {'''', defaultResolver, rq_selected_strategy req}"
  shows "\<exists>BWs. fst ` set BWs \<subseteq> {False} \<and> (\<Union>b \<in> set BWs. snd b) = ttu_targets t cr ks \<and> list_all2 (\<lambda>x b. evaluates f req (fst b) (snd b) x)
    (processDispatches f req (produceTTUDispatches t cr req s ks err)) BWs"
proof (induction ks)
  case Nil
  show ?case
    by (rule exI [of _ "if IterIsDoneOrCancelled err then [] else [(False, {})]"]) (simp add: ttu_targets_def)
next
  case (Cons k ks)
  then obtain BWs where BWs: "fst ` set BWs \<subseteq> {False}" "(\<Union>b \<in> set BWs. snd b) = ttu_targets t cr ks"
    "list_all2 (\<lambda>x b. evaluates f req (fst b) (snd b) x) (processDispatches f req (produceTTUDispatches t cr req s ks err)) BWs" by blast
  let ?ob = "fst (SplitObjectRelation (tk_user k))"
  show ?case
  proof (cases "TypeSystem.GetRelation t (GetType ?ob) cr = Inl (RelationUndefinedError (GetType ?ob) cr)")
    case True
    then show ?thesis by (intro exI [of _ BWs]) (use BWs in \<open>auto simp: ttu_targets_def split_def\<close>)
  next
    case False
    then have "produceTTUDispatches t cr req s (k # ks) err
        = Dispatch (NewTupleKey ?ob cr (tk_user (rq_tuple_key req))) s # produceTTUDispatches t cr req s ks err"
      by (auto simp: split_def Let_def split: sum.splits ts_error.splits dest: GetRelation_Inl)
    with BWs False dispatch_child [OF assms] show ?thesis
      by (intro exI [of _ "(False, {(?ob, cr)}) # BWs"]) (auto simp: ttu_targets_def)
  qed
qed

lemma defaultTTU_evaluates:
  assumes "fair_arrival env" and "s \<in> {'''', defaultResolver, rq_selected_strategy req}"
  shows "evaluates f req False (ttu_targets (ce_typesys env) cr (fst iter)) (defaultTTU f env req cr iter s)"
proof -
  obtain BWs where BWs: "fst ` set BWs \<subseteq> {False}" "(\<Union>b \<in> set BWs. snd b) = ttu_targets (ce_typesys env) cr (fst iter)"
    "list_all2 (\<lambda>x b. evaluates f req (fst b) (snd b) x)
      (processDispatches f req (produceTTUDispatches (ce_typesys env) cr req s (fst iter) (snd iter))) BWs"
    using ttu_dispatches [OF assms(2)] by blast
  show ?thesis unfolding defaultTTU_def
    by (rule evaluates_weaken [OF dispatches_evaluate [OF BWs(3) assms(1)]]) (use BWs(1,2) in auto)
qed


section \<open>The model and the query\<close>

text \<open>
  What the API's validation of models and requests gives: names of relations are valid and not empty,
  the user and the object of a query are well formed.  \<open>default_strategies\<close>: where the weighted graph
  offers a choice, the planner chooses the default strategy.
\<close>

fun rewrite_names :: "userset \<Rightarrow> string list" where
  "rewrite_names (ComputedUserset r) = [r]"
| "rewrite_names (TupleToUserset ts cr) = [ts, cr]"
| "rewrite_names (Union cs) = concat (map rewrite_names cs)"
| "rewrite_names (Intersection cs) = concat (map rewrite_names cs)"
| "rewrite_names (Difference b s) = rewrite_names b @ rewrite_names s"
| "rewrite_names _ = []"

definition names_ok :: "string \<times> relation_def \<Rightarrow> bool" where
  "names_ok = (\<lambda>(r, rel). IsValidRelation r \<and> list_all (\<lambda>r. r \<noteq> '''') (rewrite_names (rel_rewrite rel))
     \<and> list_all (\<lambda>rr. rr_relation_or_wildcard rr \<noteq> Some (RRelation '''')) (rel_related rel))"

definition model_ready :: "type_system \<Rightarrow> bool" where
  "model_ready t \<longleftrightarrow> ts_consistent t \<and> IsSchemaVersionSupported (ts_schema_version t)
     \<and> list_all (\<lambda>(ot, rs). list_all names_ok rs) (ts_relations t)"

definition default_strategies :: "('env, 'ast, 'prg, 'act) check_env \<Rightarrow> bool" where
  "default_strategies env \<longleftrightarrow>
     (case ce_weighted env of None \<Rightarrow> True | Some w \<Rightarrow> \<forall>key strategies. wp_Select w key strategies = defaultResolver)"

definition query_request :: "string \<Rightarrow> pbstruct option \<Rightarrow> string \<Rightarrow> check_request \<Rightarrow> bool" where
  "query_request st ctx u req \<longleftrightarrow> rq_store_id req = st \<and> rq_context req = ctx \<and> tk_user (rq_tuple_key req) = u
     \<and> subject_of u \<noteq> None \<and> IsValidObject (tk_object (rq_tuple_key req)) \<and> tk_relation (rq_tuple_key req) \<noteq> ''''
     \<and> rq_selected_strategy req \<in> {'''', defaultResolver}"

lemma model_ready_relation:
  assumes "model_ready t" and "TypeSystem.GetRelation t ot r = Inr rel"
  shows "IsValidRelation r" and "list_all (\<lambda>r. r \<noteq> '''') (rewrite_names (rel_rewrite rel))"
    and "rr \<in> set (rel_related rel) \<Longrightarrow> rr_relation_or_wildcard rr \<noteq> Some (RRelation '''')"
proof -
  obtain rs where "map_of (ts_relations t) ot = Some rs" "map_of rs r = Some rel"
    using assms(2) by (auto simp: TypeSystem.GetRelation_def GetRelations_def split: option.splits)
  then have "(ot, rs) \<in> set (ts_relations t)" "(r, rel) \<in> set rs" by (auto dest: map_of_SomeD)
  with assms(1) have "names_ok (r, rel)" by (fastforce simp: model_ready_def list_all_iff)
  then show "IsValidRelation r" "list_all (\<lambda>r. r \<noteq> '''') (rewrite_names (rel_rewrite rel))"
    "rr \<in> set (rel_related rel) \<Longrightarrow> rr_relation_or_wildcard rr \<noteq> Some (RRelation '''')"
    by (auto simp: names_ok_def list_all_iff)
qed

lemma ValidateTupleForRead_typed:
  assumes "model_ready t" and "ValidateTupleForRead lib t k = None" and "subject_of (tk_user k) = Some s"
  shows "\<exists>rel rr. TypeSystem.GetRelation t (GetType (tk_object k)) (tk_relation k) = Inr rel \<and> rr \<in> set (rel_related rel) \<and> admits rr s"
proof -
  obtain rel where rel: "TypeSystem.GetRelation t (GetType (tk_object k)) (tk_relation k) = Inr rel"
    using assms(2) by (auto simp: ValidateTupleForRead_def HasTypeInfo_def split: option.splits sum.splits)
  with assms ValidateTupleForRead_None_iff [OF _ _ rel assms(3)] show ?thesis by (auto simp: model_ready_def)
qed

lemma in_force_typed:
  assumes "model_ready (ce_typesys env)" and "in_force env ctx K ob r w" and "\<forall>k \<in> K. subject_of (tk_user k) \<noteq> None"
  shows "\<exists>rel s rr. TypeSystem.GetRelation (ce_typesys env) (GetType ob) r = Inr rel \<and> subject_of w = Some s
    \<and> rr \<in> set (rel_related rel) \<and> admits rr s"
proof -
  obtain k where k: "k \<in> K" "tkey_of k = (ob, r, w)" "ValidateTupleForRead (ce_values env) (ce_typesys env) k = None"
    using assms(2) by (auto simp: in_force_def)
  moreover obtain s where "subject_of (tk_user k) = Some s" using assms(3) k(1) by blast
  ultimately show ?thesis using ValidateTupleForRead_typed [OF assms(1) k(3)] by (fastforce simp: tkey_of_def)
qed

lemma subject_split:
  assumes "subject_of w = Some s"
  shows "IsValidObject (fst (SplitObjectRelation w))" and "snd (SplitObjectRelation w) = subject_relation s"
    and "GetType (fst (SplitObjectRelation w)) = subject_type s"
    and "subject_relation s \<noteq> '''' \<longleftrightarrow> (\<exists>t i r. s = Members t i r)"
    and "subject_relation s \<noteq> '''' \<Longrightarrow> \<not> IsTypedWildcard (fst (SplitObjectRelation w))"
proof -
  obtain obj where obj: "SplitObjectRelation w = (obj, subject_relation s)" "GetType obj = subject_type s"
    using subject_user(7) [OF assms] by blast
  then show "snd (SplitObjectRelation w) = subject_relation s" "GetType (fst (SplitObjectRelation w)) = subject_type s" by simp_all
  show "subject_relation s \<noteq> '''' \<longleftrightarrow> (\<exists>t i r. s = Members t i r)"
    using assms by (cases rule: subject_cases) (auto simp: subject_relation_def userset_part_def)
  show "IsValidObject (fst (SplitObjectRelation w))" "subject_relation s \<noteq> '''' \<Longrightarrow> \<not> IsTypedWildcard (fst (SplitObjectRelation w))"
    using assms
  proof (atomize (full), cases rule: subject_cases)
    case (Members t i r)
    then have "SplitObjectRelation w = (t @ CHR '':'' # i, r)" using SplitObjectRelation_append [of r "t @ CHR '':'' # i"] by simp
    moreover have "IsValidObject (t @ CHR '':'' # i)" unfolding IsValidObject_iff using Members userset_part_facts(1) by blast
    ultimately show "IsValidObject (fst (SplitObjectRelation w)) \<and> (subject_relation s \<noteq> '''' \<longrightarrow> \<not> IsTypedWildcard (fst (SplitObjectRelation w)))"
      using Members by (auto simp: IsTypedWildcard_def)
  next
    case (Concrete t i)
    then show "IsValidObject (fst (SplitObjectRelation w)) \<and> (subject_relation s \<noteq> '''' \<longrightarrow> \<not> IsTypedWildcard (fst (SplitObjectRelation w)))"
      using subject_user(3) [OF assms] by (simp add: subject_relation_def)
  next
    case (Public t)
    then show "IsValidObject (fst (SplitObjectRelation w)) \<and> (subject_relation s \<noteq> '''' \<longrightarrow> \<not> IsTypedWildcard (fst (SplitObjectRelation w)))"
      using subject_user(3) [OF assms] by (simp add: subject_relation_def Wildcard_def)
  qed
qed


section \<open>Direct relationships\<close>

lemma shouldCheckDirectTuple_typed:
  assumes "model_ready t" and "TypeSystem.GetRelation t (GetType (tk_object tk)) (tk_relation tk) = Inr rel"
    and "subject_of (tk_user tk) = Some s" and "rr \<in> set (rel_related rel)" and "admits rr s" and "\<not> (\<exists>ut. s = Public ut)"
  shows "shouldCheckDirectTuple t tk"
proof -
  have "tk_relation tk \<noteq> ''''" using model_ready_relation(1) [OF assms(1,2)] by (auto simp: IsValidRelation_iff)
  moreover have "RelationEquals (DirectRelationReference (GetType (tk_user tk)) (Tuple.GetRelation (tk_user tk))) rr"
    using assms(5,6) subject_user(5,6) [OF assms(3)] subject_split(4) [OF assms(3)] model_ready_relation(3) [OF assms(1,2,4)]
    by (cases s; cases "rr_relation_or_wildcard rr"; cases "the (rr_relation_or_wildcard rr)")
      (auto simp: RelationEquals_def DirectRelationReference_def rr_is_wildcard_def rr_relation_def subject_relation_def)
  ultimately show ?thesis
    using assms(2,4) by (auto simp: shouldCheckDirectTuple_def IsDirectlyRelated_def DirectRelationReference_def rr_relation_def)
qed

lemma subject_public:
  assumes "plain_part t"
  shows "subject_of (TypedPublicWildcard t) = Some (Public t)"
proof -
  have "CHR ''#'' \<notin> set (t @ CHR '':'' # Wildcard)" using assms by (simp add: Wildcard_def)
  then have "\<not> IsValidUserset (t @ CHR '':'' # Wildcard)" unfolding IsValidUserset_iff by force
  moreover have "IsValidObject (t @ CHR '':'' # Wildcard)" unfolding IsValidObject_iff using assms plain_part_Wildcard by blast
  ultimately show ?thesis using assms by (simp add: subject_of_def TypedPublicWildcard_def BuildObject_def)
qed

lemma subject_of_Public: "subject_of w = Some (Public t) \<Longrightarrow> w = TypedPublicWildcard t"
  by (erule subject_cases) (auto simp: TypedPublicWildcard_def BuildObject_def)

lemma subject_type_plain: "subject_of u = Some s \<Longrightarrow> plain_part (subject_type s)"
  by (erule subject_cases) auto

lemma shouldCheckPublicAssignable_typed:
  assumes "model_ready t" and "TypeSystem.GetRelation t (GetType (tk_object tk)) (tk_relation tk) = Inr rel"
    and "\<not> IsObjectRelation (tk_user tk)" and "rr \<in> set (rel_related rel)" and "admits rr (Public (GetType (tk_user tk)))"
  shows "shouldCheckPublicAssignable t tk"
proof -
  have "tk_relation tk \<noteq> ''''" using model_ready_relation(1) [OF assms(1,2)] by (auto simp: IsValidRelation_iff)
  with assms show ?thesis
    by (auto simp: shouldCheckPublicAssignable_def IsPubliclyAssignable_def PubliclyAssignableReferences_def
        DirectRelationReference_def rr_relation_def find_first_None_iff)
qed

text \<open>The two queries of the model leave out no tuple that could be in force.\<close>

lemma direct_guard:
  assumes "model_ready (ce_typesys env)" and "\<forall>k \<in> K. subject_of (tk_user k) \<noteq> None"
    and "in_force env ctx K (tk_object tk) (tk_relation tk) (tk_user tk)"
  shows "shouldCheckDirectTuple (ce_typesys env) tk
    \<or> tk_user tk = TypedPublicWildcard (GetType (tk_user tk)) \<and> \<not> IsObjectRelation (tk_user tk)"
proof -
  obtain rel s rr where typed: "TypeSystem.GetRelation (ce_typesys env) (GetType (tk_object tk)) (tk_relation tk) = Inr rel"
    "subject_of (tk_user tk) = Some s" "rr \<in> set (rel_related rel)" "admits rr s"
    using in_force_typed [OF assms(1,3,2)] by blast
  show ?thesis
  proof (cases "\<exists>ut. s = Public ut")
    case True
    with subject_of_Public subject_user(2,5) [OF typed(2)] typed(2) show ?thesis by force
  next
    case False
    with shouldCheckDirectTuple_typed [OF assms(1) typed] show ?thesis by blast
  qed
qed

lemma public_guard:
  assumes "model_ready (ce_typesys env)" and "\<forall>k \<in> K. subject_of (tk_user k) \<noteq> None" and "subject_of (tk_user tk) \<noteq> None"
    and "in_force env ctx K (tk_object tk) (tk_relation tk) (TypedPublicWildcard (GetType (tk_user tk)))" and "\<not> IsObjectRelation (tk_user tk)"
  shows "shouldCheckPublicAssignable (ce_typesys env) tk"
proof -
  obtain rel s rr where typed: "TypeSystem.GetRelation (ce_typesys env) (GetType (tk_object tk)) (tk_relation tk) = Inr rel"
    "subject_of (TypedPublicWildcard (GetType (tk_user tk))) = Some s" "rr \<in> set (rel_related rel)" "admits rr s"
    using in_force_typed [OF assms(1,4,2)] by blast
  have "plain_part (GetType (tk_user tk))" using assms(3) subject_type_plain subject_user(5) by force
  with typed(2) have "s = Public (GetType (tk_user tk))" by (simp add: subject_public)
  with shouldCheckPublicAssignable_typed [OF assms(1) typed(1) assms(5) typed(3)] typed(4) show ?thesis by blast
qed

text \<open>The facts and the targets of the direct relationships of a request.\<close>

definition direct_fact :: "(string \<Rightarrow> string \<Rightarrow> string \<Rightarrow> bool) \<Rightarrow> string \<Rightarrow> string \<Rightarrow> string \<Rightarrow> bool" where
  "direct_fact F u ob r \<longleftrightarrow> F ob r u \<or> \<not> IsObjectRelation u \<and> F ob r (TypedPublicWildcard (GetType u))"

definition direct_targets :: "(string \<Rightarrow> string \<Rightarrow> string \<Rightarrow> bool) \<Rightarrow> string \<Rightarrow> string \<Rightarrow> (string \<times> string) set" where
  "direct_targets F ob r = {(ob', r'). r' \<noteq> '''' \<and> (\<exists>w. F ob r w \<and> SplitObjectRelation w = (ob', r'))}"

definition restricted_targets :: "(string \<Rightarrow> string \<Rightarrow> string \<Rightarrow> bool) \<Rightarrow> string \<Rightarrow> string \<Rightarrow> relation_reference list \<Rightarrow> (string \<times> string) set" where
  "restricted_targets F ob r allowed = {(ob', r'). \<exists>w. F ob r w \<and> allowed_user allowed w \<and> SplitObjectRelation w = (ob', r')}"

definition tupleset_targets :: "type_system \<Rightarrow> (string \<Rightarrow> string \<Rightarrow> string \<Rightarrow> bool) \<Rightarrow> string \<Rightarrow> string \<Rightarrow> string \<Rightarrow> (string \<times> string) set" where
  "tupleset_targets t F ob ts cr = {(ob', cr) | ob' w. F ob ts w \<and> ob' = fst (SplitObjectRelation w)
     \<and> TypeSystem.GetRelation t (GetType ob') cr \<noteq> Inl (RelationUndefinedError (GetType ob') cr)}"

context relationship_store
begin

lemma public_tuple_evaluates:
  assumes "invar s st" and "ce_reader env = reader s" and "query_request st ctx u req"
    and "tk_relation (rq_tuple_key req) \<noteq> ''''"
  shows "evaluates f req (in_force env ctx (contents s st) (tk_object (rq_tuple_key req)) (tk_relation (rq_tuple_key req))
      (TypedPublicWildcard (GetType u))) {} (checkPublicAssignable env req)"
proof -
  let ?ob = "tk_object (rq_tuple_key req)" and ?r = "tk_relation (rq_tuple_key req)" and ?a = "WildcardRelationReference (GetType u)"
  obtain sb where sb: "subject_of u = Some sb" using assms(3) by (auto simp: query_request_def)
  have req: "rq_store_id req = st" "rq_context req = ctx" "tk_user (rq_tuple_key req) = u" "IsValidObject ?ob"
    using assms(3) by (auto simp: query_request_def)
  have restricts: "restricts [?a]" by (simp add: restricts_def WildcardRelationReference_def rr_is_wildcard_def)
  have user: "allowed_user [?a] w \<longleftrightarrow> w = TypedPublicWildcard (GetType u)" if "subject_of w \<noteq> None" for w
  proof -
    have "admits ?a s' \<longleftrightarrow> s' = Public (GetType u)" if "subject_of w = Some s'" for s'
      using subject_split(4) [OF that]
      by (cases s') (auto simp: WildcardRelationReference_def rr_is_wildcard_def rr_relation_def subject_relation_def)
    moreover have "w = TypedPublicWildcard (GetType u) \<longleftrightarrow> subject_of w = Some (Public (GetType u))"
      using subject_public [of "GetType u"] subject_of_Public [of w] subject_type_plain [OF sb] subject_user(5) [OF sb] by metis
    ultimately show ?thesis using that by (auto simp: allowed_user_def)
  qed
  show ?thesis
  proof (cases "rd_ReadUsersetTuples (reader s) st \<lparr>ruf_object = ?ob, ruf_relation = ?r, ruf_allowed = [?a], ruf_conditions = []\<rparr>")
    case (Inl e)
    with assms(2) req show ?thesis by (simp add: checkPublicAssignable_def)
  next
    case (Inr ts)
    have "in_force env ctx (contents s st) ?ob ?r (TypedPublicWildcard (GetType u)) \<longleftrightarrow> passing_keys env ctx ts \<noteq> []"
    proof -
      have "tup_key ` set ts = {k \<in> contents s st. tkey_of k = (?ob, ?r, TypedPublicWildcard (GetType u))}"
        using read_usersets [OF assms(1) req(4) assms(4) restricts Inr] user [OF subjects [OF assms(1)]] by (auto simp: tkey_of_def)
      then show ?thesis unfolding set_empty [symmetric] set_passing_keys by (auto simp: in_force_def)
    qed
    with Inr assms(2) req filtered_next [of env ctx ts] show ?thesis
      by (cases "passing_keys env ctx ts") (auto simp: checkPublicAssignable_def evaluates_settled)
  qed
qed

lemma user_tuple_evaluates:
  assumes "invar s st" and "ce_reader env = reader s" and "query_request st ctx u req"
    and "TypeSystem.GetRelation (ce_typesys env) ot (tk_relation (rq_tuple_key req)) = Inr rel" and "model_ready (ce_typesys env)"
  shows "evaluates f req (in_force env ctx (contents s st) (tk_object (rq_tuple_key req)) (tk_relation (rq_tuple_key req)) u) {}
    (checkDirectUserTuple env req)"
proof -
  let ?ob = "tk_object (rq_tuple_key req)" and ?r = "tk_relation (rq_tuple_key req)"
  obtain sb where "subject_of u = Some sb" using assms(3) by (auto simp: query_request_def)
  then have key: "valid_key (NewTupleKey ?ob ?r u)"
    using assms(3) model_ready_relation(1) [OF assms(5,4)] subject_user(1)
    by (auto simp: valid_key_def NewTupleKey_def query_request_def)
  let ?f = "\<lparr>rf_object = ?ob, rf_relation = ?r, rf_user = u, rf_conditions = []\<rparr>"
  have req: "rq_store_id req = st" "rq_context req = ctx" "tk_user (rq_tuple_key req) = u"
    using assms(3) by (auto simp: query_request_def)
  show ?thesis
  proof (cases "rd_ReadUserTuple (reader s) st ?f")
    case (Inl e)
    show ?thesis
    proof (cases "e = ErrNotFound")
      case True
      with not_found [OF assms(1) key] Inl have "\<not> in_force env ctx (contents s st) ?ob ?r u" by (auto simp: in_force_def)
      with True Inl assms(2) req show ?thesis by (simp add: checkDirectUserTuple_def evaluates_settled)
    next
      case False
      with Inl assms(2) req have "\<exists>e. checkDirectUserTuple env req = Inl e"
        by (cases e) (simp_all add: checkDirectUserTuple_def)
      then show ?thesis by auto
    qed
  next
    case (Inr t)
    have t: "tup_key t \<in> contents s st" "tkey_of (tup_key t) = (?ob, ?r, u)" using found [OF assms(1) key Inr] by auto
    with one_tuple [OF assms(1) _ t(1)] have "in_force env ctx (contents s st) ?ob ?r u \<longleftrightarrow>
        ValidateTupleForRead (ce_values env) (ce_typesys env) (tup_key t) = None
        \<and> BuildTupleKeyConditionFilter env ctx (tup_key t) = Inr True"
      unfolding in_force_def by metis
    with Inr assms(2) req show ?thesis
      by (auto simp: checkDirectUserTuple_def evaluates_settled split: sum.splits)
  qed
qed

end


context relationship_store
begin

text \<open>The usersets of a read: what the loop over them dispatches.\<close>

lemma userset_read_targets:
  assumes "invar s st" and "ce_reader env = reader s" and "query_request st ctx u req" and "tk_relation (rq_tuple_key req) \<noteq> ''''"
    and "allowed \<noteq> []" and "\<forall>a \<in> set allowed. rr_relation a \<noteq> ''''" and read: "IteratorReadUsersetTuples env req allowed = Inr iter"
  shows "\<forall>k \<in> set (fst iter). snd (SplitObjectRelation (tk_user k)) \<noteq> '''' \<and> \<not> IsTypedWildcard (fst (SplitObjectRelation (tk_user k)))"
    and "userset_targets (fst iter) = restricted_targets (in_force env ctx (contents s st)) (tk_object (rq_tuple_key req)) (tk_relation (rq_tuple_key req)) allowed"
proof -
  let ?ob = "tk_object (rq_tuple_key req)" and ?r = "tk_relation (rq_tuple_key req)"
  have req: "rq_store_id req = st" "rq_context req = ctx" "IsValidObject ?ob" using assms(3) by (auto simp: query_request_def)
  have restricts: "restricts allowed" using assms(5,6) by (simp add: restricts_def list_all_iff)
  obtain ts where ts: "rd_ReadUsersetTuples (reader s) st \<lparr>ruf_object = ?ob, ruf_relation = ?r, ruf_allowed = allowed, ruf_conditions = []\<rparr> = Inr ts"
    "iter = filtered_keys env ctx ts"
    using read assms(2) req by (auto simp: IteratorReadUsersetTuples_def split: sum.splits)
  have keys: "set (fst iter) = {k \<in> contents s st. tk_object k = ?ob \<and> tk_relation k = ?r \<and> allowed_user allowed (tk_user k)
      \<and> ValidateTupleForRead (ce_values env) (ce_typesys env) k = None \<and> BuildTupleKeyConditionFilter env ctx k = Inr True}"
    unfolding ts(2) filtered_keys_passing set_passing_keys read_usersets [OF assms(1) req(3) assms(4) restricts ts(1)] by auto
  have "snd (SplitObjectRelation w) \<noteq> '''' \<and> \<not> IsTypedWildcard (fst (SplitObjectRelation w))" if w: "allowed_user allowed w" for w
  proof -
    obtain s' a where s': "subject_of w = Some s'" "a \<in> set allowed" "admits a s'" using w by (auto simp: allowed_user_def)
    then have "\<exists>t i r. s' = Members t i r" using assms(6) by (cases s') (auto simp: rr_is_wildcard_def rr_relation_def)
    with subject_split [OF s'(1)] show ?thesis by simp
  qed
  with keys show "\<forall>k \<in> set (fst iter). snd (SplitObjectRelation (tk_user k)) \<noteq> '''' \<and> \<not> IsTypedWildcard (fst (SplitObjectRelation (tk_user k)))"
    by blast
  show "userset_targets (fst iter) = restricted_targets (in_force env ctx (contents s st)) ?ob ?r allowed"
    unfolding userset_targets_def restricted_targets_def keys in_force_def tkey_of_def by (auto simp: image_iff) metis+
qed

lemma userset_read_evaluates:
  assumes "invar s st" and "ce_reader env = reader s" and "query_request st ctx u req" and "tk_relation (rq_tuple_key req) \<noteq> ''''"
    and "allowed \<noteq> []" and "\<forall>a \<in> set allowed. rr_relation a \<noteq> ''''" and "IteratorReadUsersetTuples env req allowed = Inr iter"
    and "fair_arrival env" and "strategy \<in> {'''', defaultResolver, rq_selected_strategy req}"
  shows "evaluates f req False (restricted_targets (in_force env ctx (contents s st)) (tk_object (rq_tuple_key req)) (tk_relation (rq_tuple_key req)) allowed)
       (defaultUserset f env req iter strategy)"
  using defaultUserset_evaluates [OF assms(8,9) userset_read_targets(1) [OF assms(1-7)]]
  unfolding userset_read_targets(2) [OF assms(1-7)] .

end


context relationship_store
begin

lemma userset_resolvers_evaluate:
  assumes "invar s st" and "ce_reader env = reader s" and "query_request st ctx u req" and "tk_relation (rq_tuple_key req) \<noteq> ''''"
    and "fair_arrival env" and "\<forall>key strategies. wp_Select w key strategies = defaultResolver"
  shows "userset_resolvers w f env req us = Inr (resolvers, remaining) \<Longrightarrow> \<forall>a \<in> set us. rr_relation a \<noteq> '''' \<Longrightarrow>
    \<exists>handled. set us = set handled \<union> set remaining \<and> list_all2 (\<lambda>x b. evaluates f req (fst b) (snd b) x) resolvers
      (map (\<lambda>a. (False, restricted_targets (in_force env ctx (contents s st)) (tk_object (rq_tuple_key req)) (tk_relation (rq_tuple_key req)) [a])) handled)"
proof (induction us arbitrary: resolvers remaining)
  case (Cons a us)
  show ?case
  proof (cases "wp_UsersetUseWeight2Resolver w (GetType (tk_object (rq_tuple_key req))) (tk_relation (rq_tuple_key req))
      (GetType (tk_user (rq_tuple_key req))) a")
    case False
    with Cons.prems obtain rem where rem: "userset_resolvers w f env req us = Inr (resolvers, rem)" "remaining = a # rem"
      by (auto simp: Let_def split: sum.splits)
    from Cons.IH [OF rem(1)] Cons.prems(2) rem(2) show ?thesis by auto
  next
    case True
    with Cons.prems obtain iter where iter: "IteratorReadUsersetTuples env req [a] = Inr iter"
      by (auto simp: Let_def split: sum.splits)
    obtain rest where rest: "userset_resolvers w f env req us = Inr (rest, remaining)"
      "resolvers = defaultUserset f env req iter defaultResolver # rest"
      using True Cons.prems iter assms(3,6)
      by (auto simp: Let_def query_request_def defaultResolver_def weightTwoResolver_def split: sum.splits if_splits)
    obtain handled where "set us = set handled \<union> set remaining" "list_all2 (\<lambda>x b. evaluates f req (fst b) (snd b) x) rest
        (map (\<lambda>a. (False, restricted_targets (in_force env ctx (contents s st)) (tk_object (rq_tuple_key req)) (tk_relation (rq_tuple_key req)) [a])) handled)"
      using Cons.IH [OF rest(1)] Cons.prems(2) by auto
    moreover have "evaluates f req False (restricted_targets (in_force env ctx (contents s st)) (tk_object (rq_tuple_key req))
        (tk_relation (rq_tuple_key req)) [a]) (defaultUserset f env req iter defaultResolver)"
      by (rule userset_read_evaluates [OF assms(1-4) _ _ iter assms(5)]) (use Cons.prems(2) in auto)
    ultimately show ?thesis using rest(2) by (intro exI [of _ "a # handled"]) simp
  qed
qed simp

lemma restricted_targets_set:
  "set xs = set ys \<union> set zs \<Longrightarrow> restricted_targets F ob r xs = (\<Union>a \<in> set ys. restricted_targets F ob r [a]) \<union> restricted_targets F ob r zs"
  by (fastforce simp: restricted_targets_def allowed_user_def)

lemma weighted_usersets_evaluate:
  assumes "invar s st" and "ce_reader env = reader s" and "query_request st ctx u req" and "tk_relation (rq_tuple_key req) \<noteq> ''''"
    and "fair_arrival env" and "default_strategies env"
    and "weighted_resolvers f env req us = Inr (resolvers, remaining)" and "\<forall>a \<in> set us. rr_relation a \<noteq> ''''"
  shows "\<exists>handled. set us = set handled \<union> set remaining \<and> list_all2 (\<lambda>x b. evaluates f req (fst b) (snd b) x) resolvers
      (map (\<lambda>a. (False, restricted_targets (in_force env ctx (contents s st)) (tk_object (rq_tuple_key req)) (tk_relation (rq_tuple_key req)) [a])) handled)"
proof (cases "ce_weighted env")
  case None
  with assms(7) show ?thesis by (auto simp: weighted_resolvers_def)
next
  case (Some w)
  then have "\<forall>key strategies. wp_Select w key strategies = defaultResolver" using assms(6) by (simp add: default_strategies_def)
  from userset_resolvers_evaluate [OF assms(1-5) this] assms(7,8) Some show ?thesis by (simp add: weighted_resolvers_def)
qed

end


context relationship_store
begin

text \<open>The reads per userset type and the read of the remaining types, taken together.\<close>

lemma split_usersets_evaluate:
  assumes "invar s st" and "ce_reader env = reader s" and "query_request st ctx u req" and "tk_relation (rq_tuple_key req) \<noteq> ''''"
    and "fair_arrival env" and "default_strategies env"
    and rr: "weighted_resolvers f env req us = Inr (resolvers, remaining)" and rel: "\<forall>a \<in> set us. rr_relation a \<noteq> ''''"
  shows "evaluates f req False (restricted_targets (in_force env ctx (contents s st)) (tk_object (rq_tuple_key req)) (tk_relation (rq_tuple_key req)) us)
    (if remaining = [] then union (ce_arrival env req AtUsersets resolvers)
     else case IteratorReadUsersetTuples env req remaining of
            Inl e \<Rightarrow> Inl e
          | Inr iter \<Rightarrow> union (ce_arrival env req AtUsersets (resolvers @ [defaultUserset f env req iter ''''])))"
    (is "evaluates _ _ _ (?T us) _")
proof -
  obtain handled where handled: "set us = set handled \<union> set remaining"
    "list_all2 (\<lambda>x b. evaluates f req (fst b) (snd b) x) resolvers (map (\<lambda>a. (False, ?T [a])) handled)"
    using weighted_usersets_evaluate [OF assms] by blast
  note T = restricted_targets_set [OF handled(1)]
  have "evaluates f req False (?T us) (union (ce_arrival env req AtUsersets resolvers))" if "remaining = []"
    by (rule evaluates_weaken [OF evaluates_union [OF handled(2) fair_arrival_set [OF assms(5)]]])
      (use that T in \<open>auto simp: restricted_targets_def allowed_user_def\<close>)
  moreover have "evaluates f req False (?T us) (union (ce_arrival env req AtUsersets (resolvers @ [defaultUserset f env req iter ''''])))"
    if iter: "remaining \<noteq> []" "IteratorReadUsersetTuples env req remaining = Inr iter" for iter
  proof -
    have "evaluates f req False (?T remaining) (defaultUserset f env req iter '''')"
      by (rule userset_read_evaluates [OF assms(1-4) iter(1) _ iter(2) assms(5)]) (use handled(1) rel in auto)
    then have all: "list_all2 (\<lambda>x b. evaluates f req (fst b) (snd b) x) (resolvers @ [defaultUserset f env req iter ''''])
        (map (\<lambda>a. (False, ?T [a])) handled @ [(False, ?T remaining)])"
      using handled(2) by (simp add: list_all2_appendI)
    show ?thesis
      by (rule evaluates_weaken [OF evaluates_union [OF all fair_arrival_set [OF assms(5)]]]) (use T in auto)
  qed
  ultimately show ?thesis by (auto split: sum.splits)
qed

lemma direct_usersets_evaluate:
  assumes "invar s st" and "ce_reader env = reader s" and "query_request st ctx u req" and "tk_relation (rq_tuple_key req) \<noteq> ''''"
    and "fair_arrival env" and "default_strategies env"
    and us: "DirectlyRelatedUsersets (ce_typesys env) (GetType (tk_object (rq_tuple_key req))) (tk_relation (rq_tuple_key req)) = Inr us" "us \<noteq> []"
  shows "evaluates f req False (restricted_targets (in_force env ctx (contents s st)) (tk_object (rq_tuple_key req))
      (tk_relation (rq_tuple_key req)) us) (checkDirectUsersetTuples f env req)" (is "evaluates _ _ _ (?T us) ?out")
proof -
  have rel: "\<forall>a \<in> set us. rr_relation a \<noteq> ''''" using us(1) by (auto simp: DirectlyRelatedUsersets_def split: sum.splits)
  have whole: "evaluates f req False (?T us) (case IteratorReadUsersetTuples env req us of Inl e \<Rightarrow> Inl e | Inr iter \<Rightarrow> defaultUserset f env req iter strategy)"
    if "strategy \<in> {'''', defaultResolver, rq_selected_strategy req}" for strategy
    using userset_read_evaluates [OF assms(1-4) us(2) rel _ assms(5) that] by (auto split: sum.splits)
  let ?tk = "rq_tuple_key req"
  consider (userset) "IsObjectRelation (tk_user ?tk)"
    | (recursive) w where "\<not> IsObjectRelation (tk_user ?tk)"
        "recursive_paths env (GetType (tk_object ?tk)) (tk_relation ?tk) (GetType (tk_user ?tk)) = Some w"
    | (split) "\<not> IsObjectRelation (tk_user ?tk)"
        "recursive_paths env (GetType (tk_object ?tk)) (tk_relation ?tk) (GetType (tk_user ?tk)) = None" by fastforce
  then show ?thesis
  proof cases
    case userset
    with whole [of "''''"] us(1) show ?thesis by (simp add: checkDirectUsersetTuples_def Let_def)
  next
    case (recursive w)
    then have "wp_Select w key strategies = defaultResolver" for key strategies
      using assms(6) by (auto simp: recursive_paths_def default_strategies_def split: option.splits if_splits)
    then have "?out = (case IteratorReadUsersetTuples env req us of Inl e \<Rightarrow> Inl e | Inr iter \<Rightarrow> defaultUserset f env req iter defaultResolver)"
      using recursive us(1) assms(3)
      by (auto simp: checkDirectUsersetTuples_def recursive_userset_def query_request_def Let_def defaultResolver_def
          recursiveResolver_def split: sum.splits)
    with whole [of defaultResolver] show ?thesis by simp
  next
    case split
    with us(1) split_usersets_evaluate [OF assms(1-6) _ rel] show ?thesis
      by (cases "weighted_resolvers f env req us") (auto simp: checkDirectUsersetTuples_def Let_def)
  qed
qed

end


context relationship_store
begin

lemma direct_targets_restricted:
  assumes "model_ready (ce_typesys env)" and "invar s st" and "TypeSystem.GetRelation (ce_typesys env) (GetType ob) r = Inr rel"
    and "DirectlyRelatedUsersets (ce_typesys env) (GetType ob) r = Inr us"
  shows "direct_targets (in_force env ctx (contents s st)) ob r = restricted_targets (in_force env ctx (contents s st)) ob r us"
proof -
  have us: "us = filter (\<lambda>ref. rr_relation ref \<noteq> '''') (rel_related rel)"
    using assms(3,4) by (simp add: DirectlyRelatedUsersets_def GetDirectlyRelatedUserTypes_def)
  have "snd (SplitObjectRelation w) \<noteq> '''' \<longleftrightarrow> allowed_user us w" if F: "in_force env ctx (contents s st) ob r w" for w
  proof -
    obtain sb rr where sb: "subject_of w = Some sb" "rr \<in> set (rel_related rel)" "admits rr sb"
      using in_force_typed [OF assms(1) F] subjects [OF assms(2)] assms(3) by auto
    have "(\<exists>a \<in> set us. admits a sb) \<longleftrightarrow> (\<exists>t i r. sb = Members t i r)"
      using sb(2,3) subject_split(4) [OF sb(1)]
      by (cases sb) (auto simp: us rr_is_wildcard_def rr_relation_def subject_relation_def)
    with sb(1) subject_split(2,4) [OF sb(1)] show ?thesis by (simp add: allowed_user_def)
  qed
  then show ?thesis unfolding direct_targets_def restricted_targets_def by fastforce
qed

lemma checkDirect_evaluates:
  assumes "invar s st" and "ce_reader env = reader s" and "query_request st ctx u req" and "model_ready (ce_typesys env)"
    and "fair_arrival env" and "default_strategies env"
    and rel: "TypeSystem.GetRelation (ce_typesys env) (GetType (tk_object (rq_tuple_key req))) (tk_relation (rq_tuple_key req)) = Inr rel"
  shows "evaluates f req (direct_fact (in_force env ctx (contents s st)) u (tk_object (rq_tuple_key req)) (tk_relation (rq_tuple_key req)))
      (direct_targets (in_force env ctx (contents s st)) (tk_object (rq_tuple_key req)) (tk_relation (rq_tuple_key req)))
      (checkDirect f env req)"
proof -
  let ?tk = "rq_tuple_key req" and ?t = "ce_typesys env" and ?F = "in_force env ctx (contents s st)"
  let ?ob = "tk_object ?tk" and ?r = "tk_relation ?tk"
  have r: "?r \<noteq> ''''" using model_ready_relation(1) [OF assms(4) rel] by (auto simp: IsValidRelation_iff)
  have u: "tk_user ?tk = u" using assms(3) by (simp add: query_request_def)
  obtain us where us: "DirectlyRelatedUsersets ?t (GetType ?ob) ?r = Inr us"
    using rel by (simp add: DirectlyRelatedUsersets_def GetDirectlyRelatedUserTypes_def)
  have K: "\<forall>k \<in> contents s st. subject_of (tk_user k) \<noteq> None" using subjects [OF assms(1)] by blast
  have su: "subject_of (tk_user ?tk) \<noteq> None" using assms(3) by (auto simp: query_request_def)
  note direct = direct_guard [OF assms(4) K, of ctx ?tk, unfolded u]
  note public = public_guard [OF assms(4) K su, of ctx, unfolded u]
  let ?funcs = "(if shouldCheckDirectTuple ?t ?tk then [checkDirectUserTuple env req] else [])
    @ (if shouldCheckPublicAssignable ?t ?tk then [checkPublicAssignable env req] else [])
    @ (if us \<noteq> [] then [checkDirectUsersetTuples f env req] else [])"
  let ?BWs = "(if shouldCheckDirectTuple ?t ?tk then [(?F ?ob ?r u, {})] else [])
    @ (if shouldCheckPublicAssignable ?t ?tk then [(?F ?ob ?r (TypedPublicWildcard (GetType u)), {})] else [])
    @ (if us \<noteq> [] then [(False, restricted_targets ?F ?ob ?r us)] else [])"
  have "list_all2 (\<lambda>x b. evaluates f req (fst b) (snd b) x) ?funcs ?BWs"
    using user_tuple_evaluates [OF assms(1-3) rel assms(4)] public_tuple_evaluates [OF assms(1-3) r]
      direct_usersets_evaluate [OF assms(1-3) r assms(5,6) us] by (auto intro!: list_all2_appendI)
  from evaluates_union [OF this fair_arrival_set [OF assms(5)]]
  have "evaluates f req (\<exists>b \<in> set ?BWs. fst b) (\<Union>b \<in> set ?BWs. snd b) (checkDirect f env req)"
    using us unfolding checkDirect_def Let_def by simp
  moreover have "(\<exists>b \<in> set ?BWs. fst b) \<longleftrightarrow> direct_fact ?F u ?ob ?r"
    using direct public by (auto simp: direct_fact_def shouldCheckPublicAssignable_def u)
  moreover have "(\<Union>b \<in> set ?BWs. snd b) = direct_targets ?F ?ob ?r"
    unfolding direct_targets_restricted [OF assms(4,1) rel us] by (auto simp: restricted_targets_def allowed_user_def)
  ultimately show ?thesis by (rule evaluates_weaken)
qed

end


context relationship_store
begin

lemma checkTTU_default:
  assumes "default_strategies env" and "query_request st ctx u req"
  shows "\<exists>strategy \<in> {'''', defaultResolver}. checkTTU f env req ts cr =
    (case rd_Read (ce_reader env) st \<lparr>rf_object = tk_object (rq_tuple_key req), rf_relation = ts, rf_user = '''', rf_conditions = []\<rparr> of
       Inl e \<Rightarrow> Inl (DatastoreError e)
     | Inr tuples \<Rightarrow> defaultTTU f env req cr (filtered_keys env ctx tuples) strategy)"
proof -
  have req: "rq_store_id req = st" "rq_context req = ctx" "rq_selected_strategy req \<in> {'''', defaultResolver}"
    using assms(2) by (auto simp: query_request_def)
  show ?thesis
  proof (cases "ce_weighted env")
    case None
    with req show ?thesis by (intro bexI [of _ "''''"]) (simp_all add: checkTTU_def Let_def split: sum.splits)
  next
    case (Some w)
    with assms(1) have "wp_Select w key strategies = defaultResolver" for key strategies by (simp add: default_strategies_def)
    with Some req show ?thesis
      by (auto simp: checkTTU_def ttu_resolver_def Let_def defaultResolver_def weightTwoResolver_def recursiveResolver_def split: sum.splits)
  qed
qed

lemma checkTTU_evaluates:
  assumes "invar s st" and "ce_reader env = reader s" and "query_request st ctx u req"
    and "fair_arrival env" and "default_strategies env" and "ts \<noteq> ''''"
  shows "evaluates f req False (tupleset_targets (ce_typesys env) (in_force env ctx (contents s st)) (tk_object (rq_tuple_key req)) ts cr)
    (checkTTU f env req ts cr)"
proof -
  let ?ob = "tk_object (rq_tuple_key req)"
  obtain strategy where strategy: "strategy \<in> {'''', defaultResolver}" "checkTTU f env req ts cr =
    (case rd_Read (reader s) st \<lparr>rf_object = ?ob, rf_relation = ts, rf_user = '''', rf_conditions = []\<rparr> of
       Inl e \<Rightarrow> Inl (DatastoreError e)
     | Inr tuples \<Rightarrow> defaultTTU f env req cr (filtered_keys env ctx tuples) strategy)"
    using checkTTU_default [OF assms(5,3), of f ts cr] unfolding assms(2) by blast
  have "IsValidObject ?ob" using assms(3) by (simp add: query_request_def)
  have "evaluates f req False (tupleset_targets (ce_typesys env) (in_force env ctx (contents s st)) ?ob ts cr)
      (defaultTTU f env req cr (filtered_keys env ctx tuples) strategy)"
    if tuples: "rd_Read (reader s) st \<lparr>rf_object = ?ob, rf_relation = ts, rf_user = '''', rf_conditions = []\<rparr> = Inr tuples" for tuples
  proof -
    have "ttu_targets (ce_typesys env) cr (fst (filtered_keys env ctx tuples))
        = tupleset_targets (ce_typesys env) (in_force env ctx (contents s st)) ?ob ts cr"
      unfolding ttu_targets_def tupleset_targets_def filtered_keys_passing set_passing_keys in_force_def tkey_of_def
        read_object [OF assms(1) \<open>IsValidObject ?ob\<close> assms(6) tuples] by auto
    with defaultTTU_evaluates [OF assms(4), of strategy req f cr "filtered_keys env ctx tuples"] strategy(1) show ?thesis by auto
  qed
  with strategy(2) show ?thesis by (auto split: sum.splits)
qed

end


section \<open>Who is granted and who is denied\<close>

text \<open>
  \<open>model_path\<close>: the paths of the model's graph, which has an edge to a relation from each type
  restriction and from each relation its rewrite refers to.  \<open>connected\<close>: the user's type, its wildcard
  or its userset has a path to the relation.
\<close>

definition restriction_label :: "relation_reference \<Rightarrow> string" where
  "restriction_label rr =
     (if rr_is_wildcard rr then TypedPublicWildcard (rr_type rr)
      else if rr_relation rr \<noteq> '''' then ToObjectRelationString (rr_type rr) (rr_relation rr) else rr_type rr)"

inductive model_path :: "type_system \<Rightarrow> string \<Rightarrow> string \<Rightarrow> string \<Rightarrow> bool"
  and rewrite_path :: "type_system \<Rightarrow> string \<Rightarrow> string \<Rightarrow> string \<Rightarrow> userset \<Rightarrow> bool"
  for t l
where
  path_refl: "l = ToObjectRelationString ot r \<Longrightarrow> model_path t l ot r"
| path_relation: "TypeSystem.GetRelation t ot r = Inr rel \<Longrightarrow> rewrite_path t l ot r (rel_rewrite rel) \<Longrightarrow> model_path t l ot r"
| path_direct: "TypeSystem.GetRelation t ot r = Inr rel \<Longrightarrow> rr \<in> set (rel_related rel) \<Longrightarrow> restriction_label rr = l
    \<Longrightarrow> rewrite_path t l ot r This"
| path_userset: "TypeSystem.GetRelation t ot r = Inr rel \<Longrightarrow> rr \<in> set (rel_related rel) \<Longrightarrow> rr_relation rr \<noteq> ''''
    \<Longrightarrow> model_path t l (rr_type rr) (rr_relation rr) \<Longrightarrow> rewrite_path t l ot r This"
| path_computed: "model_path t l ot r' \<Longrightarrow> rewrite_path t l ot r (ComputedUserset r')"
| path_ttu: "TypeSystem.GetRelation t ot ts = Inr rel \<Longrightarrow> rr \<in> set (rel_related rel) \<Longrightarrow> model_path t l (rr_type rr) cr
    \<Longrightarrow> rewrite_path t l ot r (TupleToUserset ts cr)"
| path_union: "c \<in> set cs \<Longrightarrow> rewrite_path t l ot r c \<Longrightarrow> rewrite_path t l ot r (Union cs)"
| path_intersection: "c \<in> set cs \<Longrightarrow> rewrite_path t l ot r c \<Longrightarrow> rewrite_path t l ot r (Intersection cs)"
| path_base: "rewrite_path t l ot r b \<Longrightarrow> rewrite_path t l ot r (Difference b s)"

definition user_label :: "string \<Rightarrow> string" where
  "user_label u = (if Tuple.GetRelation u \<noteq> '''' then ToObjectRelationString (GetType u) (Tuple.GetRelation u) else GetType u)"

definition connected :: "type_system \<Rightarrow> string \<Rightarrow> string \<Rightarrow> string \<Rightarrow> bool" where
  "connected t u ot r \<longleftrightarrow> model_path t (user_label u) ot r
     \<or> Tuple.GetRelation u = '''' \<and> model_path t (TypedPublicWildcard (GetType u)) ot r"

text \<open>
  \<open>F\<close> are the tuples in force and \<open>u\<close> the user.  Being denied is not the absence of a derivation: it
  has to be derived, so that a relation that depends on itself through an exclusion is neither granted
  nor denied.
\<close>

inductive granted :: "type_system \<Rightarrow> (string \<Rightarrow> string \<Rightarrow> string \<Rightarrow> bool) \<Rightarrow> string \<Rightarrow> string \<Rightarrow> string \<Rightarrow> bool"
  and granted_by :: "type_system \<Rightarrow> (string \<Rightarrow> string \<Rightarrow> string \<Rightarrow> bool) \<Rightarrow> string \<Rightarrow> string \<Rightarrow> string \<Rightarrow> userset \<Rightarrow> bool"
  and denied :: "type_system \<Rightarrow> (string \<Rightarrow> string \<Rightarrow> string \<Rightarrow> bool) \<Rightarrow> string \<Rightarrow> string \<Rightarrow> string \<Rightarrow> bool"
  and denied_by :: "type_system \<Rightarrow> (string \<Rightarrow> string \<Rightarrow> string \<Rightarrow> bool) \<Rightarrow> string \<Rightarrow> string \<Rightarrow> string \<Rightarrow> userset \<Rightarrow> bool"
  for t F u
where
  granted_self: "SplitObjectRelation u = (ob, r) \<Longrightarrow> r \<noteq> '''' \<Longrightarrow> granted t F u ob r"
| granted_relation: "TypeSystem.GetRelation t (GetType ob) r = Inr rel \<Longrightarrow> granted_by t F u ob r (rel_rewrite rel) \<Longrightarrow> granted t F u ob r"
| granted_direct: "F ob r u \<Longrightarrow> granted_by t F u ob r This"
| granted_public: "\<not> IsObjectRelation u \<Longrightarrow> F ob r (TypedPublicWildcard (GetType u)) \<Longrightarrow> granted_by t F u ob r This"
| granted_userset: "F ob r w \<Longrightarrow> SplitObjectRelation w = (ob', r') \<Longrightarrow> r' \<noteq> '''' \<Longrightarrow> granted t F u ob' r' \<Longrightarrow> granted_by t F u ob r This"
| granted_computed: "granted t F u ob r' \<Longrightarrow> granted_by t F u ob r (ComputedUserset r')"
| granted_ttu: "F ob ts w \<Longrightarrow> TypeSystem.GetRelation t (GetType (fst (SplitObjectRelation w))) cr
      \<noteq> Inl (RelationUndefinedError (GetType (fst (SplitObjectRelation w))) cr) \<Longrightarrow> granted t F u (fst (SplitObjectRelation w)) cr
    \<Longrightarrow> granted_by t F u ob r (TupleToUserset ts cr)"
| granted_union: "c \<in> set cs \<Longrightarrow> granted_by t F u ob r c \<Longrightarrow> granted_by t F u ob r (Union cs)"
| granted_intersection: "cs \<noteq> [] \<Longrightarrow> \<forall>c. c \<in> set cs \<longrightarrow> granted_by t F u ob r c \<Longrightarrow> granted_by t F u ob r (Intersection cs)"
| granted_difference: "granted_by t F u ob r b \<Longrightarrow> denied_by t F u ob r s \<Longrightarrow> granted_by t F u ob r (Difference b s)"
| denied_unconnected: "SplitObjectRelation u \<noteq> (ob, r) \<Longrightarrow> \<not> connected t u (GetType ob) r \<Longrightarrow> denied t F u ob r"
| denied_relation: "SplitObjectRelation u \<noteq> (ob, r) \<Longrightarrow> TypeSystem.GetRelation t (GetType ob) r = Inr rel
    \<Longrightarrow> denied_by t F u ob r (rel_rewrite rel) \<Longrightarrow> denied t F u ob r"
| denied_this: "\<not> F ob r u \<Longrightarrow> IsObjectRelation u \<or> \<not> F ob r (TypedPublicWildcard (GetType u))
    \<Longrightarrow> \<forall>w ob' r'. F ob r w \<longrightarrow> SplitObjectRelation w = (ob', r') \<longrightarrow> r' \<noteq> '''' \<longrightarrow> denied t F u ob' r'
    \<Longrightarrow> denied_by t F u ob r This"
| denied_computed: "denied t F u ob r' \<Longrightarrow> denied_by t F u ob r (ComputedUserset r')"
| denied_ttu: "\<forall>w. F ob ts w \<longrightarrow> TypeSystem.GetRelation t (GetType (fst (SplitObjectRelation w))) cr
      = Inl (RelationUndefinedError (GetType (fst (SplitObjectRelation w))) cr) \<or> denied t F u (fst (SplitObjectRelation w)) cr
    \<Longrightarrow> denied_by t F u ob r (TupleToUserset ts cr)"
| denied_union: "\<forall>c. c \<in> set cs \<longrightarrow> denied_by t F u ob r c \<Longrightarrow> denied_by t F u ob r (Union cs)"
| denied_intersection: "c \<in> set cs \<Longrightarrow> denied_by t F u ob r c \<Longrightarrow> denied_by t F u ob r (Intersection cs)"
| denied_base: "denied_by t F u ob r b \<Longrightarrow> denied_by t F u ob r (Difference b s)"
| denied_subtract: "granted_by t F u ob r s \<Longrightarrow> denied_by t F u ob r (Difference b s)"


text \<open>Tuples in force are well typed: the relation is defined and one of its restrictions admits the user.\<close>

definition typed_facts :: "type_system \<Rightarrow> (string \<Rightarrow> string \<Rightarrow> string \<Rightarrow> bool) \<Rightarrow> bool" where
  "typed_facts t F \<longleftrightarrow> (\<forall>ob r w. F ob r w \<longrightarrow> (\<exists>rel s rr. TypeSystem.GetRelation t (GetType ob) r = Inr rel \<and> subject_of w = Some s
     \<and> rr \<in> set (rel_related rel) \<and> admits rr s))"

lemma typed_factsD:
  "typed_facts t F \<Longrightarrow> F ob r w \<Longrightarrow> \<exists>rel s rr. TypeSystem.GetRelation t (GetType ob) r = Inr rel \<and> subject_of w = Some s
     \<and> rr \<in> set (rel_related rel) \<and> admits rr s"
  by (simp add: typed_facts_def)

lemma user_restriction_label:
  assumes "subject_of u = Some s" and "admits rr s"
  shows "restriction_label rr = (if \<exists>ut. s = Public ut then TypedPublicWildcard (GetType u) else user_label u)"
  using assms(2) subject_user(5,6) [OF assms(1)] subject_split(4) [OF assms(1)]
  by (cases s) (auto simp: restriction_label_def user_label_def rr_is_wildcard_def rr_relation_def subject_relation_def)

definition rewrite_connected :: "type_system \<Rightarrow> string \<Rightarrow> string \<Rightarrow> string \<Rightarrow> userset \<Rightarrow> bool" where
  "rewrite_connected t u ot r rw \<longleftrightarrow> rewrite_path t (user_label u) ot r rw
     \<or> Tuple.GetRelation u = '''' \<and> rewrite_path t (TypedPublicWildcard (GetType u)) ot r rw"

lemma granted_connected:
  assumes "typed_facts t F" and "subject_of u = Some su"
  shows "granted t F u ob r \<Longrightarrow> connected t u (GetType ob) r"
    and "granted_by t F u ob r rw \<Longrightarrow> rewrite_connected t u (GetType ob) r rw"
    and "denied t F u ob r \<Longrightarrow> True" and "denied_by t F u ob r rw \<Longrightarrow> True"
proof (induction rule: granted_granted_by_denied_denied_by.inducts)
  case (granted_self ob r)
  obtain obj where "SplitObjectRelation u = (obj, subject_relation su)" "GetType obj = subject_type su"
    using subject_user(7) [OF assms(2)] by blast
  with granted_self subject_user(5,6) [OF assms(2)] show ?case by (simp add: connected_def user_label_def path_refl)
next
  case (granted_relation ob r rel)
  then show ?case unfolding connected_def rewrite_connected_def by (blast intro: path_relation)
next
  case (granted_direct ob r)
  then obtain rel rr where "TypeSystem.GetRelation t (GetType ob) r = Inr rel" "rr \<in> set (rel_related rel)" "admits rr su"
    using typed_factsD [OF assms(1) granted_direct] assms(2) by auto
  then have path: "rewrite_path t (restriction_label rr) (GetType ob) r This" by (blast intro: path_direct)
  have "Tuple.GetRelation u = ''''" if "\<exists>ut. su = Public ut" using that subject_user(6) [OF assms(2)] by (auto simp: subject_relation_def)
  with path user_restriction_label [OF assms(2) \<open>admits rr su\<close>] show ?case by (auto simp: rewrite_connected_def split: if_splits)
next
  case (granted_public ob r)
  have "subject_of (TypedPublicWildcard (GetType u)) = Some (Public (GetType u))"
    using subject_public subject_type_plain [OF assms(2)] subject_user(5) [OF assms(2)] by simp
  then obtain rel rr where "TypeSystem.GetRelation t (GetType ob) r = Inr rel" "rr \<in> set (rel_related rel)" "admits rr (Public (GetType u))"
    using typed_factsD [OF assms(1) granted_public(2)] by auto
  then have "rewrite_path t (TypedPublicWildcard (GetType u)) (GetType ob) r This"
    by (auto intro!: path_direct simp: restriction_label_def)
  moreover have "Tuple.GetRelation u = ''''"
    using granted_public(1) subject_user(2,6) [OF assms(2)] subject_split(4) [OF assms(2)] by auto
  ultimately show ?case by (simp add: rewrite_connected_def)
next
  case (granted_userset ob r w ob' r')
  obtain rel s rr where typed: "TypeSystem.GetRelation t (GetType ob) r = Inr rel" "subject_of w = Some s" "rr \<in> set (rel_related rel)" "admits rr s"
    using typed_factsD [OF assms(1) granted_userset(1)] by blast
  have "SplitObjectRelation w = (ob', r')" "r' \<noteq> ''''" using granted_userset by simp_all
  with typed(4) subject_split(2-4) [OF typed(2)] have "rr_relation rr = r'" "rr_type rr = GetType ob'"
    by (auto simp: subject_relation_def)
  with granted_userset typed show ?case unfolding connected_def rewrite_connected_def by (metis path_userset)
next
  case (granted_ttu ob ts w cr r)
  obtain rel s rr where typed: "TypeSystem.GetRelation t (GetType ob) ts = Inr rel" "subject_of w = Some s" "rr \<in> set (rel_related rel)" "admits rr s"
    using typed_factsD [OF assms(1) granted_ttu(1)] by blast
  then have "rr_type rr = GetType (fst (SplitObjectRelation w))" using subject_split(3) [OF typed(2)] by (cases s) auto
  with granted_ttu typed show ?case unfolding connected_def rewrite_connected_def by (metis path_ttu)
next
  case (granted_intersection cs ob r)
  then show ?case unfolding rewrite_connected_def by (metis hd_in_set path_intersection)
qed (auto simp: connected_def rewrite_connected_def intro: model_path_rewrite_path.intros)


inductive_cases granted_thisE: "granted_by t F u ob r This"
inductive_cases granted_computedE: "granted_by t F u ob r (ComputedUserset r')"
inductive_cases granted_ttuE: "granted_by t F u ob r (TupleToUserset ts cr)"
inductive_cases granted_unionE: "granted_by t F u ob r (Union cs)"
inductive_cases granted_intersectionE: "granted_by t F u ob r (Intersection cs)"
inductive_cases granted_differenceE: "granted_by t F u ob r (Difference b s)"
inductive_cases denied_thisE: "denied_by t F u ob r This"
inductive_cases denied_computedE: "denied_by t F u ob r (ComputedUserset r')"
inductive_cases denied_ttuE: "denied_by t F u ob r (TupleToUserset ts cr)"
inductive_cases denied_unionE: "denied_by t F u ob r (Union cs)"
inductive_cases denied_intersectionE: "denied_by t F u ob r (Intersection cs)"
inductive_cases denied_differenceE: "denied_by t F u ob r (Difference b s)"

lemmas decision_elims = granted_thisE granted_computedE granted_ttuE granted_unionE granted_intersectionE granted_differenceE
  denied_thisE denied_computedE denied_ttuE denied_unionE denied_intersectionE denied_differenceE

lemma granted_not_denied:
  assumes "typed_facts t F" and "subject_of u = Some su"
  shows "granted t F u ob r \<Longrightarrow> \<not> denied t F u ob r"
    and "granted_by t F u ob r rw \<Longrightarrow> \<not> denied_by t F u ob r rw"
    and "denied t F u ob r \<Longrightarrow> \<not> granted t F u ob r"
    and "denied_by t F u ob r rw \<Longrightarrow> \<not> granted_by t F u ob r rw"
proof (induction rule: granted_granted_by_denied_denied_by.inducts)
  case (granted_relation ob r rel)
  then have "connected t u (GetType ob) r"
    using granted_connected(1) [OF assms] granted_granted_by_denied_denied_by.granted_relation by blast
  with granted_relation show ?case by (auto elim: denied.cases)
next
  case (denied_unconnected ob r)
  then show ?case using granted_connected(1) [OF assms] by blast
next
  case (denied_relation ob r rel)
  then show ?case by (auto elim: granted.cases)
qed (auto elim: denied.cases elim!: decision_elims)


section \<open>Soundness of the answers\<close>

definition sound_answer :: "check_outcome \<Rightarrow> bool \<Rightarrow> bool \<Rightarrow> bool" where
  "sound_answer out g d \<longleftrightarrow> (\<forall>resp. out = Inr resp \<longrightarrow>
     (if cr_allowed resp then g \<and> \<not> cr_cycle_detected resp else cr_cycle_detected resp \<or> d))"

lemma sound_answer_Inl [simp]: "sound_answer (Inl e) g d"
  by (simp add: sound_answer_def)

lemma sound_answer_mono: "sound_answer out g d \<Longrightarrow> (g \<Longrightarrow> g') \<Longrightarrow> (d \<Longrightarrow> d') \<Longrightarrow> sound_answer out g' d'"
  by (auto simp: sound_answer_def split: if_splits)

lemma evaluates_sound:
  assumes "evaluates f req B W out"
    and "\<And>ob r q. (ob, r) \<in> W \<Longrightarrow> child_request req ob r q \<Longrightarrow> sound_answer (f q) (G ob r) (D ob r)"
    and "B \<Longrightarrow> g" and "\<And>ob r. (ob, r) \<in> W \<Longrightarrow> G ob r \<Longrightarrow> g"
    and "\<not> B \<Longrightarrow> (\<And>ob r. (ob, r) \<in> W \<Longrightarrow> D ob r) \<Longrightarrow> d"
  shows "sound_answer out g d"
  unfolding sound_answer_def
proof (intro allI impI)
  fix resp assume out: "out = Inr resp"
  show "if cr_allowed resp then g \<and> \<not> cr_cycle_detected resp else cr_cycle_detected resp \<or> d"
  proof (cases "cr_allowed resp")
    case True
    with assms(1) out consider "B" "\<not> cr_cycle_detected resp"
      | ob r q where "(ob, r) \<in> W" "child_request req ob r q" "f q = Inr resp" by (auto simp: evaluates_def)
    then show ?thesis using assms(2-4) True by cases (auto simp: sound_answer_def)
  next
    case False
    with assms(1) out have refused: "\<not> B" "\<And>ob r. (ob, r) \<in> W \<Longrightarrow> \<exists>q resp'. child_request req ob r q \<and> f q = Inr resp'
        \<and> \<not> cr_allowed resp' \<and> (cr_cycle_detected resp' \<longrightarrow> cr_cycle_detected resp)"
      by (fastforce simp: evaluates_def)+
    have "D ob r" if "(ob, r) \<in> W" "\<not> cr_cycle_detected resp" for ob r
      using refused(2) [OF that(1)] assms(2) [OF that(1)] that(2) by (fastforce simp: sound_answer_def)
    with refused(1) assms(5) False show ?thesis by auto
  qed
qed

lemma union_sound:
  assumes "\<And>c. c \<in> set cs \<Longrightarrow> sound_answer (h c) (G c) (D c)" and "set ys = h ` set cs"
  shows "sound_answer (union ys) (\<exists>c \<in> set cs. G c) (\<forall>c \<in> set cs. D c)"
  unfolding sound_answer_def
proof (intro allI impI)
  fix resp assume u: "union ys = Inr resp"
  show "if cr_allowed resp then (\<exists>c \<in> set cs. G c) \<and> \<not> cr_cycle_detected resp else cr_cycle_detected resp \<or> (\<forall>c \<in> set cs. D c)"
  proof (cases "cr_allowed resp")
    case True
    then obtain c where "c \<in> set cs" "h c = Inr resp" using union_loop_allowed u assms(2) unfolding union_def by fastforce
    with True assms(1) show ?thesis by (fastforce simp: sound_answer_def)
  next
    case False
    have "D c" if c: "c \<in> set cs" "\<not> cr_cycle_detected resp" for c
    proof -
      obtain resp' where "h c = Inr resp'" "\<not> cr_allowed resp'" "\<not> cr_cycle_detected resp'"
        using union_loop_refused [OF u [unfolded union_def] False] c assms(2) by blast
      with assms(1) [OF c(1)] show ?thesis by (simp add: sound_answer_def)
    qed
    with False show ?thesis by auto
  qed
qed

lemma intersection_sound:
  assumes "\<And>c. c \<in> set cs \<Longrightarrow> sound_answer (h c) (G c) (D c)" and "set ys = h ` set cs"
  shows "sound_answer (intersection ys) (\<forall>c \<in> set cs. G c) (\<exists>c \<in> set cs. D c)"
  unfolding sound_answer_def
proof (intro allI impI)
  fix resp assume "intersection ys = Inr resp"
  then have u: "intersection_loop ys None = Inr resp" by (simp add: intersection_def split: if_splits)
  show "if cr_allowed resp then (\<forall>c \<in> set cs. G c) \<and> \<not> cr_cycle_detected resp else cr_cycle_detected resp \<or> (\<exists>c \<in> set cs. D c)"
  proof (cases "cr_allowed resp")
    case True
    have "G c" if c: "c \<in> set cs" for c
    proof -
      obtain resp' where "h c = Inr resp'" "cr_allowed resp'"
        using intersection_loop_allowed [OF u True] c assms(2) by blast
      with assms(1) [OF c] show ?thesis by (simp add: sound_answer_def)
    qed
    with intersection_loop_allowed [OF u True] True show ?thesis by auto
  next
    case False
    obtain c resp' where "c \<in> set cs" "h c = Inr resp'" "cr_cycle_detected resp' \<or> \<not> cr_allowed resp'"
      "cr_cycle_detected resp' = cr_cycle_detected resp"
      using intersection_loop_refused [OF u False] assms(2) by auto
    with assms(1) [of c] False show ?thesis by (auto simp: sound_answer_def split: if_splits)
  qed
qed

lemma exclusion_sound:
  assumes "sound_answer base G D" and "sound_answer sub G' D'"
  shows "sound_answer (exclusion bf base sub) (G \<and> D') (D \<or> G')"
  unfolding sound_answer_def
proof (intro allI impI)
  fix resp assume "exclusion bf base sub = Inr resp"
  with assms exclusion_allowed [of bf base sub resp] exclusion_refused [of bf base sub resp]
  show "if cr_allowed resp then (G \<and> D') \<and> \<not> cr_cycle_detected resp else cr_cycle_detected resp \<or> D \<or> G'"
    by (auto simp: sound_answer_def)
qed


text \<open>
  \<open>graph_complete\<close>: the graph of the language library, a parameter, finds every path of the model.
  \<open>check_ready\<close> collects what the environment of a query has to satisfy.
\<close>

definition graph_complete :: "('env, 'ast, 'prg, 'act) check_env \<Rightarrow> bool" where
  "graph_complete env \<longleftrightarrow> (\<forall>l ot r. model_path (ce_typesys env) l ot r \<longrightarrow> ce_graph_path env l (ToObjectRelationString ot r) = Inr True)"

definition check_ready :: "('env, 'ast, 'prg, 'act) check_env \<Rightarrow> bool" where
  "check_ready env \<longleftrightarrow> model_ready (ce_typesys env) \<and> fair_arrival env \<and> default_strategies env \<and> graph_complete env"

lemma PathExists_connected:
  assumes "graph_complete env" and "subject_of u = Some s" and "PathExists (ce_graph_path env) u r ot = Inr False"
  shows "\<not> connected (ce_typesys env) u ot r"
proof -
  obtain i where parts: "ToUserParts u = (GetType u, i, Tuple.GetRelation u)"
    using subject_user(5-7) [OF assms(2)] by (auto simp: ToUserParts_def GetType_def split_def)
  with assms(3) have "ce_graph_path env (user_label u) (ToObjectRelationString ot r) \<noteq> Inr True"
    "Tuple.GetRelation u = '''' \<Longrightarrow> ce_graph_path env (TypedPublicWildcard (GetType u)) (ToObjectRelationString ot r) \<noteq> Inr True"
    by (auto simp: PathExists_def user_label_def Let_def split: if_splits sum.splits bool.splits)
  with assms(1) show ?thesis by (auto simp: connected_def graph_complete_def)
qed

lemma child_query:
  assumes "query_request st ctx u req" and "child_request req ob r q" and "IsValidObject ob" and "r \<noteq> ''''"
  shows "query_request st ctx u q" and "rq_tuple_key q = NewTupleKey ob r u"
  using assms by (auto simp: query_request_def child_request_def subrequest_def NewTupleKey_def)

context relationship_store
begin

lemma stored_facts_typed:
  assumes "model_ready (ce_typesys env)" and "invar s st"
  shows "typed_facts (ce_typesys env) (in_force env ctx (contents s st))"
  unfolding typed_facts_def using in_force_typed [OF assms(1)] subjects [OF assms(2)] by blast

lemma target_objects:
  assumes "model_ready (ce_typesys env)" and "invar s st" and "in_force env ctx (contents s st) ob r w"
  shows "IsValidObject (fst (SplitObjectRelation w))"
proof -
  obtain sb where "subject_of w = Some sb" using typed_factsD [OF stored_facts_typed [OF assms(1,2)] assms(3)] by blast
  then show ?thesis by (rule subject_split(1))
qed

lemma CheckRewrite_sound:
  assumes "invar s st" and "ce_reader env = reader s" and "query_request st ctx u req" and "check_ready env"
    and rel: "TypeSystem.GetRelation (ce_typesys env) (GetType (tk_object (rq_tuple_key req))) (tk_relation (rq_tuple_key req)) = Inr rel"
    and rec: "\<And>ob r q. child_request req ob r q \<Longrightarrow> IsValidObject ob \<Longrightarrow> r \<noteq> '''' \<Longrightarrow>
      sound_answer (f q) (granted (ce_typesys env) (in_force env ctx (contents s st)) u ob r)
        (denied (ce_typesys env) (in_force env ctx (contents s st)) u ob r)"
  shows "list_all (\<lambda>r. r \<noteq> '''') (rewrite_names rw) \<Longrightarrow> sound_answer (CheckRewrite f env req rw)
    (granted_by (ce_typesys env) (in_force env ctx (contents s st)) u (tk_object (rq_tuple_key req)) (tk_relation (rq_tuple_key req)) rw)
    (denied_by (ce_typesys env) (in_force env ctx (contents s st)) u (tk_object (rq_tuple_key req)) (tk_relation (rq_tuple_key req)) rw)"
proof (induction rw)
  let ?F = "in_force env ctx (contents s st)" and ?ob = "tk_object (rq_tuple_key req)" and ?r = "tk_relation (rq_tuple_key req)"
  note ready = assms(4) [unfolded check_ready_def]
  note object = target_objects [OF conjunct1 [OF ready] assms(1)]
  {
    case This
    have eval: "evaluates f req (direct_fact ?F u ?ob ?r) (direct_targets ?F ?ob ?r) (CheckRewrite f env req This)"
      using checkDirect_evaluates [OF assms(1-3) _ _ _ rel] ready by simp
    show ?case
    proof (rule evaluates_sound [OF eval])
      fix ob r q assume "(ob, r) \<in> direct_targets ?F ?ob ?r" "child_request req ob r q"
      then show "sound_answer (f q) (granted (ce_typesys env) ?F u ob r) (denied (ce_typesys env) ?F u ob r)"
        using rec object by (fastforce simp: direct_targets_def)
    qed (auto simp: direct_fact_def direct_targets_def intro: granted_direct granted_public granted_userset intro!: denied_this)
  next
    case (ComputedUserset r')
    have "child_request req ?ob r' (req\<lparr>rq_tuple_key := NewTupleKey ?ob r' (tk_user (rq_tuple_key req))\<rparr>)"
      by (auto simp: child_request_def subrequest_def)
    from rec [OF this] ComputedUserset assms(3) show ?case
      by (auto simp: checkComputedUserset_def query_request_def intro: granted_computed denied_computed elim!: sound_answer_mono)
  next
    case (TupleToUserset ts cr)
    then have eval: "evaluates f req False (tupleset_targets (ce_typesys env) ?F ?ob ts cr) (CheckRewrite f env req (TupleToUserset ts cr))"
      using checkTTU_evaluates [OF assms(1-3)] ready by simp
    show ?case
    proof (rule evaluates_sound [OF eval])
      fix ob r q assume "(ob, r) \<in> tupleset_targets (ce_typesys env) ?F ?ob ts cr" "child_request req ob r q"
      then show "sound_answer (f q) (granted (ce_typesys env) ?F u ob r) (denied (ce_typesys env) ?F u ob r)"
        using rec object TupleToUserset by (fastforce simp: tupleset_targets_def)
    qed (auto simp: tupleset_targets_def intro: granted_ttu denied_ttu)
  next
    case (Union cs)
    have set: "set (ce_arrival env req (AtRewrite (Union cs)) (map (CheckRewrite f env req) cs)) = CheckRewrite f env req ` set cs"
      using fair_arrival_set ready by fastforce
    have "sound_answer (CheckRewrite f env req c) (granted_by (ce_typesys env) ?F u ?ob ?r c) (denied_by (ce_typesys env) ?F u ?ob ?r c)"
      if "c \<in> set cs" for c using Union that by (fastforce simp: list_all_iff)
    from union_sound [OF this set] show ?case
      unfolding CheckRewrite.simps by (rule sound_answer_mono) (auto intro: granted_union denied_union)
  next
    case (Intersection cs)
    have set: "set (ce_arrival env req (AtRewrite (Intersection cs)) (map (CheckRewrite f env req) cs)) = CheckRewrite f env req ` set cs"
      using fair_arrival_set ready by fastforce
    have "sound_answer (CheckRewrite f env req c) (granted_by (ce_typesys env) ?F u ?ob ?r c) (denied_by (ce_typesys env) ?F u ?ob ?r c)"
      if "c \<in> set cs" for c using Intersection that by (fastforce simp: list_all_iff)
    then have both: "sound_answer (CheckRewrite f env req (Intersection cs)) (\<forall>c \<in> set cs. granted_by (ce_typesys env) ?F u ?ob ?r c)
        (\<exists>c \<in> set cs. denied_by (ce_typesys env) ?F u ?ob ?r c)"
      unfolding CheckRewrite.simps by (intro intersection_sound [OF _ set])
    show ?case
    proof (cases "cs = []")
      case True
      then show ?thesis using fair_arrival_length ready by (fastforce simp: intersection_def)
    next
      case False
      with both show ?thesis by (elim sound_answer_mono) (auto intro: granted_intersection denied_intersection)
    qed
  next
    case (Difference b s')
    then have "sound_answer (CheckRewrite f env req b) (granted_by (ce_typesys env) ?F u ?ob ?r b) (denied_by (ce_typesys env) ?F u ?ob ?r b)"
      "sound_answer (CheckRewrite f env req s') (granted_by (ce_typesys env) ?F u ?ob ?r s') (denied_by (ce_typesys env) ?F u ?ob ?r s')"
      by simp_all
    from exclusion_sound [OF this] show ?case
      unfolding CheckRewrite.simps by (rule sound_answer_mono) (auto intro: granted_difference denied_base denied_subtract)
  }
qed simp

end


text \<open>\<open>visiting\<close>: the request with its own key added to the visited paths, as the rewrite sees it.\<close>

abbreviation visiting :: "check_request \<Rightarrow> check_request" where
  "visiting req \<equiv> req\<lparr>rq_visited_paths := insert (TupleKeyToString (rq_tuple_key req)) (rq_visited_paths req)\<rparr>"

lemma ResolveCheck_cases:
  obtains (failure) e where "ResolveCheck env req = Inl e"
  | (cycle) "ResolveCheck env req = Inr \<lparr>cr_allowed = False, cr_cycle_detected = True\<rparr>" "TupleKeyToString (rq_tuple_key req) \<in> rq_visited_paths req"
  | (self) "ResolveCheck env req = Inr \<lparr>cr_allowed = True, cr_cycle_detected = False\<rparr>" "IsSelfDefining (rq_tuple_key req)"
  | (no_path) "ResolveCheck env req = Inr \<lparr>cr_allowed = False, cr_cycle_detected = False\<rparr>" "\<not> IsSelfDefining (rq_tuple_key req)"
      "PathExists (ce_graph_path env) (tk_user (rq_tuple_key req)) (tk_relation (rq_tuple_key req)) (GetType (tk_object (rq_tuple_key req))) = Inr False"
  | (rewrite) rel where "rq_depth req \<noteq> ce_max_resolution_depth env" "TupleKeyToString (rq_tuple_key req) \<notin> rq_visited_paths req"
      "\<not> IsSelfDefining (rq_tuple_key req)"
      "TypeSystem.GetRelation (ce_typesys env) (GetType (tk_object (rq_tuple_key req))) (tk_relation (rq_tuple_key req)) = Inr rel"
      "ResolveCheck env req = CheckRewrite (ResolveCheck env) env (visiting req) (rel_rewrite rel)"
proof -
  have type: "fst (SplitObject ob) = GetType ob" for ob by (simp add: GetType_def split_def)
  show thesis
    using ResolveCheck.simps [of env req] failure cycle self no_path rewrite
    unfolding resolve_body_def hasCycle_def Let_def type
    by (auto split: if_splits sum.splits)
qed

context relationship_store
begin

lemma ResolveCheck_sound_answer:
  assumes "invar s st"
  shows "query_request st ctx u req \<Longrightarrow> ce_reader env = reader s \<Longrightarrow> check_ready env \<Longrightarrow> sound_answer (ResolveCheck env req)
    (granted (ce_typesys env) (in_force env ctx (contents s st)) u (tk_object (rq_tuple_key req)) (tk_relation (rq_tuple_key req)))
    (denied (ce_typesys env) (in_force env ctx (contents s st)) u (tk_object (rq_tuple_key req)) (tk_relation (rq_tuple_key req)))"
proof (induction env req rule: ResolveCheck.induct)
  case (1 env req)
  let ?ot = "GetType (tk_object (rq_tuple_key req))" and ?r = "tk_relation (rq_tuple_key req)"
  have u: "tk_user (rq_tuple_key req) = u" "?r \<noteq> ''''" using 1(2) by (simp_all add: query_request_def)
  obtain su where su: "subject_of u = Some su" using 1(2) by (auto simp: query_request_def)
  have query: "query_request st ctx u (visiting req)" using 1(2) by (simp add: query_request_def)
  have split: "IsSelfDefining (rq_tuple_key req) \<longleftrightarrow> SplitObjectRelation u = (tk_object (rq_tuple_key req), ?r)"
    using u(1) by (auto simp: IsSelfDefining_def split: prod.splits)
  show ?case
  proof (cases rule: ResolveCheck_cases [of env req])
    case self
    with split u(2) show ?thesis by (simp add: sound_answer_def granted_self)
  next
    case no_path
    with PathExists_connected [of env u su ?r ?ot] su 1(4) u(1) have "\<not> connected (ce_typesys env) u ?ot ?r" by (simp add: check_ready_def)
    with no_path split show ?thesis by (auto simp: sound_answer_def intro: denied_unconnected)
  next
    case (rewrite rel)
    have names: "list_all (\<lambda>r. r \<noteq> '''') (rewrite_names (rel_rewrite rel))"
      using model_ready_relation(2) [OF _ rewrite(4)] 1(4) by (simp add: check_ready_def)
    have rec: "sound_answer (ResolveCheck env q) (granted (ce_typesys env) (in_force env ctx (contents s st)) u ob r)
        (denied (ce_typesys env) (in_force env ctx (contents s st)) u ob r)"
      if q: "child_request (visiting req) ob r q" "IsValidObject ob" "r \<noteq> ''''" for ob r q
    proof -
      have "check_smaller env q req"
        using subrequest_smaller [OF rewrite(1,2,4)] q(1) by (simp add: child_request_def)
      from 1(1) [OF this child_query(1) [OF query q] 1(3,4)] child_query(2) [OF query q] show ?thesis
        by (simp add: NewTupleKey_def)
    qed
    have "sound_answer (CheckRewrite (ResolveCheck env) env (visiting req) (rel_rewrite rel))
        (granted_by (ce_typesys env) (in_force env ctx (contents s st)) u (tk_object (rq_tuple_key req)) ?r (rel_rewrite rel))
        (denied_by (ce_typesys env) (in_force env ctx (contents s st)) u (tk_object (rq_tuple_key req)) ?r (rel_rewrite rel))"
      using CheckRewrite_sound [OF assms 1(3) query 1(4) _ _ names, of rel "ResolveCheck env"] rewrite(4) rec by simp
    with rewrite(3,4) split show ?thesis
      unfolding rewrite(5) by (auto elim!: sound_answer_mono intro: granted_relation denied_relation)
  qed (simp_all add: sound_answer_def)
qed

end


section \<open>Completeness without exclusions\<close>

text \<open>
  Without exclusions the granted pairs are the limit of the stages below.  A pair that is granted at
  some stage is granted at a first one, by pairs of earlier stages; none of these is on the path that
  led to the request, so that cutting cycles loses nothing.
\<close>

fun positive :: "userset \<Rightarrow> bool" where
  "positive (Union cs) = list_all positive cs"
| "positive (Intersection cs) = list_all positive cs"
| "positive (Difference b s) = False"
| "positive _ = True"

definition positive_model :: "type_system \<Rightarrow> bool" where
  "positive_model t \<longleftrightarrow> list_all (\<lambda>(ot, rs). list_all (\<lambda>(r, rel). positive (rel_rewrite rel)) rs) (ts_relations t)"

lemma positive_model_relation:
  assumes "positive_model t" and "TypeSystem.GetRelation t ot r = Inr rel"
  shows "positive (rel_rewrite rel)"
proof -
  obtain rs where "map_of (ts_relations t) ot = Some rs" "map_of rs r = Some rel"
    using assms(2) by (auto simp: TypeSystem.GetRelation_def GetRelations_def split: option.splits)
  then have "(ot, rs) \<in> set (ts_relations t)" "(r, rel) \<in> set rs" by (auto dest: map_of_SomeD)
  with assms(1) show ?thesis by (fastforce simp: positive_model_def list_all_iff)
qed

fun holds :: "type_system \<Rightarrow> (string \<Rightarrow> string \<Rightarrow> string \<Rightarrow> bool) \<Rightarrow> string \<Rightarrow> (string \<times> string) set \<Rightarrow> string \<Rightarrow> string \<Rightarrow> userset \<Rightarrow> bool" where
  "holds t F u G ob r This \<longleftrightarrow> direct_fact F u ob r \<or> direct_targets F ob r \<inter> G \<noteq> {}"
| "holds t F u G ob r (ComputedUserset r') \<longleftrightarrow> (ob, r') \<in> G"
| "holds t F u G ob r (TupleToUserset ts cr) \<longleftrightarrow> tupleset_targets t F ob ts cr \<inter> G \<noteq> {}"
| "holds t F u G ob r (Union cs) \<longleftrightarrow> list_ex (holds t F u G ob r) cs"
| "holds t F u G ob r (Intersection cs) \<longleftrightarrow> cs \<noteq> [] \<and> list_all (holds t F u G ob r) cs"
| "holds t F u G ob r _ \<longleftrightarrow> False"

primrec stage :: "type_system \<Rightarrow> (string \<Rightarrow> string \<Rightarrow> string \<Rightarrow> bool) \<Rightarrow> string \<Rightarrow> nat \<Rightarrow> (string \<times> string) set" where
  "stage t F u 0 = {}"
| "stage t F u (Suc n) = {(ob, r). SplitObjectRelation u = (ob, r) \<and> r \<noteq> ''''
     \<or> (\<exists>rel. TypeSystem.GetRelation t (GetType ob) r = Inr rel \<and> holds t F u (stage t F u n) ob r (rel_rewrite rel))}"

lemma holds_mono: "G \<subseteq> G' \<Longrightarrow> holds t F u G ob r rw \<Longrightarrow> holds t F u G' ob r rw"
  by (induction rw) (auto simp: list_ex_iff list_all_iff)

lemma stage_Suc: "stage t F u n \<subseteq> stage t F u (Suc n)"
proof (induction n)
  case (Suc n)
  then show ?case using holds_mono by (auto simp del: stage.simps(1))
qed simp

lemma stage_mono: "n \<le> m \<Longrightarrow> stage t F u n \<subseteq> stage t F u m"
  using lift_Suc_mono_le [of "stage t F u" n m] stage_Suc [of t F u] by blast

lemma granted_stage:
  assumes "positive_model t"
  shows "granted t F u ob r \<Longrightarrow> \<exists>n. (ob, r) \<in> stage t F u n"
    and "granted_by t F u ob r rw \<Longrightarrow> positive rw \<longrightarrow> (\<exists>n. holds t F u (stage t F u n) ob r rw)"
    and "denied t F u ob r \<Longrightarrow> True" and "denied_by t F u ob r rw \<Longrightarrow> True"
proof (induction rule: granted_granted_by_denied_denied_by.inducts)
  case (granted_self ob r)
  then have "(ob, r) \<in> stage t F u (Suc 0)" by simp
  then show ?case by blast
next
  case (granted_relation ob r rel)
  then obtain n where "holds t F u (stage t F u n) ob r (rel_rewrite rel)" using positive_model_relation [OF assms] by blast
  with granted_relation have "(ob, r) \<in> stage t F u (Suc n)" by auto
  then show ?case by blast
next
  case (granted_intersection cs ob r)
  show ?case
  proof
    assume "positive (Intersection cs)"
    with granted_intersection have "\<forall>c \<in> set cs. \<exists>n. holds t F u (stage t F u n) ob r c" by (auto simp: list_all_iff)
    then obtain n where n: "\<And>c. c \<in> set cs \<Longrightarrow> holds t F u (stage t F u (n c)) ob r c" by metis
    have "holds t F u (stage t F u (Max (n ` set cs))) ob r c" if "c \<in> set cs" for c
      by (rule holds_mono [OF stage_mono n]) (use that in auto)
    with granted_intersection(1) show "\<exists>n. holds t F u (stage t F u n) ob r (Intersection cs)"
      by (auto simp: list_all_iff)
  qed
qed (fastforce simp: direct_fact_def direct_targets_def tupleset_targets_def list_ex_iff list_all_iff)+


lemma holds_granted:
  "(\<And>ob r. (ob, r) \<in> G \<Longrightarrow> granted t F u ob r) \<Longrightarrow> holds t F u G ob r rw \<Longrightarrow> granted_by t F u ob r rw"
  by (induction rw)
    (auto simp: direct_fact_def direct_targets_def tupleset_targets_def list_ex_iff list_all_iff intro: granted_granted_by_denied_denied_by.intros)

lemma stage_granted: "(ob, r) \<in> stage t F u n \<Longrightarrow> granted t F u ob r"
proof (induction n arbitrary: ob r)
  case (Suc n)
  then show ?case using holds_granted [OF Suc.IH] by (auto intro: granted_self granted_relation)
qed simp

lemma first_stage: "p \<in> stage t F u n \<Longrightarrow> \<exists>k < n. p \<in> stage t F u (Suc k) \<and> p \<notin> stage t F u k"
  by (induction n) (auto simp del: stage.simps(2) intro: less_SucI)

definition refused :: "check_outcome \<Rightarrow> bool" where
  "refused out \<longleftrightarrow> (\<exists>resp. out = Inr resp \<and> \<not> cr_allowed resp)"

lemma evaluates_complete:
  "evaluates f req B W out \<Longrightarrow> (\<And>ob r q. (ob, r) \<in> W \<Longrightarrow> (ob, r) \<in> G \<Longrightarrow> child_request req ob r q \<Longrightarrow> \<not> refused (f q)) \<Longrightarrow>
   B \<or> W \<inter> G \<noteq> {} \<Longrightarrow> \<not> refused out"
  unfolding evaluates_def refused_def by fastforce

lemma union_refused: "refused (union ys) \<Longrightarrow> y \<in> set ys \<Longrightarrow> refused y"
  unfolding refused_def union_def using union_loop_refused by blast

lemma intersection_refused:
  assumes "refused (intersection ys)"
    and "\<And>y resp. y \<in> set ys \<Longrightarrow> y = Inr resp \<Longrightarrow> cr_allowed resp \<Longrightarrow> \<not> cr_cycle_detected resp"
  shows "\<exists>y \<in> set ys. refused y"
proof -
  obtain resp where "intersection_loop ys None = Inr resp" "\<not> cr_allowed resp"
    using assms(1) by (auto simp: refused_def intersection_def split: if_splits)
  from intersection_loop_refused [OF this] assms(2) show ?thesis unfolding refused_def by blast
qed

lemma visited_key_inj:
  assumes "CHR ''#'' \<notin> set ob" and "CHR ''#'' \<notin> set ob'"
  shows "TupleKeyToString (NewTupleKey ob r u) = TupleKeyToString (NewTupleKey ob' r' u) \<longleftrightarrow> ob = ob' \<and> r = r'"
  using assms split_at_unique [of ob "CHR ''#''" "r @ ''@'' @ u" ob' "r' @ ''@'' @ u"]
  by (auto simp: TupleKeyToString_def NewTupleKey_def)

context relationship_store
begin

lemma CheckRewrite_complete:
  assumes "invar s st" and "ce_reader env = reader s" and "query_request st ctx u req" and "check_ready env"
    and rel: "TypeSystem.GetRelation (ce_typesys env) (GetType (tk_object (rq_tuple_key req))) (tk_relation (rq_tuple_key req)) = Inr rel"
    and rec: "\<And>ob r q. (ob, r) \<in> G \<Longrightarrow> child_request req ob r q \<Longrightarrow> IsValidObject ob \<Longrightarrow> r \<noteq> '''' \<Longrightarrow> \<not> refused (f q)"
    and nocycle: "\<And>rw resp. list_all (\<lambda>r. r \<noteq> '''') (rewrite_names rw) \<Longrightarrow> CheckRewrite f env req rw = Inr resp \<Longrightarrow> cr_allowed resp \<Longrightarrow> \<not> cr_cycle_detected resp"
  shows "list_all (\<lambda>r. r \<noteq> '''') (rewrite_names rw) \<Longrightarrow>
    holds (ce_typesys env) (in_force env ctx (contents s st)) u G (tk_object (rq_tuple_key req)) (tk_relation (rq_tuple_key req)) rw \<Longrightarrow>
    \<not> refused (CheckRewrite f env req rw)"
proof (induction rw)
  let ?F = "in_force env ctx (contents s st)" and ?ob = "tk_object (rq_tuple_key req)" and ?r = "tk_relation (rq_tuple_key req)"
  note ready = assms(4) [unfolded check_ready_def]
  note object = target_objects [OF conjunct1 [OF ready] assms(1)]
  {
    case This
    have "evaluates f req (direct_fact ?F u ?ob ?r) (direct_targets ?F ?ob ?r) (CheckRewrite f env req This)"
      using checkDirect_evaluates [OF assms(1-3) _ _ _ rel] ready by simp
    then show ?case
    proof (rule evaluates_complete)
      fix ob r q assume q: "(ob, r) \<in> direct_targets ?F ?ob ?r" "(ob, r) \<in> G" "child_request req ob r q"
      with object have "IsValidObject ob" "r \<noteq> ''''" by (fastforce simp: direct_targets_def)+
      with rec [OF q(2,3)] show "\<not> refused (f q)" by simp
    qed (use This in simp)
  next
    case (ComputedUserset r')
    have "child_request req ?ob r' (req\<lparr>rq_tuple_key := NewTupleKey ?ob r' (tk_user (rq_tuple_key req))\<rparr>)"
      by (auto simp: child_request_def subrequest_def)
    from rec [OF _ this] ComputedUserset assms(3) show ?case by (simp add: checkComputedUserset_def query_request_def)
  next
    case (TupleToUserset ts cr)
    then have "evaluates f req False (tupleset_targets (ce_typesys env) ?F ?ob ts cr) (CheckRewrite f env req (TupleToUserset ts cr))"
      using checkTTU_evaluates [OF assms(1-3)] ready by simp
    then show ?case
    proof (rule evaluates_complete)
      fix ob r q assume q: "(ob, r) \<in> tupleset_targets (ce_typesys env) ?F ?ob ts cr" "(ob, r) \<in> G" "child_request req ob r q"
      with object TupleToUserset have "IsValidObject ob" "r \<noteq> ''''" by (fastforce simp: tupleset_targets_def)+
      with rec [OF q(2,3)] show "\<not> refused (f q)" by simp
    qed (use TupleToUserset in simp)
  next
    case (Union cs)
    then obtain c where c: "c \<in> set cs" "\<not> refused (CheckRewrite f env req c)" by (auto simp: list_ex_iff list_all_iff)
    then have "CheckRewrite f env req c \<in> set (ce_arrival env req (AtRewrite (Union cs)) (map (CheckRewrite f env req) cs))"
      using fair_arrival_set ready by fastforce
    with c(2) union_refused show ?case by auto
  next
    case (Intersection cs)
    have set: "set (ce_arrival env req (AtRewrite (Intersection cs)) (map (CheckRewrite f env req) cs)) = CheckRewrite f env req ` set cs"
      using fair_arrival_set ready by fastforce
    show ?case
    proof
      assume "refused (CheckRewrite f env req (Intersection cs))"
      then have "\<exists>c \<in> set cs. refused (CheckRewrite f env req c)"
        using intersection_refused [of "ce_arrival env req (AtRewrite (Intersection cs)) (map (CheckRewrite f env req) cs)"] nocycle Intersection.prems
        unfolding set by (fastforce simp: list_all_iff)
      with Intersection show False by (auto simp: list_all_iff)
    qed
  }
qed simp_all

end


context relationship_store
begin

lemma ResolveCheck_no_cycle:
  assumes "invar s st" and "ce_reader env = reader s" and "query_request st ctx u req" and "check_ready env"
    and rel: "TypeSystem.GetRelation (ce_typesys env) (GetType (tk_object (rq_tuple_key req))) (tk_relation (rq_tuple_key req)) = Inr rel"
    and "list_all (\<lambda>r. r \<noteq> '''') (rewrite_names rw)" and "CheckRewrite (ResolveCheck env) env req rw = Inr resp" and "cr_allowed resp"
  shows "\<not> cr_cycle_detected resp"
proof -
  have "sound_answer (ResolveCheck env q) (granted (ce_typesys env) (in_force env ctx (contents s st)) u ob r)
      (denied (ce_typesys env) (in_force env ctx (contents s st)) u ob r)"
    if "child_request req ob r q" "IsValidObject ob" "r \<noteq> ''''" for ob r q
    using ResolveCheck_sound_answer [OF assms(1) child_query(1) [OF assms(3) that] assms(2,4)] child_query(2) [OF assms(3) that]
    by (simp add: NewTupleKey_def)
  from CheckRewrite_sound [OF assms(1-5) this assms(6)] assms(7,8) show ?thesis by (auto simp: sound_answer_def)
qed

lemma ResolveCheck_complete:
  assumes "invar s st" and "ce_reader env = reader s" and "check_ready env"
  shows "query_request st ctx u req \<Longrightarrow>
    (tk_object (rq_tuple_key req), tk_relation (rq_tuple_key req)) \<in> stage (ce_typesys env) (in_force env ctx (contents s st)) u n \<Longrightarrow>
    (\<And>ob r. IsValidObject ob \<Longrightarrow> TupleKeyToString (NewTupleKey ob r u) \<in> rq_visited_paths req \<Longrightarrow>
       (ob, r) \<notin> stage (ce_typesys env) (in_force env ctx (contents s st)) u n) \<Longrightarrow>
    \<not> refused (ResolveCheck env req)"
proof (induction n arbitrary: req rule: less_induct)
  case (less n)
  let ?F = "in_force env ctx (contents s st)" and ?tk = "rq_tuple_key req"
  let ?S = "stage (ce_typesys env) ?F u"
  have query: "query_request st ctx u (visiting req)" using less.prems(1) by (simp add: query_request_def)
  have valid: "IsValidObject (tk_object ?tk)" and u: "tk_user ?tk = u" and su: "subject_of u \<noteq> None"
    using less.prems(1) by (simp_all add: query_request_def)
  have key: "TupleKeyToString ?tk = TupleKeyToString (NewTupleKey (tk_object ?tk) (tk_relation ?tk) u)"
    using u by (simp add: TupleKeyToString_def NewTupleKey_def)
  have ready: "model_ready (ce_typesys env)" "graph_complete env" using assms(3) by (simp_all add: check_ready_def)
  show ?case
  proof (cases rule: ResolveCheck_cases [of env req])
    case cycle
    with less.prems(2,3) valid key show ?thesis by auto
  next
    case no_path
    have "connected (ce_typesys env) u (GetType (tk_object ?tk)) (tk_relation ?tk)"
      using granted_connected(1) [OF stored_facts_typed [OF ready(1) assms(1)]] su stage_granted [OF less.prems(2)] by blast
    with PathExists_connected [OF ready(2)] su no_path(3) u show ?thesis by blast
  next
    case (rewrite rel)
    obtain k where k: "k < n" "(tk_object ?tk, tk_relation ?tk) \<in> ?S (Suc k)" "(tk_object ?tk, tk_relation ?tk) \<notin> ?S k"
      using first_stage [OF less.prems(2)] by blast
    have holds: "holds (ce_typesys env) ?F u (?S k) (tk_object ?tk) (tk_relation ?tk) (rel_rewrite rel)"
      using k(2) rewrite(3,4) u by (auto simp: IsSelfDefining_def)
    have rec: "\<not> refused (ResolveCheck env q)"
      if q: "(ob, r) \<in> ?S k" "child_request (visiting req) ob r q" "IsValidObject ob" "r \<noteq> ''''" for ob r q
    proof (rule less.IH [OF k(1) child_query(1) [OF query q(2-4)]])
      show "(tk_object (rq_tuple_key q), tk_relation (rq_tuple_key q)) \<in> ?S k"
        using child_query(2) [OF query q(2-4)] q(1) by (simp add: NewTupleKey_def)
      have visited: "rq_visited_paths q = insert (TupleKeyToString ?tk) (rq_visited_paths req)"
        using q(2) by (auto simp: child_request_def subrequest_def)
      show "(ob', r') \<notin> ?S k" if "IsValidObject ob'" "TupleKeyToString (NewTupleKey ob' r' u) \<in> rq_visited_paths q" for ob' r'
        using that k(1,3) less.prems(3) [of ob' r'] visited_key_inj [of ob' "tk_object ?tk" r' u "tk_relation ?tk"] stage_mono [of k n]
          IsValidObject_no_hash valid
        unfolding visited key by fastforce
    qed
    have names: "list_all (\<lambda>r. r \<noteq> '''') (rewrite_names (rel_rewrite rel))" by (rule model_ready_relation(2) [OF ready(1) rewrite(4)])
    show ?thesis unfolding rewrite(5)
      by (rule CheckRewrite_complete [OF assms(1,2) query assms(3) _ _ _ names, of rel "?S k"])
        (use rewrite(4) rec holds ResolveCheck_no_cycle [OF assms(1,2) query assms(3)] in auto)
  qed (simp_all add: refused_def)
qed

end

end
