(* ===== verification/CheckCommand.thy ===== *)
theory CheckCommand
  imports CheckSoundness
begin

text \<open>
  The check command of \<open>src/pkg/server/commands/check_command.go\<close>: it validates the request, adds the
  contextual tuples to the datastore and calls the resolver.  Iterator caches and shared iterators are
  off, as in the default cache settings, and the bounded reader only limits and counts the reads, so
  that the request's storage wrapper is the combined reader.  The theorems put the validation, the
  readers, the in-memory datastore and the resolver together.
\<close>

section \<open>The command\<close>

record check_command_params =
  ccp_store_id :: string
  ccp_tuple_key :: plain_key
  ccp_contextual_tuples :: "tuple_key list"
  ccp_context :: "pbstruct option"
  ccp_consistency :: consistency_preference

datatype check_command_error =
    InvalidRelationError tuple_cause
  | InvalidContextError condition_cause
  | InvalidContextualTuple tuple_error
  | InvalidRequest check_request_error
  | ResolutionFailed check_error

definition validateCheckRequest ::
    "value_library \<Rightarrow> type_system \<Rightarrow> plain_key \<Rightarrow> tuple_key list \<Rightarrow> pbstruct option \<Rightarrow> check_command_error option" where
  "validateCheckRequest lib typesys tupleKey contextualTuples requestCtx =
     (case ValidateUserObjectRelation typesys (ConvertCheckRequestTupleKeyToTupleKey tupleKey) of
        Some e \<Rightarrow> Some (InvalidRelationError e)
      | None \<Rightarrow>
          (case ValidateStruct requestCtx of
             Some e \<Rightarrow> Some (InvalidContextError e)
           | None \<Rightarrow> first_err (\<lambda>ctxTuple. map_option InvalidContextualTuple (ValidateTupleForWrite lib typesys ctxTuple))
               contextualTuples))"

definition NewRequestStorageWrapperWithCache :: "tuple_reader \<Rightarrow> tuple_key list \<Rightarrow> tuple_reader" where
  "NewRequestStorageWrapperWithCache ds requestContextualTuples = NewCombinedTupleReader ds requestContextualTuples"

text \<open>The command's datastore is the reader of the environment it is called with.  The consistency of the
  request only decides whether caches are read, and there are none here.\<close>

definition Execute :: "('env, 'ast, 'prg, 'act) check_env \<Rightarrow> check_command_params \<Rightarrow> check_command_error + check_response" where
  "Execute env params =
     (let typesys = ce_typesys env in
      case validateCheckRequest (ce_values env) typesys (ccp_tuple_key params) (ccp_contextual_tuples params) (ccp_context params) of
        Some e \<Rightarrow> Inl e
      | None \<Rightarrow>
          (case NewResolveCheckRequest
                  \<lparr>cp_store_id = ccp_store_id params,
                   cp_tuple_key = ConvertCheckRequestTupleKeyToTupleKey (ccp_tuple_key params),
                   cp_contextual_tuples = ccp_contextual_tuples params, cp_context = ccp_context params,
                   cp_authorization_model_id = ts_model_id typesys\<rparr> of
             Inl e \<Rightarrow> Inl (InvalidRequest e)
           | Inr resolveCheckRequest \<Rightarrow>
               (let datastore = NewRequestStorageWrapperWithCache (ce_reader env) (ccp_contextual_tuples params) in
                case ResolveCheck (env\<lparr>ce_reader := datastore\<rparr>) resolveCheckRequest of
                  Inl e \<Rightarrow> Inl (ResolutionFailed e)
                | Inr resp \<Rightarrow> Inr resp)))"

section \<open>What the command passes on\<close>

lemma reader_irrelevant [simp]:
  "in_force (env\<lparr>ce_reader := rd\<rparr>) ctx K = in_force env ctx K" "check_ready (env\<lparr>ce_reader := rd\<rparr>) = check_ready env"
  by (intro ext)
    (simp_all add: in_force_def BuildTupleKeyConditionFilter_def check_ready_def fair_arrival_def default_strategies_def graph_complete_def)

lemma validateCheckRequest_None:
  assumes "validateCheckRequest lib t tk ctx rc = None" and "model_ready t"
  shows "subject_of (tk_user tk) \<noteq> None" and "IsValidObject (tk_object tk)" and "tk_relation tk \<noteq> ''''"
    and "list_all (\<lambda>k. subject_of (tk_user k) \<noteq> None) ctx"
proof -
  have ready: "ts_consistent t" "IsSchemaVersionSupported (ts_schema_version t)" using assms(2) by (simp_all add: model_ready_def)
  have "ValidateUserObjectRelation t (ConvertCheckRequestTupleKeyToTupleKey tk) = None"
    using assms(1) by (auto simp: validateCheckRequest_def split: option.splits)
  then have "ValidateUser t (tk_user tk) = None" "ValidateObject t (ConvertCheckRequestTupleKeyToTupleKey tk) = None"
    "ValidateRelation t (ConvertCheckRequestTupleKeyToTupleKey tk) = None"
    by (auto simp: ValidateUserObjectRelation_def ConvertCheckRequestTupleKeyToTupleKey_def NewTupleKey_def split: option.splits)
  then show "subject_of (tk_user tk) \<noteq> None" "IsValidObject (tk_object tk)" "tk_relation tk \<noteq> ''''"
    by (auto simp: ValidateUser_None_iff [OF ready(2)] ValidateRelation_None_iff IsValidRelation_iff ValidateObject_def Let_def
        ConvertCheckRequestTupleKeyToTupleKey_def NewTupleKey_def split: if_splits)
  have "ValidateTupleForWrite lib t k = None" if "k \<in> set ctx" for k
    using assms(1) that by (auto simp: validateCheckRequest_def first_err_None_iff split: option.splits)
  then show "list_all (\<lambda>k. subject_of (tk_user k) \<noteq> None) ctx"
    by (auto simp: list_all_iff ValidateTupleForWrite_None_iff [OF ready])
qed

text \<open>
  The tuples a check sees: those stored and the contextual ones.  \<open>fresh_context\<close>: no contextual tuple
  repeats the key of another tuple.
\<close>

definition visible_tuples :: "memory_backend \<Rightarrow> check_command_params \<Rightarrow> tuple_key set" where
  "visible_tuples s params = set (contextual_tuples (ccp_contextual_tuples params)) \<union> memory_contents s (ccp_store_id params)"

definition fresh_context :: "memory_backend \<Rightarrow> check_command_params \<Rightarrow> bool" where
  "fresh_context s params \<longleftrightarrow> distinct (map tkey_of (ccp_contextual_tuples params))
     \<and> list_all (\<lambda>k. list_all (\<lambda>tr. tkey_of k \<noteq> rec_key tr) (mb_tuples s (ccp_store_id params))) (ccp_contextual_tuples params)"

lemma Execute_Inr:
  assumes "Execute env params = Inr resp" and "model_ready (ce_typesys env)" and "memory_invar s (ccp_store_id params)"
    and "ce_reader env = memory_reader s" and "fresh_context s params"
  obtains req where "query_request (ccp_store_id params) (ccp_context params) (tk_user (ccp_tuple_key params)) req"
    and "tk_object (rq_tuple_key req) = tk_object (ccp_tuple_key params)" and "tk_relation (rq_tuple_key req) = tk_relation (ccp_tuple_key params)"
    and "rq_visited_paths req = {}"
    and "ResolveCheck (env\<lparr>ce_reader := combined_reader memory_reader (s, ccp_contextual_tuples params)\<rparr>) req = Inr resp"
    and "combined_invar memory_invar memory_contents (s, ccp_contextual_tuples params) (ccp_store_id params)"
proof -
  have valid: "validateCheckRequest (ce_values env) (ce_typesys env) (ccp_tuple_key params) (ccp_contextual_tuples params) (ccp_context params) = None"
    using assms(1) by (auto simp: Execute_def Let_def split: option.splits)
  obtain req where req: "NewResolveCheckRequest
        \<lparr>cp_store_id = ccp_store_id params, cp_tuple_key = ConvertCheckRequestTupleKeyToTupleKey (ccp_tuple_key params),
         cp_contextual_tuples = ccp_contextual_tuples params, cp_context = ccp_context params,
         cp_authorization_model_id = ts_model_id (ce_typesys env)\<rparr> = Inr req"
    "ResolveCheck (env\<lparr>ce_reader := combined_reader memory_reader (s, ccp_contextual_tuples params)\<rparr>) req = Inr resp"
    using assms(1,4) valid
    by (auto simp: Execute_def Let_def combined_reader_def NewRequestStorageWrapperWithCache_def split: option.splits sum.splits)
  have keys: "tkey_of ` memory_contents s (ccp_store_id params) = rec_key ` set (mb_tuples s (ccp_store_id params))"
    using record_key(1) [OF assms(3)] by (auto simp: memory_contents_def image_image)
  show thesis
  proof (rule that)
    show "query_request (ccp_store_id params) (ccp_context params) (tk_user (ccp_tuple_key params)) req"
      "tk_object (rq_tuple_key req) = tk_object (ccp_tuple_key params)" "tk_relation (rq_tuple_key req) = tk_relation (ccp_tuple_key params)"
      "rq_visited_paths req = {}"
      using req(1) validateCheckRequest_None [OF valid assms(2)]
      by (auto simp: NewResolveCheckRequest_def query_request_def ConvertCheckRequestTupleKeyToTupleKey_def split: if_splits)
    show "combined_invar memory_invar memory_contents (s, ccp_contextual_tuples params) (ccp_store_id params)"
      using validateCheckRequest_None(4) [OF valid assms(2)] assms(3,5) keys
      by (fastforce simp: combined_invar_def fresh_context_def list_all_iff)
  qed (rule req(2))
qed

lemma visible_combined:
  "combined_contents memory_contents (s, ccp_contextual_tuples params) (ccp_store_id params) = visible_tuples s params"
  by (simp add: combined_contents_def visible_tuples_def)

section \<open>The answers\<close>

text \<open>
  C1: an answer of the check command on the in-memory datastore is right.  When it allows access, the
  tuples in force (stored or contextual, valid under the model, with a condition that holds) and the
  rewrites of the model grant the user the relation; when it refuses access without having detected a
  cycle, the user is denied the relation; and the two exclude each other.  The order in which
  concurrent outcomes arrive is arbitrary.  The statement is about the default strategies: where the
  weighted graph of the model offers a choice, the planner is assumed to select the default one
  (\<open>check_ready\<close>).  It is also about requests whose contextual tuples are new (\<open>fresh_context\<close>): one
  that repeats the key of another tuple hides it from \<open>ReadUserTuple\<close>, but not from the other reads.
  The model is well formed, and the external path search finds every path of the model.
\<close>

theorem Execute_answers_sound:
  assumes "check_ready env" and "ce_reader env = memory_reader s" and "memory_invar s (ccp_store_id params)" and "fresh_context s params"
    and "Execute env params = Inr resp"
  shows "(cr_allowed resp \<longrightarrow>
      granted (ce_typesys env) (in_force env (ccp_context params) (visible_tuples s params)) (tk_user (ccp_tuple_key params))
        (tk_object (ccp_tuple_key params)) (tk_relation (ccp_tuple_key params)))
    \<and> (\<not> cr_allowed resp \<and> \<not> cr_cycle_detected resp \<longrightarrow>
      denied (ce_typesys env) (in_force env (ccp_context params) (visible_tuples s params)) (tk_user (ccp_tuple_key params))
        (tk_object (ccp_tuple_key params)) (tk_relation (ccp_tuple_key params)))
    \<and> \<not> (granted (ce_typesys env) (in_force env (ccp_context params) (visible_tuples s params)) (tk_user (ccp_tuple_key params))
        (tk_object (ccp_tuple_key params)) (tk_relation (ccp_tuple_key params))
      \<and> denied (ce_typesys env) (in_force env (ccp_context params) (visible_tuples s params)) (tk_user (ccp_tuple_key params))
        (tk_object (ccp_tuple_key params)) (tk_relation (ccp_tuple_key params)))"
proof -
  have ready: "model_ready (ce_typesys env)" using assms(1) by (simp add: check_ready_def)
  obtain req where req: "query_request (ccp_store_id params) (ccp_context params) (tk_user (ccp_tuple_key params)) req"
    "tk_object (rq_tuple_key req) = tk_object (ccp_tuple_key params)" "tk_relation (rq_tuple_key req) = tk_relation (ccp_tuple_key params)"
    "ResolveCheck (env\<lparr>ce_reader := combined_reader memory_reader (s, ccp_contextual_tuples params)\<rparr>) req = Inr resp"
    "combined_invar memory_invar memory_contents (s, ccp_contextual_tuples params) (ccp_store_id params)"
    by (rule Execute_Inr [OF assms(5) ready assms(3,2,4)])
  obtain su where su: "subject_of (tk_user (ccp_tuple_key params)) = Some su" using req(1) by (auto simp: query_request_def)
  have typed: "typed_facts (ce_typesys env) (in_force env (ccp_context params) (visible_tuples s params))"
    using memory_queries.combined.stored_facts_typed [OF ready req(5)] by (simp add: visible_combined)
  from memory_queries.combined.ResolveCheck_sound_answer [OF req(5,1), of "env\<lparr>ce_reader := combined_reader memory_reader (s, ccp_contextual_tuples params)\<rparr>"]
    granted_not_denied(1) [OF typed su] req(2-4) assms(1)
  show ?thesis by (auto simp: sound_answer_def visible_combined split: if_splits)
qed

text \<open>
  C2: without exclusions in the model the check command is exact: when it answers, it allows access if
  and only if the relation is granted, also where it cut a cycle.  As before, the planner selects the
  default strategies, no contextual tuple repeats the key of another tuple, the model is well formed and
  the external path search finds every path of it.
\<close>

theorem Execute_exact_without_exclusion:
  assumes "check_ready env" and "ce_reader env = memory_reader s" and "memory_invar s (ccp_store_id params)" and "fresh_context s params"
    and "positive_model (ce_typesys env)" and "Execute env params = Inr resp"
  shows "cr_allowed resp \<longleftrightarrow> granted (ce_typesys env) (in_force env (ccp_context params) (visible_tuples s params))
    (tk_user (ccp_tuple_key params)) (tk_object (ccp_tuple_key params)) (tk_relation (ccp_tuple_key params))"
proof -
  let ?F = "in_force env (ccp_context params) (visible_tuples s params)" and ?tk = "ccp_tuple_key params"
  let ?env = "env\<lparr>ce_reader := combined_reader memory_reader (s, ccp_contextual_tuples params)\<rparr>"
  have ready: "model_ready (ce_typesys env)" using assms(1) by (simp add: check_ready_def)
  obtain req where req: "query_request (ccp_store_id params) (ccp_context params) (tk_user ?tk) req"
    "tk_object (rq_tuple_key req) = tk_object ?tk" "tk_relation (rq_tuple_key req) = tk_relation ?tk" "rq_visited_paths req = {}"
    "ResolveCheck ?env req = Inr resp"
    "combined_invar memory_invar memory_contents (s, ccp_contextual_tuples params) (ccp_store_id params)"
    by (rule Execute_Inr [OF assms(6) ready assms(3,2,4)])
  have "granted (ce_typesys env) ?F (tk_user ?tk) (tk_object ?tk) (tk_relation ?tk)" if "cr_allowed resp"
    using memory_queries.combined.ResolveCheck_sound_answer [OF req(6,1), of ?env] req(2,3,5) assms(1) that
    by (auto simp: sound_answer_def visible_combined)
  moreover have "cr_allowed resp" if g: "granted (ce_typesys env) ?F (tk_user ?tk) (tk_object ?tk) (tk_relation ?tk)"
  proof -
    obtain n where "(tk_object ?tk, tk_relation ?tk) \<in> stage (ce_typesys env) ?F (tk_user ?tk) n"
      using granted_stage(1) [OF assms(5) g] by blast
    then have "\<not> refused (ResolveCheck ?env req)"
      using memory_queries.combined.ResolveCheck_complete [OF req(6), of ?env "ccp_context params" "tk_user ?tk" req n] req(1-4) assms(1)
      by (simp add: visible_combined)
    with req(5) show ?thesis by (simp add: refused_def)
  qed
  ultimately show ?thesis by blast
qed


text \<open>Groups of users and of members of groups; documents seen by the members of groups who are not blocked.\<close>

definition team_model :: authorization_model where
  "team_model =
     \<lparr>am_id = ''m'', am_schema_version = ''1.1'',
      am_type_definitions =
        [\<lparr>td_type = ''user'', td_relations = [], td_metadata = Map.empty\<rparr>,
         \<lparr>td_type = ''group'', td_relations = [(''member'', This)],
          td_metadata = [''member'' \<mapsto> [DirectRelationReference ''user'' '''', DirectRelationReference ''group'' ''member'']]\<rparr>,
         \<lparr>td_type = ''doc'',
          td_relations = [(''blocked'', This), (''viewer'', Difference This (ComputedUserset ''blocked''))],
          td_metadata = [''blocked'' \<mapsto> [DirectRelationReference ''user'' ''''],
            ''viewer'' \<mapsto> [DirectRelationReference ''group'' ''member'']]\<rparr>],
      am_conditions = []\<rparr>"

text \<open>The same groups alone, a model without exclusions.\<close>

definition circle_model :: authorization_model where
  "circle_model = team_model\<lparr>am_type_definitions := take 2 (am_type_definitions team_model)\<rparr>"

definition model_env :: "authorization_model \<Rightarrow> memory_backend \<Rightarrow> (unit, unit, unit, (string \<times> any_value) list) check_env" where
  "model_env model s =
     \<lparr>ce_typesys = (case TypeSystem.New (\<lambda>_. None) model of Inr t \<Rightarrow> t), ce_reader = memory_reader s, ce_values = sample_values,
      ce_cel = sample_cel, ce_graph_path = (\<lambda>_ _. Inr True), ce_weighted = None, ce_max_resolution_depth = 25,
      ce_arrival = (\<lambda>_ _ outcomes. rev outcomes), ce_base_first = (\<lambda>_ _. False)\<rparr>"

lemma model_env_ready:
  assumes "IsSchemaVersionSupported (am_schema_version model)"
    and "list_all (\<lambda>(ot, rs). list_all names_ok rs) (ts_relations (ce_typesys (model_env model s)))"
  shows "check_ready (model_env model s)"
proof -
  have "TypeSystem.New (\<lambda>_. None) model = Inr (ce_typesys (model_env model s))" by (simp add: model_env_def TypeSystem.New_def)
  with assms New_consistent have "model_ready (ce_typesys (model_env model s))"
    by (fastforce simp: model_ready_def model_env_def TypeSystem.New_def New_loop_fields)
  then show ?thesis
    by (simp add: check_ready_def fair_arrival_def default_strategies_def graph_complete_def model_env_def)
qed

lemma memory_invar_New: "memory_invar (Memory.New []) st"
  using mem_inv_New by (simp add: memory_invar_def Memory.New_def)

definition team_check :: check_command_params where
  "team_check =
     \<lparr>ccp_store_id = ''s'', ccp_tuple_key = \<lparr>tk_object = ''doc:1'', tk_relation = ''viewer'', tk_user = ''user:anne''\<rparr>,
      ccp_contextual_tuples = [NewTupleKey ''doc:1'' ''viewer'' ''group:eng#member'', NewTupleKey ''group:eng'' ''member'' ''user:anne''],
      ccp_context = None, ccp_consistency = UNSPECIFIED\<rparr>"

definition circle_check :: check_command_params where
  "circle_check =
     \<lparr>ccp_store_id = ''s'', ccp_tuple_key = \<lparr>tk_object = ''group:a'', tk_relation = ''member'', tk_user = ''user:anne''\<rparr>,
      ccp_contextual_tuples = [NewTupleKey ''group:a'' ''member'' ''group:b#member'', NewTupleKey ''group:b'' ''member'' ''group:a#member''],
      ccp_context = None, ccp_consistency = UNSPECIFIED\<rparr>"

theorem Execute_answers_sound_witness:
  "granted (ce_typesys (model_env team_model (Memory.New [])))
     (in_force (model_env team_model (Memory.New [])) None (visible_tuples (Memory.New []) team_check)) ''user:anne'' ''doc:1'' ''viewer''"
proof -
  let ?env = "model_env team_model (Memory.New [])"
  have "check_ready ?env" by (rule model_env_ready) code_simp+
  moreover have "ce_reader ?env = memory_reader (Memory.New [])" by (simp add: model_env_def)
  moreover have "fresh_context (Memory.New []) team_check" by code_simp
  moreover have "Execute ?env team_check = Inr \<lparr>cr_allowed = True, cr_cycle_detected = False\<rparr>" by code_simp
  ultimately show ?thesis
    using Execute_answers_sound [of ?env "Memory.New []" team_check] memory_invar_New by (simp add: team_check_def)
qed

theorem Execute_exact_without_exclusion_witness:
  "\<not> granted (ce_typesys (model_env circle_model (Memory.New [])))
     (in_force (model_env circle_model (Memory.New [])) None (visible_tuples (Memory.New []) circle_check)) ''user:anne'' ''group:a'' ''member''"
proof -
  let ?env = "model_env circle_model (Memory.New [])"
  have "check_ready ?env" by (rule model_env_ready) code_simp+
  moreover have "ce_reader ?env = memory_reader (Memory.New [])" by (simp add: model_env_def)
  moreover have "fresh_context (Memory.New []) circle_check" "positive_model (ce_typesys ?env)" by code_simp+
  moreover have "Execute ?env circle_check = Inr \<lparr>cr_allowed = False, cr_cycle_detected = True\<rparr>" by code_simp
  ultimately show ?thesis
    using Execute_exact_without_exclusion [of ?env "Memory.New []" circle_check] memory_invar_New by (simp add: circle_check_def)
qed

end
