(* ===== verification/Tokens.thy ===== *)
theory Tokens
  imports GoStrings StorageTypes
begin

text \<open>
  Encoders and continuation tokens (\<^verbatim>\<open>pkg/encoder\<close>, \<^verbatim>\<open>pkg/encrypter\<close>): the URL-safe
  base64 encoding of the standard library as the code uses it (padding, newlines skipped,
  trailing bits not checked), the token encoder that encrypts before it encodes, and the
  serializer that joins a ULID and an object type with a pipe.  The contract every encoder owes
  its clients is the locale \<open>token_codec\<close>; base64, the no-op encoder and their combination with
  an encrypter fulfil it.
\<close>

section \<open>Base64\<close>

datatype token_error = CorruptInputError | CiphertextTooShort | CipherError | EmptyULID | InvalidContinuationToken

definition encodeURL :: string where
  "encodeURL = ''ABCDEFGHIJKLMNOPQRSTUVWXYZabcdefghijklmnopqrstuvwxyz0123456789-_''"

definition b64_digit :: "nat \<Rightarrow> char" where
  "b64_digit n = encodeURL ! (n mod 64)"

definition b64_value :: "char \<Rightarrow> nat option" where
  "b64_value c = map_of (zip encodeURL [0..<64]) c"

definition byte_at :: "nat \<Rightarrow> char" where
  "byte_at n = char_of (n mod 256)"

fun b64_encode :: "string \<Rightarrow> string" where
  "b64_encode [] = []"
| "b64_encode [a] =
     (let v = of_char a * 65536 in [b64_digit (v div 262144), b64_digit (v div 4096), CHR ''='', CHR ''=''])"
| "b64_encode [a, b] =
     (let v = of_char a * 65536 + of_char b * 256 in
      [b64_digit (v div 262144), b64_digit (v div 4096), b64_digit (v div 64), CHR ''=''])"
| "b64_encode (a # b # c # rest) =
     (let v = of_char a * 65536 + of_char b * 256 + of_char c in
      [b64_digit (v div 262144), b64_digit (v div 4096), b64_digit (v div 64), b64_digit v] @ b64_encode rest)"

text \<open>The input without its newlines, four characters at a time; padding ends it.\<close>

fun b64_quanta :: "string \<Rightarrow> string option" where
  "b64_quanta [] = Some []"
| "b64_quanta (a # b # c # d # rest) =
     (case (b64_value a, b64_value b) of
        (Some va, Some vb) \<Rightarrow>
          let v = va * 262144 + vb * 4096 in
          (case (b64_value c, b64_value d) of
             (Some vc, Some vd) \<Rightarrow>
               let v = v + vc * 64 + vd in
               map_option (\<lambda>r. byte_at (v div 65536) # byte_at (v div 256) # byte_at v # r) (b64_quanta rest)
           | (Some vc, None) \<Rightarrow>
               let v = v + vc * 64 in
               if d = CHR ''='' \<and> rest = [] then Some [byte_at (v div 65536), byte_at (v div 256)] else None
           | (None, _) \<Rightarrow>
               if c = CHR ''='' \<and> d = CHR ''='' \<and> rest = [] then Some [byte_at (v div 65536)] else None)
      | _ \<Rightarrow> None)"
| "b64_quanta _ = None"

definition b64_decode :: "string \<Rightarrow> string option" where
  "b64_decode s = b64_quanta (filter (\<lambda>c. c \<noteq> CHR 0x0A \<and> c \<noteq> CHR 0x0D) s)"

section \<open>Encoders and encrypters\<close>

record encoder =
  Decode :: "string \<Rightarrow> token_error + string"
  Encode :: "string \<Rightarrow> token_error + string"

record encrypter =
  Decrypt :: "string \<Rightarrow> token_error + string"
  Encrypt :: "string \<Rightarrow> token_error + string"

definition Base64Encoder :: encoder where
  "Base64Encoder =
     \<lparr>Decode = (\<lambda>s. case b64_decode s of Some d \<Rightarrow> Inr d | None \<Rightarrow> Inl CorruptInputError),
      Encode = (\<lambda>d. Inr (b64_encode d))\<rparr>"

definition NoopEncoder :: encoder where
  "NoopEncoder = \<lparr>Decode = Inr, Encode = Inr\<rparr>"

definition NoopEncrypter :: encrypter where
  "NoopEncrypter = \<lparr>Decrypt = Inr, Encrypt = Inr\<rparr>"

text \<open>The cipher mode of \<open>GCMEncrypter\<close> is an authenticated cipher of the crypto library: the size
  of its nonce, \<open>Seal\<close> and \<open>Open\<close>.  The nonce drawn for a call is a parameter; \<open>None\<close>: the random
  source failed.\<close>

record aead =
  NonceSize :: nat
  Seal :: "string \<Rightarrow> string \<Rightarrow> string"
  Open :: "string \<Rightarrow> string \<Rightarrow> string option"

definition GCM_Decrypt :: "aead \<Rightarrow> string \<Rightarrow> token_error + string" where
  "GCM_Decrypt cipherMode data =
     (if data = [] then Inr data
      else
        let nonceSize = NonceSize cipherMode in
        if length data < nonceSize then Inl CiphertextTooShort
        else (case Open cipherMode (take nonceSize data) (drop nonceSize data) of
                Some p \<Rightarrow> Inr p | None \<Rightarrow> Inl CipherError))"

definition GCM_Encrypt :: "aead \<Rightarrow> string option \<Rightarrow> string \<Rightarrow> token_error + string" where
  "GCM_Encrypt cipherMode nonce data =
     (if data = [] then Inr data
      else case nonce of None \<Rightarrow> Inl CipherError | Some n \<Rightarrow> Inr (n @ Seal cipherMode n data))"

definition GCMEncrypter :: "aead \<Rightarrow> string option \<Rightarrow> encrypter" where
  "GCMEncrypter cipherMode nonce = \<lparr>Decrypt = GCM_Decrypt cipherMode, Encrypt = GCM_Encrypt cipherMode nonce\<rparr>"

definition NewTokenEncoder :: "encrypter \<Rightarrow> encoder \<Rightarrow> encoder" where
  "NewTokenEncoder encr enc =
     \<lparr>Decode = (\<lambda>s. case Decode enc s of Inl e \<Rightarrow> Inl e | Inr d \<Rightarrow> Decrypt encr d),
      Encode = (\<lambda>d. case Encrypt encr d of Inl e \<Rightarrow> Inl e | Inr x \<Rightarrow> Encode enc x)\<rparr>"

section \<open>The token serializer\<close>

definition Serialize :: "string \<Rightarrow> string \<Rightarrow> token_error + string" where
  "Serialize ulid objType = (if ulid = [] then Inl EmptyULID else Inr (ulid @ ''|'' @ objType))"


definition Deserialize :: "string \<Rightarrow> token_error + string \<times> string" where
  "Deserialize continuationToken =
     (case Cut continuationToken CHR ''|'' of
        (ulid, objType, found) \<Rightarrow>
          if \<not> found \<or> ulid = [] then Inl InvalidContinuationToken else Inr (ulid, objType))"

section \<open>Round trips\<close>

lemma b64_value_digit [simp]: "b64_value (b64_digit n) = Some (n mod 64)"
proof -
  have "list_all (\<lambda>n. b64_value (encodeURL ! n) = Some n) [0..<64]" by code_simp
  then show ?thesis by (simp add: b64_digit_def list_all_iff)
qed

lemma b64_value_pad [simp]: "b64_value CHR ''='' = None"
  by code_simp

lemma b64_digit_plain: "b64_digit n \<noteq> CHR 0x0A" "b64_digit n \<noteq> CHR 0x0D"
proof -
  have "list_all (\<lambda>n. encodeURL ! n \<noteq> CHR 0x0A \<and> encodeURL ! n \<noteq> CHR 0x0D) [0..<64]" by code_simp
  then show "b64_digit n \<noteq> CHR 0x0A" "b64_digit n \<noteq> CHR 0x0D" by (simp_all add: b64_digit_def list_all_iff)
qed

lemma b64_encode_plain: "filter (\<lambda>c. c \<noteq> CHR 0x0A \<and> c \<noteq> CHR 0x0D) (b64_encode s) = b64_encode s"
  by (induction s rule: b64_encode.induct) (simp_all add: Let_def b64_digit_plain)

text \<open>The four digits of a number below \<open>2\<^sup>2\<^sup>4\<close>.\<close>

lemma quantum_value:
  "v < 16777216 \<Longrightarrow> (v div 262144) mod 64 * 262144 + (v div 4096) mod 64 * 4096 + (v div 64) mod 64 * 64 + v mod 64 = v"
  for v :: nat
proof -
  assume v: "v < 16777216"
  have "v div 64 div 64 = v div 4096" "v div 4096 div 64 = v div 262144"
    by (simp_all flip: div_mult2_eq)
  moreover have "v div 262144 mod 64 = v div 262144" using v by (simp add: less_mult_imp_div_less)
  ultimately show ?thesis
    using div_mult_mod_eq [of v 64] div_mult_mod_eq [of "v div 64" 64] div_mult_mod_eq [of "v div 4096" 64]
    by linarith
qed

lemma quantum_multiple:
  "x < 256 \<Longrightarrow> x * 65536 div 262144 mod 64 * 262144 + x * 65536 div 4096 mod 64 * 4096 = x * 65536"
  "x < 256 \<Longrightarrow> y < 256 \<Longrightarrow> (x * 65536 + y * 256) div 262144 mod 64 * 262144 +
    (x * 65536 + y * 256) div 4096 mod 64 * 4096 + (x * 65536 + y * 256) div 64 mod 64 * 64 = x * 65536 + y * 256"
  for x y :: nat
proof -
  have "x * 65536 mod 64 = 0" "x * 65536 div 64 = x * 16 * 64" for x :: nat by (simp_all add: mod_eq_0_iff_dvd)
  then show "x < 256 \<Longrightarrow> x * 65536 div 262144 mod 64 * 262144 + x * 65536 div 4096 mod 64 * 4096 = x * 65536"
    using quantum_value [of "x * 65536"] by simp
  have "(x * 65536 + y * 256) mod 64 = 0" for x y :: nat by (simp add: mod_eq_0_iff_dvd)
  then show "x < 256 \<Longrightarrow> y < 256 \<Longrightarrow> (x * 65536 + y * 256) div 262144 mod 64 * 262144 +
    (x * 65536 + y * 256) div 4096 mod 64 * 4096 + (x * 65536 + y * 256) div 64 mod 64 * 64 = x * 65536 + y * 256"
    using quantum_value [of "x * 65536 + y * 256"] by simp
qed

lemma quantum_bytes:
  fixes x y z :: nat
  assumes "y < 256" "z < 256"
  shows "(x * 65536 + y * 256 + z) div 65536 = x" "(x * 65536 + y * 256 + z) div 256 mod 256 = y"
    "(x * 65536 + y * 256 + z) mod 256 = z"
proof -
  have v: "x * 65536 + y * 256 + z = (x * 256 + y) * 256 + z" by simp
  have q: "((x * 256 + y) * 256 + z) div 256 = x * 256 + y" using assms(2) by simp
  then have "(x * 65536 + y * 256 + z) div 256 = x * 256 + y" unfolding v .
  moreover have "(x * 65536 + y * 256 + z) div 65536 = (x * 65536 + y * 256 + z) div 256 div 256"
    by (simp flip: div_mult2_eq)
  ultimately show "(x * 65536 + y * 256 + z) div 65536 = x" "(x * 65536 + y * 256 + z) div 256 mod 256 = y"
    using assms(1) by simp_all
  show "(x * 65536 + y * 256 + z) mod 256 = z" unfolding v using assms(2) by (simp only: mod_mult_self3 mod_less)
qed

lemma byte_of_char [simp]:
  "byte_at (of_char a) = a"
  by (simp add: byte_at_def)

lemma char_less [simp]: "(of_char a :: nat) < 256"
  by (metis of_char_mod_256 mod_less_divisor zero_less_numeral)

lemma b64_quanta_full:
  "v < 16777216 \<Longrightarrow>
    b64_quanta (b64_digit (v div 262144) # b64_digit (v div 4096) # b64_digit (v div 64) # b64_digit v # r) =
    map_option (\<lambda>r. byte_at (v div 65536) # byte_at (v div 256) # byte_at v # r) (b64_quanta r)"
  by (simp only: b64_quanta.simps b64_value_digit option.case prod.case Let_def quantum_value)

lemma b64_quanta_one:
  assumes "x < 256"
  shows "b64_quanta [b64_digit (x * 65536 div 262144), b64_digit (x * 65536 div 4096), CHR ''='', CHR ''=''] =
    Some [byte_at x]"
  using quantum_multiple(1) [OF assms]
  by (simp only: b64_quanta.simps b64_value_digit b64_value_pad option.case prod.case Let_def) simp

lemma b64_quanta_two:
  assumes "x < 256" "y < 256"
  shows "b64_quanta [b64_digit ((x * 65536 + y * 256) div 262144), b64_digit ((x * 65536 + y * 256) div 4096),
      b64_digit ((x * 65536 + y * 256) div 64), CHR ''=''] = Some [byte_at x, byte_at y]"
  using quantum_multiple(2) [OF assms] quantum_bytes [of y 0 x] assms
  by (simp only: b64_quanta.simps b64_value_digit b64_value_pad option.case prod.case Let_def) (simp add: byte_at_def)

lemma b64_quanta_encode: "b64_quanta (b64_encode s) = Some s"
proof (induction s rule: b64_encode.induct)
  case (4 a b c rest)
  define v where "v = of_char a * 65536 + of_char b * 256 + (of_char c :: nat)"
  have small: "v < 16777216" using char_less [of a] char_less [of b] char_less [of c] unfolding v_def by linarith
  have "byte_at (v div 65536) = a" "byte_at (v div 256) = b" "byte_at v = c"
    using quantum_bytes [of "of_char b" "of_char c" "of_char a"] by (simp_all add: byte_at_def v_def)
  moreover have "b64_encode (a # b # c # rest) = b64_digit (v div 262144) # b64_digit (v div 4096) #
      b64_digit (v div 64) # b64_digit v # b64_encode rest" by (simp only: b64_encode.simps Let_def v_def append.simps)
  ultimately show ?case using 4 [OF v_def] by (simp only: b64_quanta_full [OF small] option.map)
next
  case (2 a)
  show ?case
    using b64_quanta_one [OF char_less [of a]] by (simp only: b64_encode.simps Let_def byte_of_char)
next
  case (3 a b)
  show ?case
    using b64_quanta_two [OF char_less [of a] char_less [of b]]
    by (simp only: b64_encode.simps Let_def byte_of_char)
qed simp

lemma b64_decode_encode: "b64_decode (b64_encode s) = Some s"
  by (simp add: b64_decode_def b64_encode_plain b64_quanta_encode)

lemma Deserialize_Serialize:
  assumes "Serialize ulid objType = Inr token" "CHR ''|'' \<notin> set ulid"
  shows "Deserialize token = Inr (ulid, objType) \<and> token \<noteq> []"
  using assms by (auto simp: Serialize_def Deserialize_def split: if_splits)

section \<open>The contract of an encoder\<close>

text \<open>What the commands that page through the datastore rely on: a token they hand out is
  understood when it comes back, and the empty token of the first request decodes to nothing.\<close>

definition token_for :: "encoder \<Rightarrow> string \<Rightarrow> string" where
  "token_for enc d = (case Encode enc d of Inr s \<Rightarrow> s | Inl _ \<Rightarrow> [])"

locale token_codec =
  fixes enc :: encoder
  assumes encode_total: "\<exists>s. Encode enc d = Inr s"
    and decode_encode: "Encode enc d = Inr s \<Longrightarrow> Decode enc s = Inr d"
    and decode_empty: "Decode enc [] = Inr []"
begin

lemma encoded_nonempty: "Encode enc d = Inr s \<Longrightarrow> d \<noteq> [] \<Longrightarrow> s \<noteq> []"
  using decode_encode [of d s] decode_empty by auto

lemma Encode_token_for [simp]: "Encode enc d = Inr (token_for enc d)"
  using encode_total [of d] by (auto simp: token_for_def)

lemma Decode_token_for [simp]: "Decode enc (token_for enc d) = Inr d"
  by (rule decode_encode) simp

lemma token_for_nonempty [simp]: "d \<noteq> [] \<Longrightarrow> token_for enc d \<noteq> []"
  by (rule encoded_nonempty) simp_all

end

locale cipher =
  fixes encr :: encrypter
  assumes encrypt_total: "\<exists>s. Encrypt encr d = Inr s"
    and decrypt_encrypt: "Encrypt encr d = Inr s \<Longrightarrow> Decrypt encr s = Inr d"
    and decrypt_empty: "Decrypt encr [] = Inr []"

locale encrypted_codec = token_codec + cipher

sublocale encrypted_codec \<subseteq> tokens: token_codec "NewTokenEncoder encr enc"
proof
  show "\<exists>s. Encode (NewTokenEncoder encr enc) d = Inr s" for d
    using encrypt_total [of d] encode_total by (auto simp: NewTokenEncoder_def)
  show "Decode (NewTokenEncoder encr enc) s = Inr d" if "Encode (NewTokenEncoder encr enc) d = Inr s" for d s
    using that decode_encode decrypt_encrypt by (auto simp: NewTokenEncoder_def split: sum.splits)
  show "Decode (NewTokenEncoder encr enc) [] = Inr []"
    by (simp add: NewTokenEncoder_def decode_empty decrypt_empty)
qed

context encrypted_codec
begin

lemmas sealed_total = tokens.encode_total
lemmas sealed_roundtrip = tokens.decode_encode

end

lemma b64_decode_empty: "b64_decode [] = Some []"
  by (simp add: b64_decode_def)

interpretation base64: token_codec Base64Encoder
  by unfold_locales (auto simp: Base64Encoder_def b64_decode_encode b64_decode_empty)

interpretation plain: token_codec NoopEncoder
  by unfold_locales (auto simp: NoopEncoder_def)

interpretation sealed: encrypted_codec Base64Encoder NoopEncrypter
  by unfold_locales (auto simp: NoopEncrypter_def)

text \<open>An authenticated cipher opens what it sealed under the same nonce.\<close>

lemma GCM_cipher:
  assumes "\<And>n p. Open m n (Seal m n p) = Some p" "0 < NonceSize m" "length nonce = NonceSize m"
  shows "cipher (GCMEncrypter m (Some nonce))"
  using assms by unfold_locales
    (auto simp: GCMEncrypter_def GCM_Encrypt_def GCM_Decrypt_def Let_def split: if_splits)

section \<open>Properties\<close>

text \<open>C24: A continuation token survives the trip to the client and back: serialized, sealed with
  an authenticated cipher, base64-encoded, decoded, opened and deserialized, it is the ULID and
  the object type it was made of, whatever characters the type has.\<close>

theorem continuation_token_roundtrip:
  assumes cipher: "\<And>n p. Open m n (Seal m n p) = Some p" "0 < NonceSize m" "length nonce = NonceSize m"
    and ulid: "ulid \<noteq> []" "CHR ''|'' \<notin> set ulid"
  shows "\<exists>token sent. Serialize ulid objType = Inr token \<and>
    Encode (NewTokenEncoder (GCMEncrypter m (Some nonce)) Base64Encoder) token = Inr sent \<and>
    Decode (NewTokenEncoder (GCMEncrypter m nonce') Base64Encoder) sent = Inr token \<and>
    Deserialize token = Inr (ulid, objType)"
proof -
  obtain token where token: "Serialize ulid objType = Inr token" using ulid(1) by (simp add: Serialize_def)
  have codec: "encrypted_codec Base64Encoder (GCMEncrypter m (Some nonce))"
    by (intro encrypted_codec.intro base64.token_codec_axioms GCM_cipher cipher)
  obtain sent where t: "Encode (NewTokenEncoder (GCMEncrypter m (Some nonce)) Base64Encoder) token = Inr sent"
    using encrypted_codec.sealed_total [OF codec] by blast
  then have "Decode (NewTokenEncoder (GCMEncrypter m (Some nonce)) Base64Encoder) sent = Inr token"
    by (rule encrypted_codec.sealed_roundtrip [OF codec])
  then have "Decode (NewTokenEncoder (GCMEncrypter m nonce') Base64Encoder) sent = Inr token"
    by (cases "Decode Base64Encoder sent") (simp_all add: NewTokenEncoder_def GCMEncrypter_def)
  with token t Deserialize_Serialize [OF token ulid(2)] show ?thesis by blast
qed

theorem continuation_token_roundtrip_witness:
  "\<exists>token sent. Serialize ''01HX'' ''doc|v2'' = Inr token \<and>
    Encode (NewTokenEncoder (GCMEncrypter \<lparr>NonceSize = 2, Seal = (\<lambda>n p. rev p), Open = (\<lambda>n c. Some (rev c))\<rparr> (Some ''ab''))
      Base64Encoder) token = Inr sent \<and>
    Decode (NewTokenEncoder (GCMEncrypter \<lparr>NonceSize = 2, Seal = (\<lambda>n p. rev p), Open = (\<lambda>n c. Some (rev c))\<rparr> None)
      Base64Encoder) sent = Inr token \<and>
    Deserialize token = Inr (''01HX'', ''doc|v2'')"
  by (rule continuation_token_roundtrip) simp_all

end
