(* ===== verification/ReadCommands.thy ===== *)
theory ReadCommands
  imports Tokens MemoryProps
begin

text \<open>
  The commands that page through the datastore (\<^verbatim>\<open>read.go\<close>, \<^verbatim>\<open>read_changes.go\<close>,
  \<^verbatim>\<open>list_stores.go\<close> and \<^verbatim>\<open>read_authzmodels.go\<close> of \<^verbatim>\<open>pkg/server/commands\<close>) on the in-memory
  datastore, with the errors they show to the client (\<^verbatim>\<open>pkg/server/errors/errors.go\<close>).  The
  lemmas about clients that follow continuation tokens are proved once for every encoder that
  fulfils the contract \<open>token_codec\<close>.
\<close>

section \<open>Errors\<close>

datatype internal_cause =
    StorageCause storage_error
  | TokenCause token_error
  | TransactionThrottled
  | ContextCanceled
  | ContextDeadlineExceeded
  | InvalidStartTime

datatype server_error =
    ValidationError string
  | InvalidToken
  | ErrMismatchObjectType
  | ErrInvalidStartTime
  | ErrTransactionThrottled
  | ErrRequestCancelled
  | ErrRequestDeadlineExceeded
  | ErrStoreIDNotFound
  | AuthorizationModelNotFound string
  | InternalError string internal_cause
  | Panics

definition InternalServerErrorMsg :: string where
  "InternalServerErrorMsg = ''Internal Server Error''"

definition NewInternalError :: "string \<Rightarrow> internal_cause \<Rightarrow> server_error" where
  "NewInternalError public internal =
     InternalError (if public = '''' then InternalServerErrorMsg else public) internal"

definition HandleError :: "string \<Rightarrow> internal_cause \<Rightarrow> server_error" where
  "HandleError public err =
     (if err = TransactionThrottled then ErrTransactionThrottled
      else if err = ContextCanceled then ErrRequestCancelled
      else if err = ContextDeadlineExceeded then ErrRequestDeadlineExceeded
      else if err = InvalidStartTime then ErrInvalidStartTime
      else if err = StorageCause ErrInvalidContinuationToken \<or> err = TokenCause InvalidContinuationToken then InvalidToken
      else NewInternalError public err)"

text \<open>A panic of the datastore does not reach \<open>HandleError\<close>.\<close>

definition storage_failure :: "string \<Rightarrow> storage_error \<Rightarrow> server_error" where
  "storage_failure public err = (if err = SlicePanic then Panics else HandleError public (StorageCause err))"

section \<open>Read\<close>

record read_request =
  rr_store_id :: string
  rr_tuple_key :: "plain_key option"
  rr_page_size :: int
  rr_continuation_token :: string

definition read_key_invalid :: "plain_key option \<Rightarrow> bool" where
  "read_key_invalid tk =
     (case tk of
        None \<Rightarrow> False
      | Some k \<Rightarrow>
          (case SplitObject (tk_object k) of
             (objectType, objectID) \<Rightarrow> objectType = '''' \<or> (objectID = '''' \<and> tk_user k = '''')))"

definition read_key_filter :: "plain_key option \<Rightarrow> read_filter" where
  "read_key_filter tk =
     (case tk of
        None \<Rightarrow> \<lparr>rf_object = '''', rf_relation = '''', rf_user = '''', rf_conditions = []\<rparr>
      | Some k \<Rightarrow> \<lparr>rf_object = tk_object k, rf_relation = tk_relation k, rf_user = tk_user k, rf_conditions = []\<rparr>)"

definition decode_read_token :: "encoder \<Rightarrow> string \<Rightarrow> string option" where
  "decode_read_token enc token =
     (case Decode enc token of
        Inl _ \<Rightarrow> None
      | Inr decoded \<Rightarrow>
          if decoded = '''' then Some ''''
          else (case Deserialize decoded of Inl _ \<Rightarrow> None | Inr (from, _) \<Rightarrow> Some from))"

definition encode_token :: "encoder \<Rightarrow> string \<Rightarrow> string \<Rightarrow> server_error + string" where
  "encode_token enc contUlid objType =
     (case Serialize contUlid objType of
        Inl e \<Rightarrow> Inl (HandleError '''' (TokenCause e))
      | Inr contToken \<Rightarrow>
          (case Encode enc contToken of
             Inl e \<Rightarrow> Inl (HandleError '''' (TokenCause e)) | Inr encoded \<Rightarrow> Inr encoded))"

definition ReadQuery_Execute :: "encoder \<Rightarrow> memory_backend \<Rightarrow> read_request \<Rightarrow> server_error + tuple list \<times> string" where
  "ReadQuery_Execute enc ds req =
     (if read_key_invalid (rr_tuple_key req)
      then Inl (ValidationError ''the 'tuple_key' field was provided but the object type field is required and both the object id and user cannot be empty'')
      else
        case decode_read_token enc (rr_continuation_token req) of
          None \<Rightarrow> Inl InvalidToken
        | Some from \<Rightarrow>
            (case ReadPage ds (rr_store_id req) (read_key_filter (rr_tuple_key req))
                    (NewPaginationOptions (rr_page_size req) from) of
               Inl e \<Rightarrow> Inl (storage_failure '''' e)
             | Inr (tuples, contUlid) \<Rightarrow>
                 if contUlid = '''' then Inr (tuples, '''')
                 else (case encode_token enc contUlid '''' of Inl e \<Rightarrow> Inl e | Inr t \<Rightarrow> Inr (tuples, t))))"

section \<open>ReadChanges\<close>

record read_changes_request =
  rc_store_id :: string
  rc_type :: string
  rc_page_size :: int
  rc_continuation_token :: string
  rc_start_time :: "int option"

text \<open>Times are nanoseconds since 1970; the zero \<open>time.Time\<close> is the first of January of the year 1.\<close>

definition zero_time :: int where
  "zero_time = - 62135596800000000000"

text \<open>The library of ULIDs: parsing, printing, and the least ULID of a time, if it has one.\<close>

record ulid_library =
  ulid_parse :: "string \<Rightarrow> nat option"
  ulid_string :: "nat \<Rightarrow> string"
  ulid_of_time :: "int \<Rightarrow> nat option"

definition changes_from :: "encoder \<Rightarrow> ulid_library \<Rightarrow> read_changes_request \<Rightarrow> server_error + string" where
  "changes_from enc lib req =
     (case Decode enc (rc_continuation_token req) of
        Inl _ \<Rightarrow> Inl InvalidToken
      | Inr token \<Rightarrow>
          if token \<noteq> '''' then
            (case Deserialize token of
               Inl _ \<Rightarrow> Inl InvalidToken
             | Inr (fromUlid, objType) \<Rightarrow>
                 if objType \<noteq> rc_type req then Inl ErrMismatchObjectType else Inr fromUlid)
          else
            let startTime = (case rc_start_time req of None \<Rightarrow> zero_time | Some t \<Rightarrow> t) in
            if startTime \<noteq> zero_time then
              (case ulid_of_time lib startTime of
                 None \<Rightarrow> Inl (HandleError '''' InvalidStartTime) | Some u \<Rightarrow> Inr (ulid_string lib u))
            else Inr '''')"

definition ReadChangesQuery_Execute ::
    "encoder \<Rightarrow> ulid_library \<Rightarrow> int \<Rightarrow> int \<Rightarrow> memory_backend \<Rightarrow> read_changes_request
     \<Rightarrow> server_error + tuple_change list \<times> string" where
  "ReadChangesQuery_Execute enc lib horizonOffset now ds req =
     (case changes_from enc lib req of
        Inl e \<Rightarrow> Inl e
      | Inr fromUlid \<Rightarrow>
          (case ReadChanges (ulid_parse lib) (ulid_string lib) now ds (rc_store_id req)
                  \<lparr>rcf_object_type = rc_type req, rcf_horizon_offset = horizonOffset\<rparr>
                  \<lparr>rco_pagination = NewPaginationOptions (rc_page_size req) fromUlid, rco_sort_desc = False\<rparr> of
             Inl e \<Rightarrow>
               if e = ErrNotFound then Inr ([], rc_continuation_token req) else Inl (storage_failure '''' e)
           | Inr (changes, contUlid) \<Rightarrow>
               if contUlid = '''' then Inr (changes, '''')
               else (case encode_token enc contUlid (rc_type req) of Inl e \<Rightarrow> Inl e | Inr t \<Rightarrow> Inr (changes, t))))"

section \<open>ListStores and ReadAuthorizationModels\<close>

definition page_command ::
    "encoder \<Rightarrow> (pagination_options \<Rightarrow> storage_error + 'a list \<times> string) \<Rightarrow> int \<Rightarrow> string \<Rightarrow> server_error + 'a list \<times> string" where
  "page_command enc backend pageSize token =
     (case Decode enc token of
        Inl _ \<Rightarrow> Inl InvalidToken
      | Inr decoded \<Rightarrow>
          (case backend (NewPaginationOptions pageSize decoded) of
             Inl e \<Rightarrow> Inl (storage_failure '''' e)
           | Inr (items, contToken) \<Rightarrow>
               (case Encode enc contToken of
                  Inl e \<Rightarrow> Inl (HandleError '''' (TokenCause e)) | Inr encoded \<Rightarrow> Inr (items, encoded))))"

definition ListStoresQuery_Execute ::
    "encoder \<Rightarrow> memory_backend \<Rightarrow> string \<Rightarrow> int \<Rightarrow> string \<Rightarrow> string list \<Rightarrow> server_error + store list \<times> string" where
  "ListStoresQuery_Execute enc ds name pageSize token storeIDs =
     page_command enc (ListStores ds storeIDs name) pageSize token"

definition ReadAuthorizationModelsQuery_Execute ::
    "encoder \<Rightarrow> memory_backend \<Rightarrow> string \<Rightarrow> int \<Rightarrow> string \<Rightarrow> server_error + authorization_model list \<times> string" where
  "ReadAuthorizationModelsQuery_Execute enc ds st pageSize token =
     page_command enc (ReadAuthorizationModels ds st) pageSize token"

section \<open>Clients\<close>

text \<open>A client that sends the token of each answer with the next request until it gets an empty
  one; \<open>None\<close>: an error, or more pages than the fuel allows.\<close>

fun page_all :: "(string \<Rightarrow> server_error + 'a list \<times> string) \<Rightarrow> nat \<Rightarrow> string \<Rightarrow> 'a list option" where
  "page_all command 0 token = None"
| "page_all command (Suc n) token =
     (case command token of
        Inl _ \<Rightarrow> None
      | Inr (xs, token') \<Rightarrow>
          if token' = '''' then Some xs else map_option (\<lambda>rest. xs @ rest) (page_all command n token'))"

text \<open>A client of \<open>ReadChanges\<close> that goes on until an answer has no changes.\<close>

fun follow_all :: "(string \<Rightarrow> server_error + 'a list \<times> string) \<Rightarrow> nat \<Rightarrow> string \<Rightarrow> 'a list option" where
  "follow_all command 0 token = None"
| "follow_all command (Suc n) token =
     (case command token of
        Inl _ \<Rightarrow> None
      | Inr (xs, token') \<Rightarrow>
          if xs = [] then Some [] else map_option (\<lambda>rest. xs @ rest) (follow_all command n token'))"

section \<open>Paging by position\<close>

text \<open>What a command that pages through a list by position promises: on the first request, and
  on the token of a position, the page that starts there and the token of the next page.\<close>

locale paged_command =
  fixes command :: "int \<Rightarrow> string \<Rightarrow> server_error + 'a list \<times> string"
    and items :: "'a list"
    and mark :: "nat \<Rightarrow> string"
  assumes page: "0 < ps \<Longrightarrow> int (length items) + ps < 2 ^ 63 \<Longrightarrow> k \<le> length items \<Longrightarrow>
      token = '''' \<and> k = 0 \<or> token = mark k \<Longrightarrow>
      command ps token = Inr (take (nat ps) (drop k items),
        if k + nat ps < length items then mark (k + nat ps) else '''')"
    and default_size: "ps \<le> 0 \<Longrightarrow> command ps token = command DefaultPageSize token"
    and mark_nonempty: "mark k \<noteq> ''''"
begin

lemma page_all_from:
  assumes "0 < ps" "int (length items) + ps < 2 ^ 63"
  shows "k \<le> length items \<Longrightarrow> length items - k < n \<Longrightarrow> token = '''' \<and> k = 0 \<or> token = mark k \<Longrightarrow>
    page_all (command ps) n token = Some (drop k items)"
proof (induction n arbitrary: k token)
  case (Suc n)
  note step = page [OF assms Suc.prems(1,3)]
  show ?case
  proof (cases "k + nat ps < length items")
    case True
    have "page_all (command ps) n (mark (k + nat ps)) = Some (drop (k + nat ps) items)"
      by (rule Suc.IH) (use True Suc.prems assms(1) in auto)
    moreover have "drop k items = take (nat ps) (drop k items) @ drop (k + nat ps) items"
      by (metis add.commute append_take_drop_id drop_drop)
    ultimately show ?thesis using True by (simp add: step mark_nonempty)
  qed (simp add: step)
qed simp

lemma page_all_complete:
  assumes "int (length items) + max ps DefaultPageSize < 2 ^ 63"
  shows "page_all (command ps) (Suc (length items)) '''' = Some items"
proof (cases "0 < ps")
  case False
  then have "command ps = command DefaultPageSize" by (auto simp: default_size)
  with page_all_from [of DefaultPageSize 0 "Suc (length items)" "''''"] assms show ?thesis
    by (simp add: DefaultPageSize_def del: page_all.simps)
qed (use page_all_from [of ps 0 "Suc (length items)" "''''"] assms in \<open>simp del: page_all.simps\<close>)

end

lemma NewPaginationOptions_default:
  "ps \<le> 0 \<Longrightarrow> NewPaginationOptions ps token = NewPaginationOptions DefaultPageSize token"
  by (simp add: NewPaginationOptions_def DefaultPageSize_def)

lemma clamp_page_at:
  assumes "0 < ps" "int (length xs) + ps < 2 ^ 63" "k \<le> length xs"
  shows "clamp_page (int k) ps xs = Inr (take (nat ps) (drop k xs), min (int (length xs)) (int k + ps))"
proof -
  have "wrap64 (int k + ps) = int k + ps"
    using assms by (intro wrap64_id) (simp add: int64_range_def)
  then show ?thesis
    using assms by (auto simp: clamp_page_def Let_def min_def max_def)
qed

lemma page_params_at:
  assumes "0 < ps" "int64_range (int k)" "token = '''' \<and> k = 0 \<or> token = Itoa (int k)"
  shows "page_params (NewPaginationOptions ps token) = Some (int k, ps)"
  using assms by (auto simp: page_params_def NewPaginationOptions_def)

lemma next_token:
  assumes "0 < ps" "k \<le> n"
  shows "(if min (int n) (int k + ps) \<noteq> int n then Itoa (min (int n) (int k + ps)) else '''') =
    (if k + nat ps < n then Itoa (int (k + nat ps)) else '''')"
proof -
  have "min (int n) (int k + ps) = int (min n (k + nat ps))" using assms by auto
  then show ?thesis using assms by (auto simp: min_def)
qed

definition listed_stores :: "memory_backend \<Rightarrow> string list \<Rightarrow> string \<Rightarrow> store list" where
  "listed_stores s ids name =
     (let stores = map snd (mb_stores s);
          stores = (if ids \<noteq> [] then concat (map (\<lambda>i. filter (\<lambda>st. st_id st = i) stores) ids) else stores);
          stores = (if name \<noteq> '''' then filter (\<lambda>st. st_name st = name) stores else stores) in
      sort_key st_id stores)"

definition listed_models :: "memory_backend \<Rightarrow> string \<Rightarrow> authorization_model list" where
  "listed_models s st =
     rev (sort_key am_id (map (\<lambda>(k, e). me_model e) (case mb_models s st of None \<Rightarrow> [] | Some tm \<Rightarrow> tm)))"

lemma ListStores_at:
  assumes "0 < ps" "int (length (listed_stores s ids name)) + ps < 2 ^ 63" "k \<le> length (listed_stores s ids name)"
    "token = '''' \<and> k = 0 \<or> token = Itoa (int k)"
  shows "ListStores s ids name (NewPaginationOptions ps token) =
    Inr (take (nat ps) (drop k (listed_stores s ids name)),
      if k + nat ps < length (listed_stores s ids name) then Itoa (int (k + nat ps)) else '''')"
proof -
  let ?xs = "listed_stores s ids name"
  have k: "int64_range (int k)" using assms by (simp add: int64_range_def)
  have "ListStores s ids name (NewPaginationOptions ps token) =
    (case page_params (NewPaginationOptions ps token) of None \<Rightarrow> Inl AtoiError
      | Some (from, pageSize) \<Rightarrow> (case clamp_page from pageSize ?xs of Inl e \<Rightarrow> Inl e
           | Inr (res, to) \<Rightarrow> if res = [] then Inr ([], '''')
               else Inr (res, if to \<noteq> int (length ?xs) then Itoa to else '''')))"
    unfolding ListStores_def listed_stores_def Let_def ..
  then show ?thesis
    using assms(1,3) next_token [of ps k "length ?xs"]
    by (simp add: page_params_at [OF assms(1) k assms(4)] clamp_page_at [OF assms(1-3)])
qed

lemma ReadAuthorizationModels_at:
  assumes "0 < ps" "int (length (listed_models s st)) + ps < 2 ^ 63" "k \<le> length (listed_models s st)"
    "token = '''' \<and> k = 0 \<or> token = Itoa (int k)"
  shows "ReadAuthorizationModels s st (NewPaginationOptions ps token) =
    Inr (take (nat ps) (drop k (listed_models s st)),
      if k + nat ps < length (listed_models s st) then Itoa (int (k + nat ps)) else '''')"
proof -
  have k: "int64_range (int k)" using assms by (simp add: int64_range_def)
  show ?thesis
    using next_token [OF assms(1,3)]
    unfolding ReadAuthorizationModels_def Let_def listed_models_def [symmetric]
    by (simp add: page_params_at [OF assms(1) k assms(4)] clamp_page_at [OF assms(1-3)])
qed

lemma digits_value_plain: "digits_value acc s = Some n \<Longrightarrow> CHR ''|'' \<notin> set s"
  by (induction acc s rule: digits_value.induct) (auto simp: digit_value_def split: option.splits if_splits)

lemma Itoa_plain: "CHR ''|'' \<notin> set (Itoa n)"
  using digits_value_plain [OF digits_value_nat_digits] by (auto simp: Itoa_def)

context token_codec
begin

lemma page_command_paged:
  assumes "\<And>ps k token. 0 < ps \<Longrightarrow> int (length xs) + ps < 2 ^ 63 \<Longrightarrow> k \<le> length xs \<Longrightarrow>
      token = '''' \<and> k = 0 \<or> token = Itoa (int k) \<Longrightarrow>
      backend (NewPaginationOptions ps token) = Inr (take (nat ps) (drop k xs),
        if k + nat ps < length xs then Itoa (int (k + nat ps)) else '''')"
    and "Encode enc '''' = Inr ''''"
  shows "paged_command (page_command enc backend) xs (\<lambda>k. token_for enc (Itoa (int k)))"
proof
  fix ps :: int and k :: nat and token
  assume *: "0 < ps" "int (length xs) + ps < 2 ^ 63" "k \<le> length xs"
    "token = '''' \<and> k = 0 \<or> token = token_for enc (Itoa (int k))"
  obtain plain where plain: "Decode enc token = Inr plain" "plain = '''' \<and> k = 0 \<or> plain = Itoa (int k)"
    using *(4) decode_empty by auto
  show "page_command enc backend ps token = Inr (take (nat ps) (drop k xs),
      if k + nat ps < length xs then token_for enc (Itoa (int (k + nat ps))) else '''')"
    using assms(1) [OF *(1-3) plain(2)] plain(1) assms(2) by (simp add: page_command_def)
qed (simp_all add: page_command_def NewPaginationOptions_default cong: sum.case_cong)

lemma decode_read_token_for:
  "decode_read_token enc '''' = Some ''''"
  "decode_read_token enc (token_for enc (Itoa n @ ''|'')) = Some (Itoa n)"
  using Deserialize_Serialize [of "Itoa n" "''''"] Itoa_plain
  by (simp_all add: decode_read_token_def decode_empty Serialize_def)

lemma ReadQuery_paged:
  assumes "\<not> read_key_invalid tk"
  shows "paged_command
    (\<lambda>ps token. ReadQuery_Execute enc ds
      \<lparr>rr_store_id = st, rr_tuple_key = tk, rr_page_size = ps, rr_continuation_token = token\<rparr>)
    (map AsTuple (read_matches ds st (read_key_filter tk))) (\<lambda>k. token_for enc (Itoa (int k) @ ''|''))"
proof
  let ?ms = "read_matches ds st (read_key_filter tk)"
  fix ps :: int and k :: nat and token
  assume *: "0 < ps" "int (length (map AsTuple ?ms)) + ps < 2 ^ 63" "k \<le> length (map AsTuple ?ms)"
    "token = '''' \<and> k = 0 \<or> token = token_for enc (Itoa (int k) @ ''|'')"
  obtain plain where plain: "decode_read_token enc token = Some plain" "plain = '''' \<and> k = 0 \<or> plain = Itoa (int k)"
    using *(4) decode_read_token_for by auto
  have "ReadPage ds st (read_key_filter tk) (NewPaginationOptions ps plain) =
      Inr (map AsTuple (take (nat ps) (drop k ?ms)), if k + nat ps < length ?ms then Itoa (int (k + nat ps)) else '''')"
    using * plain(2) by (intro ReadPage_at) simp_all
  then show "ReadQuery_Execute enc ds
      \<lparr>rr_store_id = st, rr_tuple_key = tk, rr_page_size = ps, rr_continuation_token = token\<rparr> =
    Inr (take (nat ps) (drop k (map AsTuple ?ms)), if k + nat ps < length (map AsTuple ?ms)
      then token_for enc (Itoa (int (k + nat ps)) @ ''|'') else '''')"
    using assms plain(1)
    by (simp add: ReadQuery_Execute_def encode_token_def Serialize_def take_map drop_map)
qed (simp_all add: ReadQuery_Execute_def NewPaginationOptions_default cong: sum.case_cong option.case_cong)

end

interpretation stores_pages: paged_command
    "\<lambda>ps token. ListStoresQuery_Execute Base64Encoder ds name ps token ids" "listed_stores ds ids name"
    "\<lambda>k. token_for Base64Encoder (Itoa (int k))" for ds name ids
  unfolding ListStoresQuery_Execute_def
  by (intro base64.page_command_paged ListStores_at) (simp_all add: Base64Encoder_def)

interpretation models_pages: paged_command
    "ReadAuthorizationModelsQuery_Execute Base64Encoder ds st" "listed_models ds st"
    "\<lambda>k. token_for Base64Encoder (Itoa (int k))" for ds st
  unfolding ReadAuthorizationModelsQuery_Execute_def
  by (intro base64.page_command_paged ReadAuthorizationModels_at) (simp_all add: Base64Encoder_def)

interpretation store_pages: paged_command
    "\<lambda>ps token. ReadQuery_Execute Base64Encoder ds
      \<lparr>rr_store_id = st, rr_tuple_key = None, rr_page_size = ps, rr_continuation_token = token\<rparr>"
    "map AsTuple (read_matches ds st (read_key_filter None))" "\<lambda>k. token_for Base64Encoder (Itoa (int k) @ ''|'')" for ds st
  by (rule base64.ReadQuery_paged) (simp add: read_key_invalid_def)

section \<open>Following the changelog\<close>

text \<open>What the command relies on of the ULID library: printing can be undone, and a printed ULID
  is not empty and has no pipe.\<close>

definition ulids_print :: "ulid_library \<Rightarrow> bool" where
  "ulids_print lib \<longleftrightarrow> (\<forall>u. ulid_parse lib (ulid_string lib u) = Some u \<and> ulid_string lib u \<noteq> '''' \<and>
     CHR ''|'' \<notin> set (ulid_string lib u))"

definition effective_size :: "int \<Rightarrow> int" where
  "effective_size ps = (if 0 < ps then ps else DefaultPageSize)"

lemma NewPaginationOptions_effective:
  "NewPaginationOptions ps token = NewPaginationOptions (effective_size ps) token" "0 < effective_size ps"
  by (simp_all add: effective_size_def NewPaginationOptions_def DefaultPageSize_def)

definition change_token :: "encoder \<Rightarrow> ulid_library \<Rightarrow> string \<Rightarrow> tuple_change_rec list \<Rightarrow> string" where
  "change_token enc lib ty seen = token_for enc (ulid_string lib (tcr_ulid (last seen)) @ ''|'' @ ty)"

context token_codec
begin

lemma changes_from_token:
  assumes "ulids_print lib" "token = '''' \<and> seen = [] \<or> seen \<noteq> [] \<and> token = change_token enc lib ty seen"
  shows "changes_from enc lib \<lparr>rc_store_id = st, rc_type = ty, rc_page_size = ps, rc_continuation_token = token,
      rc_start_time = None\<rparr> = Inr (if seen = [] then '''' else ulid_string lib (tcr_ulid (last seen)))"
proof (cases "seen = []")
  case False
  let ?u = "ulid_string lib (tcr_ulid (last seen))"
  have "Deserialize (?u @ ''|'' @ ty) = Inr (?u, ty)"
    using assms(1) by (intro conjunct1 [OF Deserialize_Serialize]) (simp_all add: Serialize_def ulids_print_def)
  moreover have "token = token_for enc (?u @ ''|'' @ ty)" using False assms(2) by (simp add: change_token_def)
  ultimately show ?thesis using False by (simp add: changes_from_def)
qed (use assms in \<open>simp add: changes_from_def decode_empty\<close>)

lemma changes_page:
  fixes now offset
  assumes lib: "ulids_print lib" and sorted: "sorted_wrt (<) (map tcr_ulid (mb_changes ds st))"
    and split: "visible ty (now - offset) (mb_changes ds st) = seen @ rest"
    and token: "token = '''' \<and> seen = [] \<or> seen \<noteq> [] \<and> token = change_token enc lib ty seen"
    and page_def: "page = take (nat (effective_size ps)) rest"
  shows "ReadChangesQuery_Execute enc lib offset now ds \<lparr>rc_store_id = st, rc_type = ty, rc_page_size = ps,
      rc_continuation_token = token, rc_start_time = None\<rparr> =
    (if rest = [] then Inr ([], token) else Inr (map tcr_change page, change_token enc lib ty (seen @ page)))"
proof -
  let ?from = "if seen = [] then '''' else ulid_string lib (tcr_ulid (last seen))"
  let ?f = "\<lparr>rcf_object_type = ty, rcf_horizon_offset = offset\<rparr>"
  have lib': "\<And>u. ulid_parse lib (ulid_string lib u) = Some u \<and> ulid_string lib u \<noteq> ''''"
    using lib by (simp add: ulids_print_def)
  have "ReadChanges (ulid_parse lib) (ulid_string lib) now ds st ?f
      \<lparr>rco_pagination = NewPaginationOptions (effective_size ps) ?from, rco_sort_desc = False\<rparr> =
    (if rest = [] then Inl ErrNotFound else Inr (map tcr_change page, ulid_string lib (tcr_ulid (last page))))"
    unfolding page_def
    by (rule ReadChanges_page [where pre = seen])
      (use lib' split sorted in \<open>simp_all add: NewPaginationOptions_effective(2)\<close>)
  moreover have "rest \<noteq> [] \<Longrightarrow> page \<noteq> []" using NewPaginationOptions_effective(2) [of ps] by (simp add: page_def)
  ultimately show ?thesis
    using lib' by (simp add: ReadChangesQuery_Execute_def changes_from_token [OF lib token]
        NewPaginationOptions_effective(1) [of ps] encode_token_def Serialize_def change_token_def)
qed

lemma follow_all_from:
  assumes lib: "ulids_print lib" and sorted: "sorted_wrt (<) (map tcr_ulid (mb_changes ds st))"
  shows "visible ty (now - offset) (mb_changes ds st) = seen @ rest \<Longrightarrow> length rest < n \<Longrightarrow>
    token = '''' \<and> seen = [] \<or> seen \<noteq> [] \<and> token = change_token enc lib ty seen \<Longrightarrow>
    follow_all (\<lambda>t. ReadChangesQuery_Execute enc lib offset now ds \<lparr>rc_store_id = st, rc_type = ty,
      rc_page_size = ps, rc_continuation_token = t, rc_start_time = None\<rparr>) n token = Some (map tcr_change rest)"
proof (induction n arbitrary: seen rest token)
  case (Suc n)
  let ?page = "take (nat (effective_size ps)) rest"
  note page = changes_page [OF lib sorted Suc.prems(1,3) refl, of ps]
  show ?case
  proof (cases "rest = []")
    case False
    have nonempty: "?page \<noteq> []" "0 < nat (effective_size ps)" using False NewPaginationOptions_effective(2) [of ps] by auto
    have "follow_all (\<lambda>t. ReadChangesQuery_Execute enc lib offset now ds \<lparr>rc_store_id = st, rc_type = ty,
        rc_page_size = ps, rc_continuation_token = t, rc_start_time = None\<rparr>) n (change_token enc lib ty (seen @ ?page)) =
      Some (map tcr_change (drop (nat (effective_size ps)) rest))"
    proof (rule Suc.IH [of "seen @ ?page"])
      have "0 < length rest" using False by simp
      then show "length (drop (nat (effective_size ps)) rest) < n"
        using Suc.prems(2) nonempty(2) unfolding length_drop by linarith
    qed (use Suc.prems nonempty in simp_all)
    moreover have "map tcr_change rest = map tcr_change ?page @ map tcr_change (drop (nat (effective_size ps)) rest)"
      by (metis append_take_drop_id map_append)
    ultimately show ?thesis using False nonempty by (simp add: page)
  qed (simp add: page)
qed simp

end

section \<open>Properties\<close>

text \<open>C19: A client that pages through the tuples of a store with any valid filter and any page
  size, sending back the encoded tokens it is given, comes to an end and has then read every
  matching tuple exactly once, in the order of the store.\<close>

theorem ReadQuery_reads_everything:
  assumes "\<not> read_key_invalid tk"
    and "int (length (read_matches ds st (read_key_filter tk))) + max ps DefaultPageSize < 2 ^ 63"
  shows "page_all (\<lambda>token. ReadQuery_Execute Base64Encoder ds
      \<lparr>rr_store_id = st, rr_tuple_key = tk, rr_page_size = ps, rr_continuation_token = token\<rparr>)
      (Suc (length (read_matches ds st (read_key_filter tk)))) '''' =
    Some (map AsTuple (read_matches ds st (read_key_filter tk)))"
  using paged_command.page_all_complete [OF base64.ReadQuery_paged [OF assms(1)], of ds st ps] assms(2)
  by (simp del: page_all.simps)

theorem ReadQuery_reads_everything_witness:
  "page_all (\<lambda>token. ReadQuery_Execute Base64Encoder example_backend
      \<lparr>rr_store_id = ''s'', rr_tuple_key = Some \<lparr>tk_object = ''doc:'', tk_relation = ''viewer'', tk_user = ''user:anne''\<rparr>,
       rr_page_size = 1, rr_continuation_token = token\<rparr>) 3 '''' \<noteq> None"
proof -
  let ?tk = "Some \<lparr>tk_object = ''doc:'', tk_relation = ''viewer'', tk_user = ''user:anne''\<rparr>"
  have v: "\<not> read_key_invalid ?tk" by code_simp
  have n: "length (read_matches example_backend ''s'' (read_key_filter ?tk)) = 2" by code_simp
  from ReadQuery_reads_everything [OF v, of example_backend "''s''" 1] n
  show ?thesis by (simp add: DefaultPageSize_def numeral_3_eq_3 del: page_all.simps)
qed

text \<open>C20: A client that follows the changelog of an object type through the command, with the
  tokens it is given, comes to an end and has then seen every change of the type up to the
  horizon exactly once, in order; a token given out for one type is refused for any other.  The
  hypotheses are that ULIDs survive being printed and parsed, print without pipes, and grow
  along the log.\<close>

theorem ReadChangesQuery_follows_changelog:
  assumes "ulids_print lib" and "sorted_wrt (<) (map tcr_ulid (mb_changes ds st))"
  shows "follow_all (\<lambda>t. ReadChangesQuery_Execute Base64Encoder lib offset now ds \<lparr>rc_store_id = st, rc_type = ty,
      rc_page_size = ps, rc_continuation_token = t, rc_start_time = None\<rparr>) (Suc (length (mb_changes ds st))) '''' =
      Some (map tcr_change (visible ty (now - offset) (mb_changes ds st))) \<and>
    (\<forall>cs t ty' ps' start. ReadChangesQuery_Execute Base64Encoder lib offset now ds \<lparr>rc_store_id = st, rc_type = ty,
      rc_page_size = ps, rc_continuation_token = '''', rc_start_time = None\<rparr> = Inr (cs, t) \<longrightarrow> cs \<noteq> [] \<longrightarrow> ty' \<noteq> ty \<longrightarrow>
      ReadChangesQuery_Execute Base64Encoder lib offset now ds \<lparr>rc_store_id = st, rc_type = ty',
        rc_page_size = ps', rc_continuation_token = t, rc_start_time = start\<rparr> = Inl ErrMismatchObjectType)"
proof (intro conjI allI impI)
  have "length (visible ot h cs) \<le> length cs" for ot h cs
    unfolding visible_def using length_takeWhile_le length_filter_le by (meson order_trans)
  then show "follow_all (\<lambda>t. ReadChangesQuery_Execute Base64Encoder lib offset now ds \<lparr>rc_store_id = st, rc_type = ty,
      rc_page_size = ps, rc_continuation_token = t, rc_start_time = None\<rparr>) (Suc (length (mb_changes ds st))) '''' =
      Some (map tcr_change (visible ty (now - offset) (mb_changes ds st)))"
    by (intro base64.follow_all_from [OF assms, of _ _ _ "[]"]) (simp_all add: less_Suc_eq_le)
next
  fix cs t ty' ps' start
  let ?rest = "visible ty (now - offset) (mb_changes ds st)"
  let ?page = "take (nat (effective_size ps)) ?rest"
  let ?u = "ulid_string lib (tcr_ulid (last ?page))"
  assume first: "ReadChangesQuery_Execute Base64Encoder lib offset now ds \<lparr>rc_store_id = st, rc_type = ty,
      rc_page_size = ps, rc_continuation_token = '''', rc_start_time = None\<rparr> = Inr (cs, t)" and "cs \<noteq> []" "ty' \<noteq> ty"
  then have "t = change_token Base64Encoder lib ty ?page"
    using base64.changes_page [OF assms, of ty now offset "[]" ?rest "''''" ?page ps] by (simp split: if_splits)
  moreover have "Deserialize (?u @ ''|'' @ ty) = Inr (?u, ty)"
    using assms(1) by (intro conjunct1 [OF Deserialize_Serialize]) (simp_all add: Serialize_def ulids_print_def)
  ultimately show "ReadChangesQuery_Execute Base64Encoder lib offset now ds \<lparr>rc_store_id = st, rc_type = ty',
        rc_page_size = ps', rc_continuation_token = t, rc_start_time = start\<rparr> = Inl ErrMismatchObjectType"
    using \<open>ty' \<noteq> ty\<close> by (simp add: ReadChangesQuery_Execute_def changes_from_def change_token_def)
qed

definition sample_ulids :: ulid_library where
  "sample_ulids = \<lparr>ulid_parse = (\<lambda>t. Some (length t - 1)), ulid_string = (\<lambda>u. replicate (Suc u) CHR ''0''),
     ulid_of_time = (\<lambda>_. None)\<rparr>"

theorem ReadChangesQuery_follows_changelog_witness:
  "follow_all (\<lambda>t. ReadChangesQuery_Execute Base64Encoder sample_ulids 0 100 example_backend \<lparr>rc_store_id = ''s'',
      rc_type = ''doc'', rc_page_size = 1, rc_continuation_token = t, rc_start_time = None\<rparr>)
      (Suc (length (mb_changes example_backend ''s''))) '''' =
    Some (map tcr_change (visible ''doc'' (100 - 0) (mb_changes example_backend ''s'')))"
proof -
  have "ulids_print sample_ulids" by (simp add: ulids_print_def sample_ulids_def)
  moreover have "sorted_wrt (<) (map tcr_ulid (mb_changes example_backend ''s''))" by code_simp
  ultimately show ?thesis by (rule conjunct1 [OF ReadChangesQuery_follows_changelog])
qed

text \<open>C39: A client can make \<open>Read\<close> panic: the base64 text of \<open>-1|\<close> is accepted as a continuation
  token, and the datastore slices with it, whatever the store holds and whatever is asked.\<close>

theorem ReadQuery_forged_token_panics:
  assumes "\<not> read_key_invalid tk"
  shows "ReadQuery_Execute Base64Encoder ds
      \<lparr>rr_store_id = st, rr_tuple_key = tk, rr_page_size = ps, rr_continuation_token = ''LTF8''\<rparr> = Inl Panics"
proof -
  have "b64_value CHR ''L'' = Some 11" "b64_value CHR ''T'' = Some 19" "b64_value CHR ''F'' = Some 5"
    "b64_value CHR ''8'' = Some 60" by code_simp+
  then have "b64_decode ''LTF8'' = Some ''-1|''"
    by (simp add: b64_decode_def Let_def byte_at_def char_of_def bit_iff_odd)
  moreover have "Deserialize ''-1|'' = Inr (''-1'', '''')" by code_simp
  ultimately have "decode_read_token Base64Encoder ''LTF8'' = Some ''-1''"
    by (simp add: decode_read_token_def Base64Encoder_def)
  moreover have "Atoi ''-1'' = Some (-1)" by code_simp
  ultimately show ?thesis
    using assms by (simp add: ReadQuery_Execute_def ReadPage_def mem_read_def NewPaginationOptions_def Let_def
        storage_failure_def)
qed

theorem ReadQuery_forged_token_panics_witness:
  "ReadQuery_Execute Base64Encoder (New [])
      \<lparr>rr_store_id = ''s'', rr_tuple_key = None, rr_page_size = 10, rr_continuation_token = ''LTF8''\<rparr> = Inl Panics"
  by (rule ReadQuery_forged_token_panics) (simp add: read_key_invalid_def)

text \<open>Listing the stores, and listing the models of a store, are complete in the same way.\<close>

lemma listings_complete:
  "int (length (listed_stores ds ids name)) + max ps DefaultPageSize < 2 ^ 63 \<Longrightarrow>
    page_all (\<lambda>token. ListStoresQuery_Execute Base64Encoder ds name ps token ids)
      (Suc (length (listed_stores ds ids name))) '''' = Some (listed_stores ds ids name)"
  "int (length (listed_models ds st)) + max ps DefaultPageSize < 2 ^ 63 \<Longrightarrow>
    page_all (ReadAuthorizationModelsQuery_Execute Base64Encoder ds st ps)
      (Suc (length (listed_models ds st))) '''' = Some (listed_models ds st)"
  by (rule stores_pages.page_all_complete models_pages.page_all_complete, assumption)+

end
