(* ===== verification/AdminCommands.thy ===== *)
theory AdminCommands
  imports ReadCommands Validation
begin

text \<open>
  The commands on stores, authorization models and assertions (\<^verbatim>\<open>create_store.go\<close>,
  \<^verbatim>\<open>get_store.go\<close>, \<^verbatim>\<open>delete_store.go\<close>, \<^verbatim>\<open>write_authzmodel.go\<close>, \<^verbatim>\<open>read_authzmodel.go\<close>,
  \<^verbatim>\<open>write_assertions.go\<close> and \<^verbatim>\<open>read_assertions.go\<close> of \<^verbatim>\<open>pkg/server/commands\<close>) on the in-memory
  datastore.  Fresh ULIDs, the size of an encoded message, the compiler of conditions and the
  model graph are parameters.
\<close>

datatype command_error =
    Server server_error
  | ExceededEntityLimit string int
  | ModelSizeLimit int int
  | InvalidAuthorizationModelInput ts_error
  | InvalidSchemaVersion
  | ModelGraph ts_error
  | InvalidAssertionKey tuple_cause
  | InvalidContextualTuple tuple_error

section \<open>Stores\<close>

definition CreateStoreCommand_Execute ::
    "string \<Rightarrow> int \<Rightarrow> memory_backend \<Rightarrow> string \<Rightarrow> (command_error + store) \<times> memory_backend" where
  "CreateStoreCommand_Execute fresh now ds name =
     (case CreateStore now ds fresh name of
        (Inl e, ds') \<Rightarrow> (Inl (Server (storage_failure '''' e)), ds')
      | (Inr st, ds') \<Rightarrow> (Inr st, ds'))"

definition GetStoreQuery_Execute :: "memory_backend \<Rightarrow> string \<Rightarrow> command_error + store" where
  "GetStoreQuery_Execute ds storeID =
     (case GetStore ds storeID of
        Inl e \<Rightarrow> Inl (Server (if e = ErrNotFound then ErrStoreIDNotFound else storage_failure '''' e))
      | Inr st \<Rightarrow> Inr st)"

definition DeleteStoreCommand_Execute :: "memory_backend \<Rightarrow> string \<Rightarrow> command_error option \<times> memory_backend" where
  "DeleteStoreCommand_Execute ds storeID =
     (case GetStore ds storeID of
        Inl e \<Rightarrow> if e = ErrNotFound then (None, ds) else (Some (Server (storage_failure '''' e)), ds)
      | Inr st \<Rightarrow> (None, DeleteStore ds (st_id st)))"

section \<open>Authorization models\<close>

record write_model_request =
  wm_store_id :: string
  wm_schema_version :: string
  wm_type_definitions :: "type_definition list"
  wm_conditions :: "(string \<times> condition_def) list"

record model_environment =
  me_fresh_id :: string
  me_message_size :: "authorization_model \<Rightarrow> int"
  me_graph_error :: "authorization_model \<Rightarrow> string option"
  me_compile :: "condition_def \<Rightarrow> string option"

definition model_of_request :: "model_environment \<Rightarrow> write_model_request \<Rightarrow> authorization_model" where
  "model_of_request env req =
     \<lparr>am_id = me_fresh_id env,
      am_schema_version = (if wm_schema_version req = '''' then SchemaVersion1_1 else wm_schema_version req),
      am_type_definitions = wm_type_definitions req, am_conditions = wm_conditions req\<rparr>"

definition WriteAuthorizationModelCommand_Execute ::
    "model_environment \<Rightarrow> int \<Rightarrow> memory_backend \<Rightarrow> write_model_request \<Rightarrow> (command_error + string) \<times> memory_backend" where
  "WriteAuthorizationModelCommand_Execute env maxSize ds req =
     (if int (length (wm_type_definitions req)) > mb_max_types_per_model ds
      then (Inl (ExceededEntityLimit ''type definitions in an authorization model'' (mb_max_types_per_model ds)), ds)
      else
        let model = model_of_request env req; modelSize = me_message_size env model in
        if modelSize > maxSize then (Inl (ModelSizeLimit modelSize maxSize), ds)
        else (case NewAndValidate (me_graph_error env) (me_compile env) model of
                Inl e \<Rightarrow> (Inl (InvalidAuthorizationModelInput e), ds)
              | Inr _ \<Rightarrow> (Inr (am_id model), WriteAuthorizationModel ds (wm_store_id req) model)))"

definition ReadAuthorizationModelQuery_Execute ::
    "memory_backend \<Rightarrow> string \<Rightarrow> string \<Rightarrow> command_error + authorization_model" where
  "ReadAuthorizationModelQuery_Execute ds st modelID =
     (case ReadAuthorizationModel ds st modelID of
        Inl e \<Rightarrow> Inl (Server (if e = ErrNotFound then AuthorizationModelNotFound modelID else storage_failure '''' e))
      | Inr m \<Rightarrow> Inr m)"

section \<open>Assertions\<close>

definition validate_assertion :: "value_library \<Rightarrow> type_system \<Rightarrow> assertion \<Rightarrow> command_error option" where
  "validate_assertion lib typesys a =
     (case ValidateUserObjectRelation typesys (ConvertAssertionTupleKeyToTupleKey (as_tuple_key a)) of
        Some e \<Rightarrow> Some (InvalidAssertionKey e)
      | None \<Rightarrow> first_err (\<lambda>ct. map_option InvalidContextualTuple (ValidateTupleForWrite lib typesys ct))
                  (as_contextual_tuples a))"

definition WriteAssertionsCommand_Execute ::
    "value_library \<Rightarrow> (authorization_model \<Rightarrow> string option) \<Rightarrow> (assertion \<Rightarrow> int) \<Rightarrow> int \<Rightarrow> memory_backend
     \<Rightarrow> string \<Rightarrow> string \<Rightarrow> assertion list \<Rightarrow> command_error option \<times> memory_backend" where
  "WriteAssertionsCommand_Execute lib graph_error byteSize maxSize ds st modelID as =
     (case ReadAuthorizationModel ds st modelID of
        Inl e \<Rightarrow>
          (Some (Server (if e = ErrNotFound then AuthorizationModelNotFound modelID else storage_failure '''' e)), ds)
      | Inr model \<Rightarrow>
          if \<not> IsSchemaVersionSupported (am_schema_version model) then (Some InvalidSchemaVersion, ds)
          else (case TypeSystem.New graph_error model of
                  Inl e \<Rightarrow> (Some (ModelGraph e), ds)
                | Inr typesys \<Rightarrow>
                    if sum_list (map byteSize as) > maxSize then (Some (ExceededEntityLimit ''bytes'' maxSize), ds)
                    else (case first_err (validate_assertion lib typesys) as of
                            Some e \<Rightarrow> (Some e, ds)
                          | None \<Rightarrow> (None, WriteAssertions ds st modelID as))))"

definition ReadAssertionsQuery_Execute :: "memory_backend \<Rightarrow> string \<Rightarrow> string \<Rightarrow> string \<times> assertion list" where
  "ReadAssertionsQuery_Execute ds st modelID = (modelID, ReadAssertions ds st modelID)"

section \<open>Lemmas\<close>

lemma store_lifecycle:
  assumes "CreateStoreCommand_Execute fresh now ds name = (Inr st, ds')"
  shows "GetStoreQuery_Execute ds' fresh = Inr st \<and> st_name st = name \<and>
    (\<forall>i. i \<noteq> fresh \<longrightarrow> GetStoreQuery_Execute ds' i = GetStoreQuery_Execute ds i) \<and>
    (\<exists>ds''. DeleteStoreCommand_Execute ds' fresh = (None, ds'') \<and>
      GetStoreQuery_Execute ds'' fresh = Inl (Server ErrStoreIDNotFound) \<and>
      DeleteStoreCommand_Execute ds'' fresh = (None, ds''))"
  using assms by (auto simp: CreateStoreCommand_Execute_def CreateStore_def GetStoreQuery_Execute_def GetStore_def
      DeleteStoreCommand_Execute_def DeleteStore_def Let_def update_conv' delete_conv' split: if_splits)

lemma WriteAuthorizationModelCommand_refused:
  "WriteAuthorizationModelCommand_Execute env maxSize ds req = (Inl e, ds') \<Longrightarrow> ds' = ds"
  by (auto simp: WriteAuthorizationModelCommand_Execute_def Let_def split: if_splits sum.splits)

lemma WriteAuthorizationModelCommand_accepted:
  assumes "WriteAuthorizationModelCommand_Execute env maxSize ds req = (Inr i, ds')"
  shows "i = me_fresh_id env" "ds' = WriteAuthorizationModel ds (wm_store_id req) (model_of_request env req)"
    "\<exists>t. NewAndValidate (me_graph_error env) (me_compile env) (model_of_request env req) = Inr t"
  using assms by (auto simp: WriteAuthorizationModelCommand_Execute_def Let_def model_of_request_def
      split: if_splits sum.splits)

lemma assertions_id_inj:
  assumes "CHR ''|'' \<notin> set st" "CHR ''|'' \<notin> set st'" "assertions_id st m = assertions_id st' m'"
  shows "st = st' \<and> m = m'"
  using assms(1,2) arg_cong [OF assms(3), of "\<lambda>s. Cut s CHR ''|''"] by (simp add: assertions_id_def)

section \<open>Properties\<close>

text \<open>C21: The command that writes a model refuses it and changes nothing, or it stores a model that
  passed validation: the model is then served by its new identifier and as the latest model of
  the store, and every other model of every store is still served as before.\<close>

theorem written_model_is_served:
  assumes "WriteAuthorizationModelCommand_Execute env maxSize ds req = (res, ds')"
    and "me_fresh_id env \<noteq> ''''" "wm_type_definitions req \<noteq> []"
  shows "(case res of
      Inl e \<Rightarrow> ds' = ds
    | Inr i \<Rightarrow> i = me_fresh_id env \<and>
        (\<exists>t. NewAndValidate (me_graph_error env) (me_compile env) (model_of_request env req) = Inr t) \<and>
        ReadAuthorizationModelQuery_Execute ds' (wm_store_id req) i = Inr (model_of_request env req) \<and>
        FindLatestAuthorizationModel ds' (wm_store_id req) = Inr (model_of_request env req) \<and>
        (\<forall>st' j. j \<noteq> '''' \<and> (st' \<noteq> wm_store_id req \<or> j \<noteq> i) \<longrightarrow>
          ReadAuthorizationModelQuery_Execute ds' st' j = ReadAuthorizationModelQuery_Execute ds st' j))"
proof (cases res)
  case (Inl e)
  with assms(1) WriteAuthorizationModelCommand_refused show ?thesis by simp
next
  case (Inr i)
  note acc = WriteAuthorizationModelCommand_accepted [OF assms(1) [unfolded Inr]]
  have "am_id (model_of_request env req) \<noteq> ''''" "am_type_definitions (model_of_request env req) \<noteq> []"
    using assms(2,3) by (simp_all add: model_of_request_def)
  from WriteAuthorizationModel_readback [OF this, of ds "wm_store_id req"] acc Inr show ?thesis
    by (simp add: ReadAuthorizationModelQuery_Execute_def model_of_request_def)
qed

definition sample_model_env :: model_environment where
  "sample_model_env = \<lparr>me_fresh_id = ''m1'', me_message_size = (\<lambda>_. 100), me_graph_error = (\<lambda>_. None),
     me_compile = (\<lambda>_. None)\<rparr>"

definition sample_model_request :: write_model_request where
  "sample_model_request = \<lparr>wm_store_id = ''s'', wm_schema_version = '''',
     wm_type_definitions = [\<lparr>td_type = ''user'', td_relations = [], td_metadata = Map.empty\<rparr>,
       \<lparr>td_type = ''doc'', td_relations = [(''viewer'', This)],
        td_metadata = [''viewer'' \<mapsto> [DirectRelationReference ''user'' '''']]\<rparr>], wm_conditions = []\<rparr>"

theorem written_model_is_served_witness:
  "\<exists>ds'. WriteAuthorizationModelCommand_Execute sample_model_env 1000 (Memory.New []) sample_model_request = (Inr ''m1'', ds') \<and>
     FindLatestAuthorizationModel ds' ''s'' = Inr (model_of_request sample_model_env sample_model_request)"
proof -
  let ?r = "WriteAuthorizationModelCommand_Execute sample_model_env 1000 (Memory.New []) sample_model_request"
  have res: "fst ?r = Inr ''m1''" by code_simp
  have "me_fresh_id sample_model_env \<noteq> ''''" "wm_type_definitions sample_model_request \<noteq> []"
    "wm_store_id sample_model_request = ''s''" by (simp_all add: sample_model_env_def sample_model_request_def)
  with written_model_is_served [of sample_model_env 1000 "Memory.New []" sample_model_request "fst ?r" "snd ?r"] res
  show ?thesis by (intro exI [of _ "snd ?r"]) (auto simp: prod_eq_iff)
qed

text \<open>C22: Assertions that the command accepts are all well formed for the model they are written
  for, replace the assertions of that model, and are read back unchanged; those of every other
  model and store stay, and a refused request changes nothing.\<close>

theorem written_assertions_are_served:
  assumes "WriteAssertionsCommand_Execute lib g byteSize maxSize ds st modelID as = (err, ds')" "CHR ''|'' \<notin> set st"
  shows "if err \<noteq> None then ds' = ds
    else (\<exists>model t. ReadAuthorizationModelQuery_Execute ds st modelID = Inr model \<and> TypeSystem.New g model = Inr t \<and>
        (\<forall>a \<in> set as. validate_assertion lib t a = None)) \<and>
      ReadAssertionsQuery_Execute ds' st modelID = (modelID, as) \<and>
      (\<forall>st' m'. CHR ''|'' \<notin> set st' \<and> (st', m') \<noteq> (st, modelID) \<longrightarrow>
        ReadAssertionsQuery_Execute ds' st' m' = ReadAssertionsQuery_Execute ds st' m')"
proof -
  have frame: "ReadAssertions (WriteAssertions ds st modelID as) st' m' = ReadAssertions ds st' m'"
    if "CHR ''|'' \<notin> set st'" "(st', m') \<noteq> (st, modelID)" for st' m'
    using that assertions_id_inj [OF that(1) assms(2), of m' modelID]
    by (auto simp: ReadAssertions_def WriteAssertions_def)
  have same: "ReadAssertions (WriteAssertions ds st modelID as) st modelID = as"
    by (simp add: ReadAssertions_def WriteAssertions_def)
  show ?thesis
    using assms(1) frame same
    by (auto simp: WriteAssertionsCommand_Execute_def ReadAuthorizationModelQuery_Execute_def
        ReadAssertionsQuery_Execute_def first_err_None_iff split: sum.splits if_splits option.splits)
qed

definition sample_assertions :: "assertion list" where
  "sample_assertions = [\<lparr>as_tuple_key = \<lparr>tk_object = ''doc:1'', tk_relation = ''viewer'', tk_user = ''user:anne''\<rparr>,
     as_expectation = True, as_contextual_tuples = [NewTupleKey ''doc:1'' ''viewer'' ''user:anne''], as_context = None\<rparr>]"

definition sample_model_store :: memory_backend where
  "sample_model_store = snd (WriteAuthorizationModelCommand_Execute sample_model_env 1000 (Memory.New []) sample_model_request)"

theorem written_assertions_are_served_witness:
  "\<exists>ds'. WriteAssertionsCommand_Execute sample_values (\<lambda>_. None) (\<lambda>_. 10) 64000 sample_model_store ''s'' ''m1''
      sample_assertions = (None, ds') \<and> ReadAssertionsQuery_Execute ds' ''s'' ''m1'' = (''m1'', sample_assertions)"
proof -
  have "fst (WriteAssertionsCommand_Execute sample_values (\<lambda>_. None) (\<lambda>_. 10) 64000 sample_model_store ''s'' ''m1''
      sample_assertions) = None" by code_simp
  then obtain ds' where w: "WriteAssertionsCommand_Execute sample_values (\<lambda>_. None) (\<lambda>_. 10) 64000 sample_model_store
      ''s'' ''m1'' sample_assertions = (None, ds')" by (metis prod.collapse)
  with written_assertions_are_served [OF w] show ?thesis by auto
qed

end
