(* ===== verification/BatchCheck.thy ===== *)
theory BatchCheck
  imports CheckCommand KeyEncoding "HOL-Library.AList"
begin

text \<open>
  The batch check command (\<^verbatim>\<open>pkg/server/commands/batch_check_command.go\<close>): it validates the
  correlation identifiers, groups the checks of a batch by cache key, runs one check per group in
  a pool and gives every correlation identifier the outcome of its group.  The checker is a
  parameter; the order in which Go iterates over the map of groups is arbitrary.
\<close>

section \<open>The command\<close>

record batch_check_item =
  bi_tuple_key :: plain_key
  bi_contextual_tuples :: "tuple_key list"
  bi_context :: "pbstruct option"
  bi_correlation_id :: string

record batch_check_params =
  bp_authorization_model_id :: string
  bp_checks :: "batch_check_item list"
  bp_consistency :: consistency_preference
  bp_store_id :: string

record check_result =
  res_allowed :: bool
  res_query_count :: "32 word"
  res_item_count :: "64 word"
  res_duration :: int
  res_dispatch_count :: "32 word"
  res_dispatch_throttled :: bool
  res_was_throttled :: bool

definition empty_result :: check_result where
  "empty_result = \<lparr>res_allowed = False, res_query_count = 0, res_item_count = 0, res_duration = 0,
     res_dispatch_count = 0, res_dispatch_throttled = False, res_was_throttled = False\<rparr>"

record 'e batch_check_outcome =
  bo_allowed :: bool
  bo_query_count :: "32 word"
  bo_item_count :: "64 word"
  bo_duration :: int
  bo_err :: "'e option"

record batch_check_metadata =
  bm_dispatch_throttle_count :: "32 word"
  bm_dispatch_count :: "32 word"
  bm_query_count :: "32 word"
  bm_item_count :: "64 word"
  bm_datastore_throttle_count :: "32 word"
  bm_duplicate_check_count :: int

datatype batch_error =
    TooManyChecks int int
  | NoChecks
  | EmptyCorrelationID plain_key
  | DuplicateCorrelationID string

fun validateCorrelationIDs :: "string list \<Rightarrow> batch_check_item list \<Rightarrow> batch_error option" where
  "validateCorrelationIDs seen [] = None"
| "validateCorrelationIDs seen (c # cs) =
     (if bi_correlation_id c = '''' then Some (EmptyCorrelationID (bi_tuple_key c))
      else if bi_correlation_id c \<in> set seen then Some (DuplicateCorrelationID (bi_correlation_id c))
      else validateCorrelationIDs (bi_correlation_id c # seen) cs)"

definition generateCacheKeyFromCheck ::
    "(byte list \<Rightarrow> 64 word) \<Rightarrow> batch_check_item \<Rightarrow> string \<Rightarrow> string \<Rightarrow> key" where
  "generateCacheKeyFromCheck sum64 check storeID authModelID =
     CheckCacheKey storeID (tk_object (bi_tuple_key check)) (tk_relation (bi_tuple_key check)) (tk_user (bi_tuple_key check))
       (InvariantCacheKey sum64 storeID authModelID (bi_context check) (bi_contextual_tuples check))"

type_synonym 'k groups = "('k \<times> batch_check_item \<times> string list) list"

definition add_check :: "'k \<Rightarrow> batch_check_item \<Rightarrow> 'k groups \<Rightarrow> 'k groups" where
  "add_check k check m =
     (case map_of m k of
        Some (item, ids) \<Rightarrow> AList.update k (item, ids @ [bi_correlation_id check]) m
      | None \<Rightarrow> AList.update k (check, [bi_correlation_id check]) m)"

fun group_checks :: "(batch_check_item \<Rightarrow> 'k) \<Rightarrow> batch_check_item list \<Rightarrow> 'k groups \<Rightarrow> 'k groups" where
  "group_checks key [] m = m"
| "group_checks key (c # cs) m = group_checks key cs (add_check (key c) c m)"

definition check_params :: "batch_check_params \<Rightarrow> batch_check_item \<Rightarrow> check_command_params" where
  "check_params params check =
     \<lparr>ccp_store_id = bp_store_id params, ccp_tuple_key = bi_tuple_key check,
      ccp_contextual_tuples = bi_contextual_tuples check, ccp_context = bi_context check,
      ccp_consistency = bp_consistency params\<rparr>"

text \<open>What the task of a group does: its context was cancelled before it started, or it runs the
  checker.  The second component is what it adds to the totals.\<close>

definition batch_task ::
    "(check_command_params \<Rightarrow> check_result option \<times> 'e option) \<Rightarrow> 'e option \<Rightarrow> batch_check_params \<Rightarrow> batch_check_item
     \<Rightarrow> 'e batch_check_outcome \<times> check_result option" where
  "batch_task checker cancelled params check =
     (case cancelled of
        Some e \<Rightarrow> (\<lparr>bo_allowed = False, bo_query_count = 0, bo_item_count = 0, bo_duration = 0, bo_err = Some e\<rparr>, None)
      | None \<Rightarrow>
          (case checker (check_params params check) of
             (res, err) \<Rightarrow>
               let res = (case res of None \<Rightarrow> empty_result | Some r \<Rightarrow> r) in
               (\<lparr>bo_allowed = res_allowed res, bo_query_count = res_query_count res, bo_item_count = res_item_count res,
                 bo_duration = res_duration res, bo_err = err\<rparr>, Some res)))"

definition count_if :: "bool \<Rightarrow> 32 word" where
  "count_if b = (if b then 1 else 0)"

definition batch_totals :: "check_result list \<Rightarrow> int \<Rightarrow> batch_check_metadata" where
  "batch_totals rs duplicates =
     \<lparr>bm_dispatch_throttle_count = sum_list (map (\<lambda>r. count_if (res_dispatch_throttled r)) rs),
      bm_dispatch_count = sum_list (map res_dispatch_count rs),
      bm_query_count = sum_list (map res_query_count rs),
      bm_item_count = sum_list (map res_item_count rs),
      bm_datastore_throttle_count = sum_list (map (\<lambda>r. count_if (res_was_throttled r)) rs),
      bm_duplicate_check_count = duplicates\<rparr>"

text \<open>Every identifier of a group gets the outcome of the group.\<close>

fun assign_outcomes :: "('k \<Rightarrow> 'o) \<Rightarrow> 'k groups \<Rightarrow> (string \<rightharpoonup> 'o) \<Rightarrow> (string \<rightharpoonup> 'o)" where
  "assign_outcomes outcome [] results = results"
| "assign_outcomes outcome ((k, check, ids) # groups) results =
     assign_outcomes outcome groups (fold (\<lambda>i r. r(i \<mapsto> outcome k)) ids results)"

record 'e batch_env =
  be_max_checks :: int
  be_sum64 :: "byte list \<Rightarrow> 64 word"
  be_checker :: "check_command_params \<Rightarrow> check_result option \<times> 'e option"
  be_cancelled :: "key \<Rightarrow> 'e option"
  be_iterate :: "key groups \<Rightarrow> key groups"

definition batch_key :: "'e batch_env \<Rightarrow> batch_check_params \<Rightarrow> batch_check_item \<Rightarrow> key" where
  "batch_key env params c =
     generateCacheKeyFromCheck (be_sum64 env) c (bp_store_id params) (bp_authorization_model_id params)"

definition BatchCheck_Execute ::
    "'e batch_env \<Rightarrow> batch_check_params \<Rightarrow> batch_error + (string \<rightharpoonup> 'e batch_check_outcome) \<times> batch_check_metadata" where
  "BatchCheck_Execute env params =
     (let checks = bp_checks params in
      if int (length checks) > be_max_checks env then Inl (TooManyChecks (int (length checks)) (be_max_checks env))
      else if checks = [] then Inl NoChecks
      else (case validateCorrelationIDs [] checks of
              Some e \<Rightarrow> Inl e
            | None \<Rightarrow>
                let cacheKeyMap = group_checks (batch_key env params) checks [];
                    task = (\<lambda>(k, check, ids). batch_task (be_checker env) (be_cancelled env k) params check);
                    resultMap = map (\<lambda>g. (fst g, fst (task g))) cacheKeyMap;
                    outcome = (\<lambda>k. the (map_of resultMap k));
                    totals = List.map_filter (\<lambda>g. snd (task g)) cacheKeyMap in
                Inr (assign_outcomes outcome (be_iterate env cacheKeyMap) Map.empty,
                     batch_totals totals (int (length checks) - int (length cacheKeyMap)))))"

section \<open>Grouping\<close>

lemma validateCorrelationIDs_None_iff:
  "validateCorrelationIDs seen cs = None \<longleftrightarrow>
     '''' \<notin> bi_correlation_id ` set cs \<and> distinct (map bi_correlation_id cs) \<and> set seen \<inter> bi_correlation_id ` set cs = {}"
  by (induction seen cs rule: validateCorrelationIDs.induct) auto

text \<open>The group of a key: the first check with the key and the identifiers of all of them.\<close>

definition grouped :: "(batch_check_item \<Rightarrow> 'k) \<Rightarrow> batch_check_item list \<Rightarrow> 'k \<Rightarrow> (batch_check_item \<times> string list) option" where
  "grouped key cs k =
     (case filter (\<lambda>c. key c = k) cs of [] \<Rightarrow> None | c # rest \<Rightarrow> Some (c, map bi_correlation_id (c # rest)))"

lemma group_checks_invariant:
  assumes "\<forall>k. map_of m k = grouped key done_cs k" "distinct (map fst m)"
  shows "(\<forall>k. map_of (group_checks key cs m) k = grouped key (done_cs @ cs) k) \<and>
    distinct (map fst (group_checks key cs m))"
  using assms
proof (induction cs arbitrary: m done_cs)
  case (Cons c cs)
  have "map_of (add_check (key c) c m) k = grouped key (done_cs @ [c]) k" for k
    using Cons.prems(1)
    by (auto simp: add_check_def update_conv' grouped_def split: option.splits list.splits prod.splits)
  moreover have "distinct (map fst (add_check (key c) c m))"
    using Cons.prems(2) by (simp add: add_check_def distinct_update split: option.split prod.split)
  ultimately show ?case using Cons.IH [of "add_check (key c) c m" "done_cs @ [c]"] by simp
qed simp

lemma group_checks_spec:
  "map_of (group_checks key cs []) k = grouped key cs k" "distinct (map fst (group_checks key cs []))"
  using group_checks_invariant [of "[]" key "[]" cs] by (simp_all add: grouped_def)

lemma fold_assign: "fold (\<lambda>i r. r(i \<mapsto> o1)) ids r i = (if i \<in> set ids then Some o1 else r i)"
  by (induction ids arbitrary: r) auto

lemma assign_outcomes_absent:
  "\<forall>(k, c, ids) \<in> set gs. i \<notin> set ids \<Longrightarrow> assign_outcomes outcome gs r i = r i"
  by (induction outcome gs r rule: assign_outcomes.induct) (auto simp: fold_assign)

lemma assign_outcomes_unique:
  assumes "\<forall>(k', c, ids) \<in> set gs. i \<in> set ids \<longrightarrow> k' = k"
    "(\<exists>(k', c, ids) \<in> set gs. i \<in> set ids) \<or> r i = Some (outcome k)"
  shows "assign_outcomes outcome gs r i = Some (outcome k)"
  using assms
proof (induction outcome gs r rule: assign_outcomes.induct)
  case (2 outcome k1 check ids groups results)
  show ?case
    unfolding assign_outcomes.simps
    by (rule 2(1)) (use 2(2,3) in \<open>auto simp: fold_assign\<close>)
qed simp

text \<open>Two checks of a batch ask the same question: the same key, and contexts and contextual
  tuples that differ at most in the order of their fields and of the tuples.\<close>

definition same_question :: "batch_check_item \<Rightarrow> batch_check_item \<Rightarrow> bool" where
  "same_question c c' \<longleftrightarrow> bi_tuple_key c = bi_tuple_key c' \<and>
     pb_norm (NewStructValue (bi_context c)) = pb_norm (NewStructValue (bi_context c')) \<and>
     map tuple_norm (sort_tuples (bi_contextual_tuples c)) = map tuple_norm (sort_tuples (bi_contextual_tuples c'))"

definition check_bytes :: "batch_check_params \<Rightarrow> batch_check_item \<Rightarrow> byte list" where
  "check_bytes params c =
     bdata (invariant_builder (bp_store_id params) (bp_authorization_model_id params) (bi_context c) (bi_contextual_tuples c))"

definition batch_fits :: "batch_check_params \<Rightarrow> bool" where
  "batch_fits params \<longleftrightarrow> (\<forall>c \<in> set (bp_checks params).
     request_fits (bp_store_id params) (bp_authorization_model_id params) (bi_context c) (bi_contextual_tuples c) \<and>
     list_all go_len [tk_object (bi_tuple_key c), tk_relation (bi_tuple_key c), tk_user (bi_tuple_key c)])"

lemma same_key_same_question:
  assumes "batch_fits params" "inj_on (be_sum64 env) (check_bytes params ` set (bp_checks params))"
    "c \<in> set (bp_checks params)" "c' \<in> set (bp_checks params)" "batch_key env params c = batch_key env params c'"
  shows "same_question c c'"
proof -
  have hash: "be_sum64 env (check_bytes params c) = be_sum64 env (check_bytes params c') \<Longrightarrow>
      check_bytes params c = check_bytes params c'"
    using assms(2-4) by (auto dest: inj_onD)
  have fits: "request_fits (bp_store_id params) (bp_authorization_model_id params) (bi_context c) (bi_contextual_tuples c)"
    "request_fits (bp_store_id params) (bp_authorization_model_id params) (bi_context c') (bi_contextual_tuples c')"
    "list_all go_len [tk_object (bi_tuple_key c), tk_relation (bi_tuple_key c), tk_user (bi_tuple_key c),
      tk_object (bi_tuple_key c'), tk_relation (bi_tuple_key c'), tk_user (bi_tuple_key c')]"
    using assms(1,3,4) by (auto simp: batch_fits_def)
  from check_key_determines [OF fits hash [unfolded check_bytes_def]] assms(5)
  show ?thesis
    by (simp add: same_question_def batch_key_def generateCacheKeyFromCheck_def)
qed

lemma grouped_Some:
  assumes "c \<in> set cs"
  shows "\<exists>c' ids. grouped key cs (key c) = Some (c', ids) \<and> c' \<in> set cs \<and> key c' = key c \<and>
    set ids = bi_correlation_id ` {d \<in> set cs. key d = key c}"
proof -
  obtain c' rest where f: "filter (\<lambda>d. key d = key c) cs = c' # rest"
    using assms by (cases "filter (\<lambda>d. key d = key c) cs") (auto simp: filter_empty_conv)
  then have "c' \<in> set (filter (\<lambda>d. key d = key c) cs)" by simp
  then have "c' \<in> set cs" "key c' = key c" by simp_all
  moreover have "set (map bi_correlation_id (c' # rest)) = bi_correlation_id ` {d \<in> set cs. key d = key c}"
    unfolding f [symmetric] by auto
  ultimately show ?thesis using f by (simp add: grouped_def)
qed

lemma grouped_ids:
  "grouped key cs k = Some (c, ids) \<Longrightarrow> i \<in> set ids \<Longrightarrow> \<exists>d \<in> set cs. key d = k \<and> bi_correlation_id d = i"
proof -
  assume g: "grouped key cs k = Some (c, ids)" and i: "i \<in> set ids"
  then have "ids = map bi_correlation_id (filter (\<lambda>c. key c = k) cs)"
    by (auto simp: grouped_def split: list.splits)
  with i show ?thesis by auto
qed

lemma grouped_None: "grouped key cs k = None \<longleftrightarrow> k \<notin> key ` set cs"
proof -
  have "grouped key cs k = None \<longleftrightarrow> filter (\<lambda>c. key c = k) cs = []"
    by (simp add: grouped_def split: list.split)
  then show ?thesis by (auto simp: filter_empty_conv)
qed

lemma group_count: "length (group_checks key cs []) = card (key ` set cs)"
proof -
  have "k \<in> set (map fst (group_checks key cs [])) \<longleftrightarrow> k \<in> key ` set cs" for k
    using group_checks_spec(1) [of key cs k] grouped_None [of key cs k] map_of_eq_None_iff [of "group_checks key cs []" k]
    by simp
  then have "set (map fst (group_checks key cs [])) = key ` set cs" by blast
  with distinct_card [OF group_checks_spec(2) [of key cs]] show ?thesis by simp
qed

lemma Execute_accepts_iff:
  "(\<exists>r. BatchCheck_Execute env params = Inr r) \<longleftrightarrow>
     bp_checks params \<noteq> [] \<and> int (length (bp_checks params)) \<le> be_max_checks env \<and>
     '''' \<notin> bi_correlation_id ` set (bp_checks params) \<and> distinct (map bi_correlation_id (bp_checks params))"
  using validateCorrelationIDs_None_iff [of "[]" "bp_checks params"]
  by (cases "validateCorrelationIDs [] (bp_checks params)") (auto simp: BatchCheck_Execute_def Let_def)

lemma group_member:
  "(k, d, ids) \<in> set (group_checks key cs []) \<longleftrightarrow> grouped key cs k = Some (d, ids)"
  using map_of_eq_Some_iff [OF group_checks_spec(2) [of key cs], of k "(d, ids)"] group_checks_spec(1) [of key cs k]
  by simp

lemma group_lookup:
  assumes "grouped key cs k = Some (d, ids)"
  shows "map_of (map (\<lambda>g. (fst g, f g)) (group_checks key cs [])) k = Some (f (k, d, ids))"
  using group_member [THEN iffD2, OF assms] group_checks_spec(2) [of key cs]
  by (intro map_of_is_SomeI) (force simp: comp_def)+

lemma assigned_outcome:
  assumes order: "set gs = set (group_checks key cs [])" and ok: "distinct (map bi_correlation_id cs)" and c: "c \<in> set cs"
  shows "\<exists>c' ids. c' \<in> set cs \<and> key c' = key c \<and> grouped key cs (key c) = Some (c', ids) \<and>
    assign_outcomes outcome gs Map.empty (bi_correlation_id c) = Some (outcome (key c))"
proof -
  obtain c' ids where g: "grouped key cs (key c) = Some (c', ids)" "c' \<in> set cs" "key c' = key c"
    "bi_correlation_id c \<in> set ids" using grouped_Some [OF c, of key] c by auto
  have "k' = key c" if "(k', d, ids') \<in> set gs" "bi_correlation_id c \<in> set ids'" for k' d ids'
  proof -
    from that(1) order have "grouped key cs k' = Some (d, ids')" by (simp add: group_member)
    from grouped_ids [OF this that(2)] ok c show ?thesis by (auto simp: distinct_map inj_on_def)
  qed
  then have "assign_outcomes outcome gs Map.empty (bi_correlation_id c) = Some (outcome (key c))"
  proof (intro assign_outcomes_unique disjI1)
    have "(key c, c', ids) \<in> set gs" using g(1) order by (simp add: group_member)
    with g(4) show "\<exists>(k', d, ids') \<in> set gs. bi_correlation_id c \<in> set ids'" by blast
  qed blast
  with g show ?thesis by blast
qed

lemma unassigned:
  assumes "set gs = set (group_checks key cs [])" "i \<notin> bi_correlation_id ` set cs"
  shows "assign_outcomes outcome gs Map.empty i = None"
proof -
  have "\<forall>(k, d, ids) \<in> set gs. i \<notin> set ids"
    using assms grouped_ids [of key cs] group_member [of _ _ _ key cs] by (fastforce simp: image_iff)
  then show ?thesis by (simp add: assign_outcomes_absent)
qed

lemma Execute_outcome:
  assumes iterate: "\<And>m. mset (be_iterate env m) = mset m"
    and exec: "BatchCheck_Execute env params = Inr (results, meta)"
    and key: "key = batch_key env params" and cs: "cs = bp_checks params"
  shows "dom results = bi_correlation_id ` set cs \<and>
    (\<forall>c \<in> set cs. \<exists>c' \<in> set cs. key c' = key c \<and>
      results (bi_correlation_id c) = Some (fst (batch_task (be_checker env) (be_cancelled env (key c)) params c'))) \<and>
    bm_duplicate_check_count meta = int (length cs) - int (card (key ` set cs))"
proof -
  let ?m = "group_checks key cs []"
  let ?task = "\<lambda>(k, check, ids). batch_task (be_checker env) (be_cancelled env k) params check"
  let ?out = "\<lambda>k. the (map_of (map (\<lambda>g. (fst g, fst (?task g))) ?m) k)"
  have ok: "distinct (map bi_correlation_id cs)"
    using Execute_accepts_iff [of env params] exec by (auto simp: cs)
  have order: "set (be_iterate env ?m) = set ?m" using iterate by (metis set_mset_mset)
  from exec have res: "results = assign_outcomes ?out (be_iterate env ?m) Map.empty"
    and meta: "bm_duplicate_check_count meta = int (length cs) - int (length ?m)"
    unfolding BatchCheck_Execute_def Let_def key cs
    by (auto simp: batch_totals_def split: if_splits option.splits)
  have result: "\<exists>c' \<in> set cs. key c' = key c \<and>
      results (bi_correlation_id c) = Some (fst (batch_task (be_checker env) (be_cancelled env (key c)) params c'))"
    if c: "c \<in> set cs" for c
  proof -
    obtain c' ids where g: "c' \<in> set cs" "key c' = key c" "grouped key cs (key c) = Some (c', ids)"
      "results (bi_correlation_id c) = Some (?out (key c))"
      using assigned_outcome [OF order ok c, of ?out] unfolding res by blast
    with group_lookup [OF g(3), of "\<lambda>g. fst (?task g)"] show ?thesis by auto
  qed
  moreover have "results i = None" if "i \<notin> bi_correlation_id ` set cs" for i
    unfolding res by (rule unassigned [OF order that])
  ultimately have "dom results = bi_correlation_id ` set cs" by fastforce
  with result meta show ?thesis by (simp add: group_count)
qed

section \<open>Properties\<close>

text \<open>C18: A batch is refused exactly when it has no checks or too many, or an empty or repeated
  correlation identifier.  Otherwise every correlation identifier, and nothing else, gets an
  outcome: that of a check of the batch that asks the same question as its own, up to the order
  of contextual tuples and of the fields of the context, whatever order the groups are visited
  in.  Checks with the same key run once.  The hypotheses are that the hash does not confuse the
  checks of the batch and that their strings have representable lengths.\<close>

theorem batch_answers_every_check:
  assumes "\<And>m. mset (be_iterate env m) = mset m" "batch_fits params"
    "inj_on (be_sum64 env) (check_bytes params ` set (bp_checks params))"
  shows "((\<exists>r. BatchCheck_Execute env params = Inr r) \<longleftrightarrow>
      bp_checks params \<noteq> [] \<and> int (length (bp_checks params)) \<le> be_max_checks env \<and>
      '''' \<notin> bi_correlation_id ` set (bp_checks params) \<and> distinct (map bi_correlation_id (bp_checks params))) \<and>
    (\<forall>results meta. BatchCheck_Execute env params = Inr (results, meta) \<longrightarrow>
      dom results = bi_correlation_id ` set (bp_checks params) \<and>
      (\<forall>c \<in> set (bp_checks params). \<exists>c' \<in> set (bp_checks params). same_question c' c \<and>
        results (bi_correlation_id c) =
          Some (fst (batch_task (be_checker env) (be_cancelled env (batch_key env params c)) params c'))) \<and>
      bm_duplicate_check_count meta =
        int (length (bp_checks params)) - int (card (batch_key env params ` set (bp_checks params))))"
proof (intro conjI allI impI)
  fix results meta
  assume exec: "BatchCheck_Execute env params = Inr (results, meta)"
  have "mset (be_iterate env m) = mset m" for m by (rule assms(1))
  note out = Execute_outcome [OF this exec refl refl]
  from out show "dom results = bi_correlation_id ` set (bp_checks params)" by blast
  from out show "bm_duplicate_check_count meta =
      int (length (bp_checks params)) - int (card (batch_key env params ` set (bp_checks params)))" by blast
  from out same_key_same_question [OF assms(2,3)]
  show "\<forall>c \<in> set (bp_checks params). \<exists>c' \<in> set (bp_checks params). same_question c' c \<and>
        results (bi_correlation_id c) =
          Some (fst (batch_task (be_checker env) (be_cancelled env (batch_key env params c)) params c'))"
    by metis
qed (rule Execute_accepts_iff)

definition sample_batch :: batch_check_params where
  "sample_batch = \<lparr>bp_authorization_model_id = ''m'', bp_checks =
     [\<lparr>bi_tuple_key = \<lparr>tk_object = ''doc:1'', tk_relation = ''viewer'', tk_user = ''user:anne''\<rparr>,
       bi_contextual_tuples = [], bi_context = None, bi_correlation_id = ''a''\<rparr>,
      \<lparr>bi_tuple_key = \<lparr>tk_object = ''doc:1'', tk_relation = ''viewer'', tk_user = ''user:anne''\<rparr>,
       bi_contextual_tuples = [], bi_context = Some [], bi_correlation_id = ''b''\<rparr>], bp_consistency = UNSPECIFIED, bp_store_id = ''s''\<rparr>"

definition sample_batch_env :: "unit batch_env" where
  "sample_batch_env = \<lparr>be_max_checks = 50, be_sum64 = (\<lambda>_. 0),
     be_checker = (\<lambda>p. (Some (empty_result\<lparr>res_allowed := True\<rparr>), None)), be_cancelled = (\<lambda>_. None), be_iterate = rev\<rparr>"

theorem batch_answers_every_check_witness:
  "\<exists>results meta. BatchCheck_Execute sample_batch_env sample_batch = Inr (results, meta) \<and> dom results = {''a'', ''b''} \<and>
    bm_duplicate_check_count meta = 1"
proof -
  have order: "\<And>m. mset (be_iterate sample_batch_env m) = mset m" by (simp add: sample_batch_env_def)
  have fits: "batch_fits sample_batch"
    by (simp add: batch_fits_def sample_batch_def request_fits_def NewStructValue_def pb_keys_def)
  have same: "check_bytes sample_batch (bp_checks sample_batch ! 0) = check_bytes sample_batch (bp_checks sample_batch ! 1)"
    "batch_key sample_batch_env sample_batch (bp_checks sample_batch ! 0) =
      batch_key sample_batch_env sample_batch (bp_checks sample_batch ! 1)" by code_simp+
  have checks: "set (bp_checks sample_batch) = {bp_checks sample_batch ! 0, bp_checks sample_batch ! 1}"
    "length (bp_checks sample_batch) = 2" "bi_correlation_id ` set (bp_checks sample_batch) = {''a'', ''b''}"
    "distinct (map bi_correlation_id (bp_checks sample_batch))" by (simp_all add: sample_batch_def)
  have hash: "inj_on (be_sum64 sample_batch_env) (check_bytes sample_batch ` set (bp_checks sample_batch))"
    unfolding checks(1) using same(1) by simp
  have "bp_checks sample_batch \<noteq> []" "int (length (bp_checks sample_batch)) \<le> be_max_checks sample_batch_env"
    by (simp_all add: sample_batch_def sample_batch_env_def)
  with batch_answers_every_check [OF order fits hash] checks(2-4)
  obtain results meta where r: "BatchCheck_Execute sample_batch_env sample_batch = Inr (results, meta)"
    "dom results = {''a'', ''b''}"
    "bm_duplicate_check_count meta = 2 - int (card (batch_key sample_batch_env sample_batch ` set (bp_checks sample_batch)))"
    by auto
  moreover have "card (batch_key sample_batch_env sample_batch ` set (bp_checks sample_batch)) = 1"
    unfolding checks(1) using same(2) by simp
  ultimately show ?thesis by auto
qed

end
