(* ===== verification/Cache.thy ===== *)
theory Cache
  imports KeyEncoding CheckResolver
begin

text \<open>
  The cache all requests share (\<open>src/pkg/storage/cache.go\<close>): the entries, \<open>InMemoryLRUCache\<close> over a
  third-party store, and \<open>JitteredTTL\<close>.  The store is a parameter: a record of its operations on an
  opaque state.  \<open>keeps_entries\<close> is its documented behaviour as long as its capacity is not reached: a
  value is returned until its time to live has passed, it is overwritten or deleted.  Instants are
  numbers of nanoseconds since the zero time, \<open>time.Duration\<close> is an integer that wraps at 64 bits.
\<close>

section \<open>Entries\<close>

type_synonym instant = int

record minimal_cache_entry =
  mc_object_id :: string
  mc_user :: string
  mc_condition_name :: string
  mc_condition_context :: "pbstruct option"

datatype cache_item =
    ChangelogCacheEntry instant instant
  | InvalidEntityCacheEntry instant
  | TupleIteratorCacheEntry "tuple_record list" instant
  | V2IteratorCacheEntry "minimal_cache_entry list" instant bool
  | CheckResponseCacheEntry instant check_response

section \<open>The cache\<close>

record 'c cache_client =
  cl_get :: "'c \<Rightarrow> instant \<Rightarrow> key \<Rightarrow> cache_item option"
  cl_set_with_ttl :: "'c \<Rightarrow> instant \<Rightarrow> key \<Rightarrow> cache_item \<Rightarrow> int \<Rightarrow> 'c"
  cl_delete :: "'c \<Rightarrow> key \<Rightarrow> 'c"

definition oneYear :: int where
  "oneYear = 3600 * 1000000000 * 24 * 365"

definition cache_Get :: "'c cache_client \<Rightarrow> 'c \<Rightarrow> instant \<Rightarrow> key \<Rightarrow> cache_item option" where
  "cache_Get cl c now k = cl_get cl c now k"

definition cache_Set :: "'c cache_client \<Rightarrow> 'c \<Rightarrow> instant \<Rightarrow> key \<Rightarrow> cache_item \<Rightarrow> int \<Rightarrow> 'c" where
  "cache_Set cl c now k v ttl =
     (let ttl = (if ttl \<ge> oneYear then oneYear else ttl) in
      if ttl < 0 then c else cl_set_with_ttl cl c now k v ttl)"

definition cache_Delete :: "'c cache_client \<Rightarrow> 'c \<Rightarrow> key \<Rightarrow> 'c" where
  "cache_Delete cl c k = cl_delete cl c k"

text \<open>The two random sources are \<open>rand.Int63\<close> and \<open>rand.Int63n\<close>.\<close>

definition JitteredTTL :: "int \<Rightarrow> (int \<Rightarrow> int) \<Rightarrow> int \<Rightarrow> int \<Rightarrow> int" where
  "JitteredTTL int63 int63n baseTTL jitterPercentage =
     (if baseTTL \<le> 0 \<or> jitterPercentage = 0 then baseTTL
      else
        let jitterPercentage = (if jitterPercentage > 100 then 100 else jitterPercentage);
            quotient = baseTTL div 100;
            remainder = baseTTL mod 100;
            maxJitter = wrap64 (wrap64 (quotient * jitterPercentage) + wrap64 (remainder * jitterPercentage) div 100);
            jitter = (if maxJitter = 2 ^ 63 - 1 then int63 else int63n (wrap64 (maxJitter + 1))) in
        if jitter > 2 ^ 63 - 1 - baseTTL then 2 ^ 63 - 1
        else wrap64 (baseTTL + jitter))"

section \<open>What the store promises\<close>

definition keeps_entries :: "'c cache_client \<Rightarrow> bool" where
  "keeps_entries cl \<longleftrightarrow>
     (\<forall>c t k v ttl t' k'. 0 < ttl \<longrightarrow> t \<le> t' \<longrightarrow>
        cl_get cl (cl_set_with_ttl cl c t k v ttl) t' k' =
          (if k' = k then if t' < t + ttl then Some v else None else cl_get cl c t' k')) \<and>
     (\<forall>c k t' k'. cl_get cl (cl_delete cl c k) t' k' = (if k' = k then None else cl_get cl c t' k'))"

lemma cache_Get_Set:
  assumes "keeps_entries cl" "0 < ttl" "t \<le> t'"
  shows "cache_Get cl (cache_Set cl c t k v ttl) t' k' =
    (if k' = k then if t' < t + min ttl oneYear then Some v else None else cache_Get cl c t' k')"
  using assms by (simp add: keeps_entries_def cache_Get_def cache_Set_def Let_def min_def oneYear_def)

lemma cache_Get_Delete:
  "keeps_entries cl \<Longrightarrow> cache_Get cl (cache_Delete cl c k) t' k' = (if k' = k then None else cache_Get cl c t' k')"
  by (simp add: keeps_entries_def cache_Get_def cache_Delete_def)

text \<open>A store without a bound on its size: every entry with the instant it expires at.\<close>

type_synonym entry_map = "(key \<times> cache_item \<times> instant) list"

definition unbounded_client :: "entry_map cache_client" where
  "unbounded_client =
     \<lparr>cl_get = (\<lambda>c now k. case map_of c k of Some (v, expiry) \<Rightarrow> if now < expiry then Some v else None | None \<Rightarrow> None),
      cl_set_with_ttl = (\<lambda>c now k v ttl. (k, v, now + ttl) # c),
      cl_delete = (\<lambda>c k. filter (\<lambda>e. fst e \<noteq> k) c)\<rparr>"

lemma map_of_filter_neq: "map_of (filter (\<lambda>e. fst e \<noteq> k) c) k' = (if k' = k then None else map_of c k')"
  by (induction c) auto

lemma unbounded_keeps_entries: "keeps_entries unbounded_client"
  by (simp add: keeps_entries_def unbounded_client_def map_of_filter_neq)

section \<open>Jitter\<close>

lemma jitter_share:
  fixes b p :: int
  shows "b div 100 * p + b mod 100 * p div 100 = b * p div 100"
proof -
  have "b * p = 100 * (b div 100 * p) + b mod 100 * p"
    by (metis distrib_right mult.assoc mult_div_mod_eq)
  then show ?thesis by simp
qed

text \<open>
  The jittered time to live is at least the base and exceeds it by at most the given percentage of it,
  capped at 100; no intermediate product or sum overflows, and the bound given to the random source is
  positive.
\<close>

lemma JitteredTTL_bounds:
  assumes "0 < baseTTL" "baseTTL < 2 ^ 63" "0 \<le> pct" "0 \<le> int63" "int63 < 2 ^ 63"
    "\<And>n. 0 < n \<Longrightarrow> 0 \<le> int63n n \<and> int63n n < n"
  shows "baseTTL \<le> JitteredTTL int63 int63n baseTTL pct \<and> JitteredTTL int63 int63n baseTTL pct < 2 ^ 63 \<and>
    JitteredTTL int63 int63n baseTTL pct \<le> baseTTL + baseTTL * min pct 100 div 100"
proof (cases "pct = 0")
  case False
  let ?p = "min pct 100" and ?m = "baseTTL * min pct 100 div 100"
  have p: "0 \<le> ?p" "?p \<le> 100" "(if pct > 100 then 100 else pct) = ?p" using assms(3) by auto
  have q: "0 \<le> baseTTL div 100 * ?p" "baseTTL div 100 * ?p \<le> baseTTL"
    "0 \<le> baseTTL mod 100 * ?p" "baseTTL mod 100 * ?p \<le> 100 * 100"
  proof -
    have "baseTTL div 100 * ?p \<le> baseTTL div 100 * 100" using p assms(1) by (intro mult_left_mono) auto
    also have "\<dots> \<le> baseTTL" by (simp add: minus_mod_eq_div_mult [symmetric])
    finally show "baseTTL div 100 * ?p \<le> baseTTL" .
    have "baseTTL mod 100 * ?p \<le> baseTTL mod 100 * 100" using p by (intro mult_left_mono) auto
    moreover have "baseTTL mod 100 < 100" by simp
    ultimately show "baseTTL mod 100 * ?p \<le> 100 * 100" by linarith
  qed (use p assms(1) in auto)
  have "baseTTL * ?p \<le> baseTTL * 100" "0 \<le> baseTTL * ?p" using p assms(1) by (auto intro: mult_left_mono)
  then have "0 \<le> ?m" "?m \<le> baseTTL" by linarith+
  then obtain m where m: "?m = m" "0 \<le> m" "m \<le> baseTTL" by blast
  have w: "wrap64 (wrap64 (baseTTL div 100 * ?p) + wrap64 (baseTTL mod 100 * ?p) div 100) = m"
    using q m assms(2) jitter_share [of baseTTL ?p] by (simp add: int64_range_def)
  have c: "(baseTTL \<le> 0 \<or> pct = 0) = False" using False assms(1) by simp
  obtain j where j_def: "j = (if m = 2 ^ 63 - 1 then int63 else int63n (wrap64 (m + 1)))" by blast
  have J: "JitteredTTL int63 int63n baseTTL pct = (if j > 2 ^ 63 - 1 - baseTTL then 2 ^ 63 - 1 else wrap64 (baseTTL + j))"
    by (simp only: JitteredTTL_def Let_def c if_False p(3) w j_def)
  have "m + 1 < 2 ^ 63 \<Longrightarrow> wrap64 (m + 1) = m + 1" using m by (simp add: int64_range_def)
  then have j: "0 \<le> j" "j \<le> m"
    using assms(4,5) assms(6) [of "m + 1"] m assms(2) by (auto simp: j_def)
  then have "j \<le> 2 ^ 63 - 1 - baseTTL \<Longrightarrow> wrap64 (baseTTL + j) = baseTTL + j"
    using assms(1) by (simp add: int64_range_def)
  with j assms(1,2) m show ?thesis unfolding J by (auto simp del: power_numeral)
qed (use assms in \<open>simp add: JitteredTTL_def\<close>)

end
