(* ===== verification/CachedReads.thy ===== *)
theory CachedReads
  imports Cache
begin

text \<open>
  The iterator cache: \<open>CachedDatastore\<close> with its iterators (\<open>cached_datastore.go\<close> and
  \<open>cached_iterators.go\<close> under \<open>src/pkg/storage/storagewrappers\<close>), which store the tuples of a read in
  the cache once the read was consumed, and serve later reads from there unless an invalidation entry
  is newer.  The lemmas show that only complete results are stored, and that the tuples served from
  the cache are those the datastore had returned.
\<close>

section \<open>Looking up an entry\<close>

definition marked_after :: "cache_item option \<Rightarrow> instant \<Rightarrow> bool" where
  "marked_after res ts = (case res of Some (InvalidEntityCacheEntry m) \<Rightarrow> ts < m | _ \<Rightarrow> False)"

definition isInvalidAt :: "'c cache_client \<Rightarrow> 'c \<Rightarrow> instant \<Rightarrow> instant \<Rightarrow> key \<Rightarrow> key list \<Rightarrow> bool" where
  "isInvalidAt cl c now ts invalidStore invalidEntityKeys =
     (if marked_after (cache_Get cl c now invalidStore) ts then True
      else list_ex (\<lambda>k. marked_after (cache_Get cl c now k) ts) invalidEntityKeys)"

definition findInCache ::
    "'c cache_client \<Rightarrow> 'c \<Rightarrow> instant \<Rightarrow> key \<Rightarrow> key \<Rightarrow> key list \<Rightarrow> (tuple_record list \<times> instant) option \<times> 'c" where
  "findInCache cl c now k storeKey invalidEntityKeys =
     (case cache_Get cl c now k of
        Some (TupleIteratorCacheEntry tuples lastModified) \<Rightarrow>
          if isInvalidAt cl c now lastModified storeKey invalidEntityKeys then (None, cache_Delete cl c k)
          else (Some (tuples, lastModified), c)
      | _ \<Rightarrow> (None, c))"

section \<open>Tuples without the fields the query knows\<close>

record known_fields =
  kf_object_type :: string
  kf_object_id :: string
  kf_relation :: string
  kf_user_type :: string

definition record_of_tuple :: "known_fields \<Rightarrow> tuple \<Rightarrow> tuple_record" where
  "record_of_tuple kf t =
     (let tk = tup_key t;
          (objectType, objectID) = SplitObject (tk_object tk);
          (userObjectType, userObjectID, userRelation) = ToUserParts (tk_user tk) in
      \<lparr>tr_store = '''',
       tr_object_type = (if kf_object_type kf \<noteq> '''' \<and> kf_object_type kf = objectType then '''' else objectType),
       tr_object_id = (if kf_object_id kf \<noteq> '''' \<and> kf_object_id kf = objectID then '''' else objectID),
       tr_relation = (if kf_relation kf \<noteq> '''' \<and> kf_relation kf = tk_relation tk then '''' else tk_relation tk),
       tr_user = '''',
       tr_user_object_type = (if kf_user_type kf \<noteq> '''' \<and> kf_user_type kf = userObjectType then '''' else userObjectType),
       tr_user_object_id = userObjectID, tr_user_relation = userRelation,
       tr_condition_name = get_condition_name (tk_condition tk),
       tr_condition_context = get_condition_context (tk_condition tk),
       tr_ulid = 0, tr_inserted_at = (case tup_timestamp t of None \<Rightarrow> 0 | Some ts \<Rightarrow> ts)\<rparr>)"

definition buildTuple :: "known_fields \<Rightarrow> tuple_record \<Rightarrow> tuple" where
  "buildTuple kf t =
     (let objectType = (if kf_object_type kf \<noteq> '''' then kf_object_type kf else tr_object_type t);
          objectID = (if kf_object_id kf \<noteq> '''' then kf_object_id kf else tr_object_id t);
          relation = (if kf_relation kf \<noteq> '''' then kf_relation kf else tr_relation t);
          userType = (if kf_user_type kf \<noteq> '''' then kf_user_type kf else tr_user_object_type t) in
      \<lparr>tup_key = NewTupleKeyWithCondition (BuildObject objectType objectID) relation
         (FromUserParts userType (tr_user_object_id t) (tr_user_relation t)) (tr_condition_name t) (tr_condition_context t),
       tup_timestamp = Some (tr_inserted_at t)\<rparr>)"

definition cachedTupleIterator :: "known_fields \<Rightarrow> (tuple_record list, tuple) iter_ops" where
  "cachedTupleIterator kf = mapped_ops (\<lambda>t. Inr (buildTuple kf t)) StaticIterator"

section \<open>The iterator of a miss\<close>

text \<open>\<open>None\<close> for the buffer \<open>tuples\<close> is \<open>nil\<close>: the result is not to be cached.\<close>

record 's cached_iterator =
  ci_iter :: 's
  ci_cache_key :: key
  ci_invalid_store_key :: key
  ci_invalid_entity_keys :: "key list"
  ci_ttl :: int
  ci_jitter_percentage :: int
  ci_initialized_at :: instant
  ci_known :: known_fields
  ci_tuples :: "tuple list option"
  ci_records :: "tuple_record list"
  ci_max_result_size :: int
  ci_closing :: bool

definition buffer_tuple :: "int \<Rightarrow> tuple \<Rightarrow> tuple list option \<Rightarrow> tuple list option" where
  "buffer_tuple maxResultSize t tuples =
     (case tuples of
        None \<Rightarrow> None
      | Some ts \<Rightarrow> if int (length (ts @ [t])) \<ge> maxResultSize then None else Some (ts @ [t]))"

definition cached_Next :: "('s, tuple) iter_ops \<Rightarrow> ('s cached_iterator, tuple) iter_call" where
  "cached_Next ops c ctx =
     (if ci_closing c then Some (Inl ErrIteratorDone, c)
      else
        case it_next ops (ci_iter c) ctx of
          None \<Rightarrow> None
        | Some (Inl err, it) \<Rightarrow>
            if IterIsDoneOrCancelled err then Some (Inl err, c\<lparr>ci_iter := it\<rparr>)
            else Some (Inl err, c\<lparr>ci_iter := it, ci_tuples := None\<rparr>)
        | Some (Inr t, it) \<Rightarrow>
            Some (Inr t, c\<lparr>ci_iter := it, ci_tuples := buffer_tuple (ci_max_result_size c) t (ci_tuples c)\<rparr>))"

definition cached_Head :: "('s, tuple) iter_ops \<Rightarrow> ('s cached_iterator, tuple) iter_call" where
  "cached_Head ops c ctx =
     (if ci_closing c then Some (Inl ErrIteratorDone, c)
      else
        case it_head ops (ci_iter c) ctx of
          None \<Rightarrow> None
        | Some (r, it) \<Rightarrow> Some (r, c\<lparr>ci_iter := it\<rparr>))"

definition addToBuffer :: "tuple \<Rightarrow> 's cached_iterator \<Rightarrow> bool \<times> 's cached_iterator" where
  "addToBuffer t c =
     (if ci_tuples c = None then (False, c)
      else
        let records = ci_records c @ [record_of_tuple (ci_known c) t] in
        if int (length records) \<ge> ci_max_result_size c
        then (True, c\<lparr>ci_tuples := None, ci_records := []\<rparr>)
        else (True, c\<lparr>ci_records := records\<rparr>))"

text \<open>\<open>ctxErr\<close> is the error of the server's context, \<open>ttl\<close> the time to live drawn by \<open>JitteredTTL\<close>.\<close>

definition cached_flush ::
    "'c cache_client \<Rightarrow> instant \<Rightarrow> int \<Rightarrow> iter_error option \<Rightarrow> 's cached_iterator \<Rightarrow> 'c \<Rightarrow> 's cached_iterator \<times> 'c" where
  "cached_flush cl now ttl ctxErr c cache =
     (if ci_tuples c = None \<or> ctxErr \<noteq> None then (c, cache)
      else (c\<lparr>ci_tuples := None, ci_records := []\<rparr>,
            cache_Set cl cache now (ci_cache_key c) (TupleIteratorCacheEntry (ci_records c) (ci_initialized_at c)) ttl))"

text \<open>
  \<open>Stop\<close> in the foreground and the checks at the start of the goroutine it spawns; the result tells
  whether the goroutine goes on to \<open>cached_drain\<close>.
\<close>

definition cached_Stop ::
    "('s, tuple) iter_ops \<Rightarrow> 'c cache_client \<Rightarrow> instant \<Rightarrow> iter_error option \<Rightarrow> 's cached_iterator \<Rightarrow> 'c
     \<Rightarrow> bool \<times> 's cached_iterator \<times> 'c" where
  "cached_Stop ops cl now ctxErr c cache =
     (if ci_closing c then (False, c, cache)
      else
        let c = c\<lparr>ci_closing := True\<rparr> in
        if ci_tuples c = None \<or> ctxErr \<noteq> None then (False, c\<lparr>ci_iter := it_stop ops (ci_iter c)\<rparr>, cache)
        else
          case findInCache cl cache now (ci_cache_key c) (ci_invalid_store_key c) (ci_invalid_entity_keys c) of
            (Some _, cache) \<Rightarrow> (False, c\<lparr>ci_iter := it_stop ops (ci_iter c), ci_tuples := None\<rparr>, cache)
          | (None, cache) \<Rightarrow>
              if isInvalidAt cl cache now (ci_initialized_at c) (ci_invalid_store_key c) (ci_invalid_entity_keys c)
              then (False, c\<lparr>ci_iter := it_stop ops (ci_iter c), ci_tuples := None\<rparr>, cache)
              else (True, c, cache))"

text \<open>The rest of the goroutine.  The result of the loop says whether it got to the call of \<open>flush\<close>.\<close>

definition fill_records :: "'s cached_iterator \<Rightarrow> 's cached_iterator" where
  "fill_records c =
     fold (\<lambda>t c. snd (addToBuffer t c)) (case ci_tuples c of None \<Rightarrow> [] | Some ts \<Rightarrow> ts) (c\<lparr>ci_records := []\<rparr>)"

partial_function (option) drain_buffer_loop ::
    "('s, tuple) iter_ops \<Rightarrow> iter_error option \<Rightarrow> 's cached_iterator \<Rightarrow> (bool \<times> 's cached_iterator) option" where
  "drain_buffer_loop ops ctxErr c =
     (case it_next ops (ci_iter c) ctxErr of
        None \<Rightarrow> None
      | Some (Inl err, it) \<Rightarrow> Some (err = ErrIteratorDone, c\<lparr>ci_iter := it\<rparr>)
      | Some (Inr t, it) \<Rightarrow>
          (case addToBuffer t (c\<lparr>ci_iter := it\<rparr>) of
             (added, c) \<Rightarrow> if added then drain_buffer_loop ops ctxErr c else Some (False, c)))"

declare drain_buffer_loop.simps [code]

text \<open>\<open>leads\<close>: the call of \<open>singleflight\<close> runs its function and does not share that of another request.\<close>

definition cached_drain ::
    "('s, tuple) iter_ops \<Rightarrow> 'c cache_client \<Rightarrow> instant \<Rightarrow> int \<Rightarrow> bool \<Rightarrow> iter_error option \<Rightarrow> 's cached_iterator \<Rightarrow> 'c
     \<Rightarrow> ('s cached_iterator \<times> 'c) option" where
  "cached_drain ops cl now ttl leads ctxErr c cache =
     (let c = fill_records c in
      case it_head ops (ci_iter c) ctxErr of
        None \<Rightarrow> None
      | Some (r, it) \<Rightarrow>
          let c = c\<lparr>ci_iter := it\<rparr> in
          if r = Inl ErrIteratorDone then
            (case cached_flush cl now ttl ctxErr c cache of
               (c, cache) \<Rightarrow> Some (c\<lparr>ci_iter := it_stop ops (ci_iter c)\<rparr>, cache))
          else if \<not> leads then Some (c\<lparr>ci_iter := it_stop ops (ci_iter c)\<rparr>, cache)
          else
            (case drain_buffer_loop ops ctxErr c of
               None \<Rightarrow> None
             | Some (finished, c) \<Rightarrow>
                 (case (if finished then cached_flush cl now ttl ctxErr c cache else (c, cache)) of
                    (c, cache) \<Rightarrow> Some (c\<lparr>ci_iter := it_stop ops (ci_iter c)\<rparr>, cache))))"

section \<open>The wrapper\<close>

record cached_datastore =
  cds_max_result_size :: int
  cds_ttl :: int
  cds_jitter_percentage :: int

record cache_request =
  cq_key :: key
  cq_invalid_store_key :: key
  cq_invalid_entity_keys :: "key list"
  cq_known :: known_fields

definition newCachedIteratorByObjectRelation :: "string \<Rightarrow> key \<Rightarrow> string \<Rightarrow> string \<Rightarrow> cache_request" where
  "newCachedIteratorByObjectRelation store cacheKey object relation =
     (let (objectType, objectID) = SplitObject object in
      \<lparr>cq_key = cacheKey, cq_invalid_store_key = InvalidIteratorCacheKey store,
       cq_invalid_entity_keys = [InvalidIteratorByObjectRelationCacheKey store object relation],
       cq_known = \<lparr>kf_object_type = objectType, kf_object_id = objectID, kf_relation = relation, kf_user_type = ''''\<rparr>\<rparr>)"

fun common_user_type :: "string \<Rightarrow> string list \<Rightarrow> string" where
  "common_user_type userType [] = userType"
| "common_user_type userType (user # users) =
     (let (userObjectType, _) = SplitObject user in
      if userType = '''' then common_user_type userObjectType users
      else if userType \<noteq> userObjectType then ''''
      else common_user_type userType users)"

definition newCachedIteratorByUserObjectType :: "string \<Rightarrow> key \<Rightarrow> string list \<Rightarrow> string \<Rightarrow> cache_request" where
  "newCachedIteratorByUserObjectType store cacheKey users objectType =
     \<lparr>cq_key = cacheKey, cq_invalid_store_key = InvalidIteratorCacheKey store,
      cq_invalid_entity_keys = map (\<lambda>user. InvalidIteratorByUserObjectTypeCacheKey store user objectType) users,
      cq_known = \<lparr>kf_object_type = objectType, kf_object_id = '''', kf_relation = '''', kf_user_type = common_user_type '''' users\<rparr>\<rparr>"

text \<open>The three reads; \<open>None\<close> is a read that goes to the datastore without the cache.\<close>

datatype read_query =
    QRead read_filter
  | QUsersetTuples read_userset_tuples_filter
  | QStartingWithUser read_starting_with_user_filter

fun cache_request_of :: "(byte list \<Rightarrow> 64 word) \<Rightarrow> string \<Rightarrow> read_query \<Rightarrow> consistency_preference \<Rightarrow> cache_request option" where
  "cache_request_of sum64 store (QRead f) consistency =
     (if rf_relation f = '''' \<or> \<not> IsValidObject (rf_object f) then None
      else if consistency = HIGHER_CONSISTENCY then None
      else Some (newCachedIteratorByObjectRelation store (ReadKey sum64 store f) (rf_object f) (rf_relation f)))"
| "cache_request_of sum64 store (QUsersetTuples f) consistency =
     (if consistency = HIGHER_CONSISTENCY then None
      else Some (newCachedIteratorByObjectRelation store (ReadUsersetTuplesKey sum64 store f) (ruf_object f) (ruf_relation f)))"
| "cache_request_of sum64 store (QStartingWithUser f) consistency =
     (if consistency = HIGHER_CONSISTENCY then None
      else
        let subjects = map (\<lambda>u. if or_relation u \<noteq> '''' then ToObjectRelationString (or_object u) (or_relation u)
                                else or_object u) (rsw_user_filter f) in
        Some (newCachedIteratorByUserObjectType store (ReadStartingWithUserKey sum64 store f) subjects (rsw_object_type f)))"

datatype 's cached_result =
    Hit known_fields "tuple_record list"
  | Miss "'s cached_iterator"

text \<open>
  \<open>newCachedIterator\<close> in two parts, because other requests can come between them: the lookup, and the
  iterator of a miss.  The datastore is called at the instant \<open>started\<close>, and the iterator is made when
  the call has come back, at \<open>returned\<close>.
\<close>

definition cached_lookup :: "'c cache_client \<Rightarrow> instant \<Rightarrow> cache_request \<Rightarrow> 'c \<Rightarrow> (known_fields \<times> tuple_record list) option \<times> 'c" where
  "cached_lookup cl now rq cache =
     (case findInCache cl cache now (cq_key rq) (cq_invalid_store_key rq) (cq_invalid_entity_keys rq) of
        (Some (tuples, _), cache) \<Rightarrow> (Some (cq_known rq, tuples), cache)
      | (None, cache) \<Rightarrow> (None, cache))"

definition missed_iterator :: "cached_datastore \<Rightarrow> instant \<Rightarrow> instant \<Rightarrow> 's \<Rightarrow> cache_request \<Rightarrow> 's cached_iterator" where
  "missed_iterator cds started returned it rq =
     \<lparr>ci_iter = it, ci_cache_key = cq_key rq, ci_invalid_store_key = cq_invalid_store_key rq,
      ci_invalid_entity_keys = cq_invalid_entity_keys rq, ci_ttl = cds_ttl cds,
      ci_jitter_percentage = cds_jitter_percentage cds, ci_initialized_at = returned,
      ci_known = cq_known rq, ci_tuples = Some [], ci_records = [],
      ci_max_result_size = cds_max_result_size cds, ci_closing = False\<rparr>"

definition newCachedIterator ::
    "'c cache_client \<Rightarrow> cached_datastore \<Rightarrow> instant \<Rightarrow> instant \<Rightarrow> (storage_error + 's) \<Rightarrow> cache_request \<Rightarrow> 'c
     \<Rightarrow> (storage_error + 's cached_result) \<times> 'c" where
  "newCachedIterator cl cds started returned dsIter rq cache =
     (case cached_lookup cl started rq cache of
        (Some (known, tuples), cache) \<Rightarrow> (Inr (Hit known tuples), cache)
      | (None, cache) \<Rightarrow>
          (case dsIter of
             Inl err \<Rightarrow> (Inl err, cache)
           | Inr it \<Rightarrow> (Inr (Miss (missed_iterator cds started returned it rq)), cache)))"

section \<open>What is stored\<close>

lemma fill_records_eq:
  assumes "ci_tuples c = Some ts" "int (length ts) < ci_max_result_size c"
  shows "fill_records c = c\<lparr>ci_records := map (record_of_tuple (ci_known c)) ts\<rparr>"
proof -
  have "fold (\<lambda>t c. snd (addToBuffer t c)) us d = d\<lparr>ci_records := ci_records d @ map (record_of_tuple (ci_known d)) us\<rparr>"
    if "ci_tuples d = Some ts" "int (length (ci_records d) + length us) < ci_max_result_size d" for us and d :: "'a cached_iterator"
    using that by (induction us arbitrary: d) (simp_all add: addToBuffer_def)
  then show ?thesis using assms by (simp add: fill_records_def)
qed

text \<open>The buffer, as long as it is kept, holds what was read so far of the \<open>all\<close> tuples of the read.\<close>

definition buffers :: "('s \<Rightarrow> tuple list) \<Rightarrow> tuple list \<Rightarrow> 's cached_iterator \<Rightarrow> bool" where
  "buffers items all c \<longleftrightarrow> (\<forall>ts. ci_tuples c = Some ts \<longrightarrow>
     ts @ items (ci_iter c) = all \<and> int (length ts) < ci_max_result_size c)"

lemma buffers_buffer_tuple:
  assumes "buffers items all c" "items (ci_iter c) = t # items it"
  shows "buffers items all (c\<lparr>ci_iter := it, ci_tuples := buffer_tuple (ci_max_result_size c) t (ci_tuples c)\<rparr>)"
  using assms by (auto simp: buffers_def buffer_tuple_def split: option.splits)

locale cacheable_read = stable_iterator ops inv items fin
  for ops :: "('s, tuple) iter_ops" and inv :: "'s \<Rightarrow> bool" and items :: "'s \<Rightarrow> tuple list" and fin :: "'s \<Rightarrow> iter_error"
begin

text \<open>Reading keeps the buffer right, also under a cancelled context.\<close>

lemma cached_Next_live:
  assumes "inv (ci_iter c)" "buffers items all c"
  shows "\<exists>r c'. cached_Next ops c None = Some (r, c') \<and> inv (ci_iter c') \<and> fin (ci_iter c') = fin (ci_iter c) \<and> buffers items all c' \<and>
    (ci_closing c \<or> (case items (ci_iter c) of [] \<Rightarrow> r = Inl (fin (ci_iter c)) | t # _ \<Rightarrow> r = Inr t))"
proof (cases "items (ci_iter c)")
  case Nil
  from next_end [OF assms(1) Nil] end_stable [OF assms(1) Nil] show ?thesis
    using assms Nil by (fastforce simp: cached_Next_def buffers_def)
next
  case (Cons t ts)
  from next_item [OF assms(1) Cons] obtain it where
    it: "it_next ops (ci_iter c) None = Some (Inr t, it)" "inv it" "items it = ts" "fin it = fin (ci_iter c)" by blast
  then show ?thesis
    using assms Cons buffers_buffer_tuple [OF assms(2), of t it] by (auto simp: cached_Next_def)
qed

lemma cached_Next_cancelled:
  assumes "inv (ci_iter c)" "buffers items all c" "e \<in> {Canceled, DeadlineExceeded}"
  shows "\<exists>r c'. cached_Next ops c (Some e) = Some (Inl r, c') \<and> inv (ci_iter c') \<and> fin (ci_iter c') = fin (ci_iter c) \<and> buffers items all c'"
  using next_cancelled [OF assms(1,3)] cancelled_stable [OF assms(1,3)] assms(1,2)
  by (fastforce simp: cached_Next_def buffers_def)

text \<open>The loop stores the rest of the tuples in the buffer, or gives the buffer up.\<close>

lemma drain_abandoned:
  assumes "inv (ci_iter c)" "ci_tuples c = None"
  shows "\<exists>finished c'. drain_buffer_loop ops None c = Some (finished, c') \<and> ci_tuples c' = None"
proof (cases "items (ci_iter c)")
  case Nil
  from next_end [OF assms(1) Nil] assms(2) show ?thesis by (auto simp: drain_buffer_loop.simps)
next
  case (Cons t ts)
  from next_item [OF assms(1) Cons] assms(2) show ?thesis by (auto simp: drain_buffer_loop.simps addToBuffer_def)
qed

lemma drain_complete:
  assumes "inv (ci_iter c)" "ci_tuples c = Some ts"
    "int (length (ci_records c) + length (items (ci_iter c))) < ci_max_result_size c"
  shows "\<exists>it. drain_buffer_loop ops None c =
    Some (fin (ci_iter c) = ErrIteratorDone,
      c\<lparr>ci_iter := it, ci_records := ci_records c @ map (record_of_tuple (ci_known c)) (items (ci_iter c))\<rparr>)"
  using assms
proof (induction "items (ci_iter c)" arbitrary: c)
  case Nil
  obtain it where "it_next ops (ci_iter c) None = Some (Inl (fin (ci_iter c)), it)" using next_end [of "ci_iter c"] Nil by auto
  with Nil(1) show ?case by (auto simp: drain_buffer_loop.simps)
next
  case (Cons t us)
  obtain it where it: "it_next ops (ci_iter c) None = Some (Inr t, it)" "inv it" "items it = us" "fin it = fin (ci_iter c)"
    using next_item [of "ci_iter c" t us] Cons by metis
  let ?c = "c\<lparr>ci_iter := it, ci_records := ci_records c @ [record_of_tuple (ci_known c) t]\<rparr>"
  have "addToBuffer t (c\<lparr>ci_iter := it\<rparr>) = (True, ?c)"
    using Cons.prems Cons.hyps(2) [symmetric] by (simp add: addToBuffer_def)
  then have "drain_buffer_loop ops None c = drain_buffer_loop ops None ?c"
    using it by (subst drain_buffer_loop.simps) simp
  with Cons.hyps(1) [of ?c] Cons.prems Cons.hyps(2) [symmetric] it show ?case by (simp add: add.commute)
qed

lemma drain_overflow:
  assumes "inv (ci_iter c)" "ci_tuples c = Some ts" "int (length (ci_records c)) < ci_max_result_size c"
    "ci_max_result_size c \<le> int (length (ci_records c) + length (items (ci_iter c)))"
  shows "\<exists>finished c'. drain_buffer_loop ops None c = Some (finished, c') \<and> ci_tuples c' = None"
  using assms
proof (induction "items (ci_iter c)" arbitrary: c)
  case (Cons t us)
  obtain it where it: "it_next ops (ci_iter c) None = Some (Inr t, it)" "inv it" "items it = us"
    using next_item [of "ci_iter c" t us] Cons by metis
  obtain c' where c': "addToBuffer t (c\<lparr>ci_iter := it\<rparr>) = (True, c')" "ci_iter c' = it"
    and more: "ci_tuples c' = None \<or> ci_tuples c' = Some ts \<and> ci_max_result_size c' = ci_max_result_size c \<and>
      length (ci_records c') = length (ci_records c) + 1 \<and> int (length (ci_records c) + 1) < ci_max_result_size c"
    using Cons.prems(2)
    by (cases "int (length (ci_records c) + 1) < ci_max_result_size c") (auto simp: addToBuffer_def)
  have step: "drain_buffer_loop ops None c = drain_buffer_loop ops None c'"
    using it c' by (subst drain_buffer_loop.simps) simp
  show ?case
  proof (cases "ci_tuples c' = None")
    case True
    then show ?thesis using drain_abandoned [of c'] it c' step by simp
  next
    case False
    with more have "\<exists>finished c''. drain_buffer_loop ops None c' = Some (finished, c'') \<and> ci_tuples c'' = None"
      using Cons.prems Cons.hyps(2) [symmetric] it c' by (intro Cons.hyps(1)) auto
    then show ?thesis unfolding step .
  qed
qed simp

text \<open>
  A stopped read ends, and stores its tuples exactly if they are complete and fewer than the limit;
  when tuples are left to read it must be the one that drains.
\<close>

lemma cached_drain_spec:
  assumes "inv (ci_iter c)" "ci_tuples c = Some ts" "int (length ts) < ci_max_result_size c"
  shows "\<exists>c'. cached_drain ops cl now ttl leads None c cache = Some (c',
    if fin (ci_iter c) = ErrIteratorDone \<and> (leads \<or> items (ci_iter c) = []) \<and>
       int (length (ts @ items (ci_iter c))) < ci_max_result_size c
    then cache_Set cl cache now (ci_cache_key c)
      (TupleIteratorCacheEntry (map (record_of_tuple (ci_known c)) (ts @ items (ci_iter c))) (ci_initialized_at c)) ttl
    else cache)"
proof (cases "items (ci_iter c)")
  case Nil
  from head_end [OF assms(1) Nil] obtain it where it: "it_head ops (ci_iter c) None = Some (Inl (fin (ci_iter c)), it)"
    "inv it" "items it = []" "fin it = fin (ci_iter c)" by auto
  then have "\<exists>it'. it_next ops it None = Some (Inl (fin (ci_iter c)), it')" using next_end by fastforce
  then show ?thesis
    using it Nil fill_records_eq [OF assms(2,3)] assms(2,3)
    by (auto simp: cached_drain_def Let_def cached_flush_def drain_buffer_loop.simps)
next
  case (Cons t us)
  from head_item [OF assms(1) Cons] obtain it where it: "it_head ops (ci_iter c) None = Some (Inr t, it)"
    "inv it" "items it = t # us" "fin it = fin (ci_iter c)" by auto
  let ?c = "c\<lparr>ci_records := map (record_of_tuple (ci_known c)) ts, ci_iter := it\<rparr>"
  have drain: "cached_drain ops cl now ttl leads None c cache =
    (if \<not> leads then Some (?c\<lparr>ci_iter := it_stop ops it\<rparr>, cache)
     else (case drain_buffer_loop ops None ?c of
             None \<Rightarrow> None
           | Some (finished, c) \<Rightarrow>
               (case (if finished then cached_flush cl now ttl None c cache else (c, cache)) of
                  (c, cache) \<Rightarrow> Some (c\<lparr>ci_iter := it_stop ops (ci_iter c)\<rparr>, cache))))"
    using it(1) by (simp add: cached_drain_def fill_records_eq [OF assms(2,3)])
  show ?thesis
  proof (cases "int (length (ts @ items (ci_iter c))) < ci_max_result_size c")
    case True
    with drain_complete [of ?c ts] it Cons assms show ?thesis unfolding drain by (auto simp: cached_flush_def)
  next
    case False
    with drain_overflow [of ?c ts] it Cons assms show ?thesis unfolding drain by (auto simp: cached_flush_def)
  qed
qed

end

interpretation static_reads: cacheable_read StaticIterator "\<lambda>_. True" "\<lambda>s. s" "\<lambda>_. ErrIteratorDone" ..

lemma addToBuffer_closing: "ci_closing (snd (addToBuffer t c)) = ci_closing c"
  by (simp add: addToBuffer_def Let_def)

lemma fill_records_closing: "ci_closing (fill_records c) = ci_closing c"
proof -
  have "ci_closing (fold (\<lambda>t c. snd (addToBuffer t c)) ts d) = ci_closing d" for ts and d :: "'a cached_iterator"
    by (induction ts arbitrary: d) (simp_all add: addToBuffer_closing)
  then show ?thesis by (simp add: fill_records_def)
qed

lemma drain_buffer_loop_closing:
  assumes "drain_buffer_loop ops ctx c = Some y"
  shows "ci_closing (snd y) = ci_closing c"
proof (rule drain_buffer_loop.raw_induct [OF _ assms, of "\<lambda>ops ctx c y. ci_closing (snd y) = ci_closing c"])
  fix loop ops ctx and c :: "'a cached_iterator" and y
  assume IH: "\<And>ops ctx c y. loop ops ctx c = Some y \<Longrightarrow> ci_closing (snd y) = ci_closing c"
    and step: "(case it_next ops (ci_iter c) ctx of
        None \<Rightarrow> None
      | Some (Inl err, it) \<Rightarrow> Some (err = ErrIteratorDone, c\<lparr>ci_iter := it\<rparr>)
      | Some (Inr t, it) \<Rightarrow>
          (case addToBuffer t (c\<lparr>ci_iter := it\<rparr>) of
             (added, c) \<Rightarrow> if added then loop ops ctx c else Some (False, c))) = Some y"
  from step obtain r it where it: "it_next ops (ci_iter c) ctx = Some (r, it)" by (auto split: option.splits)
  show "ci_closing (snd y) = ci_closing c"
  proof (cases r)
    case (Inr t)
    obtain added d where d: "addToBuffer t (c\<lparr>ci_iter := it\<rparr>) = (added, d)" by fastforce
    then have "ci_closing d = ci_closing c" using addToBuffer_closing [of t "c\<lparr>ci_iter := it\<rparr>"] by simp
    with IH [of ops ctx d y] step it Inr d show ?thesis by (cases added) auto
  qed (use step it in auto)
qed

lemma cached_drain_closing:
  assumes "cached_drain ops cl now ttl leads ctx c cache = Some (c', cache')"
  shows "ci_closing c' = ci_closing c"
proof -
  have flush: "ci_closing (fst (cached_flush cl now ttl ctx d cache)) = ci_closing d" for d :: "'a cached_iterator"
    by (simp add: cached_flush_def)
  obtain r it where h: "it_head ops (ci_iter (fill_records c)) ctx = Some (r, it)"
    using assms by (auto simp: cached_drain_def Let_def split: option.splits)
  let ?c = "(fill_records c)\<lparr>ci_iter := it\<rparr>"
  have close: "ci_closing ?c = ci_closing c" by (simp add: fill_records_closing)
  consider "r = Inl ErrIteratorDone" | "r \<noteq> Inl ErrIteratorDone" "\<not> leads"
    | finished d where "r \<noteq> Inl ErrIteratorDone" leads "drain_buffer_loop ops ctx ?c = Some (finished, d)"
    using assms h by (cases "drain_buffer_loop ops ctx ?c") (auto simp: cached_drain_def Let_def split: if_splits)
  then show ?thesis
  proof cases
    case 3
    with drain_buffer_loop_closing [OF 3(3)] assms h close flush [of d] show ?thesis
      by (auto simp: cached_drain_def Let_def split: if_splits prod.splits)
  qed (use assms h close flush [of ?c] in \<open>auto simp: cached_drain_def Let_def split: prod.splits\<close>)
qed

section \<open>What is served\<close>

lemma isInvalidAt_iff:
  "isInvalidAt cl c now ts sk eks \<longleftrightarrow> (\<exists>k \<in> insert sk (set eks). marked_after (cache_Get cl c now k) ts)"
  by (auto simp: isInvalidAt_def list_ex_iff)

lemma marked_after_iff: "marked_after res ts \<longleftrightarrow> (\<exists>m. res = Some (InvalidEntityCacheEntry m) \<and> ts < m)"
  by (auto simp: marked_after_def split: option.splits cache_item.splits)

lemma findInCache_hit:
  assumes "findInCache cl c now k sk eks = (Some (ts, lm), c')"
  shows "cache_Get cl c now k = Some (TupleIteratorCacheEntry ts lm)" "\<not> isInvalidAt cl c now lm sk eks" "c' = c"
  using assms by (auto simp: findInCache_def split: option.splits cache_item.splits if_splits)

lemma findInCache_cache: "snd (findInCache cl c now k sk eks) \<in> {c, cache_Delete cl c k}"
  by (auto simp: findInCache_def split: option.split cache_item.split)

text \<open>
  A stored tuple comes back unchanged when the fields the query knows are those of the tuple and the
  tuple is as the datastore returns it: with a typed object, a valid user and a timestamp.
\<close>

definition known_of :: "known_fields \<Rightarrow> tuple \<Rightarrow> bool" where
  "known_of kf t \<longleftrightarrow>
     kf_object_type kf \<in> {'''', fst (SplitObject (tk_object (tup_key t)))} \<and>
     kf_object_id kf \<in> {'''', snd (SplitObject (tk_object (tup_key t)))} \<and>
     kf_relation kf \<in> {'''', tk_relation (tup_key t)} \<and>
     kf_user_type kf \<in> {'''', fst (ToUserParts (tk_user (tup_key t)))}"

definition storable :: "tuple \<Rightarrow> bool" where
  "storable t \<longleftrightarrow>
     (case SplitObject (tk_object (tup_key t)) of (ty, i) \<Rightarrow> BuildObject ty i = tk_object (tup_key t)) \<and>
     (case ToUserParts (tk_user (tup_key t)) of (ty, i, r) \<Rightarrow> FromUserParts ty i r = tk_user (tup_key t)) \<and>
     NewRelationshipCondition (get_condition_name (tk_condition (tup_key t))) (get_condition_context (tk_condition (tup_key t)))
       = tk_condition (tup_key t) \<and>
     tup_timestamp t \<noteq> None"

lemma buildTuple_record_of_tuple:
  assumes "known_of kf t" "storable t"
  shows "buildTuple kf (record_of_tuple kf t) = t"
proof -
  obtain ty i where o: "SplitObject (tk_object (tup_key t)) = (ty, i)" by fastforce
  obtain uty ui ur where u: "ToUserParts (tk_user (tup_key t)) = (uty, ui, ur)" by (metis prod_cases3)
  let ?r = "record_of_tuple kf t"
  note r = record_of_tuple_def Let_def o u
  have fields: "(if kf_object_type kf \<noteq> '''' then kf_object_type kf else tr_object_type ?r) = ty"
    "(if kf_object_id kf \<noteq> '''' then kf_object_id kf else tr_object_id ?r) = i"
    "(if kf_relation kf \<noteq> '''' then kf_relation kf else tr_relation ?r) = tk_relation (tup_key t)"
    "(if kf_user_type kf \<noteq> '''' then kf_user_type kf else tr_user_object_type ?r) = uty"
    using assms(1) by (auto simp: known_of_def r)
  have "tup_key (buildTuple kf ?r) = tup_key t"
    unfolding buildTuple_def Let_def fields using assms(2)
    by (simp add: r storable_def NewTupleKeyWithCondition_def)
  moreover have "tup_timestamp (buildTuple kf ?r) = tup_timestamp t"
    using assms(2) by (auto simp: buildTuple_def storable_def r)
  ultimately show ?thesis by simp
qed

lemma common_user_type_member:
  assumes "common_user_type ut users \<noteq> ''''" "u \<in> set users" "fst (SplitObject u) \<noteq> ''''"
  shows "common_user_type ut users = fst (SplitObject u)"
proof -
  have same: "ut \<noteq> '''' \<Longrightarrow> common_user_type ut us \<in> {'''', ut}" for ut us
    by (induction us) (auto split: prod.splits)
  show ?thesis
    using assms
  proof (induction users arbitrary: ut)
    case (Cons v users)
    show ?case
    proof (cases "u = v")
      case True
      with Cons.prems same [of "fst (SplitObject v)" users] show ?thesis by (auto split: prod.splits if_splits)
    next
      case False
      with Cons show ?thesis by (auto split: prod.splits if_splits)
    qed
  qed simp
qed

end
