(* ===== verification/CacheController.thy ===== *)
theory CacheController
  imports CachedReads
begin

text \<open>
  The cache controller (\<open>src/internal/cachecontroller/cache_controller.go\<close>).  A pass over the changelog
  of a store reads the newest page of changes and writes invalidation entries: one for the whole store
  when the page may not show all recent changes, otherwise two per recent change.  A pass is modelled
  in two parts, its reads at one instant and its writes at a later one, so that other requests can come
  between them; \<open>findChangesAndInvalidateIfNecessary\<close> puts the parts together.
\<close>

record cache_controller =
  cc_min_invalidation_interval :: int
  cc_query_cache_ttl :: int
  cc_iterator_cache_ttl :: int

section \<open>Invalidation entries\<close>

definition invalidateIteratorCache :: "'c cache_client \<Rightarrow> 'c \<Rightarrow> instant \<Rightarrow> string \<Rightarrow> 'c" where
  "invalidateIteratorCache cl c now storeID =
     cache_Set cl c now (InvalidIteratorCacheKey storeID) (InvalidEntityCacheEntry now) (2 ^ 63 - 1)"

definition invalidateIteratorCacheByObjectRelation ::
    "'c cache_client \<Rightarrow> cache_controller \<Rightarrow> 'c \<Rightarrow> instant \<Rightarrow> string \<Rightarrow> string \<Rightarrow> string \<Rightarrow> instant \<Rightarrow> 'c" where
  "invalidateIteratorCacheByObjectRelation cl cc c now storeID object relation ts =
     cache_Set cl c now (InvalidIteratorByObjectRelationCacheKey storeID object relation) (InvalidEntityCacheEntry ts)
       (cc_iterator_cache_ttl cc)"

definition invalidateIteratorCacheByUserAndObjectType ::
    "'c cache_client \<Rightarrow> cache_controller \<Rightarrow> 'c \<Rightarrow> instant \<Rightarrow> string \<Rightarrow> string \<Rightarrow> string \<Rightarrow> instant \<Rightarrow> 'c" where
  "invalidateIteratorCacheByUserAndObjectType cl cc c now storeID user objectType ts =
     cache_Set cl c now (InvalidIteratorByUserObjectTypeCacheKey storeID user objectType) (InvalidEntityCacheEntry ts)
       (cc_iterator_cache_ttl cc)"

definition invalidate_change :: "'c cache_client \<Rightarrow> cache_controller \<Rightarrow> string \<Rightarrow> instant \<Rightarrow> tuple_change \<Rightarrow> 'c \<Rightarrow> 'c" where
  "invalidate_change cl cc storeID now ch c =
     (let t = tc_key ch;
          c = invalidateIteratorCacheByObjectRelation cl cc c now storeID (tk_object t) (tk_relation t) now in
      invalidateIteratorCacheByUserAndObjectType cl cc c now storeID (tk_user t) (GetType (tk_object t)) now)"

section \<open>A pass\<close>

definition last_change_cached :: "'c cache_client \<Rightarrow> 'c \<Rightarrow> instant \<Rightarrow> string \<Rightarrow> instant" where
  "last_change_cached cl c now storeID =
     (case cache_Get cl c now (ChangelogCacheKey storeID) of
        Some (ChangelogCacheEntry lastModified lastChecked) \<Rightarrow> lastModified
      | _ \<Rightarrow> 0)"

definition findChangesDescending_options :: read_changes_options where
  "findChangesDescending_options =
     \<lparr>rco_pagination = \<lparr>po_page_size = DefaultPageSize, po_from = ''''\<rparr>, rco_sort_desc = True\<rparr>"

definition findChangesDescending ::
    "(string \<Rightarrow> nat option) \<Rightarrow> (nat \<Rightarrow> string) \<Rightarrow> instant \<Rightarrow> memory_backend \<Rightarrow> string \<Rightarrow> storage_error + tuple_change list \<times> string" where
  "findChangesDescending ulid_parse ulid_string now ds storeID =
     ReadChanges ulid_parse ulid_string now ds storeID \<lparr>rcf_object_type = '''', rcf_horizon_offset = 0\<rparr>
       findChangesDescending_options"

text \<open>
  The result of the changelog query: it ran into the timeout, or it answered.  The loop over \<open>idx\<close> goes
  from the oldest change of the page to the newest; \<open>recent_changes\<close> is \<open>idx + 1\<close>, the number of
  changes from the newest to the first one after the horizon.
\<close>

datatype changelog_result = TimedOut | Answered "storage_error + tuple_change list"

fun recent_changes :: "instant \<Rightarrow> tuple_change list \<Rightarrow> nat \<Rightarrow> nat" where
  "recent_changes horizon changes 0 = 0"
| "recent_changes horizon changes (Suc idx) =
     (if tc_timestamp (changes ! idx) > horizon then Suc idx else recent_changes horizon changes idx)"

text \<open>The writes of a pass; \<open>None\<close> is the panic on an empty list of changes.\<close>

definition invalidate_after ::
    "'c cache_client \<Rightarrow> cache_controller \<Rightarrow> instant \<Rightarrow> string \<Rightarrow> instant \<Rightarrow> changelog_result \<Rightarrow> 'c \<Rightarrow> 'c option" where
  "invalidate_after cl cc now storeID lastChangeTimeCached res c =
     (case res of
        TimedOut \<Rightarrow> Some c
      | Answered (Inl _) \<Rightarrow> Some (invalidateIteratorCache cl c now storeID)
      | Answered (Inr []) \<Rightarrow> None
      | Answered (Inr (change # older)) \<Rightarrow>
          let changes = change # older;
              lastChangeTimeActual = tc_timestamp change;
              c = cache_Set cl c now (ChangelogCacheKey storeID) (ChangelogCacheEntry lastChangeTimeActual now)
                    (cc_query_cache_ttl cc) in
          if \<not> lastChangeTimeActual > lastChangeTimeCached then Some c
          else
            let n = recent_changes (now - cc_iterator_cache_ttl cc) changes (length changes) in
            if n = length changes then Some (invalidateIteratorCache cl c now storeID)
            else Some (fold (invalidate_change cl cc storeID now) (rev (take n changes)) c))"

definition findChangesAndInvalidateIfNecessary ::
    "'c cache_client \<Rightarrow> cache_controller \<Rightarrow> instant \<Rightarrow> instant \<Rightarrow> string \<Rightarrow> changelog_result \<Rightarrow> 'c \<Rightarrow> 'c option" where
  "findChangesAndInvalidateIfNecessary cl cc start now storeID res c =
     invalidate_after cl cc now storeID (last_change_cached cl c start storeID) res c"

text \<open>
  \<open>InvalidateIfNeeded\<close> starts a pass unless one is under way; \<open>DetermineInvalidationTime\<close> tells the
  requests the time of the last known change, and starts a pass when that knowledge is missing or old.
\<close>

definition InvalidateIfNeeded :: "string list \<Rightarrow> string \<Rightarrow> bool \<times> string list" where
  "InvalidateIfNeeded inflight storeID =
     (if storeID \<in> set inflight then (False, inflight) else (True, storeID # inflight))"

definition DetermineInvalidationTime ::
    "'c cache_client \<Rightarrow> cache_controller \<Rightarrow> 'c \<Rightarrow> instant \<Rightarrow> string list \<Rightarrow> string \<Rightarrow> instant \<times> bool \<times> string list" where
  "DetermineInvalidationTime cl cc c now inflight storeID =
     (case cache_Get cl c now (ChangelogCacheKey storeID) of
        Some (ChangelogCacheEntry lastModified lastChecked) \<Rightarrow>
          (if now - lastChecked > cc_min_invalidation_interval cc
           then (lastModified, InvalidateIfNeeded inflight storeID)
           else (lastModified, False, inflight))
      | _ \<Rightarrow> (0, InvalidateIfNeeded inflight storeID))"

section \<open>Which changes a pass covers\<close>

lemma recent_changes_le: "recent_changes h cs n \<le> n"
  by (induction n) auto

lemma recent_changes_older:
  "recent_changes h cs n \<le> i \<Longrightarrow> i < n \<Longrightarrow> tc_timestamp (cs ! i) \<le> h"
  by (induction n) (auto simp: less_Suc_eq split: if_splits)

text \<open>Every change of the page after the horizon is among those that a partial invalidation goes through.\<close>

lemma recent_changes_cover:
  assumes "ch \<in> set cs" "tc_timestamp ch > h"
  shows "ch \<in> set (take (recent_changes h cs (length cs)) cs)"
proof -
  obtain i where i: "i < length cs" "cs ! i = ch" using assms(1) by (metis in_set_conv_nth)
  then have "i < recent_changes h cs (length cs)"
    using recent_changes_older [of h cs "length cs" i] assms(2) by (meson not_le order.strict_trans2 leD)
  with i show ?thesis by (metis in_set_conv_nth length_take min_less_iff_conj nth_take)
qed

end
