(* ===== verification/CachingSystem.thy ===== *)
theory CachingSystem
  imports CacheController WriteCommand
begin

text \<open>
  The iterator cache, the cache controller and the in-memory datastore together.  Writes, cached reads
  and passes of the controller interleave; every event happens at a later instant than the one before.
  The invariant of the runs says what the entries of the cache hold; CacheFreshness draws the bound on
  the staleness of a cached read from it.
\<close>

section \<open>Reads of the datastore\<close>

fun query_records :: "memory_backend \<Rightarrow> string \<Rightarrow> read_query \<Rightarrow> tuple_record list" where
  "query_records s st (QRead f) = read_matches s st f"
| "query_records s st (QUsersetTuples f) = si_records (ReadUsersetTuples s st f)"
| "query_records s st (QStartingWithUser f) = si_records (ReadStartingWithUser s st f)"

definition query_answer :: "memory_backend \<Rightarrow> string \<Rightarrow> read_query \<Rightarrow> tuple list" where
  "query_answer s st q = map AsTuple (query_records s st q)"

text \<open>What the resolver asks: the object and the relation of a read are given.\<close>

fun full_query :: "read_query \<Rightarrow> bool" where
  "full_query (QRead f) \<longleftrightarrow> IsValidObject (rf_object f) \<and> rf_relation f \<noteq> ''''"
| "full_query (QUsersetTuples f) \<longleftrightarrow> IsValidObject (ruf_object f) \<and> ruf_relation f \<noteq> ''''"
| "full_query (QStartingWithUser f) \<longleftrightarrow> True"

text \<open>The tuples a query is about, and what a record contributes to its answer.\<close>

fun touches :: "read_query \<Rightarrow> tkey \<Rightarrow> bool" where
  "touches (QRead f) (ob, re, us) \<longleftrightarrow> ob = rf_object f \<and> re = rf_relation f"
| "touches (QUsersetTuples f) (ob, re, us) \<longleftrightarrow> ob = ruf_object f \<and> re = ruf_relation f"
| "touches (QStartingWithUser f) (ob, re, us) \<longleftrightarrow>
     GetType ob = rsw_object_type f \<and> us \<in> user_filter_target ` set (rsw_user_filter f)"

fun selected :: "read_query \<Rightarrow> tuple_record \<Rightarrow> tuple_record list" where
  "selected (QRead f) t =
     (if match t (NewTupleKey (rf_object f) (rf_relation f) (rf_user f)) \<and> conditions_allow (rf_conditions f) t then [t] else [])"
| "selected (QUsersetTuples f) t =
     (if match t (NewTupleKey (ruf_object f) (ruf_relation f) '''') \<and> GetUserTypeFromUser (tr_user t) = UserSet
      then userset_matches (ruf_allowed f) t else [])"
| "selected (QStartingWithUser f) t = starting_with_user_matches f t"

fun ordered :: "read_query \<Rightarrow> tuple_record list \<Rightarrow> tuple_record list" where
  "ordered (QStartingWithUser f) ts = sort_key tr_object_id ts"
| "ordered _ ts = ts"

lemma concat_map_if: "concat (map (\<lambda>x. if P x then [x] else []) xs) = filter P xs"
  by (induction xs) auto

lemma selected_fun:
  "selected (QRead f) = (\<lambda>t. if match t (NewTupleKey (rf_object f) (rf_relation f) (rf_user f)) \<and> conditions_allow (rf_conditions f) t then [t] else [])"
  "selected (QUsersetTuples g) = (\<lambda>t. if match t (NewTupleKey (ruf_object g) (ruf_relation g) '''') \<and> GetUserTypeFromUser (tr_user t) = UserSet
      then userset_matches (ruf_allowed g) t else [])"
  "selected (QStartingWithUser h) = starting_with_user_matches h"
  by (simp_all add: fun_eq_iff)

lemma query_records_selected:
  "full_query q \<Longrightarrow> query_records s st q = ordered q (concat (map (selected q) (mb_tuples s st)))"
  by (cases q) (simp_all add: read_matches_def concat_map_if ReadUsersetTuples_def ReadStartingWithUser_def selected_fun)

lemma match_forget_user: "match t (NewTupleKey ob re us) \<Longrightarrow> match t (NewTupleKey ob re '''')"
  by (auto simp: match_def match_user_def NewTupleKey_def split: if_splits)

lemma selected_member: "tr' \<in> set (selected q tr) \<Longrightarrow> tr' = tr"
  by (cases q) (auto simp: userset_matches_def starting_with_user_matches_def split: if_splits option.splits)

lemma selected_touches:
  assumes "wf_record st tr" "full_query q" "selected q tr \<noteq> []"
  shows "touches q (rec_key tr)"
proof (cases q)
  case (QRead f)
  with assms have "match tr (NewTupleKey (rf_object f) (rf_relation f) '''')"
    by (auto split: if_splits intro: match_forget_user)
  with match_object_relation [OF assms(1)] assms(2) QRead show ?thesis by (simp add: rec_key_def)
next
  case (QUsersetTuples f)
  with assms have "match tr (NewTupleKey (ruf_object f) (ruf_relation f) '''')" by (auto split: if_splits)
  with match_object_relation [OF assms(1)] assms(2) QUsersetTuples show ?thesis by (simp add: rec_key_def)
next
  case (QStartingWithUser f)
  have type: "GetType (BuildObject (tr_object_type tr) (tr_object_id tr)) = tr_object_type tr"
    using assms(1) by (simp add: GetType_def BuildObject_def wf_record_def)
  from assms(3) QStartingWithUser obtain u where "tr_object_type tr = rsw_object_type f"
    "u \<in> set (rsw_user_filter f)" "user_filter_target u = tr_user tr"
    by (auto simp: starting_with_user_matches_def filter_empty_conv split: if_splits)
  with type show ?thesis unfolding QStartingWithUser by (auto simp: rec_key_def intro: rev_image_eqI)
qed

lemma concat_map_filter:
  "(\<And>x. x \<in> set xs \<Longrightarrow> \<not> P x \<Longrightarrow> f x = []) \<Longrightarrow> concat (map f (filter P xs)) = concat (map f xs)"
  by (induction xs) auto

text \<open>A query does not see a change of tuples it is not about.\<close>

lemma query_answer_unaffected:
  assumes "full_query q" and tuples: "mb_tuples s' st = filter P (mb_tuples s st) @ new"
    and "list_all (wf_record st) (mb_tuples s st)" "list_all (wf_record st) new"
    and dropped: "\<And>tr. tr \<in> set (mb_tuples s st) \<Longrightarrow> \<not> P tr \<Longrightarrow> \<not> touches q (rec_key tr)"
    and added: "\<And>tr. tr \<in> set new \<Longrightarrow> \<not> touches q (rec_key tr)"
  shows "query_answer s' st q = query_answer s st q"
proof -
  have "selected q tr = []" if "tr \<in> set (mb_tuples s st)" "\<not> P tr" for tr
    using selected_touches [of st tr q] dropped [OF that] assms(1,3) that by (auto simp: list_all_iff)
  then have "concat (map (selected q) (filter P (mb_tuples s st))) = concat (map (selected q) (mb_tuples s st))"
    by (rule concat_map_filter)
  moreover have "concat (map (selected q) new) = []"
    using selected_touches [of st _ q] added assms(1,4) by (fastforce simp: list_all_iff)
  ultimately have "concat (map (selected q) (mb_tuples s' st)) = concat (map (selected q) (mb_tuples s st))"
    unfolding tuples map_append concat_append by (simp only: append_Nil2)
  then show ?thesis by (simp add: query_answer_def query_records_selected [OF assms(1)])
qed

section \<open>What a write changes\<close>

lemma delete_loop_changes:
  "delete_loop ulids now dups ds trs n = (kept, deleted, m) \<Longrightarrow>
   kept = filter (\<lambda>tr. \<not> deleted_by dups 0 ds tr) trs \<and>
   (\<forall>tr \<in> set trs. deleted_by dups 0 ds tr \<longrightarrow> (\<exists>u. delete_change now u tr \<in> set deleted)) \<and>
   (\<forall>c \<in> set deleted. \<exists>u tr. tr \<in> set trs \<and> c = delete_change now u tr)"
proof (induction trs arbitrary: n kept deleted)
  case (Cons tr trs)
  then show ?case by (fastforce split: if_splits prod.splits)
qed simp

lemma write_loop_changes:
  "write_loop ulids st now ts records changes n = (records', changes') \<Longrightarrow>
   \<exists>new logged. records' = records @ new \<and> changes' = changes @ logged \<and>
     (\<forall>tr \<in> set new. \<exists>t \<in> set ts. (\<exists>u. tr = new_record st now u t) \<and> (\<exists>u. write_change now u t \<in> set logged)) \<and>
     (\<forall>c \<in> set logged. \<exists>u. \<exists>t \<in> set ts. c = write_change now u t)"
proof (induction ts arbitrary: records changes n)
  case (Cons t ts)
  show ?case
  proof (cases "list_ex (\<lambda>et. match et t) records")
    case True
    with Cons.IH [of records changes n] Cons.prems show ?thesis by fastforce
  next
    case False
    with Cons.IH [of "records @ [new_record st now (ulids n) t]" "changes @ [write_change now (ulids (n + 1)) t]" "n + 2"] Cons.prems
    obtain new logged where "records' = records @ new_record st now (ulids n) t # new"
      "changes' = changes @ write_change now (ulids (n + 1)) t # logged"
      and rest: "\<forall>tr \<in> set new. \<exists>t \<in> set ts. (\<exists>u. tr = new_record st now u t) \<and> (\<exists>u. write_change now u t \<in> set logged)"
        "\<forall>c \<in> set logged. \<exists>u. \<exists>t \<in> set ts. c = write_change now u t" by auto
    then show ?thesis
      by (intro exI [of _ "new_record st now (ulids n) t # new"] exI [of _ "write_change now (ulids (n + 1)) t # logged"]) fastforce
  qed
qed simp

definition change_key :: "tuple_change_rec \<Rightarrow> tkey" where
  "change_key c = tkey_of (tc_key (tcr_change c))"

lemma write_change_key:
  assumes "valid_key t"
  shows "change_key (write_change now u t) = tkey_of t"
proof -
  obtain ty i where "tk_object t = BuildObject ty i" "SplitObject (tk_object t) = (ty, i)"
    using assms by (auto simp: valid_key_def elim: IsValidObject_split)
  then show ?thesis by (simp add: change_key_def write_change_def tkey_of_def NewTupleKeyWithCondition_def)
qed

lemma change_timestamps [simp]:
  "tc_timestamp (tcr_change (write_change now u t)) = now" "tc_timestamp (tcr_change (delete_change now u tr)) = now"
  by (simp_all add: write_change_def delete_change_def Let_def split: prod.split)

text \<open>Every record that a write drops or adds is in the changes it logs, with the time of the write.\<close>

lemma Write_logs_changes:
  assumes "Write struct_string ulids now s st deletes writes opts = (None, s')"
    and "list_all valid_key writes" and wf: "list_all (wf_record st) (mb_tuples s st)"
  shows "\<exists>P new logged. mb_tuples s' st = filter P (mb_tuples s st) @ new \<and> mb_changes s' st = mb_changes s st @ logged \<and>
    list_all (wf_record st) new \<and>
    (\<forall>tr \<in> set (mb_tuples s st). \<not> P tr \<longrightarrow> rec_key tr \<in> change_key ` set logged) \<and>
    (\<forall>tr \<in> set new. rec_key tr \<in> change_key ` set logged \<and> tr_user tr \<in> tk_user ` set writes) \<and>
    (\<forall>c \<in> set logged. tc_timestamp (tcr_change c) = now)"
proof -
  obtain dups kept deleted n records changes dw where loops:
    "delete_loop ulids now dups deletes (mb_tuples s st) 0 = (kept, deleted, n)"
    "write_loop ulids st now writes kept (mb_changes s st @ deleted) n = (records, changes)"
    "s' = s\<lparr>mb_changes := (mb_changes s)(st := changes), mb_tuples := (mb_tuples s)(st := records)\<rparr>"
    using assms(1) by (rule Write_SomeD)
  note del = delete_loop_changes [OF loops(1)]
  from write_loop_changes [OF loops(2)] obtain new logged where w:
    "records = kept @ new" "changes = (mb_changes s st @ deleted) @ logged"
    "\<forall>tr \<in> set new. \<exists>t \<in> set writes. (\<exists>u. tr = new_record st now u t) \<and> (\<exists>u. write_change now u t \<in> set logged)"
    "\<forall>c \<in> set logged. \<exists>u. \<exists>t \<in> set writes. c = write_change now u t" by blast
  have new: "wf_record st tr \<and> rec_key tr \<in> change_key ` set logged \<and> tr_user tr \<in> tk_user ` set writes" if "tr \<in> set new" for tr
  proof -
    from w(3) that obtain t u u' where t: "t \<in> set writes" "tr = new_record st now u t" "write_change now u' t \<in> set logged" by blast
    with assms(2) have "valid_key t" by (simp add: list_all_iff)
    with t new_record_key [OF this, of st now u] write_change_key [OF this, of now u'] show ?thesis
      by (auto simp: rec_key_def tkey_of_def intro!: rev_image_eqI)
  qed
  have "rec_key tr \<in> change_key ` set deleted" if "tr \<in> set (mb_tuples s st)" "deleted_by dups 0 deletes tr" for tr
  proof -
    from del that obtain u where u: "delete_change now u tr \<in> set deleted" by blast
    have "tr_user tr \<noteq> ''''" using wf that(1) by (auto simp: list_all_iff wf_record_def)
    then have "change_key (delete_change now u tr) = rec_key tr"
      using AsTuple_key [of tr] by (simp add: change_key_def delete_change_def Let_def NewTupleKey_def tkey_of_def)
    with u show ?thesis by (metis imageI)
  qed
  with new del w(4) show ?thesis
    by (intro exI [of _ "\<lambda>tr. \<not> deleted_by dups 0 deletes tr"] exI [of _ new] exI [of _ "deleted @ logged"])
      (fastforce simp: loops(3) w(1,2) list_all_iff)
qed

lemma Write_memory_invar:
  assumes inv: "memory_invar s st" and valid: "list_all valid_key deletes" "list_all valid_key writes"
    and users: "list_all (\<lambda>t. subject_of (tk_user t) \<noteq> None) writes"
    and W: "Write struct_string ulids now s st deletes writes opts = (None, s')"
  shows "memory_invar s' st"
proof -
  have mem: "mem_inv s st" "list_all (wf_record st) (mb_tuples s st)"
    using inv by (simp_all add: memory_invar_def mem_inv_def wf_records_def)
  obtain P new logged where w: "mb_tuples s' st = filter P (mb_tuples s st) @ new"
    "\<forall>tr \<in> set new. rec_key tr \<in> change_key ` set logged \<and> tr_user tr \<in> tk_user ` set writes"
    using Write_logs_changes [OF W valid(2) mem(2)] by blast
  with Write_correct [OF mem(1) valid W] inv users show ?thesis
    by (fastforce simp: memory_invar_def list_all_iff)
qed

section \<open>The system\<close>

record 'c caching_env =
  cv_client :: "'c cache_client"
  cv_datastore :: cached_datastore
  cv_controller :: cache_controller
  cv_sum64 :: "byte list \<Rightarrow> 64 word"
  cv_struct_string :: "pbstruct option \<Rightarrow> string"
  cv_ulid_parse :: "string \<Rightarrow> nat option"
  cv_ulid_string :: "nat \<Rightarrow> string"
  cv_latency :: int

text \<open>
  Reads that missed the cache: those whose call of the datastore has not come back yet, with the answer
  on its way, and those with an iterator.  The answer is that of the instant \<open>ar_asked\<close> at which the call
  started.
\<close>

record asked_read =
  ar_store :: string
  ar_query :: read_query
  ar_request :: cache_request
  ar_asked :: instant
  ar_answer :: "tuple list"

record open_read =
  od_store :: string
  od_query :: read_query
  od_asked :: instant
  od_iter :: "tuple list cached_iterator"
  od_draining :: bool

text \<open>
  The last two fields are bookkeeping for the statements: the time of the newest change of a store that
  a pass of the controller has dealt with, and the datastore as it was at every instant.
\<close>

record 'c caching =
  cg_cache :: 'c
  cg_store :: memory_backend
  cg_asked :: "asked_read list"
  cg_reads :: "open_read list"
  cg_passes :: "(string \<times> instant \<times> changelog_result) list"
  cg_now :: instant
  cg_noticed :: "string \<Rightarrow> instant"
  cg_history :: "instant \<Rightarrow> memory_backend"

datatype caching_event =
    WriteTuples string "plain_key list" "tuple_key list" "tuple_write_option list" "nat \<Rightarrow> nat"
  | OpenRead string read_query consistency_preference
  | ReturnRead nat
  | NextTuple nat "iter_error option"
  | StopRead nat
  | FinishRead nat int "int \<Rightarrow> int" bool
  | StartPass string
  | EndPass string bool

definition noticed_change :: "changelog_result \<Rightarrow> instant \<Rightarrow> instant" where
  "noticed_change res noticed =
     (case res of Answered (Inr (change # _)) \<Rightarrow> max noticed (tc_timestamp change) | _ \<Rightarrow> noticed)"

definition open_read_step :: "'c caching_env \<Rightarrow> instant \<Rightarrow> string \<Rightarrow> read_query \<Rightarrow> consistency_preference \<Rightarrow> 'c caching \<Rightarrow> 'c caching" where
  "open_read_step env t st q consistency s =
     (case cache_request_of (cv_sum64 env) st q consistency of
        None \<Rightarrow> s
      | Some rq \<Rightarrow>
          (case cached_lookup (cv_client env) t rq (cg_cache s) of
             (Some _, c) \<Rightarrow> s\<lparr>cg_cache := c\<rparr>
           | (None, c) \<Rightarrow>
               s\<lparr>cg_cache := c,
                 cg_asked := cg_asked s @ [\<lparr>ar_store = st, ar_query = q, ar_request = rq, ar_asked = t,
                   ar_answer = query_answer (cg_store s) st q\<rparr>]\<rparr>))"

definition return_read :: "'c caching_env \<Rightarrow> instant \<Rightarrow> asked_read \<Rightarrow> open_read" where
  "return_read env t a =
     \<lparr>od_store = ar_store a, od_query = ar_query a, od_asked = ar_asked a,
      od_iter = missed_iterator (cv_datastore env) (ar_asked a) t (ar_answer a) (ar_request a), od_draining = False\<rparr>"

definition finish_ttl :: "open_read \<Rightarrow> int \<Rightarrow> (int \<Rightarrow> int) \<Rightarrow> int" where
  "finish_ttl r int63 int63n = JitteredTTL int63 int63n (ci_ttl (od_iter r)) (ci_jitter_percentage (od_iter r))"

fun caching_action :: "'c caching_env \<Rightarrow> instant \<Rightarrow> caching_event \<Rightarrow> 'c caching \<Rightarrow> 'c caching" where
  "caching_action env t (WriteTuples st deletes writes opts ulids) s =
     (let ds = snd (Memory.Write (cv_struct_string env) ulids t (cg_store s) st deletes writes opts) in
      s\<lparr>cg_store := ds, cg_history := (\<lambda>u. if t \<le> u then ds else cg_history s u)\<rparr>)"
| "caching_action env t (OpenRead st q consistency) s = open_read_step env t st q consistency s"
| "caching_action env t (ReturnRead i) s =
     (if i < length (cg_asked s) then
        s\<lparr>cg_asked := take i (cg_asked s) @ drop (Suc i) (cg_asked s),
          cg_reads := cg_reads s @ [return_read env t (cg_asked s ! i)]\<rparr>
      else s)"
| "caching_action env t (NextTuple i ctx) s =
     (if i < length (cg_reads s) then
        (case cached_Next StaticIterator (od_iter (cg_reads s ! i)) ctx of
           None \<Rightarrow> s
         | Some (_, it) \<Rightarrow> s\<lparr>cg_reads := (cg_reads s)[i := (cg_reads s ! i)\<lparr>od_iter := it\<rparr>]\<rparr>)
      else s)"
| "caching_action env t (StopRead i) s =
     (if i < length (cg_reads s) then
        (case cached_Stop StaticIterator (cv_client env) t None (od_iter (cg_reads s ! i)) (cg_cache s) of
           (go, it, c) \<Rightarrow>
             s\<lparr>cg_cache := c,
               cg_reads := (cg_reads s)[i := (cg_reads s ! i)\<lparr>od_iter := it, od_draining := od_draining (cg_reads s ! i) \<or> go\<rparr>]\<rparr>)
      else s)"
| "caching_action env t (FinishRead i int63 int63n leads) s =
     (if i < length (cg_reads s) \<and> od_draining (cg_reads s ! i) then
        (case cached_drain StaticIterator (cv_client env) t (finish_ttl (cg_reads s ! i) int63 int63n) leads None
                (od_iter (cg_reads s ! i)) (cg_cache s) of
           None \<Rightarrow> s
         | Some (it, c) \<Rightarrow>
             s\<lparr>cg_cache := c, cg_reads := (cg_reads s)[i := (cg_reads s ! i)\<lparr>od_iter := it, od_draining := False\<rparr>]\<rparr>)
      else s)"
| "caching_action env t (StartPass st) s =
     (if st \<in> fst ` set (cg_passes s) then s
      else s\<lparr>cg_passes :=
        (st, last_change_cached (cv_client env) (cg_cache s) t st,
         Answered (map_sum id fst (findChangesDescending (cv_ulid_parse env) (cv_ulid_string env) t (cg_store s) st)))
        # cg_passes s\<rparr>)"
| "caching_action env t (EndPass st timeout) s =
     (case map_of (cg_passes s) st of
        None \<Rightarrow> s
      | Some (lastChange, res) \<Rightarrow>
          let res = (if timeout then TimedOut else res) in
          (case invalidate_after (cv_client env) (cv_controller env) t st lastChange res (cg_cache s) of
             None \<Rightarrow> s
           | Some c \<Rightarrow>
               s\<lparr>cg_cache := c, cg_passes := AList.delete st (cg_passes s),
                 cg_noticed := (cg_noticed s)(st := noticed_change res (cg_noticed s st))\<rparr>))"

definition caching_step :: "'c caching_env \<Rightarrow> instant \<Rightarrow> caching_event \<Rightarrow> 'c caching \<Rightarrow> 'c caching" where
  "caching_step env t e s = (caching_action env t e s)\<lparr>cg_now := t\<rparr>"

text \<open>
  What the requests satisfy: written tuples are valid, queries are among those of \<open>Q\<close>, contexts are live
  or cancelled, and the random sources stay in their documented ranges.
\<close>

fun event_ok :: "(string \<times> read_query) set \<Rightarrow> caching_event \<Rightarrow> bool" where
  "event_ok Q (WriteTuples st deletes writes opts ulids) \<longleftrightarrow>
     list_all valid_key deletes \<and> list_all valid_key writes \<and> list_all (\<lambda>t. subject_of (tk_user t) \<noteq> None) writes"
| "event_ok Q (OpenRead st q consistency) \<longleftrightarrow> (st, q) \<in> Q \<and> full_query q"
| "event_ok Q (NextTuple i ctx) \<longleftrightarrow> ctx \<in> {None, Some Canceled, Some DeadlineExceeded}"
| "event_ok Q (FinishRead i int63 int63n leads) \<longleftrightarrow>
     0 \<le> int63 \<and> int63 < 2 ^ 63 \<and> (\<forall>n > 0. 0 \<le> int63n n \<and> int63n n < n)"
| "event_ok Q (StartPass st) \<longleftrightarrow> go_len st"
| "event_ok Q _ \<longleftrightarrow> True"

text \<open>The datastore returns within the latency.\<close>

fun in_time :: "'c caching_env \<Rightarrow> instant \<Rightarrow> caching_event \<Rightarrow> 'c caching \<Rightarrow> bool" where
  "in_time env t (ReturnRead i) s \<longleftrightarrow> (i < length (cg_asked s) \<longrightarrow> t \<le> ar_asked (cg_asked s ! i) + cv_latency env)"
| "in_time env t _ s \<longleftrightarrow> True"

definition env_ok :: "'c caching_env \<Rightarrow> bool" where
  "env_ok env \<longleftrightarrow> keeps_entries (cv_client env) \<and> 0 \<le> cv_latency env \<and>
     0 < cds_max_result_size (cv_datastore env) \<and> 0 < cds_ttl (cv_datastore env) \<and> cds_ttl (cv_datastore env) < 2 ^ 63 \<and>
     0 \<le> cds_jitter_percentage (cv_datastore env) \<and> 0 < cc_query_cache_ttl (cv_controller env) \<and>
     0 < cc_iterator_cache_ttl (cv_controller env) \<and> cc_iterator_cache_ttl (cv_controller env) \<le> oneYear"

definition initial_caching :: "'c \<Rightarrow> instant \<Rightarrow> storage_option list \<Rightarrow> 'c caching" where
  "initial_caching c t opts =
     \<lparr>cg_cache = c, cg_store = Memory.New opts, cg_asked = [], cg_reads = [], cg_passes = [], cg_now = t,
      cg_noticed = (\<lambda>_. 0), cg_history = (\<lambda>_. Memory.New opts)\<rparr>"

inductive caching_run :: "'c caching_env \<Rightarrow> (string \<times> read_query) set \<Rightarrow> 'c caching \<Rightarrow> bool" for env Q where
  start: "\<forall>n k. t \<le> n \<longrightarrow> cache_Get (cv_client env) c n k = None \<Longrightarrow> 0 \<le> t \<Longrightarrow> caching_run env Q (initial_caching c t opts)"
| event: "caching_run env Q s \<Longrightarrow> cg_now s < t \<Longrightarrow> event_ok Q e \<Longrightarrow> in_time env t e s \<Longrightarrow>
    caching_run env Q (caching_step env t e s)"

section \<open>Keys\<close>

definition request_for :: "'c caching_env \<Rightarrow> string \<Rightarrow> read_query \<Rightarrow> cache_request" where
  "request_for env st q = the (cache_request_of (cv_sum64 env) st q UNSPECIFIED)"

lemma cache_request_of_full:
  assumes "full_query q" "cache_request_of (cv_sum64 env) st q consistency = Some rq"
  shows "rq = request_for env st q"
  using assms by (cases q) (auto simp: request_for_def split: if_splits)

text \<open>The first token of a key names its domain.\<close>

lemma first_token_differs:
  assumes "k = concat (map enc_tok (TString p # ts))" "k' = concat (map enc_tok (TString p' # ts'))" "p \<noteq> p'" "go_len p" "go_len p'"
  shows "k \<noteq> k'"
  using assms enc_tok_prefix [of "TString p" "concat (map enc_tok ts)" "TString p'" "concat (map enc_tok ts')"] by auto

lemma request_key_tokens:
  assumes "full_query q"
  shows "\<exists>ts. cq_key (request_for env st q) = concat (map enc_tok (TString ''IC'' # ts))"
proof -
  have "\<exists>ts. ReadKey h st f = concat (map enc_tok (TString ''IC'' # ts))"
    "\<exists>ts. ReadUsersetTuplesKey h st g = concat (map enc_tok (TString ''IC'' # ts))"
    "\<exists>ts. ReadStartingWithUserKey h st u = concat (map enc_tok (TString ''IC'' # ts))" for h f g u
    by (subst key_tokens, blast)+
  with assms show ?thesis
    by (cases q) (simp_all add: request_for_def newCachedIteratorByObjectRelation_def newCachedIteratorByUserObjectType_def
        split: prod.split)
qed

definition marker_key :: "key \<Rightarrow> bool" where
  "marker_key k \<longleftrightarrow> (\<exists>ts. k = concat (map enc_tok (TString ''IQ'' # ts)))"

lemma marker_keys [simp]:
  "marker_key (InvalidIteratorCacheKey st)" "marker_key (InvalidIteratorByObjectRelationCacheKey st ob re)"
  "marker_key (InvalidIteratorByUserObjectTypeCacheKey st us ot)"
  unfolding marker_key_def key_tokens by blast+

lemma key_domains:
  assumes "full_query q"
  shows "marker_key k \<Longrightarrow> k \<noteq> cq_key (request_for env st q)" "marker_key k \<Longrightarrow> k \<noteq> ChangelogCacheKey st'"
    "cq_key (request_for env st q) \<noteq> ChangelogCacheKey st'"
proof -
  obtain ts where ic: "cq_key (request_for env st q) = concat (map enc_tok (TString ''IC'' # ts))"
    using request_key_tokens [OF assms] by blast
  have cc: "ChangelogCacheKey st' = concat (map enc_tok (TString ''CC'' # [TString st']))" by (simp add: key_tokens)
  show "marker_key k \<Longrightarrow> k \<noteq> cq_key (request_for env st q)"
    using first_token_differs [OF _ ic, of k "''IQ''"] by (auto simp: marker_key_def)
  show "marker_key k \<Longrightarrow> k \<noteq> ChangelogCacheKey st'"
    using first_token_differs [OF _ cc, of k "''IQ''"] by (auto simp: marker_key_def)
  show "cq_key (request_for env st q) \<noteq> ChangelogCacheKey st'" using first_token_differs [OF ic cc] by simp
qed

lemma marker_not_changelog: "marker_key k \<Longrightarrow> k \<noteq> ChangelogCacheKey st"
  by (rule key_domains(2) [of "QStartingWithUser undefined"]) simp_all

lemma ChangelogCacheKey_inj:
  "go_len st \<Longrightarrow> go_len st' \<Longrightarrow> ChangelogCacheKey st = ChangelogCacheKey st' \<Longrightarrow> st = st'"
  using enc_toks_inj [of "[TString ''CC'', TString st]" "[TString ''CC'', TString st']"] by (simp add: key_tokens)

section \<open>The invariant\<close>

abbreviation change_time :: "tuple_change_rec \<Rightarrow> instant" where
  "change_time c \<equiv> tc_timestamp (tcr_change c)"

abbreviation cached_at :: "'c caching_env \<Rightarrow> 'c caching \<Rightarrow> instant \<Rightarrow> key \<Rightarrow> cache_item option" where
  "cached_at env s \<equiv> cache_Get (cv_client env) (cg_cache s)"

definition store_inv :: "'c caching \<Rightarrow> bool" where
  "store_inv s \<longleftrightarrow> 0 \<le> cg_now s \<and> (\<forall>st. memory_invar (cg_store s) st \<and>
     (\<forall>c \<in> set (mb_changes (cg_store s) st). 0 < change_time c \<and> change_time c \<le> cg_now s) \<and>
     sorted (map change_time (mb_changes (cg_store s) st)))"

text \<open>A query has the same answer at two instants between which no change concerns it.\<close>

definition history_inv :: "'c caching \<Rightarrow> bool" where
  "history_inv s \<longleftrightarrow> (\<forall>u \<ge> cg_now s. cg_history s u = cg_store s) \<and>
     (\<forall>u st. memory_invar (cg_history s u) st) \<and>
     (\<forall>u st. set (mb_changes (cg_history s u) st) \<subseteq> set (mb_changes (cg_store s) st)) \<and>
     (\<forall>a b st q. a \<le> b \<longrightarrow> full_query q \<longrightarrow>
        (\<forall>c \<in> set (mb_changes (cg_history s b) st). a < change_time c \<longrightarrow> change_time c \<le> b \<longrightarrow> \<not> touches q (change_key c)) \<longrightarrow>
        query_answer (cg_history s a) st q = query_answer (cg_history s b) st q)"

text \<open>
  An entry holds the answer of its query at an instant no later than its date, and earlier by at most
  the latency of the datastore.
\<close>

definition answered :: "'c caching_env \<Rightarrow> 'c caching \<Rightarrow> string \<Rightarrow> read_query \<Rightarrow> instant \<Rightarrow> tuple_record list \<Rightarrow> bool" where
  "answered env s st q lm recs \<longleftrightarrow> lm \<le> cg_now s \<and> (\<exists>u \<le> lm. lm \<le> u + cv_latency env \<and>
     recs = map (record_of_tuple (cq_known (request_for env st q))) (query_answer (cg_history s u) st q))"

definition entries_inv :: "'c caching_env \<Rightarrow> (string \<times> read_query) set \<Rightarrow> 'c caching \<Rightarrow> bool" where
  "entries_inv env Q s \<longleftrightarrow> (\<forall>n k recs lm. cg_now s \<le> n \<longrightarrow> cached_at env s n k = Some (TupleIteratorCacheEntry recs lm) \<longrightarrow>
     (\<exists>st q. (st, q) \<in> Q \<and> full_query q \<and> k = cq_key (request_for env st q) \<and> answered env s st q lm recs))"

definition marked :: "'c caching_env \<Rightarrow> 'c caching \<Rightarrow> instant \<Rightarrow> string \<Rightarrow> tuple_change \<Rightarrow> bool" where
  "marked env s n st ch \<longleftrightarrow>
     marked_after (cached_at env s n (InvalidIteratorCacheKey st)) (tc_timestamp ch) \<or>
     marked_after (cached_at env s n (InvalidIteratorByObjectRelationCacheKey st (tk_object (tc_key ch)) (tk_relation (tc_key ch))))
       (tc_timestamp ch) \<and>
     marked_after (cached_at env s n (InvalidIteratorByUserObjectTypeCacheKey st (tk_user (tc_key ch)) (GetType (tk_object (tc_key ch)))))
       (tc_timestamp ch)"

text \<open>A change the controller dealt with stays marked for the time to live of iterators.\<close>

definition markers_inv :: "'c caching_env \<Rightarrow> 'c caching \<Rightarrow> bool" where
  "markers_inv env s \<longleftrightarrow> (\<forall>st n. \<forall>c \<in> set (mb_changes (cg_store s) st).
     change_time c \<le> cg_noticed s st \<longrightarrow> cg_now s \<le> n \<longrightarrow> n < change_time c + cc_iterator_cache_ttl (cv_controller env) \<longrightarrow>
     marked env s n st (tcr_change c))"

definition changelog_inv :: "'c caching_env \<Rightarrow> 'c caching \<Rightarrow> bool" where
  "changelog_inv env s \<longleftrightarrow> (\<forall>st. 0 \<le> cg_noticed s st \<and> cg_noticed s st \<le> cg_now s \<and>
     (go_len st \<longrightarrow> (\<forall>n lm lc. cg_now s \<le> n \<longrightarrow>
        cached_at env s n (ChangelogCacheKey st) = Some (ChangelogCacheEntry lm lc) \<longrightarrow> lm \<le> cg_noticed s st)))"

text \<open>The page of a pass shows all changes up to its first one, except some not newer than its last one.\<close>

definition page_covers :: "tuple_change_rec list \<Rightarrow> tuple_change list \<Rightarrow> bool" where
  "page_covers changes page \<longleftrightarrow> page \<noteq> [] \<and>
     (\<forall>c \<in> set changes. change_time c \<le> tc_timestamp (hd page) \<longrightarrow>
        tcr_change c \<in> set page \<or> change_time c \<le> tc_timestamp (last page))"

definition pass_ok :: "'c caching \<Rightarrow> string \<times> instant \<times> changelog_result \<Rightarrow> bool" where
  "pass_ok s p \<longleftrightarrow> (case p of (st, lastChange, res) \<Rightarrow> go_len st \<and> lastChange \<le> cg_noticed s st \<and>
     (\<forall>page. res = Answered (Inr page) \<longrightarrow> page_covers (mb_changes (cg_store s) st) page \<and> tc_timestamp (hd page) \<le> cg_now s))"

definition passes_inv :: "'c caching \<Rightarrow> bool" where
  "passes_inv s \<longleftrightarrow> distinct (map fst (cg_passes s)) \<and> list_all (pass_ok s) (cg_passes s)"

text \<open>The answer on its way to a read is that of the instant it was asked at.\<close>

definition asked_inv :: "'c caching_env \<Rightarrow> (string \<times> read_query) set \<Rightarrow> 'c caching \<Rightarrow> asked_read \<Rightarrow> bool" where
  "asked_inv env Q s a \<longleftrightarrow> (ar_store a, ar_query a) \<in> Q \<and> full_query (ar_query a) \<and>
     ar_request a = request_for env (ar_store a) (ar_query a) \<and> ar_asked a \<le> cg_now s \<and>
     ar_answer a = query_answer (cg_history s (ar_asked a)) (ar_store a) (ar_query a)"

text \<open>An open read iterates over the answer at the instant it asked; a finished one is inert.\<close>

definition finished_read :: "open_read \<Rightarrow> bool" where
  "finished_read r \<longleftrightarrow> ci_closing (od_iter r) \<and> \<not> od_draining r"

definition live_read :: "'c caching_env \<Rightarrow> (string \<times> read_query) set \<Rightarrow> 'c caching \<Rightarrow> open_read \<Rightarrow> bool" where
  "live_read env Q s r \<longleftrightarrow>
     (let it = od_iter r; rq = request_for env (od_store r) (od_query r) in
      (od_store r, od_query r) \<in> Q \<and> full_query (od_query r) \<and>
      ci_cache_key it = cq_key rq \<and> ci_known it = cq_known rq \<and> ci_initialized_at it \<le> cg_now s \<and>
      ci_max_result_size it = cds_max_result_size (cv_datastore env) \<and> ci_ttl it = cds_ttl (cv_datastore env) \<and>
      ci_jitter_percentage it = cds_jitter_percentage (cv_datastore env) \<and>
      od_asked r \<le> ci_initialized_at it \<and> ci_initialized_at it \<le> od_asked r + cv_latency env \<and>
      buffers (\<lambda>s. s) (query_answer (cg_history s (od_asked r)) (od_store r) (od_query r)) it \<and>
      (od_draining r \<longrightarrow> ci_tuples it \<noteq> None \<and> ci_closing it))"

abbreviation read_inv :: "'c caching_env \<Rightarrow> (string \<times> read_query) set \<Rightarrow> 'c caching \<Rightarrow> open_read \<Rightarrow> bool" where
  "read_inv env Q s r \<equiv> finished_read r \<or> live_read env Q s r"

definition caching_inv :: "'c caching_env \<Rightarrow> (string \<times> read_query) set \<Rightarrow> 'c caching \<Rightarrow> bool" where
  "caching_inv env Q s \<longleftrightarrow> store_inv s \<and> history_inv s \<and> entries_inv env Q s \<and> markers_inv env s \<and> changelog_inv env s \<and>
     passes_inv s \<and> (\<forall>a \<in> set (cg_asked s). asked_inv env Q s a) \<and> (\<forall>r \<in> set (cg_reads s). read_inv env Q s r)"

section \<open>Steps of reads\<close>

lemma read_inv_later:
  assumes "read_inv env Q s r" "cg_now s \<le> cg_now s'" "\<And>u. u \<le> cg_now s \<Longrightarrow> cg_history s' u = cg_history s u"
  shows "read_inv env Q s' r"
  using assms by (auto simp: live_read_def Let_def)

lemma asked_inv_later:
  assumes "asked_inv env Q s a" "cg_now s \<le> cg_now s'" "\<And>u. u \<le> cg_now s \<Longrightarrow> cg_history s' u = cg_history s u"
  shows "asked_inv env Q s' a"
  using assms by (auto simp: asked_inv_def)

lemma quiet_store_history:
  assumes "store_inv s" "history_inv s" "cg_now s < t" "cg_now s' = t" "cg_store s' = cg_store s" "cg_history s' = cg_history s"
  shows "store_inv s'" "history_inv s'"
  using assms by (fastforce simp: store_inv_def history_inv_def)+

text \<open>
  What reads do to the cache: they remove entries of queries, or store an answer.
\<close>

definition reads_cache :: "'c caching_env \<Rightarrow> (string \<times> read_query) set \<Rightarrow> 'c caching \<Rightarrow> 'c caching \<Rightarrow> bool" where
  "reads_cache env Q s s' \<longleftrightarrow> (\<forall>n k. cg_now s' \<le> n \<longrightarrow> cached_at env s' n k = cached_at env s n k \<or>
     (\<exists>st q. (st, q) \<in> Q \<and> full_query q \<and> k = cq_key (request_for env st q) \<and>
        (cached_at env s' n k = None \<or>
         (\<exists>lm recs. answered env s' st q lm recs \<and> cached_at env s' n k = Some (TupleIteratorCacheEntry recs lm)))))"

lemma reads_keep_markers:
  assumes "reads_cache env Q s s'" "cg_now s' \<le> n" "marker_key k"
  shows "cached_at env s' n k = cached_at env s n k"
  using assms(1) [unfolded reads_cache_def, rule_format, OF assms(2), of k] key_domains(1) [OF _ assms(3)] by blast

lemma reads_keep_changelog:
  assumes "reads_cache env Q s s'" "cg_now s' \<le> n"
  shows "cached_at env s' n (ChangelogCacheKey st) = cached_at env s n (ChangelogCacheKey st)"
  using assms(1) [unfolded reads_cache_def, rule_format, OF assms(2), of "ChangelogCacheKey st"] key_domains(3) by metis

lemma answered_later:
  assumes "answered env s st q lm recs" "cg_now s \<le> cg_now s'" "\<And>u. u \<le> cg_now s \<Longrightarrow> cg_history s' u = cg_history s u"
  shows "answered env s' st q lm recs"
  using assms unfolding answered_def by (metis order_trans)

lemma entries_shrink:
  assumes inv: "entries_inv env Q s" and now: "cg_now s \<le> cg_now s'"
    and hist: "\<And>u. u \<le> cg_now s \<Longrightarrow> cg_history s' u = cg_history s u"
    and old: "\<And>n k recs lm. cg_now s' \<le> n \<Longrightarrow> cached_at env s' n k = Some (TupleIteratorCacheEntry recs lm) \<Longrightarrow>
      cached_at env s n k = Some (TupleIteratorCacheEntry recs lm)"
  shows "entries_inv env Q s'"
  unfolding entries_inv_def
proof (intro allI impI)
  fix n k recs lm
  assume n: "cg_now s' \<le> n" and "cached_at env s' n k = Some (TupleIteratorCacheEntry recs lm)"
  from inv [unfolded entries_inv_def, rule_format, OF _ old [OF this]] now n obtain st q where
    "(st, q) \<in> Q \<and> full_query q \<and> k = cq_key (request_for env st q) \<and> answered env s st q lm recs" by auto
  with answered_later [OF _ now hist] show
    "\<exists>st q. (st, q) \<in> Q \<and> full_query q \<and> k = cq_key (request_for env st q) \<and> answered env s' st q lm recs" by blast
qed

lemma reads_entries:
  assumes inv: "entries_inv env Q s" and reads: "reads_cache env Q s s'" and now: "cg_now s \<le> cg_now s'" and hist: "cg_history s' = cg_history s"
  shows "entries_inv env Q s'"
  unfolding entries_inv_def
proof (intro allI impI)
  fix n k recs lm
  assume n: "cg_now s' \<le> n" and entry: "cached_at env s' n k = Some (TupleIteratorCacheEntry recs lm)"
  show "\<exists>st q. (st, q) \<in> Q \<and> full_query q \<and> k = cq_key (request_for env st q) \<and> answered env s' st q lm recs"
  proof (cases "cached_at env s' n k = cached_at env s n k")
    case True
    with inv [unfolded entries_inv_def, rule_format, of n k recs lm] n entry now answered_later [OF _ now, of env] hist
    show ?thesis by fastforce
  next
    case False
    with reads [unfolded reads_cache_def, rule_format, OF n, of k] entry show ?thesis by auto
  qed
qed

lemma changelog_invD:
  assumes "changelog_inv env s" "go_len st" "cg_now s \<le> n"
    "cached_at env s n (ChangelogCacheKey st) = Some (ChangelogCacheEntry lm lc)"
  shows "lm \<le> cg_noticed s st"
  using assms unfolding changelog_inv_def by blast

lemma reads_preserve:
  assumes inv: "caching_inv env Q s" and cache: "reads_cache env Q s s'" and "cg_now s < cg_now s'"
    and same: "cg_store s' = cg_store s" "cg_history s' = cg_history s" "cg_noticed s' = cg_noticed s" "cg_passes s' = cg_passes s"
    and asked: "\<And>a. a \<in> set (cg_asked s') \<Longrightarrow> a \<notin> set (cg_asked s) \<Longrightarrow> asked_inv env Q s' a"
    and reads: "\<And>r. r \<in> set (cg_reads s') \<Longrightarrow> read_inv env Q s' r"
  shows "caching_inv env Q s'"
proof -
  have now: "cg_now s \<le> cg_now s'" using assms(3) by simp
  have "store_inv s'" "history_inv s'"
    using quiet_store_history [of s "cg_now s'" s'] inv assms(3) same by (simp_all add: caching_inv_def)
  moreover have "entries_inv env Q s'" using reads_entries [OF _ cache now same(2)] inv by (simp add: caching_inv_def)
  moreover have "markers_inv env s'"
    using inv now same reads_keep_markers [OF cache] by (simp add: caching_inv_def markers_inv_def marked_def)
  moreover have "changelog_inv env s'"
    unfolding changelog_inv_def
  proof (intro allI conjI impI)
    fix st n lm lc
    have c: "changelog_inv env s" using inv by (simp add: caching_inv_def)
    from c same now show "0 \<le> cg_noticed s' st" "cg_noticed s' st \<le> cg_now s'"
      by (simp_all add: changelog_inv_def order_trans [OF _ now])
    assume "go_len st" "cg_now s' \<le> n" "cached_at env s' n (ChangelogCacheKey st) = Some (ChangelogCacheEntry lm lc)"
    with same now reads_keep_changelog [OF cache] show "lm \<le> cg_noticed s' st"
      by (auto intro: changelog_invD [OF c, of st n lm lc])
  qed
  moreover have "passes_inv s'"
    using inv now same by (auto simp: caching_inv_def passes_inv_def list_all_iff pass_ok_def)
  moreover have "asked_inv env Q s' a" if "a \<in> set (cg_asked s')" for a
    using that asked inv same(2) asked_inv_later [OF _ now, of env Q a] by (cases "a \<in> set (cg_asked s)") (auto simp: caching_inv_def)
  ultimately show ?thesis using reads by (simp add: caching_inv_def)
qed

lemma reads_cache_same: "cg_cache s' = cg_cache s \<Longrightarrow> reads_cache env Q s s'"
  by (simp add: reads_cache_def)

lemma reads_cache_delete:
  assumes "keeps_entries (cv_client env)" "(st, q) \<in> Q" "full_query q"
    "cg_cache s' \<in> {cg_cache s, cache_Delete (cv_client env) (cg_cache s) (cq_key (request_for env st q))}"
  shows "reads_cache env Q s s'"
  unfolding reads_cache_def
proof (intro allI impI)
  fix n k
  have "cached_at env s' n k = cached_at env s n k \<or> k = cq_key (request_for env st q) \<and> cached_at env s' n k = None"
    using assms(4) by (cases "k = cq_key (request_for env st q)") (auto simp: cache_Get_Delete [OF assms(1)])
  with assms(2,3) show "cached_at env s' n k = cached_at env s n k \<or>
     (\<exists>st q. (st, q) \<in> Q \<and> full_query q \<and> k = cq_key (request_for env st q) \<and>
        (cached_at env s' n k = None \<or>
         (\<exists>lm recs. answered env s' st q lm recs \<and> cached_at env s' n k = Some (TupleIteratorCacheEntry recs lm))))"
    by blast
qed

lemma old_reads:
  assumes "caching_inv env Q s" "cg_now s \<le> cg_now s'" "cg_history s' = cg_history s" "r \<in> set (cg_reads s)"
  shows "read_inv env Q s' r"
  using assms(1,4) by (intro read_inv_later [OF _ assms(2)]) (auto simp: caching_inv_def assms(3))

lemma idle_preserves:
  assumes inv: "caching_inv env Q s" and t: "cg_now s < t" and "caching_action env t e s = s"
  shows "caching_inv env Q (caching_step env t e s)"
proof (rule reads_preserve [OF inv reads_cache_same])
  show "read_inv env Q (caching_step env t e s) r" if "r \<in> set (cg_reads (caching_step env t e s))" for r
    using that t by (intro old_reads [OF inv]) (simp_all add: caching_step_def assms(3))
qed (use t in \<open>simp_all add: caching_step_def assms(3)\<close>)

lemma cached_lookup_cache: "snd (cached_lookup cl now rq cache) \<in> {cache, cache_Delete cl cache (cq_key rq)}"
  using findInCache_cache [of cl cache now "cq_key rq" "cq_invalid_store_key rq" "cq_invalid_entity_keys rq"]
  by (auto simp: cached_lookup_def split: prod.splits option.splits)

lemma OpenRead_preserves:
  assumes inv: "caching_inv env Q s" and env: "env_ok env" and t: "cg_now s < t" and ok: "event_ok Q (OpenRead st q cons)"
  shows "caching_inv env Q (caching_step env t (OpenRead st q cons) s)" (is "caching_inv env Q ?s'")
proof (cases "cache_request_of (cv_sum64 env) st q cons")
  case None
  then show ?thesis by (intro idle_preserves [OF inv t]) (simp add: open_read_step_def)
next
  case (Some rq)
  have rq: "rq = request_for env st q" "(st, q) \<in> Q" "full_query q" using cache_request_of_full [OF _ Some] ok by auto
  obtain hit c where look: "cached_lookup (cv_client env) t rq (cg_cache s) = (hit, c)" by fastforce
  have keeps: "keeps_entries (cv_client env)" using env by (simp add: env_ok_def)
  have hist: "cg_history s t = cg_store s" using inv t by (simp add: caching_inv_def history_inv_def)
  have s': "cg_cache ?s' = c" "cg_reads ?s' = cg_reads s" "cg_now ?s' = t" "cg_store ?s' = cg_store s" "cg_history ?s' = cg_history s"
    "cg_noticed ?s' = cg_noticed s" "cg_passes ?s' = cg_passes s"
    "set (cg_asked ?s') \<subseteq> insert \<lparr>ar_store = st, ar_query = q, ar_request = rq, ar_asked = t, ar_answer = query_answer (cg_store s) st q\<rparr>
      (set (cg_asked s))"
    using Some look by (auto simp: caching_step_def open_read_step_def split: option.split)
  have "reads_cache env Q s ?s'"
    using cached_lookup_cache [of "cv_client env" t rq "cg_cache s"] look rq s'(1)
    by (intro reads_cache_delete [OF keeps, of st q]) auto
  moreover have "read_inv env Q ?s' r" if "r \<in> set (cg_reads ?s')" for r
    using that t by (intro old_reads [OF inv]) (simp_all add: s'(2,3,5))
  moreover have "asked_inv env Q ?s' a" if "a \<in> set (cg_asked ?s')" "a \<notin> set (cg_asked s)" for a
    using s'(8) that rq hist by (auto simp: asked_inv_def s'(3,5))
  ultimately show ?thesis using t s'(3-7) by (intro reads_preserve [OF inv]) auto
qed

lemma updated_reads:
  assumes "caching_inv env Q s" "cg_now s \<le> cg_now s'" "cg_history s' = cg_history s"
    "cg_reads s' = (cg_reads s)[i := r']" "i < length (cg_reads s)" "read_inv env Q s' r'" "r \<in> set (cg_reads s')"
  shows "read_inv env Q s' r"
  using assms set_update_subset_insert [of "cg_reads s" i r'] old_reads [OF assms(1-3)] by auto

lemma cached_Next_static:
  assumes "buffers (\<lambda>s. s) all c" "ctx \<in> {None, Some Canceled, Some DeadlineExceeded}"
  shows "\<exists>res it. cached_Next StaticIterator c ctx = Some (res, it) \<and> buffers (\<lambda>s. s) all it"
proof (cases ctx)
  case None
  then show ?thesis using static_reads.cached_Next_live [OF TrueI assms(1)] by blast
next
  case (Some e)
  with assms(2) have "e \<in> {Canceled, DeadlineExceeded}" by auto
  from static_reads.cached_Next_cancelled [OF TrueI assms(1) this] Some show ?thesis by blast
qed

lemma ReturnRead_preserves:
  assumes inv: "caching_inv env Q s" and env: "env_ok env" and t: "cg_now s < t" and time: "in_time env t (ReturnRead i) s"
  shows "caching_inv env Q (caching_step env t (ReturnRead i) s)" (is "caching_inv env Q ?s'")
proof (cases "i < length (cg_asked s)")
  case True
  let ?a = "cg_asked s ! i"
  have s': "?s' = s\<lparr>cg_asked := take i (cg_asked s) @ drop (Suc i) (cg_asked s), cg_reads := cg_reads s @ [return_read env t ?a], cg_now := t\<rparr>"
    using True by (simp add: caching_step_def)
  have "asked_inv env Q s ?a" using inv True by (simp add: caching_inv_def)
  then have "live_read env Q ?s' (return_read env t ?a)"
    using t time True env by (auto simp: s' asked_inv_def live_read_def Let_def return_read_def missed_iterator_def buffers_def env_ok_def)
  then have "read_inv env Q ?s' r" if "r \<in> set (cg_reads ?s')" for r
    using that t old_reads [OF inv, of ?s' r] by (auto simp: s')
  moreover have "a \<in> set (cg_asked s)" if "a \<in> set (cg_asked ?s')" for a
    using that by (auto simp: s' dest: in_set_takeD in_set_dropD)
  ultimately show ?thesis using t by (intro reads_preserve [OF inv reads_cache_same]) (simp_all add: s')
next
  case False
  then show ?thesis by (intro idle_preserves [OF inv t]) auto
qed

lemma NextTuple_preserves:
  assumes inv: "caching_inv env Q s" and t: "cg_now s < t" and ok: "event_ok Q (NextTuple i ctx)"
  shows "caching_inv env Q (caching_step env t (NextTuple i ctx) s)" (is "caching_inv env Q ?s'")
proof (cases "i < length (cg_reads s) \<and> \<not> finished_read (cg_reads s ! i)")
  case True
  let ?r = "cg_reads s ! i"
  have r: "live_read env Q s ?r" using inv True by (auto simp: caching_inv_def)
  then have "buffers (\<lambda>s. s) (query_answer (cg_history s (od_asked ?r)) (od_store ?r) (od_query ?r)) (od_iter ?r)"
    by (simp add: live_read_def Let_def)
  then obtain res it where it: "cached_Next StaticIterator (od_iter ?r) ctx = Some (res, it)"
    "buffers (\<lambda>s. s) (query_answer (cg_history s (od_asked ?r)) (od_store ?r) (od_query ?r)) it"
    using ok cached_Next_static by (metis event_ok.simps(3))
  have same: "ci_cache_key it = ci_cache_key (od_iter ?r)" "ci_known it = ci_known (od_iter ?r)" "ci_closing it = ci_closing (od_iter ?r)"
    "ci_initialized_at it = ci_initialized_at (od_iter ?r)" "ci_max_result_size it = ci_max_result_size (od_iter ?r)"
    "ci_ttl it = ci_ttl (od_iter ?r)" "ci_jitter_percentage it = ci_jitter_percentage (od_iter ?r)"
    "ci_closing (od_iter ?r) \<Longrightarrow> it = od_iter ?r"
    using it(1) by (auto simp: cached_Next_def split: if_splits option.splits sum.splits)
  have s': "?s' = s\<lparr>cg_reads := (cg_reads s)[i := ?r\<lparr>od_iter := it\<rparr>], cg_now := t\<rparr>"
    using True it(1) by (simp add: caching_step_def)
  have "live_read env Q ?s' (?r\<lparr>od_iter := it\<rparr>)"
    using r it(2) t same unfolding s' live_read_def Let_def by auto
  then have "read_inv env Q ?s' r" if "r \<in> set (cg_reads ?s')" for r
    using that t True by (intro updated_reads [OF inv, of ?s' i _ r]) (auto simp: s')
  then show ?thesis using t by (intro reads_preserve [OF inv reads_cache_same]) (simp_all add: s')
next
  case False
  then show ?thesis
    by (intro idle_preserves [OF inv t]) (auto simp: finished_read_def cached_Next_def)
qed

lemma cached_Stop_cases:
  assumes "cached_Stop StaticIterator cl now None c cache = (go, c', cache')" "buffers (\<lambda>s. s) all c"
  shows "cache' \<in> {cache, cache_Delete cl cache (ci_cache_key c)}"
    "ci_cache_key c' = ci_cache_key c" "ci_known c' = ci_known c" "ci_initialized_at c' = ci_initialized_at c"
    "ci_max_result_size c' = ci_max_result_size c" "ci_ttl c' = ci_ttl c" "ci_jitter_percentage c' = ci_jitter_percentage c"
    "buffers (\<lambda>s. s) all c'" "go \<Longrightarrow> ci_tuples c' \<noteq> None \<and> ci_closing c'" "ci_closing c \<Longrightarrow> c' = c"
  using assms findInCache_cache [of cl cache now "ci_cache_key c" "ci_invalid_store_key c" "ci_invalid_entity_keys c"]
  by (auto simp: cached_Stop_def Let_def buffers_def split: if_splits prod.splits option.splits)

lemma not_draining: "\<not> od_draining r \<Longrightarrow> r\<lparr>od_draining := False\<rparr> = r"
  by (cases r) simp

lemma StopRead_preserves:
  assumes inv: "caching_inv env Q s" and env: "env_ok env" and t: "cg_now s < t"
  shows "caching_inv env Q (caching_step env t (StopRead i) s)" (is "caching_inv env Q ?s'")
proof (cases "i < length (cg_reads s) \<and> \<not> finished_read (cg_reads s ! i)")
  case True
  let ?r = "cg_reads s ! i"
  have r: "live_read env Q s ?r" using inv True by (auto simp: caching_inv_def)
  obtain go it c where st: "cached_Stop StaticIterator (cv_client env) t None (od_iter ?r) (cg_cache s) = (go, it, c)"
    by (metis prod_cases3)
  note stop = cached_Stop_cases [OF st, of "query_answer (cg_history s (od_asked ?r)) (od_store ?r) (od_query ?r)"]
  have s': "?s' = s\<lparr>cg_cache := c, cg_reads := (cg_reads s)[i := ?r\<lparr>od_iter := it, od_draining := od_draining ?r \<or> go\<rparr>], cg_now := t\<rparr>"
    using True st by (simp add: caching_step_def)
  have "reads_cache env Q s ?s'"
    using r stop(1) env by (intro reads_cache_delete [of env "od_store ?r" "od_query ?r"]) (auto simp: s' live_read_def Let_def env_ok_def)
  moreover have "read_inv env Q ?s' (?r\<lparr>od_iter := it, od_draining := od_draining ?r \<or> go\<rparr>)"
    using r t stop unfolding s' live_read_def Let_def by auto
  then have "read_inv env Q ?s' r" if "r \<in> set (cg_reads ?s')" for r
    using that t True by (intro updated_reads [OF inv, of ?s' i _ r]) (auto simp: s')
  ultimately show ?thesis using t by (intro reads_preserve [OF inv]) (simp_all add: s')
next
  case False
  then show ?thesis
    by (intro idle_preserves [OF inv t]) (auto simp: finished_read_def cached_Stop_def not_draining)
qed

lemma reads_cache_set:
  assumes keeps: "keeps_entries (cv_client env)" and q: "(st, q) \<in> Q" "full_query q" and "0 < ttl" "answered env s' st q lm recs"
    and cache: "cg_cache s' = cache_Set (cv_client env) (cg_cache s) (cg_now s') (cq_key (request_for env st q))
      (TupleIteratorCacheEntry recs lm) ttl"
  shows "reads_cache env Q s s'"
  unfolding reads_cache_def
proof (intro allI impI)
  fix n k
  assume "cg_now s' \<le> n"
  note get = cache_Get_Set [OF keeps assms(4) this]
  show "cached_at env s' n k = cached_at env s n k \<or>
     (\<exists>st q. (st, q) \<in> Q \<and> full_query q \<and> k = cq_key (request_for env st q) \<and>
        (cached_at env s' n k = None \<or>
         (\<exists>lm recs. answered env s' st q lm recs \<and> cached_at env s' n k = Some (TupleIteratorCacheEntry recs lm))))"
  proof (cases "k = cq_key (request_for env st q)")
    case True
    then have "cached_at env s' n k \<in> {None, Some (TupleIteratorCacheEntry recs lm)}"
      unfolding cache by (simp add: get)
    with q assms(5) True show ?thesis by blast
  qed (simp add: cache get)
qed

lemma FinishRead_preserves:
  assumes inv: "caching_inv env Q s" and env: "env_ok env" and t: "cg_now s < t" and ok: "event_ok Q (FinishRead i int63 int63n leads)"
  shows "caching_inv env Q (caching_step env t (FinishRead i int63 int63n leads) s)" (is "caching_inv env Q ?s'")
proof (cases "i < length (cg_reads s) \<and> od_draining (cg_reads s ! i)")
  case True
  let ?r = "cg_reads s ! i" and ?it = "od_iter (cg_reads s ! i)"
  let ?all = "query_answer (cg_history s (od_asked ?r)) (od_store ?r) (od_query ?r)"
  define ttl where "ttl = finish_ttl ?r int63 int63n"
  have r: "live_read env Q s ?r" using inv True by (auto simp: caching_inv_def finished_read_def)
  then obtain ts where ts: "ci_tuples ?it = Some ts" "ts @ ci_iter ?it = ?all" "int (length ts) < ci_max_result_size ?it" "ci_closing ?it"
    using True by (auto simp: live_read_def Let_def buffers_def)
  obtain it c where d: "cached_drain StaticIterator (cv_client env) t ttl leads None ?it (cg_cache s) = Some (it, c)"
    and c: "c \<in> {cg_cache s, cache_Set (cv_client env) (cg_cache s) t (ci_cache_key ?it)
      (TupleIteratorCacheEntry (map (record_of_tuple (ci_known ?it)) ?all) (ci_initialized_at ?it)) ttl}"
    using static_reads.cached_drain_spec [OF TrueI ts(1,3), of "cv_client env" t ttl leads "cg_cache s"] ts(2)
    by (auto split: if_splits)
  have s': "?s' = s\<lparr>cg_cache := c, cg_reads := (cg_reads s)[i := ?r\<lparr>od_iter := it, od_draining := False\<rparr>], cg_now := t\<rparr>"
    using True d by (simp add: caching_step_def ttl_def)
  have answered: "answered env ?s' (od_store ?r) (od_query ?r) (ci_initialized_at ?it) (map (record_of_tuple (ci_known ?it)) ?all)"
    using r t by (auto simp: answered_def s' live_read_def Let_def)
  have "0 < ttl"
    using r env ok JitteredTTL_bounds [of "ci_ttl ?it" "ci_jitter_percentage ?it" int63 int63n]
    by (force simp: ttl_def finish_ttl_def live_read_def Let_def env_ok_def)
  then have "reads_cache env Q s ?s'"
    using c r t env answered reads_cache_set [of env "od_store ?r" "od_query ?r" Q ttl ?s' "ci_initialized_at ?it" _ s]
      reads_cache_same [of ?s' s env Q]
    by (auto simp: s' live_read_def Let_def env_ok_def)
  moreover have "finished_read (?r\<lparr>od_iter := it, od_draining := False\<rparr>)"
    using cached_drain_closing [OF d] ts(4) by (simp add: finished_read_def)
  then have "read_inv env Q ?s' r" if "r \<in> set (cg_reads ?s')" for r
    using that t True by (intro updated_reads [OF inv, of ?s' i _ r]) (auto simp: s')
  ultimately show ?thesis using t by (intro reads_preserve [OF inv]) (simp_all add: s')
qed (auto intro!: idle_preserves [OF inv t])

section \<open>Steps of the controller\<close>

lemma changes_loop_all:
  "\<forall>c \<in> set cs. change_time c \<le> h \<Longrightarrow> changes_loop '''' h None True cs = cs"
  by (induction cs) simp_all

lemma findChangesDescending_page:
  assumes "\<forall>c \<in> set (mb_changes ds st). change_time c \<le> now" "sorted (map change_time (mb_changes ds st))"
    "findChangesDescending p u now ds st = Inr (page, token)"
  shows "page_covers (mb_changes ds st) page" "tc_timestamp (hd page) \<le> now"
proof -
  let ?cs = "mb_changes ds st"
  have page: "page = map tcr_change (take (nat (min (int (length ?cs)) DefaultPageSize)) (rev ?cs))" "?cs \<noteq> []"
    using assms(3) changes_loop_all [OF assms(1)]
    by (auto simp: findChangesDescending_def ReadChanges_def findChangesDescending_options_def DefaultPageSize_def Let_def
        min_def split: if_splits)
  define n where "n = nat (min (int (length ?cs)) DefaultPageSize)"
  have n: "0 < n" using page(2) by (simp add: n_def DefaultPageSize_def)
  have sorted: "sorted_wrt (\<ge>) (map change_time (rev ?cs))"
    using assms(2) by (simp add: rev_map [symmetric] sorted_wrt_rev)
  have ne: "take n (rev ?cs) \<noteq> []" using n page(2) by simp
  have "change_time c \<le> change_time (last (take n (rev ?cs)))" if "c \<in> set (drop n (rev ?cs))" for c
  proof -
    have "sorted_wrt (\<ge>) (map change_time (take n (rev ?cs)) @ map change_time (drop n (rev ?cs)))"
      using sorted by (metis append_take_drop_id map_append)
    then show ?thesis using that last_in_set [OF ne] by (auto simp: sorted_wrt_append)
  qed
  moreover have "set ?cs = set (take n (rev ?cs)) \<union> set (drop n (rev ?cs))"
    by (metis append_take_drop_id set_append set_rev)
  ultimately show "page_covers ?cs page"
    using ne unfolding page_covers_def page(1) n_def [symmetric] by (auto simp: last_map)
  have "hd (take n (rev ?cs)) \<in> set ?cs" using ne by (metis hd_in_set in_set_takeD set_rev)
  with assms(1) ne show "tc_timestamp (hd page) \<le> now" unfolding page(1) n_def [symmetric] by (simp add: hd_map)
qed

lemma tick_preserves:
  assumes "caching_inv env Q s" "cg_now s < t"
  shows "caching_inv env Q (s\<lparr>cg_now := t\<rparr>)"
  using idle_preserves [OF assms, of "StopRead (length (cg_reads s))"] by (simp add: caching_step_def)

lemma passes_replaced:
  assumes "caching_inv env Q s" "passes_inv (s\<lparr>cg_passes := ps\<rparr>)"
  shows "caching_inv env Q (s\<lparr>cg_passes := ps\<rparr>)"
  using assms
  by (simp add: caching_inv_def store_inv_def history_inv_def entries_inv_def answered_def markers_inv_def marked_def
      changelog_inv_def live_read_def asked_inv_def Let_def)

lemma last_change_noticed:
  assumes "changelog_inv env s" "go_len st" "cg_now s \<le> n"
  shows "last_change_cached (cv_client env) (cg_cache s) n st \<le> cg_noticed s st"
  using assms(1) changelog_invD [OF assms]
  by (auto simp: last_change_cached_def changelog_inv_def split: option.split cache_item.split)

lemma caching_reorder: "s\<lparr>cg_passes := ps, cg_now := t\<rparr> = s\<lparr>cg_now := t, cg_passes := ps\<rparr>"
  by simp

lemma StartPass_preserves:
  assumes inv: "caching_inv env Q s" and t: "cg_now s < t" and ok: "event_ok Q (StartPass st)"
  shows "caching_inv env Q (caching_step env t (StartPass st) s)"
proof (cases "st \<in> fst ` set (cg_passes s)")
  case False
  let ?lc = "last_change_cached (cv_client env) (cg_cache s) t st"
  let ?f = "findChangesDescending (cv_ulid_parse env) (cv_ulid_string env) t (cg_store s) st"
  let ?s = "s\<lparr>cg_now := t\<rparr>" and ?ps = "(st, ?lc, Answered (map_sum id fst ?f)) # cg_passes s"
  have tick: "caching_inv env Q ?s" by (rule tick_preserves [OF inv t])
  have "?lc \<le> cg_noticed s st"
    using last_change_noticed [of env s st t] inv ok t by (simp add: caching_inv_def)
  moreover have "page_covers (mb_changes (cg_store s) st) (fst p) \<and> tc_timestamp (hd (fst p)) \<le> t" if "?f = Inr p" for p
  proof (rule conjI)
    have "\<forall>c \<in> set (mb_changes (cg_store s) st). change_time c \<le> t" "sorted (map change_time (mb_changes (cg_store s) st))"
      using tick by (simp_all add: caching_inv_def store_inv_def)
    note page = findChangesDescending_page [OF this, of "cv_ulid_parse env" "cv_ulid_string env" "fst p" "snd p"]
    from page that show "page_covers (mb_changes (cg_store s) st) (fst p)" "tc_timestamp (hd (fst p)) \<le> t" by simp_all
  qed
  ultimately have "passes_inv (?s\<lparr>cg_passes := ?ps\<rparr>)"
    using tick False ok by (cases ?f) (auto simp: caching_inv_def passes_inv_def list_all_iff pass_ok_def)
  from passes_replaced [OF tick this] show ?thesis using False by (simp add: caching_step_def caching_reorder)
next
  case True
  then show ?thesis by (intro idle_preserves [OF inv t]) simp
qed

text \<open>What a pass does to the cache.\<close>

lemma invalidate_change_view:
  assumes "env_ok env" "t \<le> n"
  shows "cache_Get (cv_client env) (invalidate_change (cv_client env) (cv_controller env) st t ch c) n k =
    (if k \<in> {InvalidIteratorByObjectRelationCacheKey st (tk_object (tc_key ch)) (tk_relation (tc_key ch)),
             InvalidIteratorByUserObjectTypeCacheKey st (tk_user (tc_key ch)) (GetType (tk_object (tc_key ch)))}
     then if n < t + cc_iterator_cache_ttl (cv_controller env) then Some (InvalidEntityCacheEntry t) else None
     else cache_Get (cv_client env) c n k)"
proof -
  have e: "keeps_entries (cv_client env)" "0 < cc_iterator_cache_ttl (cv_controller env)"
    "min (cc_iterator_cache_ttl (cv_controller env)) oneYear = cc_iterator_cache_ttl (cv_controller env)"
    using assms(1) by (simp_all add: env_ok_def)
  show ?thesis
    by (simp add: invalidate_change_def Let_def invalidateIteratorCacheByObjectRelation_def
        invalidateIteratorCacheByUserAndObjectType_def cache_Get_Set [OF e(1,2) assms(2)] e(3))
qed

lemma invalidate_changes_view:
  assumes "env_ok env" "t \<le> n"
  shows "cache_Get (cv_client env) (fold (invalidate_change (cv_client env) (cv_controller env) st t) chs c) n k =
    (if \<exists>ch \<in> set chs. k \<in> {InvalidIteratorByObjectRelationCacheKey st (tk_object (tc_key ch)) (tk_relation (tc_key ch)),
             InvalidIteratorByUserObjectTypeCacheKey st (tk_user (tc_key ch)) (GetType (tk_object (tc_key ch)))}
     then if n < t + cc_iterator_cache_ttl (cv_controller env) then Some (InvalidEntityCacheEntry t) else None
     else cache_Get (cv_client env) c n k)"
  by (induction chs arbitrary: c) (auto simp: invalidate_change_view [OF assms])

lemma invalidate_store_view:
  assumes "env_ok env" "t \<le> n"
  shows "cache_Get (cv_client env) (invalidateIteratorCache (cv_client env) c t st) n k =
    (if k = InvalidIteratorCacheKey st then if n < t + oneYear then Some (InvalidEntityCacheEntry t) else None
     else cache_Get (cv_client env) c n k)"
  using assms by (simp add: invalidateIteratorCache_def cache_Get_Set env_ok_def oneYear_def)

lemma changelog_set_view:
  assumes "env_ok env" "t \<le> n"
  shows "cache_Get (cv_client env) (cache_Set (cv_client env) c t (ChangelogCacheKey st) v (cc_query_cache_ttl (cv_controller env))) n k =
    (if k = ChangelogCacheKey st
     then if n < t + min (cc_query_cache_ttl (cv_controller env)) oneYear then Some v else None
     else cache_Get (cv_client env) c n k)"
  using assms by (simp add: cache_Get_Set env_ok_def)

lemmas pass_views = invalidate_changes_view invalidate_store_view changelog_set_view

lemma pass_entries:
  assumes env: "env_ok env" and n: "t \<le> n"
    and pass: "invalidate_after (cv_client env) (cv_controller env) t st lc res c = Some c'"
    and v: "cache_Get (cv_client env) c' n k = Some v"
  shows "cache_Get (cv_client env) c n k = Some v \<or> v = InvalidEntityCacheEntry t \<or>
    k = ChangelogCacheKey st \<and> (\<exists>page. res = Answered (Inr page) \<and> v = ChangelogCacheEntry (tc_timestamp (hd page)) t)"
  using pass v
  by (auto simp: invalidate_after_def Let_def pass_views [OF env n]
      split: changelog_result.splits sum.splits list.splits if_splits)

lemma pass_keeps_markers:
  assumes env: "env_ok env" and n: "t \<le> n" "n < t + cc_iterator_cache_ttl (cv_controller env)" and "marker_key k"
    and pass: "invalidate_after (cv_client env) (cv_controller env) t st lc res c = Some c'"
  shows "cache_Get (cv_client env) c' n k \<in> {cache_Get (cv_client env) c n k, Some (InvalidEntityCacheEntry t)}"
proof -
  have "n < t + oneYear" using env n(2) by (simp add: env_ok_def)
  with pass n marker_not_changelog [OF assms(4)] show ?thesis
    by (auto simp: invalidate_after_def Let_def pass_views [OF env n(1)]
        split: changelog_result.splits sum.splits list.splits if_splits)
qed

text \<open>The changes a pass takes notice of are marked from then on.\<close>

lemma pass_marks:
  assumes env: "env_ok env" and n: "t \<le> n" "n < t + cc_iterator_cache_ttl (cv_controller env)"
    and pass: "invalidate_after (cv_client env) (cv_controller env) t st lc (Answered (Inr page)) (cg_cache s) = Some (cg_cache s')"
    and covers: "page_covers changes page" and c: "c \<in> set changes" "lc < change_time c" "change_time c \<le> tc_timestamp (hd page)"
    and recent: "t < change_time c + cc_iterator_cache_ttl (cv_controller env)" and before: "change_time c < t"
  shows "marked env s' n st (tcr_change c)"
proof -
  obtain ch older where page: "page = ch # older" using covers by (cases page) (auto simp: page_covers_def)
  let ?h = "t - cc_iterator_cache_ttl (cv_controller env)"
  let ?m = "recent_changes ?h page (length page)"
  have new: "lc < tc_timestamp ch" using c page by simp
  show ?thesis
  proof (cases "?m = length page")
    case True
    with pass new have "cg_cache s' = invalidateIteratorCache (cv_client env)
        (cache_Set (cv_client env) (cg_cache s) t (ChangelogCacheKey st) (ChangelogCacheEntry (tc_timestamp ch) t)
          (cc_query_cache_ttl (cv_controller env))) t st"
      by (auto simp: invalidate_after_def Let_def page)
    then have s': "cached_at env s' n (InvalidIteratorCacheKey st) =
        (if n < t + oneYear then Some (InvalidEntityCacheEntry t) else None)"
      by (simp add: invalidate_store_view [OF env n(1)])
    have "n < t + oneYear" using env n(2) by (simp add: env_ok_def)
    with s' before show ?thesis by (simp add: marked_def marked_after_def)
  next
    case False
    then have "tc_timestamp (last page) \<le> ?h"
      using recent_changes_older [of ?h page "length page" "length page - 1"] recent_changes_le [of ?h page "length page"]
        last_conv_nth [of page] page by auto
    with covers c recent have "tcr_change c \<in> set page" by (auto simp: page_covers_def)
    then have "tcr_change c \<in> set (take ?m page)" using recent by (intro recent_changes_cover) auto
    moreover from pass new False have "cg_cache s' = fold (invalidate_change (cv_client env) (cv_controller env) st t) (rev (take ?m page))
        (cache_Set (cv_client env) (cg_cache s) t (ChangelogCacheKey st) (ChangelogCacheEntry (tc_timestamp ch) t)
          (cc_query_cache_ttl (cv_controller env)))"
      by (auto simp: invalidate_after_def Let_def page)
    ultimately show ?thesis
      using before n by (auto simp: marked_def marked_after_def invalidate_changes_view [OF env n(1)])
  qed
qed

lemma noticed_change_ge: "noticed \<le> noticed_change res noticed"
  by (auto simp: noticed_change_def split: changelog_result.split sum.split list.split)

lemma noticed_change_cases:
  "noticed_change res noticed = noticed \<or>
   (\<exists>page. res = Answered (Inr page) \<and> page \<noteq> [] \<and> noticed_change res noticed = tc_timestamp (hd page))"
  by (auto simp: noticed_change_def max_def split: changelog_result.split sum.split list.split)

lemma EndPass_markers:
  assumes inv: "caching_inv env Q s" and env: "env_ok env" and t: "cg_now s < t"
    and pass: "invalidate_after (cv_client env) (cv_controller env) t st lc res (cg_cache s) = Some (cg_cache s')"
    and ok: "pass_ok s (st, lc, res)" and s': "cg_now s' = t" "cg_store s' = cg_store s"
      "cg_noticed s' = (cg_noticed s)(st := noticed_change res (cg_noticed s st))"
  shows "markers_inv env s'"
  unfolding markers_inv_def
proof (intro allI ballI impI)
  fix st' n c
  assume c: "c \<in> set (mb_changes (cg_store s') st')" "change_time c \<le> cg_noticed s' st'" and n: "cg_now s' \<le> n"
    and recent: "n < change_time c + cc_iterator_cache_ttl (cv_controller env)"
  have before: "change_time c < t" using inv t c(1) s' by (fastforce simp: caching_inv_def store_inv_def)
  then have n': "t \<le> n" "n < t + cc_iterator_cache_ttl (cv_controller env)" "cg_now s \<le> n" using n recent t s' by auto
  show "marked env s' n st' (tcr_change c)"
  proof (cases "change_time c \<le> cg_noticed s st'")
    case True
    then have m: "marked env s n st' (tcr_change c)"
      using inv c(1) n' recent s' by (auto simp: caching_inv_def markers_inv_def)
    have "marked_after (cached_at env s' n k) (change_time c)" if "marker_key k" "marked_after (cached_at env s n k) (change_time c)" for k
      using pass_keeps_markers [OF env n'(1,2) that(1) pass] that(2) before by (auto simp: marked_after_def)
    with m show ?thesis by (auto simp: marked_def)
  next
    case False
    with c(2) s'(3) have st': "st' = st" by (auto split: if_splits)
    with False c(2) s'(3) noticed_change_cases [of res "cg_noticed s st"] obtain page where
      page: "res = Answered (Inr page)" "change_time c \<le> tc_timestamp (hd page)" by auto
    with ok have "page_covers (mb_changes (cg_store s) st) page" "lc < change_time c"
      using False st' by (auto simp: pass_ok_def)
    with page c(1) st' s' pass n' recent before env show ?thesis by (intro pass_marks) auto
  qed
qed

lemma EndPass_changelog:
  assumes inv: "caching_inv env Q s" and env: "env_ok env" and t: "cg_now s < t"
    and pass: "invalidate_after (cv_client env) (cv_controller env) t st lc res (cg_cache s) = Some (cg_cache s')"
    and ok: "pass_ok s (st, lc, res)" and s': "cg_now s' = t"
      "cg_noticed s' = (cg_noticed s)(st := noticed_change res (cg_noticed s st))"
  shows "changelog_inv env s'"
  unfolding changelog_inv_def
proof (intro allI conjI impI)
  fix st'
  have old: "changelog_inv env s" using inv by (simp add: caching_inv_def)
  then have "0 \<le> cg_noticed s st'" "cg_noticed s st' \<le> cg_now s" by (simp_all add: changelog_inv_def)
  with s' t noticed_change_ge [of "cg_noticed s st" res] noticed_change_cases [of res "cg_noticed s st"] ok
  show "0 \<le> cg_noticed s' st'" "cg_noticed s' st' \<le> cg_now s'" by (auto simp: pass_ok_def)
  fix n lm lc'
  assume st': "go_len st'" and n: "cg_now s' \<le> n" and v: "cached_at env s' n (ChangelogCacheKey st') = Some (ChangelogCacheEntry lm lc')"
  have len: "go_len st" using ok by (simp add: pass_ok_def)
  from pass_entries [OF env _ pass v] n s' ChangelogCacheKey_inj [OF st' len]
  consider "cached_at env s n (ChangelogCacheKey st') = Some (ChangelogCacheEntry lm lc')"
    | page where "st' = st" "res = Answered (Inr page)" "lm = tc_timestamp (hd page)" by auto
  then show "lm \<le> cg_noticed s' st'"
  proof cases
    case 1
    then have "lm \<le> cg_noticed s st'" using changelog_invD [OF old st', of n lm lc'] n t s' by simp
    with s' noticed_change_ge [of "cg_noticed s st" res] show ?thesis by (auto intro: order_trans)
  next
    case 2
    with ok have "page \<noteq> []" by (auto simp: pass_ok_def page_covers_def)
    with 2 s' show ?thesis by (cases page) (simp_all add: noticed_change_def)
  qed
qed

lemma EndPass_preserves:
  assumes inv: "caching_inv env Q s" and env: "env_ok env" and t: "cg_now s < t"
  shows "caching_inv env Q (caching_step env t (EndPass st timeout) s)" (is "caching_inv env Q ?s'")
proof (cases "map_of (cg_passes s) st")
  case None
  then show ?thesis by (intro idle_preserves [OF inv t]) simp
next
  case (Some p)
  obtain lc res0 where p: "p = (lc, res0)" by fastforce
  define res where "res = (if timeout then TimedOut else res0)"
  have "pass_ok s (st, lc, res0)"
    using inv map_of_SomeD [OF Some] p by (auto simp: caching_inv_def passes_inv_def list_all_iff)
  then have ok: "pass_ok s (st, lc, res)" by (auto simp: res_def pass_ok_def)
  show ?thesis
  proof (cases "invalidate_after (cv_client env) (cv_controller env) t st lc res (cg_cache s)")
    case None
    with Some p show ?thesis by (intro idle_preserves [OF inv t]) (simp add: res_def)
  next
    case pass: (Some c)
    let ?noticed = "(cg_noticed s)(st := noticed_change res (cg_noticed s st))"
    have s': "?s' = s\<lparr>cg_cache := c, cg_passes := AList.delete st (cg_passes s), cg_noticed := ?noticed, cg_now := t\<rparr>"
      using Some p pass by (simp add: caching_step_def res_def [symmetric])
    have pass': "invalidate_after (cv_client env) (cv_controller env) t st lc res (cg_cache s) = Some (cg_cache ?s')"
      using pass by (simp add: s')
    have sh: "store_inv ?s'" "history_inv ?s'"
      using inv t by (auto simp: caching_inv_def s' intro: quiet_store_history [of s t])
    have "entries_inv env Q ?s'"
    proof (rule entries_shrink)
      show "entries_inv env Q s" using inv by (simp add: caching_inv_def)
      show "cached_at env s n k = Some (TupleIteratorCacheEntry recs lm)"
        if n: "cg_now ?s' \<le> n" and v: "cached_at env ?s' n k = Some (TupleIteratorCacheEntry recs lm)" for n k recs lm
        using n pass_entries [OF env _ pass' v] by (auto simp: s')
    qed (use t in \<open>simp_all add: s'\<close>)
    moreover have "markers_inv env ?s'" by (rule EndPass_markers [OF inv env t pass' ok]) (simp_all add: s')
    moreover have "changelog_inv env ?s'" by (rule EndPass_changelog [OF inv env t pass' ok]) (simp_all add: s')
    moreover have "passes_inv ?s'"
    proof -
      have "pass_ok ?s' q" if "pass_ok s q" for q
        using that t noticed_change_ge [of "cg_noticed s st" res] by (auto simp: pass_ok_def s' intro: order_trans)
      then show ?thesis using inv
        by (auto simp: caching_inv_def passes_inv_def s' list_all_iff AList.delete_eq distinct_map_filter)
    qed
    moreover have "read_inv env Q ?s' r" if "r \<in> set (cg_reads ?s')" for r
      using that t by (intro old_reads [OF inv]) (simp_all add: s')
    moreover have "asked_inv env Q ?s' a" if "a \<in> set (cg_asked ?s')" for a
    proof (rule asked_inv_later [where s = s])
      show "asked_inv env Q s a" using that inv by (simp add: caching_inv_def s')
    qed (use t in \<open>simp_all add: s'\<close>)
    ultimately show ?thesis using sh by (simp add: caching_inv_def)
  qed
qed

section \<open>Steps of writers\<close>

lemma memory_invar_cong:
  "mb_tuples s' st = mb_tuples s st \<Longrightarrow> mb_changes s' st = mb_changes s st \<Longrightarrow> memory_invar s' st = memory_invar s st"
  by (simp add: memory_invar_def mem_inv_def)

lemma query_answer_cong:
  "full_query q \<Longrightarrow> mb_tuples s' st = mb_tuples s st \<Longrightarrow> query_answer s' st q = query_answer s st q"
  by (simp add: query_answer_def query_records_selected)

lemma Write_effect:
  assumes inv: "\<And>st'. memory_invar ds st'" and ok: "event_ok Q (WriteTuples st deletes writes opts ulids)"
    and W: "Memory.Write str ulids t ds st deletes writes opts = (None, ds')"
  obtains logged where "mb_changes ds' st = mb_changes ds st @ logged" "\<And>c. c \<in> set logged \<Longrightarrow> change_time c = t"
    "\<And>st'. st' \<noteq> st \<Longrightarrow> mb_tuples ds' st' = mb_tuples ds st' \<and> mb_changes ds' st' = mb_changes ds st'"
    "\<And>st'. memory_invar ds' st'"
    "\<And>q. full_query q \<Longrightarrow> \<forall>c \<in> set logged. \<not> touches q (change_key c) \<Longrightarrow> query_answer ds' st q = query_answer ds st q"
proof -
  have valid: "list_all valid_key deletes" "list_all valid_key writes" "list_all (\<lambda>t. subject_of (tk_user t) \<noteq> None) writes"
    using ok by simp_all
  have wf: "mem_inv ds st" "list_all (wf_record st) (mb_tuples ds st)"
    using inv [of st] by (simp_all add: memory_invar_def mem_inv_def wf_records_def)
  obtain P new logged where w: "mb_tuples ds' st = filter P (mb_tuples ds st) @ new" "mb_changes ds' st = mb_changes ds st @ logged"
    "list_all (wf_record st) new" "\<And>tr. tr \<in> set (mb_tuples ds st) \<Longrightarrow> \<not> P tr \<Longrightarrow> rec_key tr \<in> change_key ` set logged"
    "\<And>tr. tr \<in> set new \<Longrightarrow> rec_key tr \<in> change_key ` set logged" "\<And>c. c \<in> set logged \<Longrightarrow> change_time c = t"
    using Write_logs_changes [OF W valid(2) wf(2)] by blast
  have others: "st' \<noteq> st \<Longrightarrow> mb_tuples ds' st' = mb_tuples ds st' \<and> mb_changes ds' st' = mb_changes ds st'" for st'
    using Write_correct [OF wf(1) valid(1,2) W] by simp
  have "memory_invar ds' st'" for st'
    using Write_memory_invar [OF inv valid W] others [of st'] inv [of st'] memory_invar_cong [of ds' st' ds] by (cases "st' = st") auto
  moreover have "query_answer ds' st q = query_answer ds st q"
    if "full_query q" "\<forall>c \<in> set logged. \<not> touches q (change_key c)" for q
  proof (rule query_answer_unaffected [OF that(1) w(1) wf(2) w(3)])
    show "\<not> touches q (rec_key tr)" if "tr \<in> set (mb_tuples ds st)" "\<not> P tr" for tr
      using w(4) [OF that] \<open>\<forall>c \<in> set logged. \<not> touches q (change_key c)\<close> by auto
    show "\<not> touches q (rec_key tr)" if "tr \<in> set new" for tr
      using w(5) [OF that] \<open>\<forall>c \<in> set logged. \<not> touches q (change_key c)\<close> by auto
  qed
  ultimately show thesis using that w(2,6) others by blast
qed

lemma history_invD:
  assumes "history_inv s" "a \<le> b" "full_query q"
    "\<forall>c \<in> set (mb_changes (cg_history s b) st). a < change_time c \<longrightarrow> change_time c \<le> b \<longrightarrow> \<not> touches q (change_key c)"
  shows "query_answer (cg_history s a) st q = query_answer (cg_history s b) st q"
  using assms unfolding history_inv_def by blast

lemma WriteTuples_history:
  assumes hist: "history_inv s" and t: "cg_now s < t" and hist': "cg_history s' = (\<lambda>u. if t \<le> u then cg_store s' else cg_history s u)"
    and s': "cg_now s' = t" and changes: "mb_changes (cg_store s') st = mb_changes (cg_store s) st @ logged"
    and logged: "\<And>c. c \<in> set logged \<Longrightarrow> change_time c = t"
    and others: "\<And>st'. st' \<noteq> st \<Longrightarrow> mb_tuples (cg_store s') st' = mb_tuples (cg_store s) st' \<and> mb_changes (cg_store s') st' = mb_changes (cg_store s) st'"
    and inv: "\<And>st'. memory_invar (cg_store s') st'"
    and same: "\<And>q. full_query q \<Longrightarrow> \<forall>c \<in> set logged. \<not> touches q (change_key c) \<Longrightarrow>
      query_answer (cg_store s') st q = query_answer (cg_store s) st q"
  shows "history_inv s'"
proof -
  have grow: "set (mb_changes (cg_store s) st') \<subseteq> set (mb_changes (cg_store s') st')" for st'
    using changes others [of st'] by (cases "st' = st") auto
  have last: "cg_history s (t - 1) = cg_store s" using hist t by (simp add: history_inv_def)
  have answers: "query_answer (cg_history s' a) st' q = query_answer (cg_history s' b) st' q"
    if "a \<le> b" and q: "full_query q" and quiet: "\<forall>c \<in> set (mb_changes (cg_history s' b) st'). a < change_time c \<longrightarrow> change_time c \<le> b
      \<longrightarrow> \<not> touches q (change_key c)" for a b st' q
  proof (cases "t \<le> b \<and> a < t")
    case True
    then have b: "cg_history s' b = cg_store s'" and a: "cg_history s' a = cg_history s a" by (simp_all add: hist')
    have now: "query_answer (cg_store s') st' q = query_answer (cg_store s) st' q"
    proof (cases "st' = st")
      case st: True
      then show ?thesis using quiet True logged b changes by (auto intro!: same [OF q])
    next
      case False
      then show ?thesis using others [of st'] by (intro query_answer_cong [OF q]) simp
    qed
    have "\<forall>c \<in> set (mb_changes (cg_history s (t - 1)) st'). a < change_time c \<longrightarrow> change_time c \<le> t - 1 \<longrightarrow> \<not> touches q (change_key c)"
      using quiet True grow [of st'] unfolding b last by auto
    then have "query_answer (cg_history s a) st' q = query_answer (cg_history s (t - 1)) st' q"
      using True by (intro history_invD [OF hist _ q]) auto
    then show ?thesis by (simp add: a b now last)
  next
    case False
    show ?thesis
    proof (cases "t \<le> a")
      case a: True
      with that(1) show ?thesis by (simp add: hist')
    next
      case a: False
      with False have "cg_history s' a = cg_history s a" "cg_history s' b = cg_history s b" by (auto simp: hist')
      with history_invD [OF hist that(1) q] quiet show ?thesis by simp
    qed
  qed
  have "memory_invar (cg_history s' u) st'" for u st'
    using hist inv by (simp add: history_inv_def hist')
  moreover have "set (mb_changes (cg_history s' u) st') \<subseteq> set (mb_changes (cg_store s') st')" for u st'
  proof (cases "t \<le> u")
    case False
    then have "set (mb_changes (cg_history s' u) st') \<subseteq> set (mb_changes (cg_store s) st')"
      using hist by (simp add: history_inv_def hist')
    with grow [of st'] show ?thesis by blast
  qed (simp add: hist')
  ultimately show ?thesis using answers s' by (simp add: history_inv_def hist')
qed

text \<open>What a write logs and leaves alone, also when it is refused.\<close>

definition write_effect :: "instant \<Rightarrow> string \<Rightarrow> memory_backend \<Rightarrow> memory_backend \<Rightarrow> tuple_change_rec list \<Rightarrow> bool" where
  "write_effect t st ds ds' logged \<longleftrightarrow> mb_changes ds' st = mb_changes ds st @ logged \<and> (\<forall>c \<in> set logged. change_time c = t) \<and>
     (\<forall>st'. st' \<noteq> st \<longrightarrow> mb_tuples ds' st' = mb_tuples ds st' \<and> mb_changes ds' st' = mb_changes ds st') \<and>
     (\<forall>st'. memory_invar ds' st') \<and>
     (\<forall>q. full_query q \<longrightarrow> (\<forall>c \<in> set logged. \<not> touches q (change_key c)) \<longrightarrow> query_answer ds' st q = query_answer ds st q)"

lemma Write_write_effect:
  assumes inv: "\<And>st'. memory_invar ds st'" and ok: "event_ok Q (WriteTuples st deletes writes opts ulids)"
  shows "\<exists>logged. write_effect t st ds (snd (Memory.Write str ulids t ds st deletes writes opts)) logged"
proof -
  obtain err ds' where W: "Memory.Write str ulids t ds st deletes writes opts = (err, ds')" by fastforce
  show ?thesis
  proof (cases err)
    case None
    from Write_effect [OF inv ok W [unfolded None]] W show ?thesis unfolding write_effect_def by (metis snd_conv)
  next
    case (Some e)
    then have "ds' = ds" using W by (auto simp: Write_def split: sum.splits prod.splits)
    then show ?thesis using inv W by (intro exI [of _ "[]"]) (simp add: write_effect_def)
  qed
qed

lemma write_effect_changes:
  assumes "write_effect t st ds ds' logged" "c \<in> set (mb_changes ds' st')"
  shows "c \<in> set (mb_changes ds st') \<or> change_time c = t"
  using assms by (cases "st' = st") (auto simp: write_effect_def)

lemma write_effect_store:
  assumes eff: "write_effect t st (cg_store s) (cg_store s') logged" and inv: "store_inv s" and t: "cg_now s < t" "cg_now s' = t"
  shows "store_inv s'"
  unfolding store_inv_def
proof (intro conjI allI ballI)
  fix st' c
  have old: "0 < change_time c \<and> change_time c \<le> cg_now s" if "c \<in> set (mb_changes (cg_store s) st')" for c st'
    using that inv by (simp add: store_inv_def)
  have "sorted (map change_time (mb_changes (cg_store s) st'))" using inv by (simp add: store_inv_def)
  moreover have "map change_time logged = replicate (length logged) t"
    using eff by (simp add: write_effect_def map_replicate_const [symmetric] cong: map_cong)
  ultimately show "sorted (map change_time (mb_changes (cg_store s') st'))"
    using eff old t by (cases "st' = st") (fastforce simp: write_effect_def sorted_append)+
  assume c: "c \<in> set (mb_changes (cg_store s') st')"
  have "0 \<le> cg_now s" using inv by (simp add: store_inv_def)
  with write_effect_changes [OF eff c] old [of c st'] t show "0 < change_time c" "change_time c \<le> cg_now s'" by auto
qed (use eff inv t in \<open>auto simp: write_effect_def store_inv_def\<close>)

lemma WriteTuples_preserves:
  assumes inv: "caching_inv env Q s" and t: "cg_now s < t" and ok: "event_ok Q (WriteTuples st deletes writes opts ulids)"
  shows "caching_inv env Q (caching_step env t (WriteTuples st deletes writes opts ulids) s)" (is "caching_inv env Q ?s'")
proof -
  define ds where "ds = snd (Memory.Write (cv_struct_string env) ulids t (cg_store s) st deletes writes opts)"
  have s': "?s' = s\<lparr>cg_store := ds, cg_history := (\<lambda>u. if t \<le> u then ds else cg_history s u), cg_now := t\<rparr>"
    by (simp add: caching_step_def ds_def Let_def cong: if_cong)
  have "memory_invar (cg_store s) st'" for st' using inv by (simp add: caching_inv_def store_inv_def)
  from Write_write_effect [OF this ok] obtain logged where eff: "write_effect t st (cg_store s) ds logged" unfolding ds_def by blast
  have noticed: "cg_noticed s st' \<le> cg_now s" for st' using inv by (simp add: caching_inv_def changelog_inv_def)
  have "store_inv ?s'"
    by (rule write_effect_store [of t st s _ logged]) (use eff inv t in \<open>simp_all add: caching_inv_def s'\<close>)
  moreover have "history_inv ?s'"
    by (rule WriteTuples_history [OF _ t, of _ st logged]) (use eff inv in \<open>auto simp: write_effect_def caching_inv_def s'\<close>)
  moreover have "entries_inv env Q ?s'"
    by (rule entries_shrink [of env Q s]) (use inv t in \<open>auto simp: caching_inv_def s'\<close>)
  moreover have "markers_inv env ?s'"
    unfolding markers_inv_def
  proof (intro allI ballI impI)
    fix st' n c
    assume c: "c \<in> set (mb_changes (cg_store ?s') st')" "change_time c \<le> cg_noticed ?s' st'" "cg_now ?s' \<le> n"
      "n < change_time c + cc_iterator_cache_ttl (cv_controller env)"
    then have "c \<in> set (mb_changes (cg_store s) st')"
      using write_effect_changes [OF eff, of c st'] noticed [of st'] t by (auto simp: s')
    with inv c t show "marked env ?s' n st' (tcr_change c)"
      by (auto simp: caching_inv_def markers_inv_def marked_def s')
  qed
  moreover have "changelog_inv env ?s'"
    using tick_preserves [OF inv t] by (simp add: caching_inv_def changelog_inv_def s')
  moreover have "passes_inv ?s'"
  proof -
    have "pass_ok ?s' p" if "pass_ok s p" for p
      using that write_effect_changes [OF eff] t by (fastforce simp: pass_ok_def page_covers_def s')
    then show ?thesis using inv by (auto simp: caching_inv_def passes_inv_def list_all_iff s')
  qed
  moreover have "read_inv env Q ?s' r" if "r \<in> set (cg_reads ?s')" for r
  proof (rule read_inv_later [where s = s])
    show "read_inv env Q s r" using that inv by (simp add: caching_inv_def s')
  qed (use t in \<open>simp_all add: s'\<close>)
  moreover have "asked_inv env Q ?s' a" if "a \<in> set (cg_asked ?s')" for a
  proof (rule asked_inv_later [where s = s])
    show "asked_inv env Q s a" using that inv by (simp add: caching_inv_def s')
  qed (use t in \<open>simp_all add: s'\<close>)
  ultimately show ?thesis by (simp add: caching_inv_def)
qed

lemma initial_inv:
  assumes "\<forall>n k. t \<le> n \<longrightarrow> cache_Get (cv_client env) c n k = None" "0 \<le> t"
  shows "caching_inv env Q (initial_caching c t opts)"
proof -
  have tuples: "mb_tuples (Memory.New opts) st = []" "mb_changes (Memory.New opts) st = []" for st
    using New_empty [of opts] by simp_all
  then have "memory_invar (Memory.New opts) st" for st
    by (simp add: memory_invar_def mem_inv_def wf_records_def abs_records_def)
  with assms tuples show ?thesis
    by (simp add: caching_inv_def store_inv_def history_inv_def entries_inv_def markers_inv_def changelog_inv_def passes_inv_def
        initial_caching_def)
qed

lemma caching_run_inv:
  assumes "caching_run env Q s" "env_ok env"
  shows "caching_inv env Q s"
  using assms(1)
proof induction
  case (start t c opts)
  then show ?case by (rule initial_inv)
next
  case (event s t e)
  note step = OpenRead_preserves [OF event.IH assms(2) event.hyps(2)] FinishRead_preserves [OF event.IH assms(2) event.hyps(2)]
    NextTuple_preserves [OF event.IH event.hyps(2)] WriteTuples_preserves [OF event.IH event.hyps(2)]
    StartPass_preserves [OF event.IH event.hyps(2)] StopRead_preserves [OF event.IH assms(2) event.hyps(2)]
    EndPass_preserves [OF event.IH assms(2) event.hyps(2)] ReturnRead_preserves [OF event.IH assms(2) event.hyps(2)]
  show ?case using step event.hyps(3,4) by (cases e) simp_all
qed

section \<open>Concrete runs\<close>

fun run_events :: "'c caching_env \<Rightarrow> (instant \<times> caching_event) list \<Rightarrow> 'c caching \<Rightarrow> 'c caching" where
  "run_events env [] s = s"
| "run_events env ((t, e) # evs) s = run_events env evs (caching_step env t e s)"

fun timed_events :: "'c caching_env \<Rightarrow> (instant \<times> caching_event) list \<Rightarrow> 'c caching \<Rightarrow> bool" where
  "timed_events env [] s \<longleftrightarrow> True"
| "timed_events env ((t, e) # evs) s \<longleftrightarrow> cg_now s < t \<and> in_time env t e s \<and> timed_events env evs (caching_step env t e s)"

lemma caching_run_events:
  assumes "caching_run env Q s" "timed_events env evs s" "list_all (event_ok Q) (map snd evs)"
  shows "caching_run env Q (run_events env evs s)"
  using assms by (induction env evs s rule: run_events.induct) (auto intro: caching_run.event)

lemma unbounded_start: "0 \<le> t \<Longrightarrow> cv_client env = unbounded_client \<Longrightarrow> caching_run env Q (initial_caching [] t opts)"
  by (rule caching_run.start) (simp_all add: cache_Get_def unbounded_client_def)

end
