(* ===== verification/CacheFreshness.thy ===== *)
theory CacheFreshness
  imports CachingSystem
begin

text \<open>
  What a client of the iterator cache can rely on: the tuples of a hit are the answer the datastore gave
  at some instant, and every change that concerns the query, that the cache controller has noticed and
  that is younger than the time to live of iterators, happened no later than that instant.
\<close>

section \<open>Entries decode to the tuples of the datastore\<close>

lemma AsTuple_storable:
  assumes "memory_invar s st" "tr \<in> set (mb_tuples s st)"
  shows "storable (AsTuple tr)"
proof -
  have tr: "CHR '':'' \<notin> set (tr_object_type tr)" "tr_user tr \<noteq> ''''" "IsValidUser (tr_user tr)"
    using assms subject_user(1) by (auto simp: memory_invar_def mem_inv_def wf_records_def wf_record_def list_all_iff)
  note key = record_key [OF assms]
  have "case ToUserParts (tr_user tr) of (t, i, r) \<Rightarrow> FromUserParts t i r = tr_user tr"
    using FromUserParts_ToUserParts [OF tr(3)] by (simp split: prod.splits)
  moreover have "tk_condition (tup_key (AsTuple tr)) = NewRelationshipCondition (tr_condition_name tr) (tr_condition_context tr)"
    "tup_timestamp (AsTuple tr) \<noteq> None"
    by (simp_all add: AsTuple_def Let_def NewTupleKeyWithCondition_def)
  ultimately show ?thesis
    using tr(1) unfolding storable_def key
    by (simp add: BuildObject_def NewRelationshipCondition_def get_condition_name_def get_condition_context_def split: option.split)
qed

lemma answer_member:
  assumes "full_query q" "t \<in> set (query_answer s st q)"
  obtains tr where "tr \<in> set (mb_tuples s st)" "selected q tr \<noteq> []" "t = AsTuple tr"
proof -
  have "set (ordered q ts) = set ts" for ts by (cases q) simp_all
  then obtain tr tr' where "tr \<in> set (mb_tuples s st)" "tr' \<in> set (selected q tr)" "t = AsTuple tr'"
    using assms by (auto simp: query_answer_def query_records_selected)
  with selected_member [of tr' q tr] show thesis by (intro that [of tr]) auto
qed

lemma user_filter_target_eq:
  "user_filter_target = (\<lambda>u. if or_relation u \<noteq> '''' then ToObjectRelationString (or_object u) (or_relation u) else or_object u)"
  by (simp add: fun_eq_iff user_filter_target_def GetObjectRelationAsString_def ToObjectRelationString_def)

lemma request_known:
  "full_query (QRead f) \<Longrightarrow> cq_known (request_for env st (QRead f)) =
     \<lparr>kf_object_type = fst (SplitObject (rf_object f)), kf_object_id = snd (SplitObject (rf_object f)), kf_relation = rf_relation f, kf_user_type = ''''\<rparr>"
  "cq_known (request_for env st (QUsersetTuples g)) =
     \<lparr>kf_object_type = fst (SplitObject (ruf_object g)), kf_object_id = snd (SplitObject (ruf_object g)), kf_relation = ruf_relation g, kf_user_type = ''''\<rparr>"
  "cq_known (request_for env st (QStartingWithUser h)) =
     \<lparr>kf_object_type = rsw_object_type h, kf_object_id = '''', kf_relation = '''',
      kf_user_type = common_user_type '''' (map user_filter_target (rsw_user_filter h))\<rparr>"
  by (simp_all add: request_for_def newCachedIteratorByObjectRelation_def newCachedIteratorByUserObjectType_def
      user_filter_target_eq split: prod.split)

lemma subject_type_split:
  assumes "subject_of u \<noteq> None"
  shows "fst (SplitObject u) = fst (ToUserParts u)" "fst (SplitObject u) \<noteq> ''''"
proof -
  from assms obtain su where "subject_of u = Some su" by blast
  then have "fst (SplitObject u) = fst (ToUserParts u) \<and> fst (SplitObject u) \<noteq> ''''"
  proof (cases rule: subject_cases)
    case (Members t i r)
    then show ?thesis using SplitObjectRelation_append [of r "t @ CHR '':'' # i"]
      by (simp add: ToUserParts_def userset_part_plain)
  qed (simp_all add: ToUserParts_def Wildcard_def)
  then show "fst (SplitObject u) = fst (ToUserParts u)" "fst (SplitObject u) \<noteq> ''''" by blast+
qed

lemma answer_known:
  assumes inv: "memory_invar s st" and "tr \<in> set (mb_tuples s st)" "full_query q" "selected q tr \<noteq> []"
  shows "known_of (cq_known (request_for env st q)) (AsTuple tr)"
proof -
  note key = record_key [OF inv assms(2)]
  have wf: "wf_record st tr" "subject_of (tr_user tr) \<noteq> None"
    using inv assms(2) by (auto simp: memory_invar_def mem_inv_def wf_records_def list_all_iff)
  note touch = selected_touches [OF wf(1) assms(3,4)]
  show ?thesis
  proof (cases q)
    case (QStartingWithUser h)
    have "fst (SplitObject (BuildObject (tr_object_type tr) (tr_object_id tr))) = rsw_object_type h"
      using touch QStartingWithUser by (simp add: rec_key_def GetType_def split: prod.splits)
    moreover have "common_user_type '''' (map user_filter_target (rsw_user_filter h)) \<in> {'''', fst (ToUserParts (tr_user tr))}"
      using common_user_type_member [of "''''" "map user_filter_target (rsw_user_filter h)" "tr_user tr"] subject_type_split [OF wf(2)]
        touch QStartingWithUser by (auto simp: rec_key_def)
    ultimately show ?thesis by (simp add: known_of_def QStartingWithUser request_known key)
  qed (use touch assms(3) in \<open>simp_all add: known_of_def request_known key rec_key_def\<close>)
qed

lemma decoded_answer:
  assumes "memory_invar s st" "full_query q"
  shows "map (buildTuple (cq_known (request_for env st q))) (map (record_of_tuple (cq_known (request_for env st q))) (query_answer s st q))
    = query_answer s st q"
proof -
  have "buildTuple (cq_known (request_for env st q)) (record_of_tuple (cq_known (request_for env st q)) t) = t"
    if "t \<in> set (query_answer s st q)" for t
  proof -
    obtain tr where "tr \<in> set (mb_tuples s st)" "selected q tr \<noteq> []" "t = AsTuple tr"
      by (rule answer_member [OF assms(2) \<open>t \<in> set (query_answer s st q)\<close>])
    then show ?thesis
      using AsTuple_storable [OF assms(1)] answer_known [OF assms(1) _ assms(2)] buildTuple_record_of_tuple by blast
  qed
  then show ?thesis by (simp add: map_idI)
qed

section \<open>Changes that concern a query invalidate its entry\<close>

lemma touched_keys:
  assumes "full_query q" "touches q (tkey_of (tc_key ch))"
  shows "InvalidIteratorByObjectRelationCacheKey st (tk_object (tc_key ch)) (tk_relation (tc_key ch))
       \<in> set (cq_invalid_entity_keys (request_for env st q))
    \<or> InvalidIteratorByUserObjectTypeCacheKey st (tk_user (tc_key ch)) (GetType (tk_object (tc_key ch)))
       \<in> set (cq_invalid_entity_keys (request_for env st q))"
proof (cases q)
  case (QStartingWithUser h)
  then have "cq_invalid_entity_keys (request_for env st q) =
      map (\<lambda>u. InvalidIteratorByUserObjectTypeCacheKey st u (rsw_object_type h)) (map user_filter_target (rsw_user_filter h))"
    by (simp add: request_for_def newCachedIteratorByUserObjectType_def user_filter_target_eq)
  with assms(2) QStartingWithUser show ?thesis by (auto simp: tkey_of_def)
qed (use assms in \<open>auto simp: tkey_of_def request_for_def newCachedIteratorByObjectRelation_def split: prod.split\<close>)

lemma request_store_key: "full_query q \<Longrightarrow> cq_invalid_store_key (request_for env st q) = InvalidIteratorCacheKey st"
  by (cases q) (simp_all add: request_for_def newCachedIteratorByObjectRelation_def newCachedIteratorByUserObjectType_def split: prod.split)

lemma marked_invalidates:
  assumes "full_query q" "touches q (tkey_of (tc_key ch))" "marked env s n st ch" "lm < tc_timestamp ch"
  shows "isInvalidAt (cv_client env) (cg_cache s) n lm (cq_invalid_store_key (request_for env st q))
    (cq_invalid_entity_keys (request_for env st q))"
proof -
  have "marked_after res (tc_timestamp ch) \<Longrightarrow> marked_after res lm" for res
    using assms(4) by (auto simp: marked_after_iff)
  then show ?thesis
    using touched_keys [OF assms(1,2), of st env] assms(3)
    unfolding isInvalidAt_iff marked_def request_store_key [OF assms(1)] by blast
qed

lemma hit_entry:
  assumes "newCachedIterator cl cds now t dsIter rq c = (Inr (Hit kf recs), c')"
  obtains lm where "kf = cq_known rq" "cache_Get cl c now (cq_key rq) = Some (TupleIteratorCacheEntry recs lm)"
    "\<not> isInvalidAt cl c now lm (cq_invalid_store_key rq) (cq_invalid_entity_keys rq)"
proof -
  from assms obtain lm where "kf = cq_known rq"
    "findInCache cl c now (cq_key rq) (cq_invalid_store_key rq) (cq_invalid_entity_keys rq) = (Some (recs, lm), c')"
    by (auto simp: newCachedIterator_def cached_lookup_def split: prod.splits option.splits sum.splits)
  with findInCache_hit [OF this(2)] show thesis using that by blast
qed

section \<open>Properties\<close>

lemma hit_answer:
  assumes inv: "caching_inv env Q s" and "cg_now s \<le> t" and Q: "(st, q) \<in> Q" "full_query q"
    and inj: "inj_on (\<lambda>(st, q). cq_key (request_for env st q)) Q"
    and hit: "newCachedIterator (cv_client env) (cv_datastore env) t t dsIter (request_for env st q) (cg_cache s) = (Inr (Hit kf recs), c)"
  obtains u where "u \<le> cg_now s" "map (buildTuple kf) recs = query_answer (cg_history s u) st q"
    "\<And>c. c \<in> set (mb_changes (cg_store s) st) \<Longrightarrow> touches q (change_key c) \<Longrightarrow> change_time c \<le> cg_noticed s st \<Longrightarrow>
      t < change_time c + cc_iterator_cache_ttl (cv_controller env) \<Longrightarrow> change_time c \<le> u + cv_latency env"
proof -
  obtain lm where lm: "kf = cq_known (request_for env st q)"
    "cached_at env s t (cq_key (request_for env st q)) = Some (TupleIteratorCacheEntry recs lm)"
    "\<not> isInvalidAt (cv_client env) (cg_cache s) t lm (cq_invalid_store_key (request_for env st q)) (cq_invalid_entity_keys (request_for env st q))"
    by (rule hit_entry [OF hit])
  from inv have "entries_inv env Q s" by (simp add: caching_inv_def)
  from this [unfolded entries_inv_def, rule_format, OF assms(2) lm(2)] obtain st' q' where
    q': "(st', q') \<in> Q" "cq_key (request_for env st q) = cq_key (request_for env st' q')" "answered env s st' q' lm recs" by blast
  have "(st', q') = (st, q)" by (rule inj_onD [OF inj _ q'(1) Q(1)]) (simp add: q'(2))
  with q'(3) obtain u where u: "u \<le> lm" "lm \<le> u + cv_latency env" "lm \<le> cg_now s"
    "recs = map (record_of_tuple (cq_known (request_for env st q))) (query_answer (cg_history s u) st q)" by (auto simp: answered_def)
  moreover have "memory_invar (cg_history s u) st" using inv by (simp add: caching_inv_def history_inv_def)
  ultimately have "map (buildTuple kf) recs = query_answer (cg_history s u) st q"
    using decoded_answer [OF _ Q(2)] lm(1) by simp
  moreover have "change_time c \<le> lm"
    if "c \<in> set (mb_changes (cg_store s) st)" "touches q (change_key c)" "change_time c \<le> cg_noticed s st"
      "t < change_time c + cc_iterator_cache_ttl (cv_controller env)" for c
  proof (rule ccontr)
    assume "\<not> change_time c \<le> lm"
    moreover have "marked env s t st (tcr_change c)" using inv that assms(2) by (simp add: caching_inv_def markers_inv_def)
    ultimately show False
      using marked_invalidates [OF Q(2), of "tcr_change c" env s t st lm] that(2) lm(3) by (simp add: change_key_def)
  qed
  ultimately show thesis using that [of u] u(1-3) by fastforce
qed

text \<open>C5: Staleness of the iterator cache is bounded, however writes, cached reads and passes of the cache
  controller interleave.  The tuples of a hit are the answer the datastore gave to the same query at some
  instant, and every change that concerns the query, that the controller has noticed and that is younger
  than the controller's time to live of iterators, happened before this instant or within the latency of
  the datastore after it.  In particular, if the controller has noticed every change that concerns the
  query, they are all younger than this time and the datastore has no latency, the answer is the current
  one.  The hypotheses are that the underlying store keeps its entries and that no two different queries
  share a key.\<close>

theorem cached_reads_bounded_staleness:
  assumes "caching_run env Q s" "env_ok env" "cg_now s \<le> t" "(st, q) \<in> Q" "full_query q"
    "inj_on (\<lambda>(st, q). cq_key (request_for env st q)) Q"
    "newCachedIterator (cv_client env) (cv_datastore env) t t dsIter (request_for env st q) (cg_cache s) = (Inr (Hit kf recs), c)"
  shows "(\<exists>u \<le> cg_now s. map (buildTuple kf) recs = query_answer (cg_history s u) st q \<and>
      (\<forall>c \<in> set (mb_changes (cg_store s) st). touches q (change_key c) \<longrightarrow> change_time c \<le> cg_noticed s st \<longrightarrow>
        t < change_time c + cc_iterator_cache_ttl (cv_controller env) \<longrightarrow> change_time c \<le> u + cv_latency env)) \<and>
    ((\<forall>c \<in> set (mb_changes (cg_store s) st). touches q (change_key c) \<longrightarrow>
        change_time c \<le> cg_noticed s st \<and> t < change_time c + cc_iterator_cache_ttl (cv_controller env)) \<longrightarrow>
      cv_latency env = 0 \<longrightarrow> map (buildTuple kf) recs = query_answer (cg_store s) st q)"
proof -
  have inv: "caching_inv env Q s" by (rule caching_run_inv [OF assms(1,2)])
  obtain u where u: "u \<le> cg_now s" "map (buildTuple kf) recs = query_answer (cg_history s u) st q"
    and recent: "\<And>c. c \<in> set (mb_changes (cg_store s) st) \<Longrightarrow> touches q (change_key c) \<Longrightarrow> change_time c \<le> cg_noticed s st \<Longrightarrow>
      t < change_time c + cc_iterator_cache_ttl (cv_controller env) \<Longrightarrow> change_time c \<le> u + cv_latency env"
    using hit_answer [OF inv assms(3-7)] by metis
  have hist: "history_inv s" "cg_history s (cg_now s) = cg_store s" using inv by (simp_all add: caching_inv_def history_inv_def)
  have "query_answer (cg_history s u) st q = query_answer (cg_store s) st q"
    if all: "\<forall>c \<in> set (mb_changes (cg_store s) st). touches q (change_key c) \<longrightarrow>
        change_time c \<le> cg_noticed s st \<and> t < change_time c + cc_iterator_cache_ttl (cv_controller env)" "cv_latency env = 0"
    using history_invD [OF hist(1) u(1) assms(5), of st] recent all unfolding hist(2) by (metis add_0_right not_le)
  with u recent show ?thesis by (intro conjI exI [of _ u]) simp_all
qed

definition sample_caching :: "int \<Rightarrow> int \<Rightarrow> entry_map caching_env" where
  "sample_caching jitter latency =
     \<lparr>cv_client = unbounded_client,
      cv_datastore = \<lparr>cds_max_result_size = 100, cds_ttl = 10, cds_jitter_percentage = jitter\<rparr>,
      cv_controller = \<lparr>cc_min_invalidation_interval = 1, cc_query_cache_ttl = 10, cc_iterator_cache_ttl = 10\<rparr>,
      cv_sum64 = (\<lambda>_. 0), cv_struct_string = (\<lambda>_. ''''), cv_ulid_parse = (\<lambda>_. None), cv_ulid_string = (\<lambda>_. ''''),
      cv_latency = latency\<rparr>"

definition viewers :: read_query where
  "viewers = QRead \<lparr>rf_object = ''doc:1'', rf_relation = ''viewer'', rf_user = '''', rf_conditions = []\<rparr>"

definition viewer_tuple :: "string \<Rightarrow> tuple_key" where
  "viewer_tuple object = NewTupleKey object ''viewer'' ''user:anne''"

definition cached_read_events :: "(instant \<times> caching_event) list" where
  "cached_read_events =
     [(1, WriteTuples ''s'' [] [viewer_tuple ''doc:2''] [] id), (20, WriteTuples ''s'' [] [viewer_tuple ''doc:1''] [] id),
      (21, StartPass ''s''), (22, EndPass ''s'' False),
      (23, OpenRead ''s'' viewers UNSPECIFIED), (24, ReturnRead 0), (25, StopRead 0), (26, FinishRead 0 0 (\<lambda>n. n - 1) True)]"

definition revoke_viewer :: caching_event where
  "revoke_viewer = WriteTuples ''s'' [\<lparr>tk_object = ''doc:1'', tk_relation = ''viewer'', tk_user = ''user:anne''\<rparr>] [] [] id"

definition grant_events :: "(instant \<times> caching_event) list" where
  "grant_events = [(1, WriteTuples ''s'' [] [viewer_tuple ''doc:2''] [] id), (20, WriteTuples ''s'' [] [viewer_tuple ''doc:1''] [] id)]"

definition cached_sample :: "int \<Rightarrow> int \<Rightarrow> (instant \<times> caching_event) list \<Rightarrow> entry_map caching" where
  "cached_sample jitter latency evs = run_events (sample_caching jitter latency) evs (initial_caching [] 0 [])"

definition sample_served :: "entry_map caching_env \<Rightarrow> entry_map caching \<Rightarrow> instant \<Rightarrow> (storage_error + tuple list cached_result)" where
  "sample_served env s t =
     fst (newCachedIterator (cv_client env) (cv_datastore env) t t (Inr []) (request_for env ''s'' viewers) (cg_cache s))"

lemma sample_env_ok: "0 \<le> jitter \<Longrightarrow> 0 \<le> latency \<Longrightarrow> env_ok (sample_caching jitter latency)"
  using unbounded_keeps_entries by (simp add: env_ok_def sample_caching_def oneYear_def)

lemma sample_tuples:
  "valid_key (viewer_tuple ''doc:1'')" "valid_key (viewer_tuple ''doc:2'')" "subject_of (tk_user (viewer_tuple ob)) \<noteq> None"
  "valid_key \<lparr>tk_object = ''doc:1'', tk_relation = ''viewer'', tk_user = ''user:anne''\<rparr>" "full_query viewers"
proof -
  have "subject_of ''user:anne'' \<noteq> None" by code_simp
  then show "subject_of (tk_user (viewer_tuple ob)) \<noteq> None" by (simp add: viewer_tuple_def NewTupleKey_def)
qed code_simp+

lemma sample_run_ok:
  "list_all (event_ok {(''s'', viewers)}) (map snd cached_read_events)"
  "list_all (event_ok {(''s'', viewers)}) (map snd grant_events)"
  using sample_tuples by (simp_all add: cached_read_events_def grant_events_def)

lemma caching_sample_run:
  assumes "0 \<le> jitter" "timed_events (sample_caching jitter latency) evs (initial_caching [] 0 [])"
    "list_all (event_ok {(''s'', viewers)}) (map snd evs)"
  shows "caching_run (sample_caching jitter latency) {(''s'', viewers)} (cached_sample jitter latency evs)"
  unfolding cached_sample_def
  using assms by (intro caching_run_events unbounded_start) (simp_all add: sample_caching_def)

text \<open>The facts about the state of a run, collected in one predicate, so that the run is evaluated once.\<close>

definition hit_report :: "entry_map caching_env \<Rightarrow> entry_map caching \<Rightarrow> bool" where
  "hit_report env s \<longleftrightarrow> cg_now s = 26 \<and>
     (case sample_served env s 27 of Inr (Hit kf recs) \<Rightarrow> recs \<noteq> [] | _ \<Rightarrow> False) \<and>
     (\<exists>c \<in> set (mb_changes (cg_store s) ''s''). touches viewers (change_key c) \<and> change_time c = 20 \<and>
        change_time c \<le> cg_noticed s ''s'')"

theorem cached_reads_bounded_staleness_witness:
  "\<exists>kf recs. sample_served (sample_caching 0 1) (cached_sample 0 1 cached_read_events) 27 = Inr (Hit kf recs) \<and> recs \<noteq> [] \<and>
    (\<exists>u \<le> 26. map (buildTuple kf) recs = query_answer (cg_history (cached_sample 0 1 cached_read_events) u) ''s'' viewers \<and> 19 \<le> u)"
proof -
  let ?env = "sample_caching 0 1" and ?s = "cached_sample 0 1 cached_read_events"
  have "timed_events ?env cached_read_events (initial_caching [] 0 [])" by code_simp
  then have run: "caching_run ?env {(''s'', viewers)} ?s" by (intro caching_sample_run sample_run_ok) simp_all
  have "hit_report ?env ?s" by code_simp
  then obtain kf recs c where hit: "sample_served ?env ?s 27 = Inr (Hit kf recs)" "recs \<noteq> []" and now: "cg_now ?s = 26"
    and c: "c \<in> set (mb_changes (cg_store ?s) ''s'')" "touches viewers (change_key c)" "change_time c = 20" "20 \<le> cg_noticed ?s ''s''"
    by (auto simp: hit_report_def split: sum.splits cached_result.splits)
  obtain cache where new: "newCachedIterator (cv_client ?env) (cv_datastore ?env) 27 27 (Inr [] :: storage_error + tuple list)
      (request_for ?env ''s'' viewers) (cg_cache ?s) = (Inr (Hit kf recs), cache)"
    using hit(1) unfolding sample_served_def by (metis prod.collapse)
  have env: "cv_latency ?env = 1" "cc_iterator_cache_ttl (cv_controller ?env) = 10" by (simp_all add: sample_caching_def)
  from cached_reads_bounded_staleness [OF run sample_env_ok _ _ _ _ new] sample_tuples(5) obtain u where
    "u \<le> 26" "map (buildTuple kf) recs = query_answer (cg_history ?s u) ''s'' viewers"
    "\<forall>c \<in> set (mb_changes (cg_store ?s) ''s''). touches viewers (change_key c) \<longrightarrow> change_time c \<le> cg_noticed ?s ''s'' \<longrightarrow>
        27 < change_time c + 10 \<longrightarrow> change_time c \<le> u + 1"
    by (auto simp: now env)
  with c hit show ?thesis by fastforce
qed

section \<open>Entries that escape an invalidation\<close>

lemma pass_invalidates:
  assumes env: "env_ok env" and n: "i \<le> n" "n < i + cc_iterator_cache_ttl (cv_controller env)" and q: "full_query q"
    and pass: "invalidate_after (cv_client env) (cv_controller env) i st known (Answered (Inr page)) c = Some c'"
    and ch: "known < tc_timestamp (hd page)" "ch \<in> set page" "i - cc_iterator_cache_ttl (cv_controller env) < tc_timestamp ch"
      "touches q (tkey_of (tc_key ch))" and lm: "lm < i"
  shows "isInvalidAt (cv_client env) c' n lm (cq_invalid_store_key (request_for env st q)) (cq_invalid_entity_keys (request_for env st q))"
proof -
  obtain new older where page: "page = new # older" using ch(2) by (cases page) auto
  let ?m = "recent_changes (i - cc_iterator_cache_ttl (cv_controller env)) page (length page)"
  define c0 where "c0 = cache_Set (cv_client env) c i (ChangelogCacheKey st) (ChangelogCacheEntry (tc_timestamp new) i)
    (cc_query_cache_ttl (cv_controller env))"
  have c': "c' = (if ?m = length page then invalidateIteratorCache (cv_client env) c0 i st
      else fold (invalidate_change (cv_client env) (cv_controller env) st i) (rev (take ?m page)) c0)"
    using pass ch(1) by (simp add: invalidate_after_def Let_def page c0_def split: if_splits)
  have "\<exists>k \<in> insert (InvalidIteratorCacheKey st) (set (cq_invalid_entity_keys (request_for env st q))).
      cache_Get (cv_client env) c' n k = Some (InvalidEntityCacheEntry i)"
  proof (cases "?m = length page")
    case True
    have "n < i + oneYear" using env n(2) by (simp add: env_ok_def)
    with True c' show ?thesis by (simp add: invalidate_store_view [OF env n(1)])
  next
    case False
    have "ch \<in> set (rev (take ?m page))" using recent_changes_cover [OF ch(2,3)] by simp
    then show ?thesis
      using touched_keys [OF q ch(4), of st env] False c' n(2) by (auto simp: invalidate_changes_view [OF env n(1)])
  qed
  with lm show ?thesis unfolding isInvalidAt_iff request_store_key [OF q] marked_after_iff by blast
qed

lemma stopped_miss_stored:
  assumes "int (length answer) < cds_max_result_size cds" "0 < cds_max_result_size cds"
  shows "\<exists>it. cached_drain StaticIterator cl finished ttl True None
      ((missed_iterator cds started returned answer rq)\<lparr>ci_closing := True\<rparr>) c =
    Some (it, cache_Set cl c finished (cq_key rq) (TupleIteratorCacheEntry (map (record_of_tuple (cq_known rq)) answer) returned) ttl)"
  using static_reads.cached_drain_spec [of "(missed_iterator cds started returned answer rq)\<lparr>ci_closing := True\<rparr>" "[]" cl finished ttl True c]
    assms by (simp add: missed_iterator_def)

lemma valid_entry_hit:
  assumes "cache_Get cl c t (cq_key rq) = Some (TupleIteratorCacheEntry recs lm)"
    "\<not> isInvalidAt cl c t lm (cq_invalid_store_key rq) (cq_invalid_entity_keys rq)"
  shows "newCachedIterator cl cds t t dsIter rq c = (Inr (Hit (cq_known rq) recs), c)"
  using assms by (simp add: newCachedIterator_def cached_lookup_def findInCache_def)

text \<open>No entry of the cache marks anything as invalid after an instant.\<close>

definition unmarked_after :: "'c cache_client \<Rightarrow> 'c \<Rightarrow> instant \<Rightarrow> instant \<Rightarrow> bool" where
  "unmarked_after cl c now ts \<longleftrightarrow> (\<forall>n k. now \<le> n \<longrightarrow> \<not> marked_after (cache_Get cl c n k) ts)"



text \<open>C38: The date of an entry is taken after the datastore has answered.  Whenever a pass of the controller
  falls between the call of the datastore and its return, and marks a change that concerns the query, so
  that an entry dated at the call would be refused, the result of the call is stored all the same and is
  served for the whole time to live of iterators: the tuples the datastore had before the change.  The
  hypotheses are that no other entry for the query is in the cache and that no marker is dated after the
  return.\<close>

theorem late_date_hides_invalidation:
  assumes env: "env_ok env" "cds_ttl (cv_datastore env) \<le> oneYear" and q: "full_query q" "memory_invar ds st"
    and size: "int (length (query_answer ds st q)) < cds_max_result_size (cv_datastore env)"
    and times: "started < i" "i \<le> returned" "returned \<le> stopped" "stopped < i + cc_iterator_cache_ttl (cv_controller env)" "stopped \<le> finished"
    and old: "unmarked_after (cv_client env) c i returned" "cache_Get (cv_client env) c stopped (cq_key (request_for env st q)) = None"
    and pass: "invalidate_after (cv_client env) (cv_controller env) i st known (Answered (Inr page)) c = Some c1"
    and ch: "known < tc_timestamp (hd page)" "ch \<in> set page" "i - cc_iterator_cache_ttl (cv_controller env) < tc_timestamp ch"
      "touches q (tkey_of (tc_key ch))"
    and random: "0 \<le> int63" "int63 < 2 ^ 63" "\<forall>n > 0. 0 \<le> int63n n \<and> int63n n < n"
    and t: "finished \<le> t" "t < finished + cds_ttl (cv_datastore env)"
  shows "isInvalidAt (cv_client env) c1 stopped started (cq_invalid_store_key (request_for env st q))
      (cq_invalid_entity_keys (request_for env st q)) \<and>
    (\<exists>it it' c2 kf recs.
      cached_Stop StaticIterator (cv_client env) stopped None
        (missed_iterator (cv_datastore env) started returned (query_answer ds st q) (request_for env st q)) c1 = (True, it, c1) \<and>
      cached_drain StaticIterator (cv_client env) finished
        (JitteredTTL int63 int63n (cds_ttl (cv_datastore env)) (cds_jitter_percentage (cv_datastore env))) True None it c1 = Some (it', c2) \<and>
      newCachedIterator (cv_client env) (cv_datastore env) t t dsIter (request_for env st q) c2 = (Inr (Hit kf recs), c2) \<and>
      map (buildTuple kf) recs = query_answer ds st q)"
proof
  show "isInvalidAt (cv_client env) c1 stopped started (cq_invalid_store_key (request_for env st q)) (cq_invalid_entity_keys (request_for env st q))"
    by (rule pass_invalidates [OF env(1) _ times(4) q(1) pass ch times(1)]) (use times in simp)
  let ?cl = "cv_client env" and ?cds = "cv_datastore env" and ?rq = "request_for env st q" and ?all = "query_answer ds st q"
  let ?it = "missed_iterator ?cds started returned ?all ?rq" and ?recs = "map (record_of_tuple (cq_known (request_for env st q))) (query_answer ds st q)"
  let ?ttl = "JitteredTTL int63 int63n (cds_ttl ?cds) (cds_jitter_percentage ?cds)"
  let ?c2 = "cache_Set ?cl c1 finished (cq_key ?rq) (TupleIteratorCacheEntry ?recs returned) ?ttl"
  have unmarked: "\<not> marked_after (cache_Get ?cl c1 n k) returned" if "i \<le> n" for n k
    using pass_entries [OF env(1) that pass, of k] old(1) that times(2) by (auto simp: unmarked_after_def marked_after_iff)
  have "cache_Get ?cl c1 stopped (cq_key ?rq) \<noteq> Some (TupleIteratorCacheEntry recs lm)" for recs lm
    using pass_entries [OF env(1) _ pass, of stopped "cq_key ?rq"] old(2) times by auto
  then have "findInCache ?cl c1 stopped (cq_key ?rq) (cq_invalid_store_key ?rq) (cq_invalid_entity_keys ?rq) = (None, c1)"
    by (auto simp: findInCache_def split: option.split cache_item.split)
  moreover have "\<not> isInvalidAt ?cl c1 stopped returned (cq_invalid_store_key ?rq) (cq_invalid_entity_keys ?rq)"
    using unmarked times by (simp add: isInvalidAt_iff)
  ultimately have stop: "cached_Stop StaticIterator ?cl stopped None ?it c1 = (True, ?it\<lparr>ci_closing := True\<rparr>, c1)"
    by (simp add: cached_Stop_def missed_iterator_def)
  have ttl: "cds_ttl ?cds \<le> ?ttl" "0 < ?ttl"
    using JitteredTTL_bounds [of "cds_ttl ?cds" "cds_jitter_percentage ?cds" int63 int63n] random env(1) by (auto simp: env_ok_def)
  have live: "t < finished + min ?ttl oneYear" using ttl t env(2) by linarith
  have view: "cache_Get ?cl ?c2 t k = (if k = cq_key ?rq then Some (TupleIteratorCacheEntry ?recs returned) else cache_Get ?cl c1 t k)" for k
    using cache_Get_Set [of ?cl ?ttl finished t] live ttl(2) t(1) env(1) by (simp add: env_ok_def)
  have "\<not> isInvalidAt ?cl ?c2 t returned (cq_invalid_store_key ?rq) (cq_invalid_entity_keys ?rq)"
    using unmarked [of t] times t by (auto simp: isInvalidAt_iff view marked_after_iff)
  then have "newCachedIterator ?cl ?cds t t dsIter ?rq ?c2 = (Inr (Hit (cq_known ?rq) ?recs), ?c2)"
    by (intro valid_entry_hit [where lm = returned]) (simp_all add: view)
  moreover have "0 < cds_max_result_size ?cds" using env(1) by (simp add: env_ok_def)
  ultimately show "\<exists>it it' c2 kf recs. cached_Stop StaticIterator ?cl stopped None ?it c1 = (True, it, c1) \<and>
      cached_drain StaticIterator ?cl finished ?ttl True None it c1 = Some (it', c2) \<and>
      newCachedIterator ?cl ?cds t t dsIter ?rq c2 = (Inr (Hit kf recs), c2) \<and> map (buildTuple kf) recs = ?all"
    using stop stopped_miss_stored [OF size, of ?cl finished ?ttl started returned ?rq c1] decoded_answer [OF q(2,1), of env] by metis
qed

definition granted :: memory_backend where
  "granted = cg_store (cached_sample 0 1 grant_events)"

text \<open>The newest page of changes after the tuple of \<open>doc:1\<close> was deleted at an instant.\<close>

definition revoked :: "instant \<Rightarrow> memory_backend" where
  "revoked t = cg_store (caching_step (sample_caching 0 1) t revoke_viewer (cached_sample 0 1 grant_events))"

definition revoked_page :: "instant \<Rightarrow> tuple_change list" where
  "revoked_page t =
     (case findChangesDescending (\<lambda>_. None) (\<lambda>_. '''') (t + 1) (revoked t) ''s'' of Inr (page, _) \<Rightarrow> page | Inl _ \<Rightarrow> [])"

lemma granted_invar: "memory_invar granted st"
proof -
  have "timed_events (sample_caching 0 1) grant_events (initial_caching [] 0 [])" by code_simp
  then have "caching_run (sample_caching 0 1) {(''s'', viewers)} (cached_sample 0 1 grant_events)"
    by (intro caching_sample_run sample_run_ok) simp_all
  then have "caching_inv (sample_caching 0 1) {(''s'', viewers)} (cached_sample 0 1 grant_events)"
    by (rule caching_run_inv) (simp add: sample_env_ok)
  then show ?thesis by (simp add: granted_def caching_inv_def store_inv_def)
qed

lemma empty_unmarked: "unmarked_after unbounded_client [] now ts"
  by (simp add: unmarked_after_def marked_after_def cache_Get_def unbounded_client_def)

definition page_facts :: "instant \<Rightarrow> bool" where
  "page_facts t \<longleftrightarrow> query_answer (revoked t) ''s'' viewers = [] \<and> length (query_answer granted ''s'' viewers) = 1 \<and>
     (case revoked_page t of
        ch # older \<Rightarrow> tc_timestamp ch = t \<and> touches viewers (tkey_of (tc_key ch)) \<and> tc_timestamp (last (ch # older)) = 1
      | [] \<Rightarrow> False)"

lemma sample_pages: "page_facts 21" "page_facts 27"
  by code_simp+

lemma sample_page:
  assumes "page_facts t"
  obtains ch where "ch \<in> set (revoked_page t)" "tc_timestamp ch = t" "tc_timestamp (hd (revoked_page t)) = t" "touches viewers (tkey_of (tc_key ch))"
    "tc_timestamp (last (revoked_page t)) = 1" "length (query_answer granted ''s'' viewers) = 1" "query_answer (revoked t) ''s'' viewers = []"
  using assms by (cases "revoked_page t") (auto simp: page_facts_def)

lemma pass_ends: "page \<noteq> [] \<Longrightarrow> \<exists>c'. invalidate_after cl cc now st known (Answered (Inr page)) c = Some c'"
  by (cases page) (auto simp: invalidate_after_def Let_def)

theorem late_date_hides_invalidation_witness:
  "\<exists>c1 it it' c2 kf recs.
    invalidate_after unbounded_client (cv_controller (sample_caching 0 4)) 23 ''s'' 20 (Answered (Inr (revoked_page 21))) [] = Some c1 \<and>
    cached_Stop StaticIterator unbounded_client 25 None (missed_iterator (cv_datastore (sample_caching 0 4)) 20 24
      (query_answer granted ''s'' viewers) (request_for (sample_caching 0 4) ''s'' viewers)) c1 = (True, it, c1) \<and>
    cached_drain StaticIterator unbounded_client 26 (JitteredTTL 0 (\<lambda>n. n - 1) 10 0) True None it c1 = Some (it', c2) \<and>
    newCachedIterator unbounded_client (cv_datastore (sample_caching 0 4)) 30 30 (Inr [] :: storage_error + tuple list) (request_for (sample_caching 0 4) ''s'' viewers) c2
      = (Inr (Hit kf recs), c2) \<and>
    map (buildTuple kf) recs = query_answer granted ''s'' viewers \<and> recs \<noteq> [] \<and> query_answer (revoked 21) ''s'' viewers = []"
proof -
  let ?env = "sample_caching 0 4"
  obtain ch where ch: "ch \<in> set (revoked_page 21)" "tc_timestamp ch = 21" "tc_timestamp (hd (revoked_page 21)) = 21"
      "touches viewers (tkey_of (tc_key ch))" and answers: "length (query_answer granted ''s'' viewers) = 1" "query_answer (revoked 21) ''s'' viewers = []"
    by (rule sample_page [OF sample_pages(1)])
  obtain c1 where c1: "invalidate_after (cv_client ?env) (cv_controller ?env) 23 ''s'' 20 (Answered (Inr (revoked_page 21))) [] = Some c1"
    using pass_ends [of "revoked_page 21"] ch(1) by fastforce
  have env: "cv_client ?env = unbounded_client" "cds_ttl (cv_datastore ?env) = 10" "cds_jitter_percentage (cv_datastore ?env) = 0"
    "cc_iterator_cache_ttl (cv_controller ?env) = 10" "cds_max_result_size (cv_datastore ?env) = 100"
    by (simp_all add: sample_caching_def)
  have c0: "cache_Get unbounded_client [] n k = None" for n k by (simp add: cache_Get_def unbounded_client_def)
  from late_date_hides_invalidation [of ?env viewers granted "''s''" 20 23 24 25 26 "[]" 20 "revoked_page 21" c1 ch 0 "\<lambda>n. n - 1" 30 "Inr [] :: storage_error + tuple list"]
  obtain it it' c2 kf recs where served:
    "cached_Stop StaticIterator (cv_client ?env) 25 None (missed_iterator (cv_datastore ?env) 20 24
      (query_answer granted ''s'' viewers) (request_for ?env ''s'' viewers)) c1 = (True, it, c1)"
    "cached_drain StaticIterator (cv_client ?env) 26 (JitteredTTL 0 (\<lambda>n. n - 1) (cds_ttl (cv_datastore ?env)) (cds_jitter_percentage (cv_datastore ?env)))
      True None it c1 = Some (it', c2)"
    "newCachedIterator (cv_client ?env) (cv_datastore ?env) 30 30 (Inr [] :: storage_error + tuple list) (request_for ?env ''s'' viewers) c2 = (Inr (Hit kf recs), c2)"
    "map (buildTuple kf) recs = query_answer granted ''s'' viewers"
    using sample_env_ok [of 0 4] sample_tuples(5) granted_invar [of "''s''"] empty_unmarked [of 23 24] c0 c1 ch answers(1)
    by (auto simp: env oneYear_def)
  moreover have "recs \<noteq> []" using served(4) answers(1) by auto
  ultimately show ?thesis using c1 answers(2) unfolding env by blast
qed



end
