(* ===== verification/MpmcQueue.thy ===== *)
theory MpmcQueue
  imports Prelude
begin

text \<open>
  The bounded queue of the list-objects pipeline
  (\<^verbatim>\<open>internal/containers/mpmc/queue.go\<close>): a ring buffer that any number of goroutines
  fill and drain under a shared read lock, claiming positions by compare-and-swap on the
  counters \<open>head\<close> and \<open>tail\<close> and publishing through the sequence number of each slot.

  A goroutine is a program counter of the datatype \<open>pc\<close>; \<open>thread_step\<close> is one atomic access
  to the shared state (a load, a compare-and-swap, a store, a channel operation, or the whole
  of a section under the write lock, which excludes every other goroutine that touches the
  ring).  A run interleaves the goroutines in any order, cancels their contexts at any time,
  and starts new calls of \<open>Send\<close>, \<open>Recv\<close>, \<open>Grow\<close> and \<open>Close\<close> on goroutines that have returned.
  The counters are unbounded integers: a run has fewer than \<open>2\<^sup>6\<^sup>3\<close> claims between two
  extensions of the ring.
\<close>

unbundle bit_operations_syntax

section \<open>The queue\<close>

datatype queue_error = ErrInvalidCapacity

definition isPowerOfTwo :: "int \<Rightarrow> bool" where
  "isPowerOfTwo n = (n > 0 \<and> n AND (n - 1) = 0)"

record 'a slot =
  Sequence :: int
  Data :: 'a

text \<open>A channel of capacity one that carries no data: whether it holds a signal and whether it
  has been closed.\<close>

record signal =
  pending :: bool
  closed :: bool

record 'a Queue =
  data :: "'a slot list"
  capacity :: int
  full :: signal
  empty :: signal
  extensions :: int
  extended :: int
  is_done :: bool
  head :: int
  tail :: int

text \<open>The first argument is the zero value of the element type.\<close>

definition NewQueue :: "'a \<Rightarrow> int \<Rightarrow> int \<Rightarrow> queue_error + 'a Queue" where
  "NewQueue zero cap exts =
    (if cap < 2 \<or> \<not> isPowerOfTwo cap then Inl ErrInvalidCapacity
     else Inr \<lparr>data = map (\<lambda>i. \<lparr>Sequence = i, Data = zero\<rparr>) [0..cap - 1], capacity = cap,
       full = \<lparr>pending = False, closed = False\<rparr>, empty = \<lparr>pending = False, closed = False\<rparr>,
       extensions = exts, extended = 0, is_done = False, head = 0, tail = 0\<rparr>)"

definition mask_index :: "'a Queue \<Rightarrow> int \<Rightarrow> int" where
  "mask_index p value = value AND (capacity p - 1)"

definition cell :: "'a Queue \<Rightarrow> int \<Rightarrow> 'a slot" where
  "cell p pos = data p ! nat (mask_index p pos)"

definition set_cell :: "'a Queue \<Rightarrow> int \<Rightarrow> 'a slot \<Rightarrow> 'a Queue" where
  "set_cell p pos c = p\<lparr>data := (data p)[nat (mask_index p pos) := c]\<rparr>"

definition extend_queue :: "'a \<Rightarrow> int \<Rightarrow> 'a Queue \<Rightarrow> 'a Queue" where
  "extend_queue zero n p =
    (if capacity p \<ge> n then p
     else
       let oldHead = head p; oldTail = tail p; currentSize = oldHead - oldTail;
           newData = map (\<lambda>i. if i < currentSize
             then \<lparr>Sequence = i + 1, Data = Data (cell p (oldTail + i))\<rparr>
             else \<lparr>Sequence = i, Data = zero\<rparr>) [0..n - 1]
       in p\<lparr>data := newData, tail := 0, head := currentSize,
            extended := extended p + 1, capacity := int (length newData)\<rparr>)"

definition Size :: "'a Queue \<Rightarrow> int" where
  "Size p = head p - tail p"

text \<open>\<^verbatim>\<open>select { case ch <- struct{}{}: default: }\<close>; a send on a closed channel panics (\<open>None\<close>).
  \<^verbatim>\<open>case <-ch\<close> goes on when a signal is pending or the channel is closed.\<close>

definition offer :: "signal \<Rightarrow> signal option" where
  "offer c = (if closed c then None else Some (c\<lparr>pending := True\<rparr>))"

definition await :: "signal \<Rightarrow> signal option" where
  "await c = (if pending c \<or> closed c then Some (c\<lparr>pending := False\<rparr>) else None)"

text \<open>\<^verbatim>\<open>close(ch)\<close>, which panics on a closed channel.\<close>

definition close_signal :: "signal \<Rightarrow> signal option" where
  "close_signal c = (if closed c then None else Some (c\<lparr>closed := True\<rparr>))"

section \<open>Goroutines\<close>

datatype 'a call = CallSend 'a | CallRecv | CallGrow int | CallClose

datatype 'a result = Sent bool | Received "'a option" | Grown "queue_error option" | Closed

text \<open>Where a goroutine stands.  The constructors from \<open>SendCheck\<close> to \<open>SendSignal\<close> and from
  \<open>RecvLoad\<close> to \<open>RecvSignal\<close> hold the read lock.\<close>

datatype 'a pc =
    Finished "'a result option"
  | Panicked
  | SendEnter 'a
  | SendCheck 'a
  | SendLoad 'a
  | SendLoop 'a int
  | SendRead 'a int
  | SendClaim 'a int
  | SendWrite 'a int
  | SendPublish int
  | SendSignal
  | SendExtend 'a int
  | SendPark 'a
  | SendRelock 'a
  | RecvEnter
  | RecvLoad
  | RecvRead int
  | RecvClaim int
  | RecvTake int
  | RecvRecycle int 'a
  | RecvSignal 'a
  | RecvEmpty
  | RecvPark
  | GrowEnter int
  | CloseEnter

fun reading :: "'a pc \<Rightarrow> bool" where
  "reading (SendCheck _) = True"
| "reading (SendLoad _) = True"
| "reading (SendLoop _ _) = True"
| "reading (SendRead _ _) = True"
| "reading (SendClaim _ _) = True"
| "reading (SendWrite _ _) = True"
| "reading (SendPublish _) = True"
| "reading SendSignal = True"
| "reading RecvLoad = True"
| "reading (RecvRead _) = True"
| "reading (RecvClaim _) = True"
| "reading (RecvTake _) = True"
| "reading (RecvRecycle _ _) = True"
| "reading (RecvSignal _) = True"
| "reading RecvEmpty = True"
| "reading _ = False"

text \<open>What a step does to the contents of the queue: a sender claimed the next position for its
  item, a receiver that had claimed a position took the value found there, or the ring was
  copied to a larger one whose position 0 is the given old position.\<close>

datatype 'a event = Silent | Enqueued 'a | Dequeued int 'a | Compacted int

datatype branch = OnSignal | OnContext

text \<open>The section under the write lock of \<open>Send\<close> and of \<open>Grow\<close>.\<close>

definition extend_event :: "int \<Rightarrow> 'a Queue \<Rightarrow> 'a event" where
  "extend_event n p = (if capacity p \<ge> n then Silent else Compacted (tail p))"

text \<open>One step of a goroutine: whether no goroutine holds the read lock, whether its context is
  cancelled, and which ready branch a \<^verbatim>\<open>select\<close> takes.  \<open>None\<close>: it is blocked.\<close>

fun send_step :: "'a \<Rightarrow> bool \<Rightarrow> bool \<Rightarrow> branch \<Rightarrow> 'a pc \<Rightarrow> 'a Queue \<Rightarrow> ('a pc \<times> 'a Queue \<times> 'a event) option" where
  "send_step zero unlocked ctxErr b (SendEnter item) p = Some (SendCheck item, p, Silent)"
| "send_step zero unlocked ctxErr b (SendCheck item) p =
     Some (if is_done p \<or> ctxErr then Finished (Some (Sent False)) else SendLoad item, p, Silent)"
| "send_step zero unlocked ctxErr b (SendLoad item) p = Some (SendLoop item (head p), p, Silent)"
| "send_step zero unlocked ctxErr b (SendLoop item pos) p =
     Some (if is_done p \<or> ctxErr then Finished (Some (Sent False)) else SendRead item pos, p, Silent)"
| "send_step zero unlocked ctxErr b (SendRead item pos) p =
     (let diff = Sequence (cell p pos) - pos in
      if diff = 0 then Some (SendClaim item pos, p, Silent)
      else if diff < 0 then
        (if extensions p < 0 \<or> extended p < extensions p
         then Some (SendExtend item (capacity p), p, Silent)
         else Some (SendPark item, p, Silent))
      else Some (SendLoad item, p, Silent))"
| "send_step zero unlocked ctxErr b (SendClaim item pos) p =
     (if head p = pos then Some (SendWrite item pos, p\<lparr>head := pos + 1\<rparr>, Enqueued item)
      else Some (SendLoop item pos, p, Silent))"
| "send_step zero unlocked ctxErr b (SendWrite item pos) p =
     Some (SendPublish pos, set_cell p pos ((cell p pos)\<lparr>Data := item\<rparr>), Silent)"
| "send_step zero unlocked ctxErr b (SendPublish pos) p =
     Some (SendSignal, set_cell p pos ((cell p pos)\<lparr>Sequence := pos + 1\<rparr>), Silent)"
| "send_step zero unlocked ctxErr b SendSignal p =
     (case offer (empty p) of None \<Rightarrow> Some (Panicked, p, Silent)
      | Some c \<Rightarrow> Some (Finished (Some (Sent True)), p\<lparr>empty := c\<rparr>, Silent))"
| "send_step zero unlocked ctxErr b (SendExtend item cap) p =
     (if \<not> unlocked then None
      else if cap = capacity p \<and> \<not> is_done p \<and> \<not> ctxErr
        then Some (SendRelock item, extend_queue zero (2 * capacity p) p, extend_event (2 * capacity p) p)
        else Some (SendRelock item, p, Silent))"
| "send_step zero unlocked ctxErr b (SendPark item) p =
     (case b of
        OnSignal \<Rightarrow> map_option (\<lambda>c. (SendRelock item, p\<lparr>full := c\<rparr>, Silent)) (await (full p))
      | OnContext \<Rightarrow> if ctxErr then Some (SendRelock item, p, Silent) else None)"
| "send_step zero unlocked ctxErr b (SendRelock item) p = Some (SendLoad item, p, Silent)"
| "send_step _ _ _ _ _ _ = None"

fun recv_step :: "'a \<Rightarrow> bool \<Rightarrow> branch \<Rightarrow> 'a pc \<Rightarrow> 'a Queue \<Rightarrow> ('a pc \<times> 'a Queue \<times> 'a event) option" where
  "recv_step zero ctxErr b RecvEnter p = Some (RecvLoad, p, Silent)"
| "recv_step zero ctxErr b RecvLoad p = Some (RecvRead (tail p), p, Silent)"
| "recv_step zero ctxErr b (RecvRead pos) p =
     (let diff = Sequence (cell p pos) - (pos + 1) in
      Some (if diff = 0 then RecvClaim pos else if diff < 0 then RecvEmpty else RecvLoad, p, Silent))"
| "recv_step zero ctxErr b (RecvClaim pos) p =
     (if tail p = pos then Some (RecvTake pos, p\<lparr>tail := pos + 1\<rparr>, Silent)
      else Some (RecvRead pos, p, Silent))"
| "recv_step zero ctxErr b (RecvTake pos) p =
     Some (RecvRecycle pos (Data (cell p pos)), set_cell p pos ((cell p pos)\<lparr>Data := zero\<rparr>),
       Dequeued pos (Data (cell p pos)))"
| "recv_step zero ctxErr b (RecvRecycle pos value) p =
     Some (RecvSignal value, set_cell p pos ((cell p pos)\<lparr>Sequence := pos + capacity p\<rparr>), Silent)"
| "recv_step zero ctxErr b (RecvSignal value) p =
     (if is_done p then Some (Finished (Some (Received (Some value))), p, Silent)
      else case offer (full p) of None \<Rightarrow> Some (Panicked, p, Silent)
        | Some c \<Rightarrow> Some (Finished (Some (Received (Some value))), p\<lparr>full := c\<rparr>, Silent))"
| "recv_step zero ctxErr b RecvEmpty p =
     Some (if is_done p \<or> ctxErr then Finished (Some (Received None)) else RecvPark, p, Silent)"
| "recv_step zero ctxErr b RecvPark p =
     (case b of
        OnSignal \<Rightarrow> map_option (\<lambda>c. (RecvEnter, p\<lparr>empty := c\<rparr>, Silent)) (await (empty p))
      | OnContext \<Rightarrow> if ctxErr then Some (RecvEnter, p, Silent) else None)"
| "recv_step _ _ _ _ _ = None"

definition Close :: "'a Queue \<Rightarrow> 'a Queue option" where
  "Close p = (if is_done p then Some p
     else case (close_signal (empty p), close_signal (full p)) of
       (Some e, Some f) \<Rightarrow> Some (p\<lparr>is_done := True, empty := e, full := f\<rparr>)
     | _ \<Rightarrow> None)"

fun thread_step :: "'a \<Rightarrow> bool \<Rightarrow> bool \<Rightarrow> branch \<Rightarrow> 'a pc \<Rightarrow> 'a Queue \<Rightarrow> ('a pc \<times> 'a Queue \<times> 'a event) option" where
  "thread_step zero unlocked ctxErr b (GrowEnter n) p =
     (if \<not> isPowerOfTwo n then Some (Finished (Some (Grown (Some ErrInvalidCapacity))), p, Silent)
      else if \<not> unlocked then None
      else Some (Finished (Some (Grown None)), extend_queue zero n p, extend_event n p))"
| "thread_step zero unlocked ctxErr b CloseEnter p =
     (if \<not> unlocked then None
      else case Close p of None \<Rightarrow> Some (Panicked, p, Silent)
        | Some p' \<Rightarrow> Some (Finished (Some Closed), p', Silent))"
| "thread_step zero unlocked ctxErr b c p =
     (case send_step zero unlocked ctxErr b c p of Some r \<Rightarrow> Some r
      | None \<Rightarrow> recv_step zero ctxErr b c p)"

fun enter :: "'a call \<Rightarrow> 'a pc" where
  "enter (CallSend item) = SendEnter item"
| "enter CallRecv = RecvEnter"
| "enter (CallGrow n) = GrowEnter n"
| "enter CallClose = CloseEnter"

section \<open>Runs\<close>

record 'a system =
  queue :: "'a Queue"
  threads :: "'a pc list"
  cancelled :: "bool list"

datatype 'a action = Start nat "'a call" | Cancel nat | Proceed nat branch

fun finished :: "'a pc \<Rightarrow> bool" where
  "finished (Finished _) = True"
| "finished _ = False"

definition unlocked :: "'a system \<Rightarrow> bool" where
  "unlocked s = list_all (\<lambda>c. \<not> reading c) (threads s)"

fun system_step :: "'a \<Rightarrow> 'a action \<Rightarrow> 'a system \<Rightarrow> ('a system \<times> 'a event) option" where
  "system_step zero (Start t c) s =
     (if t < length (threads s) \<and> finished (threads s ! t)
      then Some (s\<lparr>threads := (threads s)[t := enter c], cancelled := (cancelled s)[t := False]\<rparr>, Silent)
      else None)"
| "system_step zero (Cancel t) s = Some (s\<lparr>cancelled := (cancelled s)[t := True]\<rparr>, Silent)"
| "system_step zero (Proceed t b) s =
     (if t < length (threads s)
      then map_option (\<lambda>(c, q, e). (s\<lparr>queue := q, threads := (threads s)[t := c]\<rparr>, e))
        (thread_step zero (unlocked s) (cancelled s ! t) b (threads s ! t) (queue s))
      else None)"

definition initial :: "'a Queue \<Rightarrow> nat \<Rightarrow> 'a system" where
  "initial q n = \<lparr>queue = q, threads = replicate n (Finished None), cancelled = replicate n False\<rparr>"

text \<open>The history of a run: the items in the order in which senders claimed positions for them,
  the number of positions dropped by extensions, and what receivers took, each with the number
  of its claim.\<close>

record 'a history =
  sent :: "'a list"
  base :: int
  delivered :: "(int \<times> 'a) list"

fun record_event :: "'a event \<Rightarrow> 'a history \<Rightarrow> 'a history" where
  "record_event Silent h = h"
| "record_event (Enqueued x) h = h\<lparr>sent := sent h @ [x]\<rparr>"
| "record_event (Dequeued pos x) h = h\<lparr>delivered := delivered h @ [(base h + pos, x)]\<rparr>"
| "record_event (Compacted pos) h = h\<lparr>base := base h + pos\<rparr>"

inductive run :: "'a \<Rightarrow> 'a system \<Rightarrow> 'a history \<Rightarrow> bool" for zero where
  run_start: "NewQueue zero cap exts = Inr q \<Longrightarrow>
    run zero (initial q n) \<lparr>sent = [], base = 0, delivered = []\<rparr>"
| run_step: "run zero s h \<Longrightarrow> system_step zero a s = Some (s', e) \<Longrightarrow> run zero s' (record_event e h)"

fun run_actions :: "'a \<Rightarrow> 'a action list \<Rightarrow> 'a system \<times> 'a history \<Rightarrow> ('a system \<times> 'a history) option" where
  "run_actions zero [] sh = Some sh"
| "run_actions zero (a # acts) (s, h) =
     (case system_step zero a s of None \<Rightarrow> None
      | Some (s', e) \<Rightarrow> run_actions zero acts (s', record_event e h))"

end
