(* ===== verification/MpmcQueueProps.thy ===== *)
theory MpmcQueueProps
  imports MpmcQueue
begin

text \<open>
  The bounded queue is a linearisable first-in first-out buffer.  An invariant relates every
  slot of the ring to the position it serves and to the goroutine that owns it; each atomic
  step preserves it.  From it follow, for every interleaving: a receiver takes the item of the
  send with the same number, no item is lost or delivered twice, no goroutine panics, and
  nothing is enqueued after \<open>Close\<close>.
\<close>

section \<open>Ring arithmetic\<close>

lemma and_pred_even: "(2 * m) AND (2 * m - 1) = 2 * (m AND (m - 1))" for m :: int
proof -
  have "(2 * m - 1) div 2 = m - 1" by presburger
  then show ?thesis by (subst and_rec) simp
qed

lemma and_pred_odd: "(2 * m + 1) AND (2 * m) = 2 * m" for m :: int
  by (subst and_rec) simp

lemma isPowerOfTwo_exp: "isPowerOfTwo n \<Longrightarrow> \<exists>k. n = 2 ^ k"
proof (induction n rule: measure_induct_rule [of nat])
  case (less n)
  then have n: "n > 0" "n AND (n - 1) = 0" by (simp_all add: isPowerOfTwo_def)
  show ?case
  proof (cases "even n")
    case True
    then obtain m where m: "n = 2 * m" by blast
    with n have "isPowerOfTwo m" by (simp add: isPowerOfTwo_def and_pred_even)
    with less.IH [of m] m n obtain k where "m = 2 ^ k" by auto
    with m have "n = 2 ^ Suc k" by simp
    then show ?thesis ..
  next
    case False
    then obtain m where m: "n = 2 * m + 1" by (elim oddE)
    with n have "n = 2 ^ 0" by (simp add: and_pred_odd)
    then show ?thesis ..
  qed
qed

lemma isPowerOfTwo_pow [simp]: "isPowerOfTwo (2 ^ k)"
  by (simp add: isPowerOfTwo_def flip: mask_eq_exp_minus_1 take_bit_eq_mask)

lemma mask_index_mod: "isPowerOfTwo (capacity p) \<Longrightarrow> mask_index p v = v mod capacity p"
  by (auto simp: mask_index_def dest!: isPowerOfTwo_exp
      simp flip: mask_eq_exp_minus_1 take_bit_eq_mask take_bit_eq_mod)

lemma same_slot:
  "x mod c = y mod c \<Longrightarrow> x < y + c \<Longrightarrow> y < x + c \<Longrightarrow> x = y" for x y c :: int
  using dvd_imp_le_int [of "x - y" c] unfolding mod_eq_dvd_iff by linarith

lemma cell_update [simp]:
  "cell (p\<lparr>head := h\<rparr>) r = cell p r"
  "cell (p\<lparr>tail := t\<rparr>) r = cell p r"
  "cell (p\<lparr>full := c\<rparr>) r = cell p r"
  "cell (p\<lparr>empty := c\<rparr>) r = cell p r"
  "cell (p\<lparr>is_done := d\<rparr>) r = cell p r"
  by (simp_all add: cell_def mask_index_def)

lemma set_cell_fields [simp]:
  "capacity (set_cell p r c) = capacity p"
  "head (set_cell p r c) = head p"
  "tail (set_cell p r c) = tail p"
  "full (set_cell p r c) = full p"
  "empty (set_cell p r c) = empty p"
  "is_done (set_cell p r c) = is_done p"
  "extensions (set_cell p r c) = extensions p"
  "extended (set_cell p r c) = extended p"
  "length (data (set_cell p r c)) = length (data p)"
  by (simp_all add: set_cell_def)

text \<open>The shape of the ring: the slot of a position is chosen by its residue.\<close>

definition shape :: "'a Queue \<Rightarrow> bool" where
  "shape q \<longleftrightarrow> isPowerOfTwo (capacity q) \<and> 2 \<le> capacity q \<and> int (length (data q)) = capacity q"

lemma shape_fields [simp]:
  "shape (set_cell p r c) = shape p"
  "shape (p\<lparr>head := h\<rparr>) = shape p"
  "shape (p\<lparr>tail := t\<rparr>) = shape p"
  "shape (p\<lparr>full := f\<rparr>) = shape p"
  "shape (p\<lparr>empty := f\<rparr>) = shape p"
  "shape (p\<lparr>is_done := d\<rparr>) = shape p"
  by (simp_all add: shape_def)

lemma cell_mod: "shape q \<Longrightarrow> x mod capacity q = y mod capacity q \<Longrightarrow> cell q x = cell q y"
  by (simp add: shape_def cell_def mask_index_mod)

lemma cell_back: "shape q \<Longrightarrow> cell q (x + capacity q) = cell q x"
  by (rule cell_mod) simp_all

lemma cell_set_cell:
  "shape q \<Longrightarrow> cell (set_cell q p c) r = (if r mod capacity q = p mod capacity q then c else cell q r)"
  by (auto simp: shape_def cell_def set_cell_def mask_index_mod [of q] mask_index_mod
      [of "q\<lparr>data := d\<rparr>" for d] nth_list_update nat_less_iff eq_nat_nat_iff)

section \<open>The invariant\<close>

text \<open>A position between \<open>tail\<close> and \<open>head\<close> is claimed by a sender, and its slot is either still
  being written or holds its item; a position between \<open>head\<close> and \<open>tail + capacity\<close> is free, and
  its slot is either writable or still being emptied.\<close>

definition ring :: "'a Queue \<Rightarrow> 'a list \<Rightarrow> int \<Rightarrow> bool" where
  "ring q xs b \<longleftrightarrow> shape q \<and> 0 \<le> b \<and> 0 \<le> tail q \<and> tail q \<le> head q \<and> head q \<le> tail q + capacity q \<and>
     b + head q = int (length xs) \<and>
     (\<forall>p. tail q \<le> p \<longrightarrow> p < head q \<longrightarrow> Sequence (cell q p) = p \<or>
        Sequence (cell q p) = p + 1 \<and> Data (cell q p) = xs ! nat (b + p)) \<and>
     (\<forall>p. head q \<le> p \<longrightarrow> p < tail q + capacity q \<longrightarrow>
        Sequence (cell q p) = p \<or> Sequence (cell q p) = p - capacity q + 1)"

fun thread_ok :: "'a Queue \<Rightarrow> 'a list \<Rightarrow> int \<Rightarrow> 'a pc \<Rightarrow> bool" where
  "thread_ok q xs b Panicked = False"
| "thread_ok q xs b (SendLoop x p) = (p \<le> head q)"
| "thread_ok q xs b (SendRead x p) = (p \<le> head q \<and> \<not> is_done q)"
| "thread_ok q xs b (SendClaim x p) =
     (p \<le> head q \<and> \<not> is_done q \<and> (p = head q \<longrightarrow> Sequence (cell q p) = p))"
| "thread_ok q xs b (SendWrite x p) =
     (tail q \<le> p \<and> p < head q \<and> \<not> is_done q \<and> Sequence (cell q p) = p \<and> xs ! nat (b + p) = x)"
| "thread_ok q xs b (SendPublish p) =
     (tail q \<le> p \<and> p < head q \<and> \<not> is_done q \<and> Sequence (cell q p) = p \<and>
      Data (cell q p) = xs ! nat (b + p))"
| "thread_ok q xs b SendSignal = (\<not> is_done q)"
| "thread_ok q xs b (RecvRead p) = (p \<le> tail q)"
| "thread_ok q xs b (RecvClaim p) = (p \<le> tail q \<and> (p = tail q \<longrightarrow> Sequence (cell q p) = p + 1))"
| "thread_ok q xs b (RecvTake p) =
     (0 \<le> p \<and> p < tail q \<and> head q \<le> p + capacity q \<and> Sequence (cell q p) = p + 1 \<and>
      Data (cell q p) = xs ! nat (b + p))"
| "thread_ok q xs b (RecvRecycle p v) =
     (0 \<le> p \<and> p < tail q \<and> head q \<le> p + capacity q \<and> Sequence (cell q p) = p + 1)"
| "thread_ok q xs b _ = True"

text \<open>The position whose slot a goroutine owns.\<close>

fun sends :: "'a pc \<Rightarrow> int option" where
  "sends (SendWrite x p) = Some p"
| "sends (SendPublish p) = Some p"
| "sends _ = None"

fun recvs :: "'a pc \<Rightarrow> int option" where
  "recvs (RecvTake p) = Some p"
| "recvs (RecvRecycle p v) = Some p"
| "recvs _ = None"

fun takes :: "'a pc \<Rightarrow> int option" where
  "takes (RecvTake p) = Some p"
| "takes _ = None"

definition owned :: "('a pc \<Rightarrow> int option) \<Rightarrow> 'a pc list \<Rightarrow> int \<Rightarrow> bool" where
  "owned f cs p \<longleftrightarrow> (\<exists>t < length cs. f (cs ! t) = Some p)"

definition exclusive :: "('a pc \<Rightarrow> int option) \<Rightarrow> 'a pc list \<Rightarrow> bool" where
  "exclusive f cs \<longleftrightarrow> (\<forall>t < length cs. \<forall>u < length cs. \<forall>p.
     f (cs ! t) = Some p \<longrightarrow> f (cs ! u) = Some p \<longrightarrow> t = u)"

definition owners :: "'a Queue \<Rightarrow> 'a pc list \<Rightarrow> bool" where
  "owners q cs \<longleftrightarrow> exclusive sends cs \<and> exclusive recvs cs \<and>
     (\<forall>p. tail q \<le> p \<longrightarrow> p < head q \<longrightarrow> Sequence (cell q p) = p \<longrightarrow> owned sends cs p) \<and>
     (\<forall>p. head q \<le> p \<longrightarrow> p < tail q + capacity q \<longrightarrow> Sequence (cell q p) = p - capacity q + 1 \<longrightarrow>
        owned recvs cs (p - capacity q))"

definition deliveries :: "'a Queue \<Rightarrow> 'a pc list \<Rightarrow> 'a history \<Rightarrow> bool" where
  "deliveries q cs h \<longleftrightarrow> distinct (map fst (delivered h)) \<and>
     (\<forall>(k, v) \<in> set (delivered h). 0 \<le> k \<and> k < base h + tail q \<and> v = sent h ! nat k) \<and>
     (\<forall>k. 0 \<le> k \<longrightarrow> k < base h + tail q \<longrightarrow>
        (k \<notin> fst ` set (delivered h) \<longleftrightarrow> owned takes cs (k - base h)))"

definition queue_inv :: "'a system \<Rightarrow> 'a history \<Rightarrow> bool" where
  "queue_inv s h \<longleftrightarrow> ring (queue s) (sent h) (base h) \<and>
     closed (empty (queue s)) = is_done (queue s) \<and> closed (full (queue s)) = is_done (queue s) \<and>
     (\<forall>c \<in> set (threads s). thread_ok (queue s) (sent h) (base h) c) \<and>
     owners (queue s) (threads s) \<and> deliveries (queue s) (threads s) h"

section \<open>Goroutines change hands\<close>

lemma owned_update:
  assumes "t < length cs"
  shows "owned f (cs[t := c]) p \<longleftrightarrow> f c = Some p \<or> (\<exists>u < length cs. u \<noteq> t \<and> f (cs ! u) = Some p)"
  using assms by (auto simp: owned_def nth_list_update)

lemma owned_same:
  assumes "t < length cs" "f c = f (cs ! t)"
  shows "owned f (cs[t := c]) p = owned f cs p"
  using assms by (auto simp: owned_def nth_list_update)

lemma exclusive_same:
  assumes "t < length cs" "f c = f (cs ! t)"
  shows "exclusive f (cs[t := c]) = exclusive f cs"
proof -
  have "f (cs[t := c] ! u) = f (cs ! u)" if "u < length cs" for u
    using assms that by (simp add: nth_list_update)
  then show ?thesis by (simp add: exclusive_def)
qed

lemma exclusive_release:
  "t < length cs \<Longrightarrow> exclusive f cs \<Longrightarrow> f c = None \<Longrightarrow> exclusive f (cs[t := c])"
  by (simp add: exclusive_def nth_list_update)

lemma exclusive_acquire:
  "t < length cs \<Longrightarrow> exclusive f cs \<Longrightarrow> f c = Some p \<Longrightarrow> \<not> owned f cs p \<Longrightarrow>
    exclusive f (cs[t := c])"
  by (auto simp: exclusive_def owned_def nth_list_update)

lemma owned_release:
  assumes "exclusive f cs" "t < length cs" "f (cs ! t) = Some r" "f c = None"
  shows "owned f (cs[t := c]) p \<longleftrightarrow> owned f cs p \<and> p \<noteq> r"
proof -
  have "f (cs ! u) = Some p \<Longrightarrow> u < length cs \<Longrightarrow> u \<noteq> t \<longleftrightarrow> p \<noteq> r" for u
    using assms(1-3) unfolding exclusive_def by (metis option.inject)
  then show ?thesis
    using assms(4) by (auto simp: owned_update [OF assms(2)] owned_def [of f cs])
qed

lemma owned_acquire:
  assumes "t < length cs" "f (cs ! t) = None" "f c = Some r"
  shows "owned f (cs[t := c]) p \<longleftrightarrow> owned f cs p \<or> p = r"
proof -
  have "f (cs ! u) = Some p \<Longrightarrow> u \<noteq> t" for u using assms(2) by auto
  then show ?thesis
    using assms(3) by (auto simp: owned_update [OF assms(1)] owned_def [of f cs])
qed

section \<open>Steps on the ring\<close>

lemma ring_capacity: "ring q xs b \<Longrightarrow> 2 \<le> capacity q"
  by (simp add: ring_def shape_def)

lemma ring_room:
  assumes r: "ring q xs b" and s: "Sequence (cell q (head q)) = head q"
  shows "head q < tail q + capacity q"
proof (rule ccontr)
  assume "\<not> ?thesis"
  with r have full: "head q = tail q + capacity q" by (simp add: ring_def)
  with r have "cell q (head q) = cell q (tail q)" by (simp add: ring_def cell_back)
  moreover from full ring_capacity [OF r] have "tail q < head q" by simp
  with r have "Sequence (cell q (tail q)) \<le> tail q + 1" by (auto simp: ring_def)
  ultimately show False using s full ring_capacity [OF r] by simp
qed

lemma ring_item:
  assumes r: "ring q xs b" and s: "Sequence (cell q (tail q)) = tail q + 1"
  shows "tail q < head q" "Data (cell q (tail q)) = xs ! nat (b + tail q)"
proof -
  have "Sequence (cell q (tail q)) \<le> tail q" if "head q = tail q"
    using r ring_capacity [OF r] that by (auto simp: ring_def)
  with s r show nonempty: "tail q < head q" by (fastforce simp: ring_def)
  with s r show "Data (cell q (tail q)) = xs ! nat (b + tail q)" by (auto simp: ring_def)
qed

lemma claim_send_ring:
  assumes r: "ring q xs b" and s: "Sequence (cell q (head q)) = head q"
  shows "ring (q\<lparr>head := head q + 1\<rparr>) (xs @ [x]) b"
proof -
  have "Sequence (cell q p) = p \<or> Sequence (cell q p) = p + 1 \<and> Data (cell q p) = (xs @ [x]) ! nat (b + p)"
    if "tail q \<le> p" "p < head q + 1" for p
  proof (cases "p = head q")
    case False
    with that r show ?thesis by (auto simp: ring_def nth_append nat_less_iff)
  qed (use s in simp)
  then show ?thesis
    using r ring_room [OF r s] by (simp add: ring_def)
qed

lemma claim_send_other:
  assumes r: "ring q xs b" and s: "Sequence (cell q (head q)) = head q" and ok: "thread_ok q xs b c"
  shows "thread_ok (q\<lparr>head := head q + 1\<rparr>) (xs @ [x]) b c"
proof -
  have item: "(xs @ [x]) ! nat (b + p) = xs ! nat (b + p)" if "0 \<le> p" "p < head q" for p
    using r that by (auto simp: ring_def nth_append nat_less_iff)
  have "head q \<noteq> p + capacity q" if "Sequence (cell q p) = p + 1" for p
    using r s that ring_capacity [OF r] cell_back [of q p] by (auto simp: ring_def)
  then show ?thesis
    using ok r item by (cases c) (force simp: ring_def)+
qed

lemma claim_recv_ring:
  assumes r: "ring q xs b" and s: "Sequence (cell q (tail q)) = tail q + 1"
  shows "ring (q\<lparr>tail := tail q + 1\<rparr>) xs b"
proof -
  have "Sequence (cell q p) = p \<or> Sequence (cell q p) = p - capacity q + 1"
    if "head q \<le> p" "p < tail q + 1 + capacity q" for p
  proof (cases "p = tail q + capacity q")
    case True
    with r s show ?thesis by (simp add: ring_def cell_back)
  qed (use that r in \<open>simp add: ring_def\<close>)
  then show ?thesis using r ring_item [OF r s] by (simp add: ring_def)
qed

lemma claim_recv_other:
  assumes r: "ring q xs b" and s: "Sequence (cell q (tail q)) = tail q + 1" and ok: "thread_ok q xs b c"
  shows "thread_ok (q\<lparr>tail := tail q + 1\<rparr>) xs b c"
proof -
  have "p \<noteq> tail q" if "Sequence (cell q p) = p" for p
    using s that by auto
  then show ?thesis
    using ok r by (cases c) (force simp: ring_def)+
qed

text \<open>A goroutine owns the slot of a position of the window from \<open>tail\<close> to \<open>tail + capacity\<close>; what
  it stores there does not concern the other goroutines.\<close>

definition owned_slot :: "'a Queue \<Rightarrow> int \<Rightarrow> bool" where
  "owned_slot q w \<longleftrightarrow> tail q \<le> w \<and> w < tail q + capacity q \<and>
     (if w < head q then Sequence (cell q w) = w else Sequence (cell q w) = w - capacity q + 1)"

lemma set_cell_back: "shape q \<Longrightarrow> set_cell q (w + capacity q) c = set_cell q w c"
  by (simp add: set_cell_def shape_def mask_index_mod)

lemma cell_elsewhere:
  assumes "shape q" "tail q \<le> w" "w < tail q + capacity q" "tail q \<le> r" "r < tail q + capacity q" "r \<noteq> w"
  shows "cell (set_cell q w c) r = cell q r"
  using assms same_slot [of r "capacity q" w] by (auto simp: cell_set_cell)

lemma cell_here [simp]: "shape q \<Longrightarrow> cell (set_cell q w c) w = c"
  by (simp add: cell_set_cell)

lemma set_cell_ring:
  assumes r: "ring q xs b" and w: "tail q \<le> w" "w < tail q + capacity q"
    and claimed: "w < head q \<Longrightarrow> Sequence c = w \<or> Sequence c = w + 1 \<and> Data c = xs ! nat (b + w)"
    and free: "head q \<le> w \<Longrightarrow> Sequence c = w \<or> Sequence c = w - capacity q + 1"
  shows "ring (set_cell q w c) xs b"
proof -
  have sh: "shape q" using r by (simp add: ring_def)
  have here: "cell (set_cell q w c) p = (if p = w then c else cell q p)"
    if "tail q \<le> p" "p < tail q + capacity q" for p
    using cell_elsewhere [OF sh w that] sh by simp
  show ?thesis
    using r claimed free here by (auto simp: ring_def)
qed

lemma set_cell_other:
  assumes r: "ring q xs b" and own: "owned_slot q w" and ok: "thread_ok q xs b t"
    and other: "sends t \<noteq> Some w" "recvs t \<noteq> Some (w - capacity q)"
  shows "thread_ok (set_cell q w c) xs b t"
proof -
  have sh: "shape q" and w: "tail q \<le> w" "w < tail q + capacity q" using r own by (auto simp: ring_def owned_slot_def)
  have here: "cell (set_cell q w c) p = cell q p" if "tail q \<le> p" "p < tail q + capacity q" "p \<noteq> w" for p
    using cell_elsewhere [OF sh w] that by simp
  have below: "cell (set_cell q w c) p = cell q p" if "p < tail q" "tail q \<le> p + capacity q" "p \<noteq> w - capacity q" for p
    using here [of "p + capacity q"] that cell_back [OF sh, of p] cell_back [of "set_cell q w c" p] sh by auto
  have head: "cell (set_cell q w c) (head q) = cell q (head q)" if "Sequence (cell q (head q)) = head q"
    using ring_room [OF r that] own that ring_capacity [OF r] r
    by (intro here) (auto simp: ring_def owned_slot_def split: if_splits)
  have tail: "cell (set_cell q w c) (tail q) = cell q (tail q)" if "Sequence (cell q (tail q)) = tail q + 1"
    using ring_item [OF r that] own that ring_capacity [OF r]
    by (intro here) (auto simp: owned_slot_def split: if_splits)
  show ?thesis
    using ok other r head tail here below by (cases t) (auto simp: ring_def)
qed

section \<open>Every step preserves the invariant\<close>

lemma inv_thread:
  "queue_inv s h \<Longrightarrow> t < length (threads s) \<Longrightarrow> thread_ok (queue s) (sent h) (base h) (threads s ! t)"
  by (simp add: queue_inv_def)

lemma inv_ring: "queue_inv s h \<Longrightarrow> ring (queue s) (sent h) (base h)"
  by (simp add: queue_inv_def)

lemma all_threads_update:
  "(\<And>u. u < length cs \<Longrightarrow> u \<noteq> t \<Longrightarrow> P (cs ! u)) \<Longrightarrow> P c \<Longrightarrow> \<forall>d \<in> set (cs[t := c]). P d"
proof
  fix d
  assume all: "\<And>u. u < length cs \<Longrightarrow> u \<noteq> t \<Longrightarrow> P (cs ! u)" "P c" and d: "d \<in> set (cs[t := c])"
  from d obtain u where u: "u < length cs" "d = cs[t := c] ! u" by (auto simp: in_set_conv_nth)
  with all show "P d" by (cases "u = t") simp_all
qed

lemma signal_irrelevant [simp]:
  "ring (q\<lparr>full := f\<rparr>) xs b = ring q xs b"
  "ring (q\<lparr>empty := f\<rparr>) xs b = ring q xs b"
  "thread_ok (q\<lparr>full := f\<rparr>) xs b c = thread_ok q xs b c"
  "thread_ok (q\<lparr>empty := f\<rparr>) xs b c = thread_ok q xs b c"
  "owners (q\<lparr>full := f\<rparr>) cs = owners q cs"
  "owners (q\<lparr>empty := f\<rparr>) cs = owners q cs"
  "deliveries (q\<lparr>full := f\<rparr>) cs h = deliveries q cs h"
  "deliveries (q\<lparr>empty := f\<rparr>) cs h = deliveries q cs h"
  by (simp_all add: ring_def owners_def deliveries_def) (cases c; simp)+

lemma inv_move:
  assumes inv: "queue_inv s h" and t: "t < length (threads s)"
    and same: "sends c = sends (threads s ! t)" "recvs c = recvs (threads s ! t)" "takes c = takes (threads s ! t)"
    and ok: "thread_ok (queue s) (sent h) (base h) c"
  shows "queue_inv (s\<lparr>threads := (threads s)[t := c]\<rparr>) h"
proof -
  have "\<forall>d \<in> set ((threads s)[t := c]). thread_ok (queue s) (sent h) (base h) d"
    using inv ok by (intro all_threads_update) (simp_all add: inv_thread)
  then show ?thesis
    using inv t same by (simp add: queue_inv_def owners_def deliveries_def exclusive_same owned_same)
qed

lemma inv_full: "queue_inv s h \<Longrightarrow> closed f = closed (full (queue s)) \<Longrightarrow>
    queue_inv (s\<lparr>queue := (queue s)\<lparr>full := f\<rparr>\<rparr>) h"
  by (simp add: queue_inv_def)

lemma inv_empty: "queue_inv s h \<Longrightarrow> closed f = closed (empty (queue s)) \<Longrightarrow>
    queue_inv (s\<lparr>queue := (queue s)\<lparr>empty := f\<rparr>\<rparr>) h"
  by (simp add: queue_inv_def)

lemma inv_claim_send:
  assumes inv: "queue_inv s h" and t: "t < length (threads s)" and c: "threads s ! t = SendClaim x p"
    and p: "head (queue s) = p"
  shows "queue_inv (s\<lparr>queue := (queue s)\<lparr>head := p + 1\<rparr>, threads := (threads s)[t := SendWrite x p]\<rparr>)
    (h\<lparr>sent := sent h @ [x]\<rparr>)"
proof -
  let ?q = "queue s" and ?q' = "queue s\<lparr>head := p + 1\<rparr>" and ?cs = "(threads s)[t := SendWrite x p]"
  note r = inv_ring [OF inv]
  from inv_thread [OF inv t] c p have s: "Sequence (cell ?q (head ?q)) = head ?q" "\<not> is_done ?q" by auto
  have "thread_ok ?q' (sent h @ [x]) (base h) (SendWrite x p)"
    using r s p by (auto simp: ring_def nth_append nat_less_iff)
  then have oks: "\<forall>d \<in> set ?cs. thread_ok ?q' (sent h @ [x]) (base h) d"
    using claim_send_other [OF r s(1)] p inv by (intro all_threads_update) (auto simp: inv_thread)
  have "\<not> owned sends (threads s) p"
  proof
    assume "owned sends (threads s) p"
    then obtain u where "u < length (threads s)" "sends (threads s ! u) = Some p" by (auto simp: owned_def)
    with inv_thread [OF inv, of u] p show False by (cases "threads s ! u") auto
  qed
  then have "exclusive sends ?cs"
    using inv t by (intro exclusive_acquire) (simp_all add: queue_inv_def owners_def)
  then have own: "owners ?q' ?cs"
    using inv t c p by (auto simp: queue_inv_def owners_def exclusive_same owned_same owned_acquire)
  have "deliveries ?q' ?cs (h\<lparr>sent := sent h @ [x]\<rparr>)"
    using inv t c r by (auto simp: queue_inv_def deliveries_def owned_same nth_append ring_def nat_less_iff)
  with own oks inv claim_send_ring [OF r s(1)] p show ?thesis
    by (simp add: queue_inv_def)
qed

lemma inv_claim_recv:
  assumes inv: "queue_inv s h" and t: "t < length (threads s)" and c: "threads s ! t = RecvClaim p"
    and p: "tail (queue s) = p"
  shows "queue_inv (s\<lparr>queue := (queue s)\<lparr>tail := p + 1\<rparr>, threads := (threads s)[t := RecvTake p]\<rparr>) h"
proof -
  let ?q = "queue s" and ?q' = "queue s\<lparr>tail := p + 1\<rparr>" and ?cs = "(threads s)[t := RecvTake p]"
  note r = inv_ring [OF inv]
  from inv_thread [OF inv t] c p have s: "Sequence (cell ?q (tail ?q)) = tail ?q + 1" by auto
  have "thread_ok ?q' (sent h) (base h) (RecvTake p)"
    using r s p ring_item [OF r s] by (auto simp: ring_def)
  then have oks: "\<forall>d \<in> set ?cs. thread_ok ?q' (sent h) (base h) d"
    using claim_recv_other [OF r s] p inv by (intro all_threads_update) (auto simp: inv_thread)
  have none: "\<not> owned recvs (threads s) p"
  proof
    assume "owned recvs (threads s) p"
    then obtain u where "u < length (threads s)" "recvs (threads s ! u) = Some p" by (auto simp: owned_def)
    with inv_thread [OF inv, of u] p show False by (cases "threads s ! u") auto
  qed
  then have "exclusive recvs ?cs"
    using inv t by (intro exclusive_acquire) (simp_all add: queue_inv_def owners_def)
  moreover have "p' = p + capacity ?q \<or> p' < p + capacity ?q" if "p' < p + 1 + capacity ?q" for p'
    using that by linarith
  ultimately have own: "owners ?q' ?cs"
    using inv t c p by (fastforce simp: queue_inv_def owners_def exclusive_same owned_same owned_acquire)
  have del: "deliveries ?q (threads s) h" using inv by (simp add: queue_inv_def)
  have acq: "owned takes ?cs k \<longleftrightarrow> owned takes (threads s) k \<or> k = p" for k
    using t c by (simp add: owned_acquire)
  have "k \<notin> fst ` set (delivered h) \<longleftrightarrow> owned takes ?cs (k - base h)"
    if "0 \<le> k" "k < base h + (p + 1)" for k
  proof (cases "k = base h + p")
    case True
    with del p have "k \<notin> fst ` set (delivered h)" by (fastforce simp: deliveries_def)
    with True acq show ?thesis by simp
  next
    case False
    with that p del have "k \<notin> fst ` set (delivered h) \<longleftrightarrow> owned takes (threads s) (k - base h)"
      by (simp add: deliveries_def)
    with False acq show ?thesis by auto
  qed
  with del p have "deliveries ?q' ?cs h" unfolding deliveries_def by auto
  with own oks inv claim_recv_ring [OF r s] p show ?thesis
    by (simp add: queue_inv_def)
qed

lemma owner_slot:
  assumes inv: "queue_inv s h" and t: "t < length (threads s)"
    and own: "sends (threads s ! t) = Some w \<or> recvs (threads s ! t) = Some (w - capacity (queue s))"
  shows "owned_slot (queue s) w"
  using inv_thread [OF inv t] inv_ring [OF inv] own cell_back [of "queue s" "w - capacity (queue s)"]
  by (cases "threads s ! t") (auto simp: owned_slot_def ring_def)

lemma owner_alone:
  assumes inv: "queue_inv s h" and t: "t < length (threads s)" and u: "u < length (threads s)" "u \<noteq> t"
    and own: "sends (threads s ! t) = Some w \<or> recvs (threads s ! t) = Some (w - capacity (queue s))"
  shows "sends (threads s ! u) \<noteq> Some w" "recvs (threads s ! u) \<noteq> Some (w - capacity (queue s))"
proof -
  have ex: "exclusive sends (threads s)" "exclusive recvs (threads s)"
    using inv by (simp_all add: queue_inv_def owners_def)
  have sender: "w < head (queue s)" if "sends (threads s ! v) = Some w" "v < length (threads s)" for v
    using inv_thread [OF inv that(2)] that(1) by (cases "threads s ! v") auto
  have receiver: "head (queue s) \<le> w"
    if "recvs (threads s ! v) = Some (w - capacity (queue s))" "v < length (threads s)" for v
    using inv_thread [OF inv that(2)] that(1) by (cases "threads s ! v") auto
  show "sends (threads s ! u) \<noteq> Some w"
    using own t u ex(1) sender receiver unfolding exclusive_def by (meson not_le)
  show "recvs (threads s ! u) \<noteq> Some (w - capacity (queue s))"
    using own t u ex(2) sender receiver unfolding exclusive_def by (meson not_le)
qed

lemma inv_store:
  assumes inv: "queue_inv s h" and t: "t < length (threads s)"
    and own: "sends (threads s ! t) = Some w \<or> recvs (threads s ! t) = Some (w - capacity (queue s))"
    and claimed: "w < head (queue s) \<Longrightarrow>
      Sequence c = w \<or> Sequence c = w + 1 \<and> Data c = sent h ! nat (base h + w)"
    and free: "head (queue s) \<le> w \<Longrightarrow> Sequence c = w \<or> Sequence c = w - capacity (queue s) + 1"
    and ok: "thread_ok (set_cell (queue s) w c) (sent h) (base h) d"
    and owns: "owners (set_cell (queue s) w c) ((threads s)[t := d])"
    and del: "deliveries (queue s) ((threads s)[t := d]) h'" "sent h' = sent h" "base h' = base h"
  shows "queue_inv (s\<lparr>queue := set_cell (queue s) w c, threads := (threads s)[t := d]\<rparr>) h'"
proof -
  note r = inv_ring [OF inv] and slot = owner_slot [OF inv t own]
  have "ring (set_cell (queue s) w c) (sent h) (base h)"
    using slot claimed free by (intro set_cell_ring [OF r]) (auto simp: owned_slot_def)
  moreover have "\<forall>d \<in> set ((threads s)[t := d]). thread_ok (set_cell (queue s) w c) (sent h) (base h) d"
    using inv ok owner_alone [OF inv t _ _ own]
    by (intro all_threads_update) (auto intro!: set_cell_other [OF r slot] simp: inv_thread)
  ultimately show ?thesis
    using inv owns del by (simp add: queue_inv_def deliveries_def)
qed

lemma sequence_set_data:
  assumes "shape q"
  shows "Sequence (cell (set_cell q w ((cell q w)\<lparr>Data := x\<rparr>)) r) = Sequence (cell q r)"
  using assms cell_mod [OF assms, of r w] by (simp add: cell_set_cell)


lemma inv_shape: "queue_inv s h \<Longrightarrow> shape (queue s)"
  using inv_ring by (auto simp: ring_def)

lemma inv_write:
  assumes inv: "queue_inv s h" and t: "t < length (threads s)" and c: "threads s ! t = SendWrite x p"
  shows "queue_inv (s\<lparr>queue := set_cell (queue s) p ((cell (queue s) p)\<lparr>Data := x\<rparr>),
    threads := (threads s)[t := SendPublish p]\<rparr>) h"
  using inv_thread [OF inv t] inv t c inv_shape [OF inv]
  by (intro inv_store [OF inv t])
    (auto simp: queue_inv_def owners_def sequence_set_data exclusive_same owned_same deliveries_def)

lemma inv_publish:
  assumes inv: "queue_inv s h" and t: "t < length (threads s)" and c: "threads s ! t = SendPublish p"
  shows "queue_inv (s\<lparr>queue := set_cell (queue s) p ((cell (queue s) p)\<lparr>Sequence := p + 1\<rparr>),
    threads := (threads s)[t := SendSignal]\<rparr>) h"
proof -
  let ?q = "set_cell (queue s) p ((cell (queue s) p)\<lparr>Sequence := p + 1\<rparr>)" and ?cs = "(threads s)[t := SendSignal]"
  have ok: "thread_ok (queue s) (sent h) (base h) (SendPublish p)" using inv_thread [OF inv t] c by simp
  have elsewhere: "cell ?q k = cell (queue s) k"
    if "tail (queue s) \<le> k" "k < tail (queue s) + capacity (queue s)" "k \<noteq> p" for k
    using that ok inv_ring [OF inv] by (intro cell_elsewhere) (auto simp: ring_def)
  have own: "owners (queue s) (threads s)" using inv by (simp add: queue_inv_def)
  then have rel: "owned sends ?cs k \<longleftrightarrow> owned sends (threads s) k \<and> k \<noteq> p" for k
    using t c by (intro owned_release) (auto simp: owners_def)
  have "owned sends ?cs k" if "tail (queue s) \<le> k" "k < head (queue s)" "Sequence (cell ?q k) = k" for k
    using that own rel elsewhere [of k] inv_ring [OF inv] inv_shape [OF inv]
    by (cases "k = p") (auto simp: owners_def ring_def)
  moreover have "owned recvs ?cs (k - capacity (queue s))"
    if "head (queue s) \<le> k" "k < tail (queue s) + capacity (queue s)"
      "Sequence (cell ?q k) = k - capacity (queue s) + 1" for k
    using that own elsewhere [of k] inv_ring [OF inv] ok t c by (auto simp: owners_def ring_def owned_same)
  ultimately have "owners ?q ?cs"
    using own t c by (simp add: owners_def exclusive_release exclusive_same)
  with ok inv t c show ?thesis
    by (intro inv_store [OF inv t]) (auto simp: queue_inv_def deliveries_def owned_same)
qed

lemma takes_recvs: "takes c = Some p \<Longrightarrow> recvs c = Some p"
  by (cases c) auto

lemma exclusive_takes: "exclusive recvs cs \<Longrightarrow> exclusive takes cs"
  unfolding exclusive_def using takes_recvs by blast

lemma deliveries_take:
  assumes inv: "queue_inv s h" and t: "t < length (threads s)" and c: "threads s ! t = RecvTake p"
  shows "deliveries (queue s) ((threads s)[t := RecvRecycle p (Data (cell (queue s) p))])
    (h\<lparr>delivered := delivered h @ [(base h + p, Data (cell (queue s) p))]\<rparr>)"
proof -
  let ?cs = "(threads s)[t := RecvRecycle p (Data (cell (queue s) p))]"
  from inv_thread [OF inv t] c inv_ring [OF inv]
  have p: "0 \<le> p" "p < tail (queue s)" "0 \<le> base h" "Data (cell (queue s) p) = sent h ! nat (base h + p)"
    by (auto simp: ring_def)
  have del: "deliveries (queue s) (threads s) h" using inv by (simp add: queue_inv_def)
  have "owned takes (threads s) p" using t c by (auto simp: owned_def intro!: exI [of _ t])
  with del p have fresh: "base h + p \<notin> fst ` set (delivered h)" by (simp add: deliveries_def)
  have "owned takes ?cs k \<longleftrightarrow> owned takes (threads s) k \<and> k \<noteq> p" for k
    using inv t c by (intro owned_release) (auto simp: queue_inv_def owners_def exclusive_takes)
  with del p fresh show ?thesis
    by (auto simp: deliveries_def)
qed

lemma inv_take:
  assumes inv: "queue_inv s h" and t: "t < length (threads s)" and c: "threads s ! t = RecvTake p"
  shows "queue_inv (s\<lparr>queue := set_cell (queue s) p ((cell (queue s) p)\<lparr>Data := z\<rparr>),
      threads := (threads s)[t := RecvRecycle p (Data (cell (queue s) p))]\<rparr>)
    (h\<lparr>delivered := delivered h @ [(base h + p, Data (cell (queue s) p))]\<rparr>)"
proof -
  let ?w = "p + capacity (queue s)"
  have sh: "shape (queue s)" by (rule inv_shape [OF inv])
  have ok: "thread_ok (queue s) (sent h) (base h) (RecvTake p)" using inv_thread [OF inv t] c by simp
  have "owners (queue s) ((threads s)[t := RecvRecycle p (Data (cell (queue s) p))])"
    using inv t c by (simp add: queue_inv_def owners_def exclusive_same owned_same)
  then have "owners (set_cell (queue s) p ((cell (queue s) p)\<lparr>Data := z\<rparr>))
      ((threads s)[t := RecvRecycle p (Data (cell (queue s) p))])"
    using sh by (simp add: owners_def sequence_set_data)
  with ok sh c deliveries_take [OF assms] show ?thesis
    unfolding set_cell_back [OF sh, of p, symmetric]
    by (intro inv_store [OF inv t]) (auto simp: set_cell_back sequence_set_data)
qed

lemma inv_recycle:
  assumes inv: "queue_inv s h" and t: "t < length (threads s)" and c: "threads s ! t = RecvRecycle p v"
  shows "queue_inv (s\<lparr>queue := set_cell (queue s) p ((cell (queue s) p)\<lparr>Sequence := p + capacity (queue s)\<rparr>),
    threads := (threads s)[t := RecvSignal v]\<rparr>) h"
proof -
  let ?w = "p + capacity (queue s)" and ?cs = "(threads s)[t := RecvSignal v]"
  let ?q = "set_cell (queue s) ?w ((cell (queue s) p)\<lparr>Sequence := ?w\<rparr>)"
  have sh: "shape (queue s)" by (rule inv_shape [OF inv])
  have ok: "thread_ok (queue s) (sent h) (base h) (RecvRecycle p v)" using inv_thread [OF inv t] c by simp
  have elsewhere: "cell ?q k = cell (queue s) k"
    if "tail (queue s) \<le> k" "k < tail (queue s) + capacity (queue s)" "k \<noteq> ?w" for k
    using that ok inv_ring [OF inv] by (intro cell_elsewhere) (auto simp: ring_def)
  have own: "owners (queue s) (threads s)" using inv by (simp add: queue_inv_def)
  then have rel: "owned recvs ?cs k \<longleftrightarrow> owned recvs (threads s) k \<and> k \<noteq> p" for k
    using t c by (intro owned_release) (auto simp: owners_def)
  have "owned sends ?cs k" if "tail (queue s) \<le> k" "k < head (queue s)" "Sequence (cell ?q k) = k" for k
    using that own elsewhere [of k] inv_ring [OF inv] ok t c by (auto simp: owners_def ring_def owned_same)
  moreover have "owned recvs ?cs (k - capacity (queue s))"
    if "head (queue s) \<le> k" "k < tail (queue s) + capacity (queue s)"
      "Sequence (cell ?q k) = k - capacity (queue s) + 1" for k
    using that own rel elsewhere [of k] sh ring_capacity [OF inv_ring [OF inv]] inv_ring [OF inv]
    by (cases "k = ?w") (auto simp: owners_def ring_def)
  ultimately have "owners ?q ?cs"
    using own t c by (simp add: owners_def exclusive_release exclusive_same)
  with ok inv t c sh show ?thesis
    unfolding set_cell_back [OF sh, of p, symmetric]
    by (intro inv_store [OF inv t]) (auto simp: queue_inv_def deliveries_def owned_same)
qed

text \<open>Under the write lock no goroutine owns a slot, so that every claimed slot has been published.\<close>

lemma idle_owns: "\<not> reading c \<Longrightarrow> sends c = None \<and> recvs c = None \<and> takes c = None"
  by (cases c) auto

lemma unlocked_owned:
  assumes "unlocked s"
  shows "\<not> owned sends (threads s) p" "\<not> owned recvs (threads s) p" "\<not> owned takes (threads s) p"
  using assms idle_owns unfolding unlocked_def owned_def
  by (metis list_all_length option.distinct(1))+

lemma idle_thread_ok: "\<not> reading c \<Longrightarrow> thread_ok q xs b c = thread_ok q' xs' b' c"
  by (cases c) auto

lemma extended_cell:
  assumes "capacity q < n" "0 \<le> capacity q" "isPowerOfTwo n" "0 \<le> i" "i < n"
  shows "cell (extend_queue z n q) i = (if i < head q - tail q
    then \<lparr>Sequence = i + 1, Data = Data (cell q (tail q + i))\<rparr> else \<lparr>Sequence = i, Data = z\<rparr>)"
proof -
  have "cell (extend_queue z n q) i = data (extend_queue z n q) ! nat i"
    using assms by (simp add: cell_def mask_index_mod extend_queue_def Let_def)
  then show ?thesis
    using assms by (simp add: extend_queue_def Let_def)
qed

lemma extend_fields:
  assumes "capacity q < n" "0 \<le> capacity q"
  shows "capacity (extend_queue z n q) = n" "head (extend_queue z n q) = head q - tail q"
    "tail (extend_queue z n q) = 0" "int (length (data (extend_queue z n q))) = n"
    "is_done (extend_queue z n q) = is_done q" "empty (extend_queue z n q) = empty q"
    "full (extend_queue z n q) = full q"
  using assms by (simp_all add: extend_queue_def Let_def)

lemma extend_ring:
  assumes inv: "queue_inv s h" and un: "unlocked s" and n: "capacity (queue s) < n" "isPowerOfTwo n"
  shows "ring (extend_queue z n (queue s)) (sent h) (base h + tail (queue s))"
proof -
  let ?q = "queue s"
  note r = inv_ring [OF inv]
  have cap: "0 \<le> capacity ?q" using ring_capacity [OF r] by simp
  have pub: "Data (cell ?q p) = sent h ! nat (base h + p)" if "tail ?q \<le> p" "p < head ?q" for p
    using that r inv unlocked_owned [OF un] by (auto simp: queue_inv_def ring_def owners_def)
  have "shape (extend_queue z n ?q)"
    using n cap ring_capacity [OF r] by (simp add: shape_def extend_fields)
  with r n cap ring_capacity [OF r] show ?thesis
    by (auto simp: ring_def extend_fields extended_cell pub add.assoc)
qed

lemma inv_extend:
  assumes inv: "queue_inv s h" and un: "unlocked s" and n: "isPowerOfTwo n"
  shows "queue_inv (s\<lparr>queue := extend_queue z n (queue s)\<rparr>) (record_event (extend_event n (queue s)) h)"
proof (cases "capacity (queue s) < n")
  case True
  let ?q = "queue s" and ?q' = "extend_queue z n (queue s)"
  note r = inv_ring [OF inv]
  have cap: "0 \<le> capacity ?q" using ring_capacity [OF r] by simp
  have "owners ?q' (threads s)"
    using inv True n cap r ring_capacity [OF r]
    by (auto simp: queue_inv_def owners_def extend_fields extended_cell ring_def)
  moreover have "deliveries ?q' (threads s) (h\<lparr>base := base h + tail ?q\<rparr>)"
    using inv True cap unlocked_owned [OF un] by (auto simp: queue_inv_def deliveries_def extend_fields)
  moreover have "thread_ok ?q' (sent h) (base h + tail ?q) c" if "c \<in> set (threads s)" for c
    using inv un that idle_thread_ok by (fastforce simp: queue_inv_def unlocked_def list_all_iff)
  ultimately show ?thesis
    using inv True cap extend_ring [OF inv un True n] by (simp add: queue_inv_def extend_event_def extend_fields)
qed (use inv in \<open>simp add: extend_queue_def extend_event_def\<close>)

lemma inv_Close:
  assumes inv: "queue_inv s h" and un: "unlocked s"
  shows "\<exists>q'. Close (queue s) = Some q' \<and> queue_inv (s\<lparr>queue := q'\<rparr>) h"
proof (cases "is_done (queue s)")
  case False
  have "thread_ok q' (sent h) (base h) c" if "c \<in> set (threads s)" for c q'
    using inv un that idle_thread_ok by (fastforce simp: queue_inv_def unlocked_def list_all_iff)
  with False inv show ?thesis
    by (auto simp: Close_def close_signal_def queue_inv_def ring_def owners_def deliveries_def)
qed (use inv in \<open>simp add: Close_def\<close>)

lemma inv_idle_move:
  assumes "queue_inv (s\<lparr>queue := q\<rparr>) h" "t < length (threads s)" "\<not> reading (threads s ! t)"
    "\<not> reading c" "c \<noteq> Panicked"
  shows "queue_inv (s\<lparr>queue := q, threads := (threads s)[t := c]\<rparr>) h"
proof -
  have "thread_ok q (sent h) (base h) c" using assms(4,5) by (cases c) auto
  then show ?thesis
    using inv_move [OF assms(1), of t c] assms(2-4) idle_owns [of c] idle_owns [of "threads s ! t"] by simp
qed

lemma inv_send_step:
  assumes inv: "queue_inv s h" and t: "t < length (threads s)"
    and step: "send_step z (unlocked s) e b (threads s ! t) (queue s) = Some (c, q, ev)"
  shows "queue_inv (s\<lparr>queue := q, threads := (threads s)[t := c]\<rparr>) (record_event ev h)"
proof -
  note ok = inv_thread [OF inv t] and move = inv_move [OF inv t]
  have pow: "isPowerOfTwo (2 * capacity (queue s))"
    using inv_shape [OF inv] isPowerOfTwo_exp isPowerOfTwo_pow [of "Suc k" for k] by (fastforce simp: shape_def)
  show ?thesis
  proof (cases "threads s ! t")
    case (SendClaim x p)
    then show ?thesis
      using step ok inv inv_claim_send [OF inv t SendClaim] move [of "SendLoop x p"] by (auto split: if_splits)
  next
    case (SendWrite x p)
    then show ?thesis using step inv_write [OF inv t SendWrite] by auto
  next
    case (SendPublish p)
    then show ?thesis using step inv_publish [OF inv t SendPublish] by auto
  next
    case SendSignal
    with ok inv have "\<not> closed (empty (queue s))" by (simp add: queue_inv_def)
    with step SendSignal t show ?thesis
      using inv_move [OF inv_empty [OF inv, of "(empty (queue s))\<lparr>pending := True\<rparr>"], of t "Finished (Some (Sent True))"]
      by (auto simp: offer_def)
  next
    case (SendExtend x cap)
    with inv_idle_move [OF _ t, of _ _ "SendRelock x"] move [of "SendRelock x"] show ?thesis
      using step inv inv_extend [OF inv _ pow, of z] by (auto split: if_splits)
  next
    case (SendPark x)
    with inv_idle_move [OF _ t, of _ _ "SendRelock x"] move [of "SendRelock x"] show ?thesis
      using step inv inv_full [OF inv] by (auto simp: await_def split: branch.splits if_splits)
  qed (use step ok inv t in \<open>auto simp: Let_def split: if_splits intro!: move\<close>)
qed

lemma inv_recv_step:
  assumes inv: "queue_inv s h" and t: "t < length (threads s)"
    and step: "recv_step z e b (threads s ! t) (queue s) = Some (c, q, ev)"
  shows "queue_inv (s\<lparr>queue := q, threads := (threads s)[t := c]\<rparr>) (record_event ev h)"
proof -
  note ok = inv_thread [OF inv t] and move = inv_move [OF inv t]
  show ?thesis
  proof (cases "threads s ! t")
    case (RecvClaim p)
    then show ?thesis
      using step ok inv_claim_recv [OF inv t RecvClaim] move [of "RecvRead p"] by (auto split: if_splits)
  next
    case (RecvTake p)
    then show ?thesis using step inv_take [OF inv t RecvTake] by auto
  next
    case (RecvRecycle p v)
    then show ?thesis using step inv_recycle [OF inv t RecvRecycle] by auto
  next
    case (RecvSignal v)
    with inv have "\<not> is_done (queue s) \<Longrightarrow> \<not> closed (full (queue s))" by (simp add: queue_inv_def)
    with step RecvSignal t show ?thesis
      using inv_move [OF inv_full [OF inv, of "(full (queue s))\<lparr>pending := True\<rparr>"], of t "Finished (Some (Received (Some v)))"]
        move [of "Finished (Some (Received (Some v)))"]
      by (auto simp: offer_def split: if_splits)
  next
    case RecvPark
    with inv_idle_move [OF _ t, of _ _ RecvEnter] move [of RecvEnter] show ?thesis
      using step inv inv_empty [OF inv] by (auto simp: await_def split: branch.splits if_splits)
  qed (use step ok inv t in \<open>auto simp: Let_def split: if_splits intro!: move\<close>)
qed

lemma inv_thread_step:
  assumes inv: "queue_inv s h" and t: "t < length (threads s)"
    and step: "thread_step z (unlocked s) e b (threads s ! t) (queue s) = Some (c, q, ev)"
  shows "queue_inv (s\<lparr>queue := q, threads := (threads s)[t := c]\<rparr>) (record_event ev h)"
proof -
  note sr = inv_send_step [OF inv t, of z e b c q ev] inv_recv_step [OF inv t, of z e b c q ev]
  show ?thesis
  proof (cases "threads s ! t")
    case (GrowEnter n)
    with inv_idle_move [OF _ t, of _ _ "Finished (Some (Grown None))"]
      inv_move [OF inv t, of "Finished (Some (Grown (Some ErrInvalidCapacity)))"] show ?thesis
      using step inv inv_extend [OF inv, of n z] by (auto split: if_splits)
  next
    case CloseEnter
    with inv_idle_move [OF _ t, of _ _ "Finished (Some Closed)"] show ?thesis
      using step inv_Close [OF inv] by (auto split: if_splits)
  qed (use step sr in \<open>auto split: option.splits\<close>)
qed

lemma inv_system_step:
  assumes inv: "queue_inv s h" and step: "system_step z a s = Some (s', ev)"
  shows "queue_inv s' (record_event ev h)"
proof (cases a)
  case (Start t c)
  then have t: "t < length (threads s)" "finished (threads s ! t)" and s': "ev = Silent"
    "s' = s\<lparr>threads := (threads s)[t := enter c], cancelled := (cancelled s)[t := False]\<rparr>"
    using step by (auto split: if_splits)
  then have "queue_inv (s\<lparr>threads := (threads s)[t := enter c]\<rparr>) h"
    by (intro inv_move [OF inv]) (cases c; cases "threads s ! t"; simp)+
  with s' show ?thesis by (simp add: queue_inv_def)
next
  case (Cancel t)
  with inv step show ?thesis by (auto simp: queue_inv_def)
next
  case (Proceed t b)
  with step inv_thread_step [OF inv, of t z "cancelled s ! t" b] show ?thesis
    by (auto split: if_splits)
qed

lemma inv_initial:
  assumes "NewQueue z cap exts = Inr q"
  shows "queue_inv (initial q n) \<lparr>sent = [], base = 0, delivered = []\<rparr>"
proof -
  have q: "2 \<le> cap" "isPowerOfTwo cap" "capacity q = cap" "head q = 0" "tail q = 0" "\<not> is_done q"
    "data q = map (\<lambda>i. \<lparr>Sequence = i, Data = z\<rparr>) [0..cap - 1]" "\<not> closed (full q)" "\<not> closed (empty q)"
    using assms by (auto simp: NewQueue_def split: if_splits)
  then have "Sequence (cell q p) = p" if "0 \<le> p" "p < cap" for p
    using that by (simp add: cell_def mask_index_mod)
  with q show ?thesis
    by (auto simp: queue_inv_def initial_def ring_def shape_def owners_def deliveries_def exclusive_def)
qed

lemma run_inv: "run z s h \<Longrightarrow> queue_inv s h"
  by (induction rule: run.induct) (auto intro: inv_initial inv_system_step)

section \<open>What a run delivers\<close>

text \<open>The items between \<open>tail\<close> and \<open>head\<close>, oldest first.\<close>

definition contents :: "'a Queue \<Rightarrow> 'a list" where
  "contents q = map (\<lambda>p. Data (cell q p)) [tail q..head q - 1]"

text \<open>No goroutine is between the claim and the release of a slot.\<close>

definition quiet :: "'a system \<Rightarrow> bool" where
  "quiet s \<longleftrightarrow> list_all (\<lambda>c. sends c = None \<and> recvs c = None) (threads s)"

lemma quiet_owned:
  assumes "quiet s"
  shows "\<not> owned sends (threads s) p" "\<not> owned recvs (threads s) p" "\<not> owned takes (threads s) p"
proof -
  show *: "\<not> owned sends (threads s) p" "\<not> owned recvs (threads s) p"
    using assms by (auto simp: quiet_def owned_def list_all_length)
  then show "\<not> owned takes (threads s) p" using takes_recvs by (auto simp: owned_def)
qed

lemma quiet_published:
  assumes "queue_inv s h" "quiet s" "tail (queue s) \<le> p" "p < head (queue s)"
  shows "Sequence (cell (queue s) p) = p + 1" "Data (cell (queue s) p) = sent h ! nat (base h + p)"
  using assms quiet_owned [OF assms(2)] by (auto simp: queue_inv_def ring_def owners_def)

lemma quiet_writable:
  assumes "queue_inv s h" "quiet s" "head (queue s) \<le> p" "p < tail (queue s) + capacity (queue s)"
  shows "Sequence (cell (queue s) p) = p"
  using assms quiet_owned [OF assms(2)] by (auto simp: queue_inv_def ring_def owners_def)

lemma quiet_contents:
  assumes inv: "queue_inv s h" and q: "quiet s"
  shows "contents (queue s) = drop (nat (base h + tail (queue s))) (sent h)"
proof (rule nth_equalityI)
  show "length (contents (queue s)) = length (drop (nat (base h + tail (queue s))) (sent h))"
    using inv_ring [OF inv] by (auto simp: contents_def ring_def)
next
  fix i
  assume i: "i < length (contents (queue s))"
  then have "Data (cell (queue s) (tail (queue s) + int i)) = sent h ! nat (base h + (tail (queue s) + int i))"
    using quiet_published [OF inv q] by (simp add: contents_def)
  with i inv_ring [OF inv]
  show "contents (queue s) ! i = drop (nat (base h + tail (queue s))) (sent h) ! i"
    by (auto simp: contents_def ring_def nat_add_distrib ac_simps)
qed

lemma quiet_delivered:
  assumes inv: "queue_inv s h" and q: "quiet s"
  shows "mset (map snd (delivered h)) = mset (take (nat (base h + tail (queue s))) (sent h))"
proof -
  let ?n = "base h + tail (queue s)"
  have del: "deliveries (queue s) (threads s) h" using inv by (simp add: queue_inv_def)
  have n: "0 \<le> ?n" "?n \<le> int (length (sent h))" using inv_ring [OF inv] by (auto simp: ring_def)
  have keys: "fst ` set (delivered h) = {0..<?n}"
    using del quiet_owned [OF q] by (auto simp: deliveries_def)
  have "mset (map fst (delivered h)) = mset_set {0..<?n}"
    using del keys mset_set_set [of "map fst (delivered h)"] by (simp add: deliveries_def)
  moreover have "map snd (delivered h) = map (\<lambda>k. sent h ! nat k) (map fst (delivered h))"
    using del by (auto simp: deliveries_def)
  ultimately have "mset (map snd (delivered h)) = image_mset (\<lambda>k. sent h ! nat k) (mset_set {0..<?n})"
    by (metis mset_map)
  also have "\<dots> = mset (map (\<lambda>k. sent h ! nat k) [0..?n - 1])"
    using mset_set_set [of "[0..?n - 1]"] by (simp add: atLeastLessThanPlusOne_atLeastAtMost_int [symmetric])
  also have "map (\<lambda>k. sent h ! nat k) [0..?n - 1] = take (nat ?n) (sent h)"
    using n by (intro nth_equalityI) auto
  finally show ?thesis .
qed

lemma run_actions_inv:
  "queue_inv s h \<Longrightarrow> run_actions z acts (s, h) = Some (s', h') \<Longrightarrow> queue_inv s' h'"
  by (induction acts arbitrary: s h) (auto split: option.splits dest: inv_system_step)

lemma run_actions_run:
  "run z s h \<Longrightarrow> run_actions z acts (s, h) = Some (s', h') \<Longrightarrow> run z s' h'"
  by (induction acts arbitrary: s h) (auto split: option.splits intro: run_step)

section \<open>A goroutine that runs alone\<close>

lemma step_alone [simp]:
  "t < length (threads s) \<Longrightarrow> system_step z (Proceed t b) s =
    map_option (\<lambda>(c, q, e). (s\<lparr>queue := q, threads := (threads s)[t := c]\<rparr>, e))
      (thread_step z (unlocked s) (cancelled s ! t) b (threads s ! t) (queue s))"
  by simp

lemma send_alone:
  assumes inv: "queue_inv s h" and q: "quiet s" and t: "t < length (threads s)" "threads s ! t = SendLoad x"
    and open_q: "\<not> is_done (queue s)" "\<not> cancelled s ! t" and room: "Size (queue s) < capacity (queue s)"
  shows "\<exists>q'. run_actions z (replicate 7 (Proceed t b)) (s, h) =
      Some (s\<lparr>queue := q', threads := (threads s)[t := Finished (Some (Sent True))]\<rparr>, h\<lparr>sent := sent h @ [x]\<rparr>) \<and>
    tail q' = tail (queue s) \<and> head q' = head (queue s) + 1 \<and> capacity q' = capacity (queue s)"
proof -
  have seq: "Sequence (cell (queue s) (head (queue s))) = head (queue s)"
    using room inv_ring [OF inv] by (intro quiet_writable [OF inv q]) (auto simp: Size_def ring_def)
  have ch: "\<not> closed (empty (queue s))" using inv open_q by (simp add: queue_inv_def)
  show ?thesis
    using t open_q seq ch by (simp add: numeral_eq_Suc Let_def offer_def) (rule exI, rule conjI, rule refl, simp)
qed

lemma recv_alone:
  assumes inv: "queue_inv s h" and q: "quiet s" and t: "t < length (threads s)" "threads s ! t = RecvLoad"
    and item: "0 < Size (queue s)"
  shows "\<exists>q'. run_actions z (replicate 6 (Proceed t b)) (s, h) =
      Some (s\<lparr>queue := q', threads := (threads s)[t := Finished (Some (Received (Some (hd (contents (queue s))))))]\<rparr>,
        h\<lparr>delivered := delivered h @ [(base h + tail (queue s), hd (contents (queue s)))]\<rparr>) \<and>
    tail q' = tail (queue s) + 1 \<and> head q' = head (queue s)"
proof -
  have seq: "Sequence (cell (queue s) (tail (queue s))) = tail (queue s) + 1"
    using item by (intro quiet_published [OF inv q]) (simp_all add: Size_def)
  have front: "hd (contents (queue s)) = Data (cell (queue s) (tail (queue s)))"
    using item by (simp add: contents_def Size_def upto_rec1)
  have ch: "is_done (queue s) = closed (full (queue s))" using inv by (simp add: queue_inv_def)
  show ?thesis
    using t seq ch front
    by (simp add: numeral_eq_Suc Let_def offer_def) (intro conjI impI; rule exI, rule conjI, rule refl, simp)
qed

text \<open>No other goroutine holds the read lock.\<close>

definition alone :: "nat \<Rightarrow> 'a system \<Rightarrow> bool" where
  "alone t s \<longleftrightarrow> (\<forall>u < length (threads s). u \<noteq> t \<longrightarrow> \<not> reading (threads s ! u))"

lemma alone_unlocked:
  assumes "alone t s" "t < length (threads s)" "\<not> reading c" "threads s' = (threads s)[t := c]"
  shows "unlocked s'"
  using assms by (auto simp: alone_def unlocked_def list_all_length nth_list_update)

lemma alone_quiet:
  assumes "alone t s" "t < length (threads s)" "sends c = None" "recvs c = None" "threads s' = (threads s)[t := c]"
  shows "quiet s'"
  using assms idle_owns by (auto simp: alone_def quiet_def list_all_length nth_list_update)

lemma run_actions_append:
  "run_actions z (as @ bs) sh = (case run_actions z as sh of None \<Rightarrow> None | Some sh' \<Rightarrow> run_actions z bs sh')"
  by (induction z as sh rule: run_actions.induct) (auto split: option.splits)

lemma send_full:
  assumes inv: "queue_inv s h" and al: "alone t s" and t: "t < length (threads s)" "threads s ! t = SendLoad x"
    and open_q: "\<not> is_done (queue s)" "\<not> cancelled s ! t" and full: "Size (queue s) = capacity (queue s)"
    and ext: "extensions (queue s) < 0 \<or> extended (queue s) < extensions (queue s)"
  shows "run_actions z (replicate 5 (Proceed t b)) (s, h) =
      Some (s\<lparr>queue := extend_queue z (2 * capacity (queue s)) (queue s)\<rparr>, h\<lparr>base := base h + tail (queue s)\<rparr>)"
proof -
  note r = inv_ring [OF inv]
  have c: "2 \<le> capacity (queue s)" by (rule ring_capacity [OF r])
  have same: "(threads s)[t := SendLoad x] = threads s" using t by (metis list_update_id)
  then have "quiet s" by (intro alone_quiet [OF al t(1), of "SendLoad x"]) simp_all
  then have "Sequence (cell (queue s) (tail (queue s))) = tail (queue s) + 1"
    using full c by (intro quiet_published [OF inv]) (auto simp: Size_def)
  moreover have "head (queue s) = tail (queue s) + capacity (queue s)" using full by (simp add: Size_def)
  ultimately have seq: "Sequence (cell (queue s) (head (queue s))) < head (queue s)"
    using c cell_back [OF inv_shape [OF inv], of "tail (queue s)"] by simp
  have un: "unlocked (s\<lparr>threads := (threads s)[t := SendExtend x (capacity (queue s))]\<rparr>)"
    by (rule alone_unlocked [OF al t(1)]) simp_all
  show ?thesis
    using t open_q seq un ext c same by (simp add: numeral_eq_Suc Let_def extend_event_def)
qed

lemma run_cancelled: "run z s h \<Longrightarrow> length (cancelled s) = length (threads s)"
proof (induction rule: run.induct)
  case (run_step s h a s' e)
  then show ?case by (cases a) (auto split: if_splits)
qed (simp add: initial_def)

lemma start_alone:
  assumes "run z s h" "t < length (threads s)" "finished (threads s ! t)"
  shows "\<not> is_done (queue s) \<Longrightarrow> run_actions z (Start t (CallSend x) # replicate 2 (Proceed t b)) (s, h) =
      Some (s\<lparr>threads := (threads s)[t := SendLoad x], cancelled := (cancelled s)[t := False]\<rparr>, h)"
    and "run_actions z (Start t CallRecv # replicate 1 (Proceed t b)) (s, h) =
      Some (s\<lparr>threads := (threads s)[t := RecvLoad], cancelled := (cancelled s)[t := False]\<rparr>, h)"
  using assms run_cancelled [OF assms(1)] by (simp_all add: numeral_eq_Suc)

lemma quiet_contents_after:
  assumes "queue_inv s h" "quiet s" "run_actions z as (s, h) = Some (s', h')" "quiet s'"
  shows "contents (queue s') = drop (nat (base h' + tail (queue s'))) (sent h')"
    and "contents (queue s) = drop (nat (base h + tail (queue s))) (sent h)"
  by (rule quiet_contents [OF run_actions_inv [OF assms(1,3)] assms(4)], rule quiet_contents [OF assms(1,2)])

lemma steps_add:
  "a # replicate (k + n) c = (a # replicate k c) @ replicate n c"
  by (simp add: replicate_add)

lemma Send_makes_room:
  assumes run: "run z s h" and un: "unlocked s" and t: "t < length (threads s)" "finished (threads s ! t)"
    and open_q: "\<not> is_done (queue s)"
    and room: "Size (queue s) < capacity (queue s) \<or> extensions (queue s) < 0 \<or> extended (queue s) < extensions (queue s)"
  shows "\<exists>k s1 h1. run_actions z (Start t (CallSend x) # replicate k (Proceed t b)) (s, h) = Some (s1, h1) \<and>
    threads s1 = (threads s)[t := SendLoad x] \<and> cancelled s1 = (cancelled s)[t := False] \<and>
    \<not> is_done (queue s1) \<and> Size (queue s1) < capacity (queue s1) \<and> sent h1 = sent h \<and>
    base h1 + tail (queue s1) = base h + tail (queue s)"
proof -
  let ?s = "s\<lparr>threads := (threads s)[t := SendLoad x], cancelled := (cancelled s)[t := False]\<rparr>"
  note inv = run_inv [OF run]
  have al: "alone t ?s" using un by (simp add: alone_def unlocked_def list_all_length)
  have 2: "run_actions z (Start t (CallSend x) # replicate 2 (Proceed t b)) (s, h) = Some (?s, h)"
    by (rule start_alone(1) [OF run t open_q])
  show ?thesis
  proof (cases "Size (queue s) < capacity (queue s)")
    case True
    with 2 open_q show ?thesis by (intro exI conjI) (assumption, simp_all)
  next
    case False
    with inv_ring [OF inv] have full: "Size (queue s) = capacity (queue s)" by (auto simp: Size_def ring_def)
    have cap: "0 \<le> capacity (queue s)" "capacity (queue s) < 2 * capacity (queue s)"
      using ring_capacity [OF inv_ring [OF inv]] by simp_all
    have "run_actions z (replicate 5 (Proceed t b)) (?s, h) =
      Some (?s\<lparr>queue := extend_queue z (2 * capacity (queue s)) (queue s)\<rparr>, h\<lparr>base := base h + tail (queue s)\<rparr>)"
      using run_actions_inv [OF inv 2] al t open_q full room False run_cancelled [OF run]
        send_full [of ?s h t x z b] by simp
    then have "run_actions z (Start t (CallSend x) # replicate (2 + 5) (Proceed t b)) (s, h) =
      Some (?s\<lparr>queue := extend_queue z (2 * capacity (queue s)) (queue s)\<rparr>, h\<lparr>base := base h + tail (queue s)\<rparr>)"
      by (simp only: steps_add run_actions_append 2 option.case)
    with cap open_q full show ?thesis
      by (intro exI conjI) (assumption, simp_all add: extend_fields Size_def)
  qed
qed

lemma Send_alone:
  assumes run: "run z s h" and un: "unlocked s" and t: "t < length (threads s)" "finished (threads s ! t)"
    and open_q: "\<not> is_done (queue s)"
    and room: "Size (queue s) < capacity (queue s) \<or> extensions (queue s) < 0 \<or> extended (queue s) < extensions (queue s)"
  shows "\<exists>k s' h'. run_actions z (Start t (CallSend x) # replicate k (Proceed t b)) (s, h) = Some (s', h') \<and>
    threads s' = (threads s)[t := Finished (Some (Sent True))] \<and> contents (queue s') = contents (queue s) @ [x]"
proof -
  let ?steps = "\<lambda>k. Start t (CallSend x) # replicate k (Proceed t b)"
  note inv = run_inv [OF run]
  have al: "alone t s" using un by (simp add: alone_def unlocked_def list_all_length)
  have quiet: "quiet s'" if "threads s' = (threads s)[t := c]" "sends c = None" "recvs c = None" for s' c
    by (rule alone_quiet [OF al t(1) that(2,3,1)])
  obtain k s1 h1 where s1: "run_actions z (?steps k) (s, h) = Some (s1, h1)" "threads s1 = (threads s)[t := SendLoad x]"
    "cancelled s1 = (cancelled s)[t := False]" "\<not> is_done (queue s1)" "Size (queue s1) < capacity (queue s1)"
    "sent h1 = sent h" "base h1 + tail (queue s1) = base h + tail (queue s)"
    using Send_makes_room [OF assms] by blast
  have inv1: "queue_inv s1 h1" by (rule run_actions_inv [OF inv s1(1)])
  have "quiet s1" by (rule quiet [OF s1(2)]) simp_all
  then obtain q' where q': "run_actions z (replicate 7 (Proceed t b)) (s1, h1) =
      Some (s1\<lparr>queue := q', threads := (threads s1)[t := Finished (Some (Sent True))]\<rparr>, h1\<lparr>sent := sent h1 @ [x]\<rparr>)"
    "tail q' = tail (queue s1)"
    using send_alone [OF inv1, of t x z b] s1 t run_cancelled [OF run] by auto
  let ?s' = "s1\<lparr>queue := q', threads := (threads s1)[t := Finished (Some (Sent True))]\<rparr>"
  have all: "run_actions z (?steps (k + 7)) (s, h) = Some (?s', h1\<lparr>sent := sent h1 @ [x]\<rparr>)"
    by (simp only: steps_add run_actions_append s1(1) q'(1) option.case)
  have "quiet s" using un idle_owns by (auto simp: quiet_def unlocked_def list_all_iff)
  moreover have "quiet ?s'" by (rule quiet [of _ "Finished (Some (Sent True))"]) (simp_all add: s1(2))
  ultimately have "contents q' = contents (queue s) @ [x]"
    using quiet_contents_after [OF inv _ all] s1(6,7) q'(2) inv_ring [OF inv] by (auto simp: ring_def)
  with s1(2) have "threads ?s' = (threads s)[t := Finished (Some (Sent True))] \<and>
      contents (queue ?s') = contents (queue s) @ [x]" by simp
  with all show ?thesis by blast
qed

lemma Recv_alone:
  assumes run: "run z s h" and un: "unlocked s" and t: "t < length (threads s)" "finished (threads s ! t)"
    and item: "contents (queue s) = y # ys"
  shows "\<exists>k s' h'. run_actions z (Start t CallRecv # replicate k (Proceed t b)) (s, h) = Some (s', h') \<and>
    threads s' = (threads s)[t := Finished (Some (Received (Some y)))] \<and> contents (queue s') = ys"
proof -
  let ?steps = "\<lambda>k. Start t CallRecv # replicate k (Proceed t b)"
  let ?s = "s\<lparr>threads := (threads s)[t := RecvLoad], cancelled := (cancelled s)[t := False]\<rparr>"
  note inv = run_inv [OF run]
  have al: "alone t s" using un by (simp add: alone_def unlocked_def list_all_length)
  have quiet: "quiet s'" if "threads s' = (threads s)[t := c]" "sends c = None" "recvs c = None" for s' c
    by (rule alone_quiet [OF al t(1) that(2,3,1)])
  have 1: "run_actions z (?steps 1) (s, h) = Some (?s, h)" by (rule start_alone(2) [OF run t])
  have size: "0 < Size (queue s)" using item by (intro ccontr [of "0 < Size (queue s)"]) (simp add: contents_def Size_def)
  have "quiet ?s" by (rule quiet [of _ RecvLoad]) simp_all
  then obtain q' where q': "run_actions z (replicate 6 (Proceed t b)) (?s, h) =
      Some (?s\<lparr>queue := q', threads := (threads ?s)[t := Finished (Some (Received (Some y)))]\<rparr>,
        h\<lparr>delivered := delivered h @ [(base h + tail (queue s), y)]\<rparr>)" "tail q' = tail (queue s) + 1"
    using recv_alone [OF run_actions_inv [OF inv 1], of t z b] t size item by auto
  let ?s' = "?s\<lparr>queue := q', threads := (threads ?s)[t := Finished (Some (Received (Some y)))]\<rparr>"
  have all: "run_actions z (?steps (1 + 6)) (s, h) =
      Some (?s', h\<lparr>delivered := delivered h @ [(base h + tail (queue s), y)]\<rparr>)"
    by (simp only: steps_add run_actions_append 1 q'(1) option.case)
  have "quiet s" using un idle_owns by (auto simp: quiet_def unlocked_def list_all_iff)
  moreover have "quiet ?s'" by (rule quiet [of _ "Finished (Some (Received (Some y)))"]) simp_all
  moreover have "nat (base h + (tail (queue s) + 1)) = Suc (nat (base h + tail (queue s)))"
    using inv_ring [OF inv] by (auto simp: ring_def)
  ultimately have "contents q' = tl (contents (queue s))"
    using quiet_contents_after [OF inv _ all] q'(2) by (simp add: drop_Suc tl_drop)
  with item have "threads ?s' = (threads s)[t := Finished (Some (Received (Some y)))] \<and> contents (queue ?s') = ys"
    by simp
  with all show ?thesis by blast
qed

lemma enqueue_claims:
  "thread_step z u e b c q = Some (c', q', Enqueued x) \<Longrightarrow> \<exists>p. c = SendClaim x p"
  by (cases c) (auto simp: Let_def extend_event_def split: if_splits option.splits branch.splits)

lemma enqueue_open:
  assumes inv: "queue_inv s h" and step: "system_step z a s = Some (s', Enqueued x)"
  shows "\<not> is_done (queue s)"
proof (cases a)
  case (Proceed t b)
  with step obtain c' q' where t: "t < length (threads s)"
    "thread_step z (unlocked s) (cancelled s ! t) b (threads s ! t) (queue s) = Some (c', q', Enqueued x)"
    by (auto split: if_splits)
  from enqueue_claims [OF t(2)] inv_thread [OF inv t(1)] show ?thesis by auto
qed (use step in \<open>auto split: if_splits\<close>)

section \<open>Properties\<close>

text \<open>A queue of capacity two on which two goroutines send at the same time, and a third one
  receives twice.\<close>

definition sample_queue :: "int \<Rightarrow> int Queue" where
  "sample_queue exts = (case NewQueue 0 2 exts of Inr q \<Rightarrow> q)"

definition sample_start :: "int \<Rightarrow> int system \<times> int history" where
  "sample_start exts = (initial (sample_queue exts) 3, \<lparr>sent = [], base = 0, delivered = []\<rparr>)"

definition go :: "nat \<Rightarrow> nat \<Rightarrow> 'a action list" where
  "go k t = replicate k (Proceed t OnSignal)"

definition race :: "int action list" where
  "race = [Start 0 (CallSend 10), Start 1 (CallSend 20)] @ go 5 0 @ go 5 1 @ go 1 0 @ go 1 1 @ go 3 0 @ go 9 1 @
     [Start 2 CallRecv] @ go 7 2"

definition missed :: "int action list" where
  "missed = [Start 0 CallRecv] @ go 4 0 @ [Start 1 CallRecv] @ go 4 1 @
     [Start 2 (CallSend 10)] @ go 9 2 @ [Start 2 (CallSend 20)] @ go 9 2 @ go 8 0"

lemma queue_sample_run: "run_actions 0 as (sample_start exts) = Some (s, h) \<Longrightarrow> run 0 s h"
  unfolding sample_start_def
  by (rule run_actions_run [OF run_start [of 0 2 exts "sample_queue exts" 3]])
    (simp_all add: sample_queue_def NewQueue_def isPowerOfTwo_def)

definition after :: "int action list \<Rightarrow> int \<Rightarrow> int system \<times> int history" where
  "after as exts = (case run_actions 0 as (sample_start exts) of Some sh \<Rightarrow> sh)"

lemma after_run: "run_actions 0 as (sample_start exts) \<noteq> None \<Longrightarrow> run 0 (fst (after as exts)) (snd (after as exts))"
  using queue_sample_run by (auto simp: after_def)

text \<open>C6: The bounded queue is first-in first-out under every interleaving of senders, receivers,
  extensions and cancellations: the receiver that claims the k-th position takes the item of the
  sender that claimed the k-th position, and no position is taken twice; the ring never holds
  more items than its capacity, no goroutine sends on or closes a closed channel, and nothing
  is enqueued once the queue is closed.\<close>

theorem run_first_in_first_out:
  assumes "run z s h"
  shows "distinct (map fst (delivered h)) \<and>
    (\<forall>(k, v) \<in> set (delivered h). 0 \<le> k \<and> nat k < length (sent h) \<and> v = sent h ! nat k) \<and>
    0 \<le> Size (queue s) \<and> Size (queue s) \<le> capacity (queue s) \<and> Panicked \<notin> set (threads s) \<and>
    (\<forall>a s' x. system_step z a s = Some (s', Enqueued x) \<longrightarrow> \<not> is_done (queue s))"
proof (intro conjI allI impI)
  note inv = run_inv [OF assms]
  have del: "deliveries (queue s) (threads s) h" and r: "ring (queue s) (sent h) (base h)"
    using inv by (simp_all add: queue_inv_def)
  from del show "distinct (map fst (delivered h))" by (simp add: deliveries_def)
  from del r show "\<forall>(k, v) \<in> set (delivered h). 0 \<le> k \<and> nat k < length (sent h) \<and> v = sent h ! nat k"
    by (fastforce simp: deliveries_def ring_def)
  from r show "0 \<le> Size (queue s)" "Size (queue s) \<le> capacity (queue s)" by (simp_all add: ring_def Size_def)
  from inv show "Panicked \<notin> set (threads s)" by (auto simp: queue_inv_def)
  show "\<not> is_done (queue s)" if "system_step z a s = Some (s', Enqueued x)" for a s' x
    using enqueue_open [OF inv that] .
qed

theorem run_first_in_first_out_witness:
  "\<exists>s h. run 0 s h \<and> delivered h = [(0, 10)] \<and> sent h = [10, 20 :: int] \<and> 10 = sent h ! nat 0 \<and>
    Panicked \<notin> set (threads s)"
proof -
  have "run_actions 0 race (sample_start 0) \<noteq> None" by code_simp
  from after_run [OF this] have run: "run 0 (fst (after race 0)) (snd (after race 0))" .
  have h: "delivered (snd (after race 0)) = [(0, 10)]" "sent (snd (after race 0)) = [10, 20]" by code_simp+
  from run h run_first_in_first_out [OF run] show ?thesis by fastforce
qed

text \<open>C7: Nothing is lost: whenever no goroutine is in the middle of an operation, the items
  delivered are, as a multiset, the first items sent, and the ring holds exactly the others, in
  the order in which they were sent.\<close>

theorem run_conserves_items:
  assumes "run z s h" "unlocked s"
  shows "\<exists>n. mset (map snd (delivered h)) = mset (take n (sent h)) \<and> contents (queue s) = drop n (sent h)"
proof -
  have "quiet s" using assms(2) idle_owns by (auto simp: quiet_def unlocked_def list_all_iff)
  with quiet_delivered quiet_contents run_inv [OF assms(1)] show ?thesis by blast
qed

theorem run_conserves_items_witness:
  "\<exists>s h n. run 0 s h \<and> unlocked s \<and> sent h = [10, 20 :: int] \<and>
    mset (map snd (delivered h)) = mset (take n (sent h)) \<and> contents (queue s) = drop n (sent h)"
proof -
  have "run_actions 0 race (sample_start 0) \<noteq> None" by code_simp
  from after_run [OF this] have run: "run 0 (fst (after race 0)) (snd (after race 0))" .
  have u: "unlocked (fst (after race 0))" "sent (snd (after race 0)) = [10, 20]" by code_simp+
  from run_conserves_items [OF run u(1)] run u show ?thesis by blast
qed

text \<open>C23: A goroutine that meets no other one finishes its operation: \<open>Send\<close> on an open queue with
  room, or with an extension left, appends its item and returns true; \<open>Recv\<close> on a queue that
  holds items, closed or not, removes and returns the oldest one.\<close>

theorem operations_complete:
  assumes "run z s h" "unlocked s" "t < length (threads s)" "finished (threads s ! t)"
  shows "(\<not> is_done (queue s) \<and> (Size (queue s) < capacity (queue s) \<or> extensions (queue s) < 0 \<or>
      extended (queue s) < extensions (queue s))
    \<longrightarrow> (\<exists>k s' h'. run_actions z (Start t (CallSend x) # replicate k (Proceed t b)) (s, h) = Some (s', h') \<and>
      threads s' = (threads s)[t := Finished (Some (Sent True))] \<and> contents (queue s') = contents (queue s) @ [x])) \<and>
    (\<forall>y ys. contents (queue s) = y # ys \<longrightarrow>
      (\<exists>k s' h'. run_actions z (Start t CallRecv # replicate k (Proceed t b)) (s, h) = Some (s', h') \<and>
      threads s' = (threads s)[t := Finished (Some (Received (Some y)))] \<and> contents (queue s') = ys))"
  using Send_alone [OF assms] Recv_alone [OF assms] by blast

theorem operations_complete_witness:
  "\<exists>s h. run 0 s h \<and> contents (queue s) = [20 :: int] \<and>
    (\<exists>k s' h'. run_actions 0 (Start 2 (CallSend 30) # replicate k (Proceed 2 OnSignal)) (s, h) = Some (s', h') \<and>
      contents (queue s') = [20, 30]) \<and>
    (\<exists>k s' h'. run_actions 0 (Start 2 CallRecv # replicate k (Proceed 2 OnSignal)) (s, h) = Some (s', h') \<and>
      threads s' = (threads s)[2 := Finished (Some (Received (Some 20)))] \<and> contents (queue s') = [])"
proof -
  let ?s = "fst (after race 0)" and ?h = "snd (after race 0)"
  have "run_actions 0 race (sample_start 0) \<noteq> None" by code_simp
  from after_run [OF this] have run: "run 0 ?s ?h" .
  have s: "unlocked ?s" "2 < length (threads ?s)" "finished (threads ?s ! 2)" "\<not> is_done (queue ?s)"
    "Size (queue ?s) < capacity (queue ?s)" "contents (queue ?s) = [20]" by code_simp+
  from operations_complete [OF run s(1,2,3), of 30 OnSignal] run s(4-6)
  show ?thesis by (intro exI [of _ ?s] exI [of _ ?h]) auto
qed

text \<open>C40: Signals to parked receivers coalesce: two receivers park on the empty queue, two items
  are sent, the signal of the second is dropped because the first is still pending, and after the
  first receiver has taken one item the second one stays parked although the queue is open and
  holds an item.\<close>

theorem receiver_stays_parked:
  "\<exists>s h. run (0 :: int) s h \<and> threads s = [Finished (Some (Received (Some 10))), RecvPark, Finished (Some (Sent True))] \<and>
    contents (queue s) = [20] \<and> \<not> is_done (queue s) \<and> system_step 0 (Proceed 1 OnSignal) s = None \<and>
    system_step 0 (Proceed 1 OnContext) s = None"
proof -
  let ?s = "fst (after missed 0)"
  have "run_actions 0 missed (sample_start 0) \<noteq> None" by code_simp
  from after_run [OF this] have run: "run 0 ?s (snd (after missed 0))" .
  have "threads ?s = [Finished (Some (Received (Some 10))), RecvPark, Finished (Some (Sent True))]"
    "contents (queue ?s) = [20]" "\<not> is_done (queue ?s)" "Option.is_none (system_step 0 (Proceed 1 OnSignal) ?s)"
    "Option.is_none (system_step 0 (Proceed 1 OnContext) ?s)" by code_simp+
  with run show ?thesis by (auto simp: Option.is_none_def)
qed

end
