(* ===== verification/Spec2Isabelle.thy ===== *)
theory Spec2Isabelle
  imports KeyEncoding Entrypoints Involves WriteCommand CheckCommand AdminCommands BatchCheck CacheFreshness MpmcQueueProps
begin

text \<open>
  A verification development for OpenFGA, the relationship-based authorization server under \<open>src\<close>.

  \<^bold>\<open>The program.\<close>  A store holds relationship tuples (object, relation, user, condition) and
  authorization models.  A model defines object types; each relation of a type has a rewrite (direct
  tuples, another relation of the object, a relation of objects reached through a tupleset, or a union,
  intersection or difference of rewrites) and type restrictions.  A write validates tuples against a
  model and changes the datastore in one transaction.  A check asks whether a user has a relation to an
  object; it evaluates the rewrite over the stored and the contextual tuples, filtered by validity and
  by their conditions.  Reads go through stacks of iterators and through caches with encoded keys.

  \<^bold>\<open>Theories, in the order of dependence.\<close>

  \<^item> \<open>Prelude\<close>: results as sums, first error of a list, first match, splitting lists at a separator.
  \<^item> \<open>GoStrings\<close>: what the code uses of the Go library: UTF-8 runes, decimal numbers,
    prefixes, 64-bit wrap-around, control characters.
  \<^item> \<open>Messages\<close>: the protobuf messages: tuple keys, conditions, relation references, usersets,
    models, JSON-like values.
  \<^item> \<open>Tuple\<close> (\<open>pkg/tuple/tuple.go\<close>): splitting, printing, parsing, ordering and validating
    object, relation and user strings.  Shapes of valid strings; parsing inverts printing exactly.
  \<^item> \<open>StorageTypes\<close>, \<open>Keys\<close>, \<open>KeyEncoding\<close> (\<open>pkg/storage\<close>, \<open>pkg/storage/cache/keys\<close>): filters,
    options and records; the byte encoding of cache keys.  Encodings are injective, so that two queries
    share a key only if they ask the same (up to collisions of the external 64-bit hash, a parameter);
    the domains of keys are disjoint; the hexadecimal printer agrees with its specification.
  \<^item> \<open>Memory\<close>, \<open>MemoryProps\<close> (\<open>pkg/storage/memory/memory.go\<close>): the in-memory datastore as a record
    and one function per operation.  A write implements the abstract transaction on a finite map from
    keys to conditions; in every reachable state the changelog replays to the tuples; pages and changes
    are read completely and once by following tokens; out-of-range tokens are characterised.
  \<^item> \<open>Iterators\<close>, \<open>OrderedIterators\<close> (\<open>pkg/storage/tuple_iterators.go\<close>, \<open>tuple_mappers.go\<close>): iterators
    as records of operations on a state, with the context's error as an argument and \<open>None\<close> for a call
    that never returns.  The locale \<open>iterator\<close> is the contract; each combinator is a sublocale that
    keeps it; the stack the server reads with and the ordered merge are computed exactly.
  \<^item> \<open>TypeSystem\<close>, \<open>TypeSystemProps\<close>, \<open>Entrypoints\<close>, \<open>Involves\<close> (\<open>pkg/typesystem/typesystem.go\<close>):
    construction, lookups and validation of models.  Validated models are closed and acyclic; the cycle
    check is exact; the entrypoint check and the searches for intersections and exclusions return and
    are sound, with counterexamples to their completeness.
  \<^item> \<open>Conditions\<close> (\<open>internal/condition\<close>): parameter types, conversion of values, compilation and
    evaluation; the CEL library, big-float parsing and time parsing are records of parameters.
  \<^item> \<open>Validation\<close> (\<open>internal/validation\<close>): the checks on a tuple, proved equivalent to a declarative
    condition on its subject, its relation and its condition.
  \<^item> \<open>WriteCommand\<close> (\<open>pkg/server/commands/write.go\<close>): the write command over the locale
    \<open>transactional_store\<close>, which the in-memory datastore satisfies: all or nothing.  Deletes are
    arbitrary: the command does not check their object and relation, and the contract says what they match.
  \<^item> \<open>TupleReaders\<close> (\<open>pkg/storage/storagewrappers/combinedtuplereader.go\<close>): the reader of contextual and
    stored tuples; the locale \<open>relationship_store\<close> is what queries rely on.
  \<^item> \<open>CheckResolver\<close> (\<open>internal/graph/check.go\<close>, \<open>default_resolver.go\<close>,
    \<open>internal/checkutil/checkutil.go\<close>): the recursive resolver.  It ends on every request: a dispatch
    goes one level deeper on the 32-bit depth counter, a computed relation leaves one relation fewer of
    the object unvisited.
  \<^item> \<open>CheckSoundness\<close>: the relations \<open>granted\<close> and \<open>denied\<close>, and soundness and completeness of the
    resolver for every store that satisfies \<open>relationship_store\<close>.
  \<^item> \<open>CheckCommand\<close> (\<open>pkg/server/commands/check_command.go\<close>): validation, readers and resolver put
    together on the in-memory datastore.  The theorems are about the default strategies: where the
    weighted graph offers others, the planner is assumed to select the default one.  They are also about
    requests whose contextual tuples repeat no key, neither of a stored tuple nor of one another.
  \<^item> \<open>BatchCheck\<close> (\<open>pkg/server/commands/batch_check_command.go\<close>): grouping of the checks of a batch by
    cache key, and the outcome every correlation identifier gets.
  \<^item> \<open>Tokens\<close> (\<open>pkg/encoder\<close>, \<open>pkg/encrypter\<close>): continuation tokens, base64 and sealing; the locales
    \<open>token_codec\<close> and \<open>cipher\<close> are the contracts of encoders and of the external cipher.
  \<^item> \<open>ReadCommands\<close>, \<open>AdminCommands\<close> (\<open>pkg/server/commands\<close>): read, read changes, and the commands on
    stores, models and assertions.  A client that follows tokens reads everything once; what a command
    accepted is served afterwards.
  \<^item> \<open>Cache\<close>, \<open>CachedReads\<close> (\<open>pkg/storage/cache.go\<close>, \<open>pkg/storage/storagewrappers/cached_datastore.go\<close>,
    \<open>cached_iterators.go\<close>): cache entries, the cache over an external store whose documented behaviour is
    \<open>keeps_entries\<close>, lookups with invalidation, the iterator that buffers a read and stores its result.
    The locale \<open>cacheable_read\<close> is what it asks of the iterator below; decoding inverts encoding.
  \<^item> \<open>CacheController\<close> (\<open>internal/cachecontroller/cache_controller.go\<close>): a pass over the changelog and the
    invalidation entries it writes.
  \<^item> \<open>CachingSystem\<close>, \<open>CacheFreshness\<close>: datastore, cached reads and controller as one transition system, in
    which a lookup with its call of the datastore, the return of this call, a call of the iterator, its
    background work and both ends of a pass are separate events at increasing instants; each event calls
    operations of the two theories before.  The staleness of a hit is bounded.  Two more theorems say when
    an entry escapes an invalidation: because it is dated at the return of the datastore, and because
    jitter lets it outlive the marker.
  \<^item> \<open>MpmcQueue\<close>, \<open>MpmcQueueProps\<close> (\<open>internal/containers/mpmc/queue.go\<close>): the bounded queue as
    goroutines with program counters whose atomic steps interleave.  Every interleaving delivers in
    order, loses nothing and duplicates nothing; an undisturbed operation completes.

  \<^bold>\<open>Conventions.\<close>  Strings are lists of bytes.  Errors are values of a sum or option type; a panic is
  an error constructor.  Machine integers are words, or integers with the wrap-around written out.  Go
  maps whose iteration order shows are association lists.  Locks are not modelled: every operation of a
  datastore or iterator is one step.  Handlers that the code runs concurrently are evaluated to their
  outcomes, and the order in which the outcomes arrive is a parameter, restricted in theorems only to be
  a permutation.  Contexts are live, except in the iterators, where the context's error is an argument.

  \<^bold>\<open>Bounds and fuel.\<close>  Loops that may not end are partial functions whose result \<open>None\<close> means that the
  call does not return; where a theorem says that such a call returns, this is proved.  Two searches
  through a model, \<open>hasEntrypoints\<close> and \<open>relationInvolves\<close>, take a bound on their depth, which the code
  has not; their callers pass two more than the number of relations of the model, and it is proved that
  the searches never reach it, because every level marks another relation as visited.  The clients that
  follow continuation tokens, \<open>page_all\<close> and \<open>follow_all\<close>, take a bound on the number of calls; the
  theorems say that one above the number of tuples or changes is enough.  The counters of the queue are
  unbounded integers where the code has 64 bits.

  \<^bold>\<open>Not modelled.\<close>  The SQL datastores (queries for external engines), the weight-two and recursive
  strategies of the resolver and the second check engine, expand, list objects, list users, the planner,
  authentication, middleware, telemetry, configuration and the command line.  The weighted graph and the
  path search are those of the language library: parameters of the resolver.
\<close>

end
